(* ===== verification/Prelude.thy ===== *)
theory Prelude
  imports Main "HOL-Library.Word"
begin

text \<open>
  Shared vocabulary of the development: the machine types of the Rust sources, the three-way
  outcome of a Rust call (a value, an error value, a panic), checked and saturating arithmetic
  as the standard library defines it, and little-endian byte strings with their round trips.

  Conventions, used by every theory.
  \<^item> \<open>u8\<close>, \<open>u16\<close>, \<open>u32\<close>, \<open>u64\<close> are words. \<open>i32\<close> and \<open>i64\<close> are the same words read with
    \<open>sint\<close>; \<open>f32\<close> and \<open>f64\<close> are the IEEE 754 bit patterns, since the sources only move, compare
    with zero and classify them.
  \<^item> \<open>usize\<close> is \<open>nat\<close>: the sources are modelled on a 64-bit target, where a slice has at most
    \<open>2 ^ 63 - 1\<close> bytes, so the index arithmetic on slice positions does not wrap.
  \<^item> A fallible function returns a \<open>result\<close>; \<open>Panic\<close> stands for every panic of the source: an
    index out of range, a division by zero, a failed \<open>unwrap\<close>, and arithmetic overflow of the
    plain operators (the overflow-checked build profile).
\<close>

unbundle bit_operations_syntax

section \<open>Machine types\<close>

type_synonym u8 = "8 word"
type_synonym u16 = "16 word"
type_synonym u32 = "32 word"
type_synonym u64 = "64 word"
type_synonym i32 = "32 word"
type_synonym i64 = "64 word"
type_synonym f32 = "32 word"
type_synonym f64 = "64 word"
type_synonym usize = nat
type_synonym bytes = "8 word list"

section \<open>Results\<close>

datatype ('e, 'a) result = Ok 'a | Err 'e | Panic

text \<open>\<open>r_bind\<close> is the \<open>?\<close> operator: an error or a panic of the first call ends the caller.\<close>

fun r_bind :: "('e, 'a) result \<Rightarrow> ('a \<Rightarrow> ('e, 'b) result) \<Rightarrow> ('e, 'b) result" where
  "r_bind (Ok x) f = f x"
| "r_bind (Err e) f = Err e"
| "r_bind Panic f = Panic"

definition ok_or :: "'a option \<Rightarrow> 'e \<Rightarrow> ('e, 'a) result" where
  "ok_or x e = (case x of None \<Rightarrow> Err e | Some v \<Rightarrow> Ok v)"

definition map_err :: "('e \<Rightarrow> 'f) \<Rightarrow> ('e, 'a) result \<Rightarrow> ('f, 'a) result" where
  "map_err f r = (case r of Ok x \<Rightarrow> Ok x | Err e \<Rightarrow> Err (f e) | Panic \<Rightarrow> Panic)"

definition is_ok :: "('e, 'a) result \<Rightarrow> bool" where
  "is_ok r = (case r of Ok _ \<Rightarrow> True | Err _ \<Rightarrow> False | Panic \<Rightarrow> False)"

text \<open>\<open>xs[i]\<close> on a slice or a \<open>Vec\<close>.\<close>

definition index_at :: "'a list \<Rightarrow> nat \<Rightarrow> ('e, 'a) result" where
  "index_at xs i = (if i < length xs then Ok (xs ! i) else Panic)"

lemma r_bind_cong [fundef_cong]:
  "r = r' \<Longrightarrow> (\<And>x. r' = Ok x \<Longrightarrow> f x = g x) \<Longrightarrow> r_bind r f = r_bind r' g"
  by (cases r') auto

lemma r_bind_Ok_iff: "r_bind r f = Ok y \<longleftrightarrow> (\<exists>x. r = Ok x \<and> f x = Ok y)"
  by (cases r) auto

lemma r_bind_Panic_iff: "r_bind r f = Panic \<longleftrightarrow> r = Panic \<or> (\<exists>x. r = Ok x \<and> f x = Panic)"
  by (cases r) auto

lemma r_bind_assoc: "r_bind (r_bind r f) g = r_bind r (\<lambda>x. r_bind (f x) g)"
  by (cases r) auto

lemma r_bind_Ok_right [simp]: "r_bind r Ok = r"
  by (cases r) auto

lemma ok_or_simps [simp]:
  "ok_or None e = Err e" "ok_or (Some v) e = Ok v"
  by (simp_all add: ok_or_def)

lemma ok_or_Ok_iff: "ok_or x e = Ok v \<longleftrightarrow> x = Some v"
  by (cases x) auto

lemma ok_or_not_Panic [simp]: "ok_or x e \<noteq> Panic"
  by (cases x) auto

lemma map_err_simps [simp]:
  "map_err f (Ok x) = Ok x" "map_err f (Err e) = Err (f e)" "map_err f Panic = Panic"
  by (simp_all add: map_err_def)

lemma is_ok_iff: "is_ok r \<longleftrightarrow> (\<exists>x. r = Ok x)"
  by (cases r) (auto simp: is_ok_def)

lemma index_at_Ok [simp]: "i < length xs \<Longrightarrow> index_at xs i = Ok (xs ! i)"
  by (simp add: index_at_def)

lemma index_at_Panic [simp]: "length xs \<le> i \<Longrightarrow> index_at xs i = Panic"
  by (simp add: index_at_def)

section \<open>Integer operations of the Rust standard library\<close>

definition checked_add :: "'a::len word \<Rightarrow> 'a word \<Rightarrow> 'a word option" where
  "checked_add x y = (if unat x + unat y < 2 ^ LENGTH('a) then Some (x + y) else None)"

definition checked_mul :: "'a::len word \<Rightarrow> 'a word \<Rightarrow> 'a word option" where
  "checked_mul x y = (if unat x * unat y < 2 ^ LENGTH('a) then Some (x * y) else None)"

definition checked_sub :: "'a::len word \<Rightarrow> 'a word \<Rightarrow> 'a word option" where
  "checked_sub x y = (if unat y \<le> unat x then Some (x - y) else None)"

definition saturating_add :: "'a::len word \<Rightarrow> 'a word \<Rightarrow> 'a word" where
  "saturating_add x y = (if unat x + unat y < 2 ^ LENGTH('a) then x + y else - 1)"

definition saturating_mul :: "'a::len word \<Rightarrow> 'a word \<Rightarrow> 'a word" where
  "saturating_mul x y = (if unat x * unat y < 2 ^ LENGTH('a) then x * y else - 1)"

text \<open>The plain operators: overflow and a zero divisor panic.\<close>

definition plain_add :: "'a::len word \<Rightarrow> 'a word \<Rightarrow> ('e, 'a word) result" where
  "plain_add x y = (case checked_add x y of None \<Rightarrow> Panic | Some z \<Rightarrow> Ok z)"

definition plain_mul :: "'a::len word \<Rightarrow> 'a word \<Rightarrow> ('e, 'a word) result" where
  "plain_mul x y = (case checked_mul x y of None \<Rightarrow> Panic | Some z \<Rightarrow> Ok z)"

definition plain_div :: "'a::len word \<Rightarrow> 'a word \<Rightarrow> ('e, 'a word) result" where
  "plain_div x y = (if y = 0 then Panic else Ok (x div y))"

definition plain_mod :: "'a::len word \<Rightarrow> 'a word \<Rightarrow> ('e, 'a word) result" where
  "plain_mod x y = (if y = 0 then Panic else Ok (x mod y))"

definition div_ceil :: "'a::len word \<Rightarrow> 'a word \<Rightarrow> ('e, 'a word) result" where
  "div_ceil x y =
     (if y = 0 then Panic else Ok (if x mod y = 0 then x div y else x div y + 1))"

text \<open>\<open>x << n\<close>: shifting by the width or more panics.\<close>

definition checked_shl :: "'a::len word \<Rightarrow> u32 \<Rightarrow> 'a word option" where
  "checked_shl x n = (if unat n < LENGTH('a) then Some (push_bit (unat n) x) else None)"

definition plain_shl :: "'a::len word \<Rightarrow> u32 \<Rightarrow> ('e, 'a word) result" where
  "plain_shl x n = (case checked_shl x n of None \<Rightarrow> Panic | Some z \<Rightarrow> Ok z)"

text \<open>Signed 64-bit arithmetic: an \<open>i64\<close> is a word read with \<open>sint\<close>.\<close>

definition in_i64 :: "int \<Rightarrow> bool" where
  "in_i64 z \<longleftrightarrow> - (2 ^ 63) \<le> z \<and> z < 2 ^ 63"

definition checked_add_i64 :: "i64 \<Rightarrow> i64 \<Rightarrow> i64 option" where
  "checked_add_i64 x y =
     (let z = sint x + sint y in if in_i64 z then Some (word_of_int z) else None)"

definition checked_mul_i64 :: "i64 \<Rightarrow> i64 \<Rightarrow> i64 option" where
  "checked_mul_i64 x y =
     (let z = sint x * sint y in if in_i64 z then Some (word_of_int z) else None)"

text \<open>\<open>div_euclid\<close> by a positive divisor rounds down, as \<open>div\<close> on \<open>int\<close> does.\<close>

definition div_euclid_i64 :: "i64 \<Rightarrow> i64 \<Rightarrow> ('e, i64) result" where
  "div_euclid_i64 x y =
     (if y = 0 then Panic
      else if sint y > 0 then Ok (word_of_int (sint x div sint y))
      else if x = word_of_int (- (2 ^ 63)) \<and> sint y = - 1 then Panic
      else Ok (word_of_int (- (sint x div (- sint y)))))"

fun pow2_nat :: "nat \<Rightarrow> bool" where
  "pow2_nat n = (if n \<le> 1 then n = 1 else even n \<and> pow2_nat (n div 2))"

declare pow2_nat.simps [simp del]

definition is_power_of_two :: "'a::len word \<Rightarrow> bool" where
  "is_power_of_two w = pow2_nat (unat w)"

lemma pow2_nat_iff: "pow2_nat n \<longleftrightarrow> (\<exists>k. n = 2 ^ k)"
proof (induction n rule: pow2_nat.induct)
  case (1 n)
  show ?case
  proof (cases "n \<le> 1")
    case True
    then have "(\<exists>k. n = 2 ^ k) \<longleftrightarrow> n = 1"
      by (metis le_0_eq le_Suc_eq One_nat_def power_0 power_not_zero zero_neq_numeral)
    with True show ?thesis by (simp add: pow2_nat.simps [of n])
  next
    case False
    have "(\<exists>k. n = 2 ^ k) \<longleftrightarrow> even n \<and> (\<exists>k. n div 2 = 2 ^ k)"
    proof
      assume "\<exists>k. n = 2 ^ k"
      then obtain k where k: "n = 2 ^ k" ..
      with False obtain j where "k = Suc j" by (cases k) auto
      with k show "even n \<and> (\<exists>k. n div 2 = 2 ^ k)" by auto
    next
      assume "even n \<and> (\<exists>k. n div 2 = 2 ^ k)"
      then obtain k where "even n" "n div 2 = 2 ^ k" by blast
      then have "n = 2 ^ Suc k" by auto
      then show "\<exists>k. n = 2 ^ k" by blast
    qed
    with False 1 show ?thesis by (simp add: pow2_nat.simps [of n])
  qed
qed

lemma is_power_of_two_iff: "is_power_of_two w \<longleftrightarrow> (\<exists>k. unat w = 2 ^ k)"
  by (simp add: is_power_of_two_def pow2_nat_iff)

lemma is_power_of_two_nonzero: "is_power_of_two w \<Longrightarrow> w \<noteq> 0"
  by (auto simp: is_power_of_two_iff)

lemma checked_add_Some:
  fixes x y :: "'a::len word"
  shows "checked_add x y = Some z \<longleftrightarrow> unat z = unat x + unat y"
proof (cases "unat x + unat y < 2 ^ LENGTH('a)")
  case True
  then show ?thesis by (auto simp: checked_add_def word_unat_eq_iff unat_word_ariths)
next
  case False
  then have "unat z \<noteq> unat x + unat y" by (metis unsigned_less)
  with False show ?thesis by (simp add: checked_add_def)
qed

lemma checked_mul_Some:
  fixes x y :: "'a::len word"
  shows "checked_mul x y = Some z \<longleftrightarrow> unat z = unat x * unat y"
proof (cases "unat x * unat y < 2 ^ LENGTH('a)")
  case True
  then show ?thesis by (auto simp: checked_mul_def word_unat_eq_iff unat_word_ariths)
next
  case False
  then have "unat z \<noteq> unat x * unat y" by (metis unsigned_less)
  with False show ?thesis by (simp add: checked_mul_def)
qed

lemma checked_add_None:
  "checked_add (x :: 'a::len word) y = None \<longleftrightarrow> 2 ^ LENGTH('a) \<le> unat x + unat y"
  by (auto simp: checked_add_def)

lemma checked_mul_None:
  "checked_mul (x :: 'a::len word) y = None \<longleftrightarrow> 2 ^ LENGTH('a) \<le> unat x * unat y"
  by (auto simp: checked_mul_def)

lemma unat_saturating_add:
  "unat (saturating_add x y) = min (unat x + unat y) (2 ^ LENGTH('a) - 1)"
  for x y :: "'a::len word"
proof (cases "unat x + unat y < 2 ^ LENGTH('a)")
  case True
  then show ?thesis by (simp add: saturating_add_def unat_word_ariths)
next
  case False
  then show ?thesis by (simp add: saturating_add_def unsigned_minus_1_eq_mask mask_eq_exp_minus_1)
qed

lemma sint_in_i64: "in_i64 (sint (x :: i64))"
  using sint_ge [of x] sint_lt [of x] by (simp add: in_i64_def)

lemma sint_word_of_int_i64 [simp]: "in_i64 z \<Longrightarrow> sint (word_of_int z :: i64) = z"
  by (simp add: in_i64_def sint_sbintrunc' signed_take_bit_int_eq_self)

lemma checked_add_i64_Some: "checked_add_i64 x y = Some z \<longleftrightarrow> sint z = sint x + sint y"
proof (cases "in_i64 (sint x + sint y)")
  case True
  then have "sint (word_of_int (sint x + sint y) :: i64) = sint x + sint y"
    by (rule sint_word_of_int_i64)
  then have "(word_of_int (sint x + sint y) = z) = (sint x + sint y = sint z)"
    by (simp only: word_eq_iff_signed [where ?'a = int])
  with True show ?thesis
    by (auto simp only: checked_add_i64_def Let_def if_True option.inject)
next
  case False
  then have "sint z \<noteq> sint x + sint y" by (metis sint_in_i64)
  with False show ?thesis by (simp add: checked_add_i64_def)
qed

lemma checked_mul_i64_Some: "checked_mul_i64 x y = Some z \<longleftrightarrow> sint z = sint x * sint y"
proof (cases "in_i64 (sint x * sint y)")
  case True
  then have "sint (word_of_int (sint x * sint y) :: i64) = sint x * sint y"
    by (rule sint_word_of_int_i64)
  then have "(word_of_int (sint x * sint y) = z) = (sint x * sint y = sint z)"
    by (simp only: word_eq_iff_signed [where ?'a = int])
  with True show ?thesis
    by (auto simp only: checked_mul_i64_def Let_def if_True option.inject)
next
  case False
  then have "sint z \<noteq> sint x * sint y" by (metis sint_in_i64)
  with False show ?thesis by (simp add: checked_mul_i64_def)
qed

lemma nat_div_ceil_eq:
  fixes a b :: nat
  assumes "0 < b"
  shows "(a + b - 1) div b = (if a mod b = 0 then a div b else a div b + 1)"
proof -
  obtain q r where a: "a = r + q * b" and r: "r < b"
    using assms by (metis add.commute div_mult_mod_eq mod_less_divisor)
  show ?thesis
  proof (cases "r = 0")
    case True
    then have "a + b - 1 = (b - 1) + q * b" using a assms by simp
    then have "(a + b - 1) div b = (b - 1) div b + q"
      using assms by (metis add.commute div_mult_self1 gr_implies_not0)
    then have "(a + b - 1) div b = q" using assms by simp
    with True a assms show ?thesis by simp
  next
    case False
    then have "a + b - 1 = (r - 1) + (q + 1) * b" using a by simp
    then have "(a + b - 1) div b = (r - 1) div b + (q + 1)"
      using assms by (metis add.commute div_mult_self1 gr_implies_not0)
    moreover have "(r - 1) div b = 0" using r by simp
    ultimately show ?thesis using a r False assms by simp
  qed
qed

lemma unat_div_ceil:
  fixes x y :: "'a::len word"
  assumes "div_ceil x y = Ok z"
  shows "unat z = (unat x + unat y - 1) div unat y"
proof -
  have y: "0 < unat y" using assms by (auto simp: div_ceil_def unat_gt_0 split: if_splits)
  have m: "x mod y = 0 \<longleftrightarrow> unat x mod unat y = 0"
    by (metis unat_eq_zero unat_mod)
  show ?thesis
  proof (cases "x mod y = 0")
    case True
    with assms have "z = x div y" by (auto simp: div_ceil_def split: if_splits)
    with True m y show ?thesis by (simp only: nat_div_ceil_eq unat_div) simp
  next
    case False
    with assms have z: "z = x div y + 1" by (auto simp: div_ceil_def split: if_splits)
    from False m have r: "unat x mod unat y \<noteq> 0" by simp
    then have "unat y \<noteq> 1" and "0 < unat x" by (auto intro: Nat.gr0I)
    then have "unat x div unat y < unat x" using y by (intro div_less_dividend) auto
    then have "unat x div unat y + 1 < 2 ^ LENGTH('a)"
      using unsigned_less [of x, where 'a = nat] by linarith
    then have "unat z = unat x div unat y + 1"
      by (simp add: z unat_word_ariths unat_div)
    with r y show ?thesis by (simp only: nat_div_ceil_eq) simp
  qed
qed

lemma div_ceil_eq:
  fixes x y :: "'a::len word"
  assumes "y \<noteq> 0"
  shows "(div_ceil x y :: ('e, 'a word) result) =
    Ok (word_of_nat ((unat x + unat y - 1) div unat y))"
proof -
  obtain z where z: "(div_ceil x y :: ('e, 'a word) result) = Ok z" using assms by (auto simp: div_ceil_def)
  have "z = word_of_nat (unat z)" by simp
  then have "z = word_of_nat ((unat x + unat y - 1) div unat y)"
    by (simp only: unat_div_ceil [OF z])
  with z show ?thesis by simp
qed

lemma unat_ucast_u32_u64: "unat (ucast (x :: u32) :: u64) = unat x"
proof -
  have "unat x < 2 ^ 32" using unsigned_less [of x, where 'a = nat] by simp
  then have "unat x < 2 ^ 64" by simp
  then show ?thesis by (simp add: unsigned_ucast_eq take_bit_nat_eq_self)
qed

lemma unat_ucast_u8_u64: "unat (ucast (x :: u8) :: u64) = unat x"
proof -
  have "unat x < 2 ^ 8" using unsigned_less [of x, where 'a = nat] by simp
  then have "unat x < 2 ^ 64" by simp
  then show ?thesis by (simp add: unsigned_ucast_eq take_bit_nat_eq_self)
qed

lemma div_ceil_covers:
  assumes "div_ceil a b = (Ok q :: ('e, 'a::len word) result)"
  shows "unat a \<le> unat q * unat b"
proof -
  have b: "b \<noteq> 0" using assms by (auto simp: div_ceil_def split: if_splits)
  then have p: "0 < unat b" by (simp add: unat_gt_0)
  have v: "unat q = (unat a + unat b - 1) div unat b" using unat_div_ceil [OF assms] .
  have "unat a + unat b - 1 < unat q * unat b + unat b"
    unfolding v using p by (metis div_mult_mod_eq mod_less_divisor nat_add_left_cancel_less)
  with p show ?thesis by linarith
qed

lemma plain_mul_eq:
  "plain_mul (x :: 'a::len word) y =
    (if unat x * unat y < 2 ^ LENGTH('a) then Ok (word_of_nat (unat x * unat y)) else Panic)"
  by (simp add: plain_mul_def checked_mul_def)

section \<open>Little-endian byte strings\<close>

text \<open>\<open>le_bytes k n\<close> is the \<open>k\<close>-byte little-endian form of \<open>n mod 256 ^ k\<close>; the words'
  \<open>to_le_bytes\<close> and \<open>from_le_bytes\<close> are instances.\<close>

fun le_bytes :: "nat \<Rightarrow> nat \<Rightarrow> bytes" where
  "le_bytes 0 n = []"
| "le_bytes (Suc k) n = word_of_nat n # le_bytes k (n div 256)"

fun le_value :: "bytes \<Rightarrow> nat" where
  "le_value [] = 0"
| "le_value (b # bs) = unat b + 256 * le_value bs"

definition to_le_bytes :: "'a::len word \<Rightarrow> bytes" where
  "to_le_bytes w = le_bytes (LENGTH('a) div 8) (unat w)"

definition from_le_bytes :: "bytes \<Rightarrow> 'a::len word" where
  "from_le_bytes bs = word_of_nat (le_value bs)"

lemma le_bytes_numeral [simp]:
  "le_bytes (numeral k) n = word_of_nat n # le_bytes (pred_numeral k) (n div 256)"
  by (simp only: numeral_eq_Suc le_bytes.simps)

lemma length_le_bytes [simp]: "length (le_bytes k n) = k"
  by (induction k arbitrary: n) auto

lemma le_value_le_bytes: "le_value (le_bytes k n) = n mod 256 ^ k"
proof (induction k arbitrary: n)
  case 0
  then show ?case by simp
next
  case (Suc k)
  have "unat (word_of_nat n :: u8) = n mod 256" by (simp add: unat_of_nat)
  with Suc show ?case by (simp add: mod_mult2_eq)
qed

lemma le_value_less: "le_value bs < 256 ^ length bs"
proof (induction bs)
  case Nil
  then show ?case by simp
next
  case (Cons b bs)
  have "unat b < 256" using unsigned_less [of b, where 'a = nat] by simp
  with Cons show ?case by simp
qed

lemma le_bytes_le_value: "length bs = k \<Longrightarrow> le_bytes k (le_value bs) = bs"
proof (induction bs arbitrary: k)
  case Nil
  then show ?case by simp
next
  case (Cons b bs)
  have "unat b < 256" using unsigned_less [of b, where 'a = nat] by simp
  then have "(unat b + 256 * le_value bs) mod 256 = unat b" by simp
  then have "(word_of_nat (unat b + 256 * le_value bs) :: u8) = b"
    by (simp only: word_unat_eq_iff unat_of_nat) simp
  moreover from \<open>unat b < 256\<close> have "(unat b + 256 * le_value bs) div 256 = le_value bs" by simp
  ultimately show ?case using Cons by (cases k) auto
qed

lemma length_to_le_bytes [simp]: "length (to_le_bytes (w :: 'a::len word)) = LENGTH('a) div 8"
  by (simp add: to_le_bytes_def)

lemma from_to_le_bytes:
  assumes "8 dvd LENGTH('a)"
  shows "from_le_bytes (to_le_bytes w) = (w :: 'a::len word)"
proof -
  have "(256 :: nat) ^ (LENGTH('a) div 8) = (2 ^ 8) ^ (LENGTH('a) div 8)" by simp
  also have "\<dots> = 2 ^ (8 * (LENGTH('a) div 8))" by (rule power_mult [symmetric])
  also have "\<dots> = 2 ^ LENGTH('a)" using assms by simp
  finally have "unat w mod 256 ^ (LENGTH('a) div 8) = unat w"
    using unsigned_less [of w, where 'a = nat] by simp
  then show ?thesis by (simp add: from_le_bytes_def to_le_bytes_def le_value_le_bytes)
qed

lemma to_from_le_bytes:
  assumes "8 * length bs = LENGTH('a)"
  shows "to_le_bytes (from_le_bytes bs :: 'a::len word) = bs"
proof -
  have "(256 :: nat) ^ length bs = (2 ^ 8) ^ length bs" by simp
  also have "\<dots> = 2 ^ (8 * length bs)" by (rule power_mult [symmetric])
  finally have "(256 :: nat) ^ length bs = 2 ^ LENGTH('a)" by (simp only: assms)
  then have "unat (word_of_nat (le_value bs) :: 'a word) = le_value bs"
    using le_value_less [of bs] by (simp add: unat_of_nat)
  moreover have "LENGTH('a) div 8 = length bs" using assms by simp
  ultimately show ?thesis by (simp add: from_le_bytes_def to_le_bytes_def le_bytes_le_value)
qed

lemma from_to_le_bytes_words [simp]:
  "from_le_bytes (to_le_bytes (v8 :: u8)) = v8"
  "from_le_bytes (to_le_bytes (v16 :: u16)) = v16"
  "from_le_bytes (to_le_bytes (v32 :: u32)) = v32"
  "from_le_bytes (to_le_bytes (v64 :: u64)) = v64"
  by (simp_all add: from_to_le_bytes)

lemma to_le_bytes_inject [simp]:
  "to_le_bytes (v :: u32) = to_le_bytes v' \<longleftrightarrow> v = v'"
  "to_le_bytes (w :: u64) = to_le_bytes w' \<longleftrightarrow> w = w'"
  by (metis from_to_le_bytes_words)+

section \<open>Lists and bits\<close>

definition all_zero :: "bytes \<Rightarrow> bool" where
  "all_zero bs = list_all (\<lambda>b. b = 0) bs"

lemma all_zero_replicate [simp]: "all_zero (replicate n 0)"
  by (simp add: all_zero_def list_all_iff)

lemma all_zero_eq_replicate: "all_zero bs \<longleftrightarrow> bs = replicate (length bs) 0"
  by (induction bs) (auto simp: all_zero_def)

definition u8_of_bool :: "bool \<Rightarrow> u8" where
  "u8_of_bool b = (if b then 1 else 0)"

lemma u8_of_bool_zero_iff [simp]: "u8_of_bool b = 0 \<longleftrightarrow> \<not> b"
  by (simp add: u8_of_bool_def)

lemma length_concat_const: "(\<And>x. length (f x) = k) \<Longrightarrow> length (concat (map f xs)) = k * length xs"
  by (induction xs) auto

end
