(* ===== verification/Errors.thy ===== *)
theory Errors
  imports Prelude
begin

text \<open>
  The error enum of \<open>hurray-core/src/error.rs\<close>, with the source's variants and their payloads in
  the order of declaration. The enum is flat in the source; here its variants are declared in five
  consecutive groups, one datatype each, and every variant is used through an abbreviation with
  the source's name. A \<open>String\<close> payload built by \<open>format!\<close> is represented by a short label of
  the site that builds it, so that two sites with different messages stay distinct; a
  \<open>&'static str\<close> payload is kept literally.
\<close>

text \<open>Errors of shapes, buffers and device placement.\<close>

datatype (plugins only: code size) buffer_error =
    UnsupportedElementTypeE string
  | InvalidShapeE string
  | AlignmentErrorE usize usize
  | AlignmentNotPowerOfTwoE u32
  | AlignmentBelowMinimumE u32 u32
  | InvalidDeviceTagE u8
  | ReservedDeviceTagE u8
  | DeviceTagMismatchE u8 u8
  | EmptyBufferListE
  | InvalidMemoryClassE u8
  | ReservedMemoryClassE u8
  | MemoryClassMismatchE u8 u8

text \<open>Errors of quantization descriptors.\<close>

datatype (plugins only: code size) quantization_error =
    InvalidQuantizationE string
  | QuantizationDescriptorTooShortE usize usize
  | InvalidQuantizationSchemeTagE u8
  | ReservedQuantizationSchemeTagE u8
  | PrivateQuantizationSchemeTagE u8
  | UnknownQuantizationSchemeTagE u8
  | UnsupportedSchemeVersionE u8 u8 u8
  | ReservedQuantizationFlagsBitsE u16 u16
  | InvalidBlockSizeE u8 u32 u32 u32
  | InvalidStorageTypeForSchemeE u8 u8
  | QuantizationAxisOutOfBoundsE u32 u32
  | QuantizationShapeMismatchE u32 u64 u32 string
  | ZeroPointOutOfRangeE u8 i32 int int
  | QuantizationBufferAliasesDataE u32
  | QuantizationBufferIndexOutOfRangeE u32 u32

text \<open>Errors of type tags, layouts and addressing.\<close>

datatype (plugins only: code size) layout_error =
    InvalidTypeTagE u8
  | ReservedTypeTagE u8
  | UnknownTypeTagE u8
  | RankExceedsMaximumE u32 u32
  | InvalidLayoutTagE u8
  | ReservedLayoutTagE u8
  | NamedLayoutTagE u8
  | PrivateLayoutTagE u8
  | UnknownLayoutTagE u8
  | InvalidLayoutE string
  | IndexRankMismatchE usize usize
  | IndexOutOfRangeE u32 u64 u64
  | AddressOverflowE
  | ByteAddressOverflowE u64
  | LayoutRequiresMultiBufferE u8
  | SubpavingNestingTooDeepE
  | DynamicDimInIndexingE u32
  | IndexArithmeticOverflowE

text \<open>Errors of the binary descriptor.\<close>

datatype (plugins only: code size) descriptor_error =
    InvalidSyncModeE u8
  | InvalidMagicE bytes
  | UnsupportedDescriptorVersionE u8 u8
  | DescriptorTooShortE u32
  | DescriptorTruncatedE usize usize usize
  | ReservedDescriptorFlagBitsSetE u32 u32
  | ReservedBytesNonZeroE string
  | EmptyBufferTableE
  | ExtensionTypeFlagMismatchE bool u8 string
  | ExtensionTypePackingInvalidE u32 u8
  | ExtensionTypeFieldInvalidE string
  | ShardOutOfBoundsE usize u64 u64 u64
  | StatisticsReservedMaskBitsSetE u32
  | DescriptorLengthMismatchE u32 usize

text \<open>Errors of composite tensors.\<close>

datatype (plugins only: code size) composite_error =
    CompositeHeadHasBuffersE u8
  | CompositeHeadHasByteOffsetE u64
  | CompositeHeadHasQuantizationE
  | InvalidCompositionRuleE u8
  | ReservedCompositionRuleE u8
  | PrivateCompositionRuleE u8
  | InvalidCombineOpE u8 u8
  | OpenCompositeReservedE
  | InvalidMemberRoleE u8
  | CompositeMemberFlagMismatchE u8 bool
  | CompositeMemberCountMismatchE u32 usize
  | CompositeMemberMissingShardE usize
  | CompositeMemberParentShapeMismatchE usize
  | CompositeMemberTypeMismatchE usize u8 u8
  | CompositeOverlayBaseNotFirstE
  | CompositeOverlayBaseNotSpanningE
  | CompositeOverlayEmptyE
  | CompositePartitionGapE
  | CompositePartitionOverlapE usize usize
  | LayoutIsVirtualE u8

text \<open>The enum itself.\<close>

datatype (plugins only: code size) error =
    BufferError buffer_error
  | QuantizationError quantization_error
  | LayoutError layout_error
  | DescriptorError descriptor_error
  | CompositeError composite_error

abbreviation UnsupportedElementType :: "string \<Rightarrow> error" where
  "UnsupportedElementType x1 \<equiv> BufferError (UnsupportedElementTypeE x1)"

abbreviation InvalidShape :: "string \<Rightarrow> error" where
  "InvalidShape x1 \<equiv> BufferError (InvalidShapeE x1)"

abbreviation AlignmentError :: "usize \<Rightarrow> usize \<Rightarrow> error" where
  "AlignmentError x1 x2 \<equiv> BufferError (AlignmentErrorE x1 x2)"

abbreviation AlignmentNotPowerOfTwo :: "u32 \<Rightarrow> error" where
  "AlignmentNotPowerOfTwo x1 \<equiv> BufferError (AlignmentNotPowerOfTwoE x1)"

abbreviation AlignmentBelowMinimum :: "u32 \<Rightarrow> u32 \<Rightarrow> error" where
  "AlignmentBelowMinimum x1 x2 \<equiv> BufferError (AlignmentBelowMinimumE x1 x2)"

abbreviation InvalidDeviceTag :: "u8 \<Rightarrow> error" where
  "InvalidDeviceTag x1 \<equiv> BufferError (InvalidDeviceTagE x1)"

abbreviation ReservedDeviceTag :: "u8 \<Rightarrow> error" where
  "ReservedDeviceTag x1 \<equiv> BufferError (ReservedDeviceTagE x1)"

abbreviation DeviceTagMismatch :: "u8 \<Rightarrow> u8 \<Rightarrow> error" where
  "DeviceTagMismatch x1 x2 \<equiv> BufferError (DeviceTagMismatchE x1 x2)"

abbreviation EmptyBufferList :: error where
  "EmptyBufferList \<equiv> BufferError EmptyBufferListE"

abbreviation InvalidMemoryClass :: "u8 \<Rightarrow> error" where
  "InvalidMemoryClass x1 \<equiv> BufferError (InvalidMemoryClassE x1)"

abbreviation ReservedMemoryClass :: "u8 \<Rightarrow> error" where
  "ReservedMemoryClass x1 \<equiv> BufferError (ReservedMemoryClassE x1)"

abbreviation MemoryClassMismatch :: "u8 \<Rightarrow> u8 \<Rightarrow> error" where
  "MemoryClassMismatch x1 x2 \<equiv> BufferError (MemoryClassMismatchE x1 x2)"

abbreviation InvalidQuantization :: "string \<Rightarrow> error" where
  "InvalidQuantization x1 \<equiv> QuantizationError (InvalidQuantizationE x1)"

abbreviation QuantizationDescriptorTooShort :: "usize \<Rightarrow> usize \<Rightarrow> error" where
  "QuantizationDescriptorTooShort x1 x2 \<equiv> QuantizationError (QuantizationDescriptorTooShortE x1 x2)"

abbreviation InvalidQuantizationSchemeTag :: "u8 \<Rightarrow> error" where
  "InvalidQuantizationSchemeTag x1 \<equiv> QuantizationError (InvalidQuantizationSchemeTagE x1)"

abbreviation ReservedQuantizationSchemeTag :: "u8 \<Rightarrow> error" where
  "ReservedQuantizationSchemeTag x1 \<equiv> QuantizationError (ReservedQuantizationSchemeTagE x1)"

abbreviation PrivateQuantizationSchemeTag :: "u8 \<Rightarrow> error" where
  "PrivateQuantizationSchemeTag x1 \<equiv> QuantizationError (PrivateQuantizationSchemeTagE x1)"

abbreviation UnknownQuantizationSchemeTag :: "u8 \<Rightarrow> error" where
  "UnknownQuantizationSchemeTag x1 \<equiv> QuantizationError (UnknownQuantizationSchemeTagE x1)"

abbreviation UnsupportedSchemeVersion :: "u8 \<Rightarrow> u8 \<Rightarrow> u8 \<Rightarrow> error" where
  "UnsupportedSchemeVersion x1 x2 x3 \<equiv> QuantizationError (UnsupportedSchemeVersionE x1 x2 x3)"

abbreviation ReservedQuantizationFlagsBits :: "u16 \<Rightarrow> u16 \<Rightarrow> error" where
  "ReservedQuantizationFlagsBits x1 x2 \<equiv> QuantizationError (ReservedQuantizationFlagsBitsE x1 x2)"

abbreviation InvalidBlockSize :: "u8 \<Rightarrow> u32 \<Rightarrow> u32 \<Rightarrow> u32 \<Rightarrow> error" where
  "InvalidBlockSize x1 x2 x3 x4 \<equiv> QuantizationError (InvalidBlockSizeE x1 x2 x3 x4)"

abbreviation InvalidStorageTypeForScheme :: "u8 \<Rightarrow> u8 \<Rightarrow> error" where
  "InvalidStorageTypeForScheme x1 x2 \<equiv> QuantizationError (InvalidStorageTypeForSchemeE x1 x2)"

abbreviation QuantizationAxisOutOfBounds :: "u32 \<Rightarrow> u32 \<Rightarrow> error" where
  "QuantizationAxisOutOfBounds x1 x2 \<equiv> QuantizationError (QuantizationAxisOutOfBoundsE x1 x2)"

abbreviation QuantizationShapeMismatch :: "u32 \<Rightarrow> u64 \<Rightarrow> u32 \<Rightarrow> string \<Rightarrow> error" where
  "QuantizationShapeMismatch x1 x2 x3 x4 \<equiv> QuantizationError (QuantizationShapeMismatchE x1 x2 x3 x4)"

abbreviation ZeroPointOutOfRange :: "u8 \<Rightarrow> i32 \<Rightarrow> int \<Rightarrow> int \<Rightarrow> error" where
  "ZeroPointOutOfRange x1 x2 x3 x4 \<equiv> QuantizationError (ZeroPointOutOfRangeE x1 x2 x3 x4)"

abbreviation QuantizationBufferAliasesData :: "u32 \<Rightarrow> error" where
  "QuantizationBufferAliasesData x1 \<equiv> QuantizationError (QuantizationBufferAliasesDataE x1)"

abbreviation QuantizationBufferIndexOutOfRange :: "u32 \<Rightarrow> u32 \<Rightarrow> error" where
  "QuantizationBufferIndexOutOfRange x1 x2 \<equiv> QuantizationError (QuantizationBufferIndexOutOfRangeE x1 x2)"

abbreviation InvalidTypeTag :: "u8 \<Rightarrow> error" where
  "InvalidTypeTag x1 \<equiv> LayoutError (InvalidTypeTagE x1)"

abbreviation ReservedTypeTag :: "u8 \<Rightarrow> error" where
  "ReservedTypeTag x1 \<equiv> LayoutError (ReservedTypeTagE x1)"

abbreviation UnknownTypeTag :: "u8 \<Rightarrow> error" where
  "UnknownTypeTag x1 \<equiv> LayoutError (UnknownTypeTagE x1)"

abbreviation RankExceedsMaximum :: "u32 \<Rightarrow> u32 \<Rightarrow> error" where
  "RankExceedsMaximum x1 x2 \<equiv> LayoutError (RankExceedsMaximumE x1 x2)"

abbreviation InvalidLayoutTag :: "u8 \<Rightarrow> error" where
  "InvalidLayoutTag x1 \<equiv> LayoutError (InvalidLayoutTagE x1)"

abbreviation ReservedLayoutTag :: "u8 \<Rightarrow> error" where
  "ReservedLayoutTag x1 \<equiv> LayoutError (ReservedLayoutTagE x1)"

abbreviation NamedLayoutTag :: "u8 \<Rightarrow> error" where
  "NamedLayoutTag x1 \<equiv> LayoutError (NamedLayoutTagE x1)"

abbreviation PrivateLayoutTag :: "u8 \<Rightarrow> error" where
  "PrivateLayoutTag x1 \<equiv> LayoutError (PrivateLayoutTagE x1)"

abbreviation UnknownLayoutTag :: "u8 \<Rightarrow> error" where
  "UnknownLayoutTag x1 \<equiv> LayoutError (UnknownLayoutTagE x1)"

abbreviation InvalidLayout :: "string \<Rightarrow> error" where
  "InvalidLayout x1 \<equiv> LayoutError (InvalidLayoutE x1)"

abbreviation IndexRankMismatch :: "usize \<Rightarrow> usize \<Rightarrow> error" where
  "IndexRankMismatch x1 x2 \<equiv> LayoutError (IndexRankMismatchE x1 x2)"

abbreviation IndexOutOfRange :: "u32 \<Rightarrow> u64 \<Rightarrow> u64 \<Rightarrow> error" where
  "IndexOutOfRange x1 x2 x3 \<equiv> LayoutError (IndexOutOfRangeE x1 x2 x3)"

abbreviation AddressOverflow :: error where
  "AddressOverflow \<equiv> LayoutError AddressOverflowE"

abbreviation ByteAddressOverflow :: "u64 \<Rightarrow> error" where
  "ByteAddressOverflow x1 \<equiv> LayoutError (ByteAddressOverflowE x1)"

abbreviation LayoutRequiresMultiBuffer :: "u8 \<Rightarrow> error" where
  "LayoutRequiresMultiBuffer x1 \<equiv> LayoutError (LayoutRequiresMultiBufferE x1)"

abbreviation SubpavingNestingTooDeep :: error where
  "SubpavingNestingTooDeep \<equiv> LayoutError SubpavingNestingTooDeepE"

abbreviation DynamicDimInIndexing :: "u32 \<Rightarrow> error" where
  "DynamicDimInIndexing x1 \<equiv> LayoutError (DynamicDimInIndexingE x1)"

abbreviation IndexArithmeticOverflow :: error where
  "IndexArithmeticOverflow \<equiv> LayoutError IndexArithmeticOverflowE"

abbreviation InvalidSyncMode :: "u8 \<Rightarrow> error" where
  "InvalidSyncMode x1 \<equiv> DescriptorError (InvalidSyncModeE x1)"

abbreviation InvalidMagic :: "bytes \<Rightarrow> error" where
  "InvalidMagic x1 \<equiv> DescriptorError (InvalidMagicE x1)"

abbreviation UnsupportedDescriptorVersion :: "u8 \<Rightarrow> u8 \<Rightarrow> error" where
  "UnsupportedDescriptorVersion x1 x2 \<equiv> DescriptorError (UnsupportedDescriptorVersionE x1 x2)"

abbreviation DescriptorTooShort :: "u32 \<Rightarrow> error" where
  "DescriptorTooShort x1 \<equiv> DescriptorError (DescriptorTooShortE x1)"

abbreviation DescriptorTruncated :: "usize \<Rightarrow> usize \<Rightarrow> usize \<Rightarrow> error" where
  "DescriptorTruncated x1 x2 x3 \<equiv> DescriptorError (DescriptorTruncatedE x1 x2 x3)"

abbreviation ReservedDescriptorFlagBitsSet :: "u32 \<Rightarrow> u32 \<Rightarrow> error" where
  "ReservedDescriptorFlagBitsSet x1 x2 \<equiv> DescriptorError (ReservedDescriptorFlagBitsSetE x1 x2)"

abbreviation ReservedBytesNonZero :: "string \<Rightarrow> error" where
  "ReservedBytesNonZero x1 \<equiv> DescriptorError (ReservedBytesNonZeroE x1)"

abbreviation EmptyBufferTable :: error where
  "EmptyBufferTable \<equiv> DescriptorError EmptyBufferTableE"

abbreviation ExtensionTypeFlagMismatch :: "bool \<Rightarrow> u8 \<Rightarrow> string \<Rightarrow> error" where
  "ExtensionTypeFlagMismatch x1 x2 x3 \<equiv> DescriptorError (ExtensionTypeFlagMismatchE x1 x2 x3)"

abbreviation ExtensionTypePackingInvalid :: "u32 \<Rightarrow> u8 \<Rightarrow> error" where
  "ExtensionTypePackingInvalid x1 x2 \<equiv> DescriptorError (ExtensionTypePackingInvalidE x1 x2)"

abbreviation ExtensionTypeFieldInvalid :: "string \<Rightarrow> error" where
  "ExtensionTypeFieldInvalid x1 \<equiv> DescriptorError (ExtensionTypeFieldInvalidE x1)"

abbreviation ShardOutOfBounds :: "usize \<Rightarrow> u64 \<Rightarrow> u64 \<Rightarrow> u64 \<Rightarrow> error" where
  "ShardOutOfBounds x1 x2 x3 x4 \<equiv> DescriptorError (ShardOutOfBoundsE x1 x2 x3 x4)"

abbreviation StatisticsReservedMaskBitsSet :: "u32 \<Rightarrow> error" where
  "StatisticsReservedMaskBitsSet x1 \<equiv> DescriptorError (StatisticsReservedMaskBitsSetE x1)"

abbreviation DescriptorLengthMismatch :: "u32 \<Rightarrow> usize \<Rightarrow> error" where
  "DescriptorLengthMismatch x1 x2 \<equiv> DescriptorError (DescriptorLengthMismatchE x1 x2)"

abbreviation CompositeHeadHasBuffers :: "u8 \<Rightarrow> error" where
  "CompositeHeadHasBuffers x1 \<equiv> CompositeError (CompositeHeadHasBuffersE x1)"

abbreviation CompositeHeadHasByteOffset :: "u64 \<Rightarrow> error" where
  "CompositeHeadHasByteOffset x1 \<equiv> CompositeError (CompositeHeadHasByteOffsetE x1)"

abbreviation CompositeHeadHasQuantization :: error where
  "CompositeHeadHasQuantization \<equiv> CompositeError CompositeHeadHasQuantizationE"

abbreviation InvalidCompositionRule :: "u8 \<Rightarrow> error" where
  "InvalidCompositionRule x1 \<equiv> CompositeError (InvalidCompositionRuleE x1)"

abbreviation ReservedCompositionRule :: "u8 \<Rightarrow> error" where
  "ReservedCompositionRule x1 \<equiv> CompositeError (ReservedCompositionRuleE x1)"

abbreviation PrivateCompositionRule :: "u8 \<Rightarrow> error" where
  "PrivateCompositionRule x1 \<equiv> CompositeError (PrivateCompositionRuleE x1)"

abbreviation InvalidCombineOp :: "u8 \<Rightarrow> u8 \<Rightarrow> error" where
  "InvalidCombineOp x1 x2 \<equiv> CompositeError (InvalidCombineOpE x1 x2)"

abbreviation OpenCompositeReserved :: error where
  "OpenCompositeReserved \<equiv> CompositeError OpenCompositeReservedE"

abbreviation InvalidMemberRole :: "u8 \<Rightarrow> error" where
  "InvalidMemberRole x1 \<equiv> CompositeError (InvalidMemberRoleE x1)"

abbreviation CompositeMemberFlagMismatch :: "u8 \<Rightarrow> bool \<Rightarrow> error" where
  "CompositeMemberFlagMismatch x1 x2 \<equiv> CompositeError (CompositeMemberFlagMismatchE x1 x2)"

abbreviation CompositeMemberCountMismatch :: "u32 \<Rightarrow> usize \<Rightarrow> error" where
  "CompositeMemberCountMismatch x1 x2 \<equiv> CompositeError (CompositeMemberCountMismatchE x1 x2)"

abbreviation CompositeMemberMissingShard :: "usize \<Rightarrow> error" where
  "CompositeMemberMissingShard x1 \<equiv> CompositeError (CompositeMemberMissingShardE x1)"

abbreviation CompositeMemberParentShapeMismatch :: "usize \<Rightarrow> error" where
  "CompositeMemberParentShapeMismatch x1 \<equiv> CompositeError (CompositeMemberParentShapeMismatchE x1)"

abbreviation CompositeMemberTypeMismatch :: "usize \<Rightarrow> u8 \<Rightarrow> u8 \<Rightarrow> error" where
  "CompositeMemberTypeMismatch x1 x2 x3 \<equiv> CompositeError (CompositeMemberTypeMismatchE x1 x2 x3)"

abbreviation CompositeOverlayBaseNotFirst :: error where
  "CompositeOverlayBaseNotFirst \<equiv> CompositeError CompositeOverlayBaseNotFirstE"

abbreviation CompositeOverlayBaseNotSpanning :: error where
  "CompositeOverlayBaseNotSpanning \<equiv> CompositeError CompositeOverlayBaseNotSpanningE"

abbreviation CompositeOverlayEmpty :: error where
  "CompositeOverlayEmpty \<equiv> CompositeError CompositeOverlayEmptyE"

abbreviation CompositePartitionGap :: error where
  "CompositePartitionGap \<equiv> CompositeError CompositePartitionGapE"

abbreviation CompositePartitionOverlap :: "usize \<Rightarrow> usize \<Rightarrow> error" where
  "CompositePartitionOverlap x1 x2 \<equiv> CompositeError (CompositePartitionOverlapE x1 x2)"

abbreviation LayoutIsVirtual :: "u8 \<Rightarrow> error" where
  "LayoutIsVirtual x1 \<equiv> CompositeError (LayoutIsVirtualE x1)"

text \<open>The crate's \<open>Result\<close> alias.\<close>

type_synonym 'a core_result = "(error, 'a) result"

end
