(* ===== verification/Cursor.thy ===== *)
theory Cursor
  imports Errors
begin

text \<open>
  The bounded byte cursor and the byte writer of \<open>hurray-core/src/descriptor/cursor.rs\<close>, and the
  two contracts every decoder of the development is proved against: what it returns on the bytes
  its encoder wrote (\<open>reads_as\<close>), and what holds of whatever it returns on arbitrary bytes
  (\<open>dec_post\<close>: it never panics, stays within the limit, and its result satisfies a predicate of the
  value and the number of bytes consumed). The locale \<open>wire_codec\<close> packages the two for an
  encoder/decoder pair and derives what clients use: injectivity, prefix freedom, re-decoding.
\<close>

section \<open>ByteCursor\<close>

record byte_cursor =
  cur_data :: bytes
  cur_pos :: usize
  cur_limit :: usize

definition cursor_new :: "bytes \<Rightarrow> usize \<Rightarrow> byte_cursor" where
  "cursor_new data limit = \<lparr>cur_data = data, cur_pos = 0, cur_limit = min limit (length data)\<rparr>"

definition remaining :: "byte_cursor \<Rightarrow> usize" where
  "remaining c = cur_limit c - cur_pos c"

text \<open>A reader is a method on \<open>&mut ByteCursor\<close> returning \<open>Result\<close>; a failed call leaves no cursor
  (every caller propagates the error with \<open>?\<close>).\<close>

type_synonym 'a reader = "byte_cursor \<Rightarrow> ('a \<times> byte_cursor) core_result"

definition read_bytes :: "usize \<Rightarrow> bytes reader" where
  "read_bytes n c =
     (if cur_pos c + n > cur_limit c
      then Err (DescriptorTruncated (cur_pos c) n (remaining c))
      else if cur_pos c + n > length (cur_data c) then Panic
      else Ok (take n (drop (cur_pos c) (cur_data c)), c\<lparr>cur_pos := cur_pos c + n\<rparr>))"

text \<open>Sequencing of readers: \<open>let x = p(cursor)?; \<dots>\<close>, a value, and a call that does not read.\<close>

definition rd_bind :: "'a reader \<Rightarrow> ('a \<Rightarrow> 'b reader) \<Rightarrow> 'b reader" where
  "rd_bind p f c = r_bind (p c) (\<lambda>(x, c'). f x c')"

definition rd_ret :: "'a \<Rightarrow> 'a reader" where
  "rd_ret x c = Ok (x, c)"

definition rd_lift :: "'a core_result \<Rightarrow> 'a reader" where
  "rd_lift r c = r_bind r (\<lambda>x. Ok (x, c))"

definition read_u8 :: "u8 reader" where
  "read_u8 = rd_bind (read_bytes 1) (\<lambda>b. rd_lift (index_at b 0))"

definition read_u32_le :: "u32 reader" where
  "read_u32_le = rd_bind (read_bytes 4) (\<lambda>b. rd_ret (from_le_bytes b))"

definition read_u64_le :: "u64 reader" where
  "read_u64_le = rd_bind (read_bytes 8) (\<lambda>b. rd_ret (from_le_bytes b))"

definition read_i64_le :: "i64 reader" where
  "read_i64_le = rd_bind (read_bytes 8) (\<lambda>b. rd_ret (from_le_bytes b))"

definition read_f64_le :: "f64 reader" where
  "read_f64_le = rd_bind (read_bytes 8) (\<lambda>b. rd_ret (from_le_bytes b))"

text \<open>\<open>for _ in 0..n { v.push(p(cursor)?) }\<close>\<close>

fun read_many :: "nat \<Rightarrow> 'a reader \<Rightarrow> 'a list reader" where
  "read_many 0 p = rd_ret []"
| "read_many (Suc n) p = rd_bind p (\<lambda>x. rd_bind (read_many n p) (\<lambda>xs. rd_ret (x # xs)))"

section \<open>ByteWriter\<close>

record byte_writer =
  w_buf :: bytes

definition writer_new :: byte_writer where
  "writer_new = \<lparr>w_buf = []\<rparr>"

definition write_bytes :: "bytes \<Rightarrow> byte_writer \<Rightarrow> byte_writer" where
  "write_bytes b w = w\<lparr>w_buf := w_buf w @ b\<rparr>"

definition write_u8 :: "u8 \<Rightarrow> byte_writer \<Rightarrow> byte_writer" where
  "write_u8 v w = w\<lparr>w_buf := w_buf w @ [v]\<rparr>"

definition write_u32_le :: "u32 \<Rightarrow> byte_writer \<Rightarrow> byte_writer" where
  "write_u32_le v w = w\<lparr>w_buf := w_buf w @ to_le_bytes v\<rparr>"

definition write_u64_le :: "u64 \<Rightarrow> byte_writer \<Rightarrow> byte_writer" where
  "write_u64_le v w = w\<lparr>w_buf := w_buf w @ to_le_bytes v\<rparr>"

definition write_i64_le :: "i64 \<Rightarrow> byte_writer \<Rightarrow> byte_writer" where
  "write_i64_le v w = w\<lparr>w_buf := w_buf w @ to_le_bytes v\<rparr>"

definition write_f64_le :: "f64 \<Rightarrow> byte_writer \<Rightarrow> byte_writer" where
  "write_f64_le v w = w\<lparr>w_buf := w_buf w @ to_le_bytes v\<rparr>"

definition write_zeros :: "usize \<Rightarrow> byte_writer \<Rightarrow> byte_writer" where
  "write_zeros n w = w\<lparr>w_buf := w_buf w @ replicate n 0\<rparr>"

text \<open>All writes append: \<open>emits f bs\<close> says that \<open>f\<close> appends exactly \<open>bs\<close>.\<close>

named_theorems writer_simps \<open>what the writer operations append\<close>

lemma write_appends [writer_simps]:
  "write_bytes b w = w\<lparr>w_buf := w_buf w @ b\<rparr>"
  "write_u8 v w = w\<lparr>w_buf := w_buf w @ [v]\<rparr>"
  "write_u32_le v32 w = w\<lparr>w_buf := w_buf w @ to_le_bytes v32\<rparr>"
  "write_u64_le v64 w = w\<lparr>w_buf := w_buf w @ to_le_bytes v64\<rparr>"
  "write_i64_le v64 w = w\<lparr>w_buf := w_buf w @ to_le_bytes v64\<rparr>"
  "write_f64_le v64 w = w\<lparr>w_buf := w_buf w @ to_le_bytes v64\<rparr>"
  "write_zeros n w = w\<lparr>w_buf := w_buf w @ replicate n 0\<rparr>"
  by (simp_all add: write_bytes_def write_u8_def write_u32_le_def write_u64_le_def
      write_i64_le_def write_f64_le_def write_zeros_def)

lemma fold_write_appends [writer_simps]:
  assumes "\<And>x w. f x w = w\<lparr>w_buf := w_buf w @ g x\<rparr>"
  shows "fold f xs w = w\<lparr>w_buf := w_buf w @ concat (map g xs)\<rparr>"
  by (induction xs arbitrary: w) (simp_all add: assms)

lemmas fold_writes [writer_simps] =
  fold_write_appends [of write_u64_le to_le_bytes, OF write_appends(4)]
  fold_write_appends [of write_u32_le to_le_bytes, OF write_appends(3)]
  fold_write_appends [of write_i64_le to_le_bytes, OF write_appends(5)]

section \<open>What a reader returns on given bytes\<close>

text \<open>\<open>reads_as p bs x\<close>: wherever the bytes \<open>bs\<close> stand in the data, within the limit, the reader \<open>p\<close>
  started at them returns \<open>x\<close> and stops right after them.\<close>

definition reads_as :: "'a reader \<Rightarrow> bytes \<Rightarrow> 'a \<Rightarrow> bool" where
  "reads_as p bs x \<longleftrightarrow>
     (\<forall>pre post limit.
        length pre + length bs \<le> limit \<longrightarrow> limit \<le> length pre + length bs + length post \<longrightarrow>
        p \<lparr>cur_data = pre @ bs @ post, cur_pos = length pre, cur_limit = limit\<rparr> =
        Ok (x, \<lparr>cur_data = pre @ bs @ post, cur_pos = length pre + length bs, cur_limit = limit\<rparr>))"

named_theorems reads_intros \<open>introduction rules for reads_as\<close>

lemma reads_as_ret [reads_intros]: "reads_as (rd_ret x) [] x"
  by (simp add: reads_as_def rd_ret_def)

lemma reads_as_lift [reads_intros]: "r = Ok x \<Longrightarrow> reads_as (rd_lift r) [] x"
  by (simp add: reads_as_def rd_lift_def)

lemma reads_as_bytes [reads_intros]: "n = length bs \<Longrightarrow> reads_as (read_bytes n) bs bs"
  by (simp add: reads_as_def read_bytes_def)

lemma reads_as_bind:
  assumes "reads_as p bs x" and "reads_as (f x) cs y"
  shows "reads_as (rd_bind p f) (bs @ cs) y"
  unfolding reads_as_def
proof (intro allI impI)
  fix pre post :: bytes and limit :: nat
  assume l: "length pre + length (bs @ cs) \<le> limit"
    "limit \<le> length pre + length (bs @ cs) + length post"
  let ?c = "\<lambda>n. \<lparr>cur_data = pre @ (bs @ cs) @ post, cur_pos = n, cur_limit = limit\<rparr>"
  have "p (?c (length pre)) = Ok (x, ?c (length pre + length bs))"
    using assms(1) [unfolded reads_as_def, rule_format, of pre limit "cs @ post"] l by simp
  moreover have "f x (?c (length pre + length bs)) = Ok (y, ?c (length pre + length bs + length cs))"
    using assms(2) [unfolded reads_as_def, rule_format, of "pre @ bs" limit post] l by simp
  ultimately show "rd_bind p f (?c (length pre)) = Ok (y, ?c (length pre + length (bs @ cs)))"
    by (simp add: rd_bind_def add.assoc)
qed

lemma reads_as_bind_last [reads_intros]:
  "reads_as p bs x \<Longrightarrow> reads_as (f x) [] y \<Longrightarrow> reads_as (rd_bind p f) bs y"
  using reads_as_bind [of p bs x f "[]" y] by simp

lemma reads_as_u8 [reads_intros]: "reads_as read_u8 [v] v"
  unfolding read_u8_def
  by (rule reads_as_bind_last) (auto intro: reads_intros)

lemma reads_as_u32 [reads_intros]: "reads_as read_u32_le (to_le_bytes v) v"
  unfolding read_u32_le_def
  by (rule reads_as_bind_last [OF reads_as_bytes]) (simp_all add: reads_as_ret [of "v", simplified])

lemma reads_as_u64 [reads_intros]: "reads_as read_u64_le (to_le_bytes v) v"
  unfolding read_u64_le_def
  by (rule reads_as_bind_last [OF reads_as_bytes]) (simp_all add: reads_as_ret [of "v", simplified])

lemma reads_as_i64 [reads_intros]: "reads_as read_i64_le (to_le_bytes v) v"
  unfolding read_i64_le_def
  by (rule reads_as_bind_last [OF reads_as_bytes]) (simp_all add: reads_as_ret [of "v", simplified])

lemma reads_as_f64 [reads_intros]: "reads_as read_f64_le (to_le_bytes v) v"
  unfolding read_f64_le_def
  by (rule reads_as_bind_last [OF reads_as_bytes]) (simp_all add: reads_as_ret [of "v", simplified])

lemma reads_as_many:
  assumes "\<And>x. x \<in> set xs \<Longrightarrow> reads_as p (enc x) x" and "n = length xs"
  shows "reads_as (read_many n p) (concat (map enc xs)) xs"
  using assms
proof (induction xs arbitrary: n)
  case Nil
  then show ?case by (simp add: reads_as_ret)
next
  case (Cons x xs)
  have "reads_as (read_many (length xs) p) (concat (map enc xs)) xs"
    using Cons by simp
  then have "reads_as (rd_bind (read_many (length xs) p) (\<lambda>xs. rd_ret (x # xs))) (concat (map enc xs)) (x # xs)"
    by (rule reads_as_bind_last) (rule reads_as_ret)
  with Cons.prems show ?case
    by (auto intro: reads_as_bind)
qed

lemma reads_as_many_words [reads_intros]:
  "n = length xs \<Longrightarrow> reads_as (read_many n read_u64_le) (concat (map to_le_bytes xs)) xs"
  "n = length ys \<Longrightarrow> reads_as (read_many n read_u32_le) (concat (map to_le_bytes ys)) ys"
  "n = length zs \<Longrightarrow> reads_as (read_many n read_i64_le) (concat (map to_le_bytes zs)) zs"
  by (auto intro: reads_as_many reads_intros)

lemma reads_as_cursor_new:
  "reads_as p bs x \<Longrightarrow> length bs \<le> limit \<Longrightarrow> limit \<le> length (bs @ post) \<Longrightarrow>
   p (cursor_new (bs @ post) limit) =
     Ok (x, \<lparr>cur_data = bs @ post, cur_pos = length bs, cur_limit = limit\<rparr>)"
  unfolding reads_as_def
  by (drule spec [of _ "[]"], drule spec [of _ post], drule spec [of _ limit])
    (simp add: cursor_new_def min_absorb1)

section \<open>What holds of whatever a reader returns\<close>

definition cursor_ok :: "byte_cursor \<Rightarrow> bool" where
  "cursor_ok c \<longleftrightarrow> cur_pos c \<le> cur_limit c \<and> cur_limit c \<le> length (cur_data c)"

definition dec_post :: "'a reader \<Rightarrow> ('a \<Rightarrow> nat \<Rightarrow> bool) \<Rightarrow> bool" where
  "dec_post p Q \<longleftrightarrow>
     (\<forall>c. cursor_ok c \<longrightarrow> p c \<noteq> Panic \<and>
        (\<forall>x c'. p c = Ok (x, c') \<longrightarrow>
           (\<exists>n. c' = c\<lparr>cur_pos := cur_pos c + n\<rparr> \<and> cursor_ok c' \<and> Q x n)))"

lemma dec_postI:
  assumes "\<And>c. cursor_ok c \<Longrightarrow> p c \<noteq> Panic"
    and "\<And>c x c'. cursor_ok c \<Longrightarrow> p c = Ok (x, c') \<Longrightarrow>
      \<exists>n. c' = c\<lparr>cur_pos := cur_pos c + n\<rparr> \<and> cursor_ok c' \<and> Q x n"
  shows "dec_post p Q"
  using assms unfolding dec_post_def by blast

lemma dec_post_not_Panic: "dec_post p Q \<Longrightarrow> cursor_ok c \<Longrightarrow> p c \<noteq> Panic"
  unfolding dec_post_def by blast

lemma dec_post_Ok:
  assumes "dec_post p Q" and "cursor_ok c" and "p c = Ok (x, c')"
  obtains n where "c' = c\<lparr>cur_pos := cur_pos c + n\<rparr>" "cursor_ok c'" "Q x n"
  using assms unfolding dec_post_def by blast

named_theorems dec_intros \<open>introduction rules for dec_post\<close>

lemma cursor_ok_new [simp]: "cursor_ok (cursor_new data limit)"
  by (simp add: cursor_ok_def cursor_new_def)

lemma dec_post_mono: "dec_post p Q \<Longrightarrow> (\<And>x n. Q x n \<Longrightarrow> R x n) \<Longrightarrow> dec_post p R"
  unfolding dec_post_def by blast

lemma dec_post_ret: "Q x 0 \<Longrightarrow> dec_post (rd_ret x) Q"
  by (rule dec_postI) (auto simp: rd_ret_def intro: exI [of _ 0])

lemma dec_post_lift:
  "r \<noteq> Panic \<Longrightarrow> (\<And>x. r = Ok x \<Longrightarrow> Q x 0) \<Longrightarrow> dec_post (rd_lift r) Q"
  by (rule dec_postI) (auto simp: rd_lift_def r_bind_Ok_iff r_bind_Panic_iff intro: exI [of _ 0])

lemma dec_post_bytes: "(\<And>bs. length bs = n \<Longrightarrow> Q bs n) \<Longrightarrow> dec_post (read_bytes n) Q"
  by (auto simp: dec_post_def read_bytes_def cursor_ok_def)

lemma dec_post_bind:
  assumes p: "dec_post p Q" and f: "\<And>x n. Q x n \<Longrightarrow> dec_post (f x) (\<lambda>y m. R y (n + m))"
  shows "dec_post (rd_bind p f) R"
proof (rule dec_postI)
  fix c assume c: "cursor_ok c"
  show "rd_bind p f c \<noteq> Panic"
  proof
    assume "rd_bind p f c = Panic"
    then consider "p c = Panic" | x c' where "p c = Ok (x, c')" "f x c' = Panic"
      by (auto simp: rd_bind_def r_bind_Panic_iff)
    then show False
    proof cases
      case 1
      with dec_post_not_Panic [OF p c] show False by simp
    next
      case 2
      from p c 2(1) obtain n where "cursor_ok c'" "Q x n" by (rule dec_post_Ok)
      with dec_post_not_Panic [OF f] 2(2) show False by blast
    qed
  qed
next
  fix c y c'' assume c: "cursor_ok c" and "rd_bind p f c = Ok (y, c'')"
  then obtain x c' where x: "p c = Ok (x, c')" and y: "f x c' = Ok (y, c'')"
    by (auto simp: rd_bind_def r_bind_Ok_iff)
  from p c x obtain n where n: "c' = c\<lparr>cur_pos := cur_pos c + n\<rparr>" "cursor_ok c'" "Q x n"
    by (rule dec_post_Ok)
  from f [OF n(3)] n(2) y obtain m where "c'' = c'\<lparr>cur_pos := cur_pos c' + m\<rparr>" "cursor_ok c''"
    "R y (n + m)" by (rule dec_post_Ok)
  then show "\<exists>k. c'' = c\<lparr>cur_pos := cur_pos c + k\<rparr> \<and> cursor_ok c'' \<and> R y k"
    using n(1) by (intro exI [of _ "n + m"]) (simp add: add.assoc)
qed

lemma dec_post_u8: "(\<And>v. Q v 1) \<Longrightarrow> dec_post read_u8 Q"
  unfolding read_u8_def
  by (rule dec_post_bind [where Q = "\<lambda>b n. length b = 1 \<and> n = 1"])
    (auto intro: dec_post_bytes dec_post_lift)

lemma dec_post_u32: "(\<And>v. Q v 4) \<Longrightarrow> dec_post read_u32_le Q"
  unfolding read_u32_le_def
  by (rule dec_post_bind [where Q = "\<lambda>b n. length b = 4 \<and> n = 4"])
    (auto intro: dec_post_bytes dec_post_ret)

lemma dec_post_u64: "(\<And>v. Q v 8) \<Longrightarrow> dec_post read_u64_le Q"
  unfolding read_u64_le_def
  by (rule dec_post_bind [where Q = "\<lambda>b n. length b = 8 \<and> n = 8"])
    (auto intro: dec_post_bytes dec_post_ret)

lemma dec_post_i64: "(\<And>v. Q v 8) \<Longrightarrow> dec_post read_i64_le Q"
  unfolding read_i64_le_def
  by (rule dec_post_bind [where Q = "\<lambda>b n. length b = 8 \<and> n = 8"])
    (auto intro: dec_post_bytes dec_post_ret)

lemma dec_post_f64: "(\<And>v. Q v 8) \<Longrightarrow> dec_post read_f64_le Q"
  unfolding read_f64_le_def
  by (rule dec_post_bind [where Q = "\<lambda>b n. length b = 8 \<and> n = 8"])
    (auto intro: dec_post_bytes dec_post_ret)

lemma dec_post_many:
  assumes "dec_post p (\<lambda>x m. m = k)" and "\<And>xs. length xs = n \<Longrightarrow> Q xs (n * k)"
  shows "dec_post (read_many n p) Q"
  using assms(2)
proof (induction n arbitrary: Q)
  case 0
  then show ?case by (simp add: dec_post_ret)
next
  case (Suc n)
  have "dec_post (read_many n p) (\<lambda>xs m. length xs = n \<and> m = n * k)"
    by (rule Suc.IH) simp
  then have "dec_post (rd_bind (read_many n p) (\<lambda>xs. rd_ret (x # xs))) (\<lambda>xs m. length xs = Suc n \<and> m = n * k)" for x
    by (rule dec_post_bind) (auto intro: dec_post_ret)
  then have "dec_post (read_many (Suc n) p) (\<lambda>xs m. length xs = Suc n \<and> m = Suc n * k)"
    unfolding read_many.simps
    by (intro dec_post_bind [OF assms(1)]) (auto elim: dec_post_mono)
  then show ?case by (rule dec_post_mono) (use Suc.prems in simp)
qed

lemmas dec_post_leaf = dec_post_u8 dec_post_u32 dec_post_u64 dec_post_i64 dec_post_f64

lemma dec_post_many_words:
  "(\<And>xs. length xs = n \<Longrightarrow> Q xs (n * 8)) \<Longrightarrow> dec_post (read_many n read_u64_le) Q"
  "(\<And>xs. length xs = n \<Longrightarrow> R xs (n * 4)) \<Longrightarrow> dec_post (read_many n read_u32_le) R"
  "(\<And>xs. length xs = n \<Longrightarrow> S xs (n * 8)) \<Longrightarrow> dec_post (read_many n read_i64_le) S"
  by (auto intro: dec_post_many dec_post_leaf)

lemma dec_post_if:
  "(b \<Longrightarrow> dec_post p Q) \<Longrightarrow> (\<not> b \<Longrightarrow> dec_post q Q) \<Longrightarrow> dec_post (if b then p else q) Q"
  by simp

section \<open>One step of a reader\<close>

text \<open>Rules that take the first read off a decoder, for the two contracts. \<open>reads_steps\<close> follow the
  bytes the encoder wrote, \<open>dec_steps\<close> the number of bytes consumed.\<close>

named_theorems reads_steps \<open>one read of reads_as\<close>

lemmas reads_as_bind_words [reads_steps] =
  reads_as_bind [OF reads_as_u32] reads_as_bind [OF reads_as_u64] reads_as_bind [OF reads_as_i64]
  reads_as_bind [OF reads_as_f64] reads_as_bind_last [OF reads_as_u32]
  reads_as_bind_last [OF reads_as_u64] reads_as_bind_last [OF reads_as_i64]
  reads_as_bind_last [OF reads_as_f64] reads_as_bind_last [OF reads_as_u8]

lemma reads_as_bind_u8 [reads_steps]:
  "reads_as (f v) cs y \<Longrightarrow> reads_as (rd_bind read_u8 f) (v # cs) y"
  using reads_as_bind [OF reads_as_u8, of f v cs y] by simp

lemma reads_as_bind_many [reads_steps]:
  "n = length xs \<Longrightarrow> reads_as (f xs) cs y \<Longrightarrow>
   reads_as (rd_bind (read_many n read_u64_le) f) (concat (map to_le_bytes xs) @ cs) y"
  "n = length ws \<Longrightarrow> reads_as (g ws) cs y \<Longrightarrow>
   reads_as (rd_bind (read_many n read_u32_le) g) (concat (map to_le_bytes ws) @ cs) y"
  "n = length zs \<Longrightarrow> reads_as (h zs) cs y \<Longrightarrow>
   reads_as (rd_bind (read_many n read_i64_le) h) (concat (map to_le_bytes zs) @ cs) y"
  by (auto intro: reads_as_bind reads_as_many_words)

lemma reads_as_bind_many_last [reads_steps]:
  "n = length xs \<Longrightarrow> reads_as (f xs) [] y \<Longrightarrow>
   reads_as (rd_bind (read_many n read_u64_le) f) (concat (map to_le_bytes xs)) y"
  "n = length ws \<Longrightarrow> reads_as (g ws) [] y \<Longrightarrow>
   reads_as (rd_bind (read_many n read_u32_le) g) (concat (map to_le_bytes ws)) y"
  "n = length zs \<Longrightarrow> reads_as (h zs) [] y \<Longrightarrow>
   reads_as (rd_bind (read_many n read_i64_le) h) (concat (map to_le_bytes zs)) y"
  by (auto intro: reads_as_bind_last reads_as_many_words)

lemma reads_as_bind_bytes:
  "n = length bs \<Longrightarrow> reads_as (f bs) cs y \<Longrightarrow> reads_as (rd_bind (read_bytes n) f) (bs @ cs) y"
  by (rule reads_as_bind [OF reads_as_bytes])

lemma reads_as_bind_bytes_last:
  "n = length bs \<Longrightarrow> reads_as (f bs) [] y \<Longrightarrow> reads_as (rd_bind (read_bytes n) f) bs y"
  by (rule reads_as_bind_last [OF reads_as_bytes])

lemma reads_as_bind_ret [reads_steps]:
  "reads_as (f x) bs y \<Longrightarrow> reads_as (rd_bind (rd_ret x) f) bs y"
  by (simp add: reads_as_def rd_bind_def rd_ret_def)

lemma reads_as_bind_lift [reads_steps]:
  "r = Ok x \<Longrightarrow> reads_as (f x) bs y \<Longrightarrow> reads_as (rd_bind (rd_lift r) f) bs y"
  by (simp add: reads_as_def rd_bind_def rd_lift_def)

lemma reads_as_ret_eq: "x = y \<Longrightarrow> reads_as (rd_ret x) [] y"
  by (simp add: reads_as_ret)

lemma reads_as_if:
  "(b \<Longrightarrow> reads_as p bs x) \<Longrightarrow> (\<not> b \<Longrightarrow> reads_as q bs x) \<Longrightarrow> reads_as (if b then p else q) bs x"
  by simp

named_theorems dec_steps \<open>one read of dec_post\<close>

lemma dec_post_bind_words [dec_steps]:
  "(\<And>v. dec_post (f8 v) (\<lambda>y m. R y (1 + m))) \<Longrightarrow> dec_post (rd_bind read_u8 f8) R"
  "(\<And>v. dec_post (f32 v) (\<lambda>y m. R y (4 + m))) \<Longrightarrow> dec_post (rd_bind read_u32_le f32) R"
  "(\<And>v. dec_post (f64 v) (\<lambda>y m. R y (8 + m))) \<Longrightarrow> dec_post (rd_bind read_u64_le f64) R"
  "(\<And>v. dec_post (f64 v) (\<lambda>y m. R y (8 + m))) \<Longrightarrow> dec_post (rd_bind read_i64_le f64) R"
  "(\<And>v. dec_post (f64 v) (\<lambda>y m. R y (8 + m))) \<Longrightarrow> dec_post (rd_bind read_f64_le f64) R"
  by (rule dec_post_bind [OF dec_post_u8 [where Q = "\<lambda>v n. n = 1"]], simp_all)
    (rule dec_post_bind [OF dec_post_u32 [where Q = "\<lambda>v n. n = 4"]], simp_all,
     rule dec_post_bind [OF dec_post_u64 [where Q = "\<lambda>v n. n = 8"]], simp_all,
     rule dec_post_bind [OF dec_post_i64 [where Q = "\<lambda>v n. n = 8"]], simp_all,
     rule dec_post_bind [OF dec_post_f64 [where Q = "\<lambda>v n. n = 8"]], simp_all)

lemma dec_post_bind_many [dec_steps]:
  "(\<And>xs. length xs = n \<Longrightarrow> dec_post (f xs) (\<lambda>y m. R y (n * 8 + m))) \<Longrightarrow>
   dec_post (rd_bind (read_many n read_u64_le) f) R"
  "(\<And>ws. length ws = n \<Longrightarrow> dec_post (g ws) (\<lambda>y m. R y (n * 4 + m))) \<Longrightarrow>
   dec_post (rd_bind (read_many n read_u32_le) g) R"
  "(\<And>zs. length zs = n \<Longrightarrow> dec_post (h zs) (\<lambda>y m. R y (n * 8 + m))) \<Longrightarrow>
   dec_post (rd_bind (read_many n read_i64_le) h) R"
  by (rule dec_post_bind [OF dec_post_many_words(1) [where Q = "\<lambda>xs m. length xs = n \<and> m = n * 8"]],
      auto,
      rule dec_post_bind [OF dec_post_many_words(2) [where R = "\<lambda>xs m. length xs = n \<and> m = n * 4"]],
      auto,
      rule dec_post_bind [OF dec_post_many_words(3) [where S = "\<lambda>xs m. length xs = n \<and> m = n * 8"]],
      auto)

lemma dec_post_bind_bytes [dec_steps]:
  "(\<And>bs. length bs = n \<Longrightarrow> dec_post (f bs) (\<lambda>y m. R y (n + m))) \<Longrightarrow>
   dec_post (rd_bind (read_bytes n) f) R"
  by (rule dec_post_bind [OF dec_post_bytes [where Q = "\<lambda>bs m. length bs = n \<and> m = n"]]) auto

lemma dec_post_bind_ret [dec_steps]: "dec_post (f x) R \<Longrightarrow> dec_post (rd_bind (rd_ret x) f) R"
  by (simp add: dec_post_def rd_bind_def rd_ret_def)

lemma dec_post_bind_lift [dec_steps]:
  "r \<noteq> Panic \<Longrightarrow> (\<And>x. r = Ok x \<Longrightarrow> dec_post (f x) R) \<Longrightarrow> dec_post (rd_bind (rd_lift r) f) R"
  by (rule dec_post_bind [OF dec_post_lift [where Q = "\<lambda>x n. r = Ok x \<and> n = 0"]]) auto

lemma dec_post_Err [simp]: "dec_post (rd_lift (Err e)) R"
  by (rule dec_post_lift) simp_all

lemmas dec_post_last [dec_steps] = dec_post_ret dec_post_if dec_post_Err

section \<open>Codecs\<close>

text \<open>\<open>if flag { Some(p(cursor)?) } else { None }\<close>\<close>

definition read_if :: "bool \<Rightarrow> 'a reader \<Rightarrow> 'a option reader" where
  "read_if b p = (if b then rd_bind p (\<lambda>x. rd_ret (Some x)) else rd_ret None)"

lemma reads_as_read_if:
  "(\<And>y. x = Some y \<Longrightarrow> reads_as p (enc y) y) \<Longrightarrow> (x \<noteq> None \<longleftrightarrow> b) \<Longrightarrow>
   reads_as (read_if b p) (case x of None \<Rightarrow> [] | Some y \<Rightarrow> enc y) x"
  by (cases x) (auto simp: read_if_def intro: reads_as_ret reads_as_bind_last)

lemma dec_post_read_if:
  assumes "dec_post p (\<lambda>x n. Q x \<and> n = length (enc x))"
  shows "dec_post (read_if b p) (\<lambda>x n. (x \<noteq> None \<longleftrightarrow> b) \<and> (\<forall>y. x = Some y \<longrightarrow> Q y) \<and>
     n = length (case x of None \<Rightarrow> [] | Some y \<Rightarrow> enc y))"
  unfolding read_if_def
  by (intro dec_post_if dec_post_bind [OF assms] dec_post_ret) auto

locale wire_codec =
  fixes enc :: "'a \<Rightarrow> bytes" and dec :: "'a reader" and ok :: "'a \<Rightarrow> bool"
  assumes decodes: "ok x \<Longrightarrow> reads_as dec (enc x) x"
    and sound: "dec_post dec (\<lambda>x n. ok x \<and> n = length (enc x))"
begin

lemma decode_encoded:
  "ok x \<Longrightarrow> length (enc x) \<le> limit \<Longrightarrow> limit \<le> length (enc x @ rest) \<Longrightarrow>
   dec (cursor_new (enc x @ rest) limit) =
     Ok (x, \<lparr>cur_data = enc x @ rest, cur_pos = length (enc x), cur_limit = limit\<rparr>)"
  by (rule reads_as_cursor_new [OF decodes])

lemma prefix_free:
  assumes "ok x" and "ok y" and "enc x @ s = enc y @ t"
  shows "x = y \<and> s = t"
proof -
  let ?l = "length (enc x @ s)"
  have "dec (cursor_new (enc x @ s) ?l) =
      Ok (x, \<lparr>cur_data = enc x @ s, cur_pos = length (enc x), cur_limit = ?l\<rparr>)"
    using assms(1) by (intro decode_encoded) auto
  moreover have "dec (cursor_new (enc y @ t) ?l) =
      Ok (y, \<lparr>cur_data = enc y @ t, cur_pos = length (enc y), cur_limit = ?l\<rparr>)"
    using assms(2,3) by (intro decode_encoded) auto
  ultimately have "x = y" using assms(3) by simp
  with assms(3) show ?thesis by simp
qed

lemma never_panics: "cursor_ok c \<Longrightarrow> dec c \<noteq> Panic"
  using sound dec_post_not_Panic by blast

lemma accepts_only_ok: "cursor_ok c \<Longrightarrow> dec c = Ok (x, c') \<Longrightarrow> ok x"
  using sound unfolding dec_post_def by blast

text \<open>What was decoded can be encoded in the same space and decodes again to the same value.\<close>

lemma redecode:
  assumes "cursor_ok c" and "dec c = Ok (x, c')"
  shows "ok x \<and> cur_pos c' = cur_pos c + length (enc x) \<and> reads_as dec (enc x) x"
proof -
  from sound assms obtain n where "c' = c\<lparr>cur_pos := cur_pos c + n\<rparr>" "ok x \<and> n = length (enc x)"
    by (rule dec_post_Ok)
  then show ?thesis by (simp add: decodes)
qed

text \<open>A table of items and an optional item, as decoders of larger structures read them.\<close>

lemma many_decodes:
  "\<forall>x \<in> set xs. ok x \<Longrightarrow> n = length xs \<Longrightarrow> reads_as (read_many n dec) (concat (map enc xs)) xs"
  by (rule reads_as_many) (auto intro: decodes)

lemma many_sound:
  "dec_post (read_many n dec) (\<lambda>xs m. length xs = n \<and> (\<forall>x \<in> set xs. ok x) \<and> m = length (concat (map enc xs)))"
proof (induction n)
  case 0
  then show ?case by (simp add: dec_post_ret)
next
  case (Suc n)
  show ?case unfolding read_many.simps
    by (intro dec_post_bind [OF sound] dec_post_bind [OF Suc.IH] dec_post_ret) auto
qed

lemma optional_decodes:
  "(\<And>y. x = Some y \<Longrightarrow> ok y) \<Longrightarrow> (x \<noteq> None \<longleftrightarrow> b) \<Longrightarrow>
   reads_as (read_if b dec) (case x of None \<Rightarrow> [] | Some y \<Rightarrow> enc y) x"
  by (rule reads_as_read_if) (auto intro: decodes)

lemma optional_sound:
  "dec_post (read_if b dec) (\<lambda>x n. (x \<noteq> None \<longleftrightarrow> b) \<and> (\<forall>y. x = Some y \<longrightarrow> ok y) \<and>
     n = length (case x of None \<Rightarrow> [] | Some y \<Rightarrow> enc y))"
  by (rule dec_post_read_if [OF sound])

end

text \<open>The same with the encoder as the code has it, a fallible function on a \<open>ByteWriter\<close>.\<close>

locale wire_format = wire_codec enc dec ok
  for enc :: "'a \<Rightarrow> bytes" and dec :: "'a reader" and ok :: "'a \<Rightarrow> bool" +
  fixes wr :: "'a \<Rightarrow> byte_writer \<Rightarrow> byte_writer core_result"
  assumes writes: "ok x \<Longrightarrow> wr x w = Ok (w\<lparr>w_buf := w_buf w @ enc x\<rparr>)"
begin

lemma write_then_read:
  assumes "ok x" and "wr x \<lparr>w_buf = []\<rparr> = Ok w"
  shows "dec (cursor_new (w_buf w @ rest) (length (w_buf w @ rest))) =
    Ok (x, \<lparr>cur_data = w_buf w @ rest, cur_pos = length (w_buf w),
            cur_limit = length (w_buf w @ rest)\<rparr>)"
proof -
  have "w_buf w = enc x" using assms by (auto simp: writes)
  with assms(1) decode_encoded [of x "length (enc x @ rest)" rest] show ?thesis by simp
qed

end

end
