(* ===== verification/Shapes.thy ===== *)
theory Shapes
  imports Errors
begin

text \<open>
  The shape of a tensor (\<open>hurray-core/src/shape.rs\<close>): at most \<open>MAX_RANK\<close> dimension sizes, the
  value \<open>DYNAMIC\<close> standing for a size not yet known, and the element count with overflow check.
\<close>

definition DYNAMIC :: u64 where
  "DYNAMIC = - 1"

definition MAX_RANK :: usize where
  "MAX_RANK = 64"

type_synonym shape = "u64 list"

definition shape_new :: "u64 list \<Rightarrow> shape core_result" where
  "shape_new dims =
     (if length dims > MAX_RANK
      then Err (RankExceedsMaximum (word_of_nat (length dims)) (word_of_nat MAX_RANK))
      else Ok dims)"

definition shape_scalar :: shape where
  "shape_scalar = []"

definition rank :: "shape \<Rightarrow> usize" where
  "rank s = length s"

definition dims :: "shape \<Rightarrow> u64 list" where
  "dims s = s"

text \<open>\<open>element_count_from\<close> is the loop of \<open>Shape::element_count\<close>, from a partial product.\<close>

fun element_count_from :: "u64 \<Rightarrow> u64 list \<Rightarrow> u64 option" where
  "element_count_from product [] = Some product"
| "element_count_from product (d # ds) =
     (if d = DYNAMIC then None
      else case checked_mul product d of
        None \<Rightarrow> None
      | Some p \<Rightarrow> element_count_from p ds)"

definition element_count :: "shape \<Rightarrow> u64 option" where
  "element_count s = element_count_from 1 s"

definition is_empty_tensor :: "shape \<Rightarrow> bool" where
  "is_empty_tensor s = (0 \<in> set s)"

definition has_dynamic :: "shape \<Rightarrow> bool" where
  "has_dynamic s = (DYNAMIC \<in> set s)"

section \<open>Properties\<close>

text \<open>The number of elements of an index space, as a natural number.\<close>

definition volume :: "u64 list \<Rightarrow> nat" where
  "volume ds = prod_list (map unat ds)"

lemma volume_simps [simp]:
  "volume [] = 1" "volume (d # ds) = unat d * volume ds"
  by (simp_all add: volume_def)

lemma volume_append [simp]: "volume (xs @ ys) = volume xs * volume ys"
  by (simp add: volume_def)

lemma volume_zero_iff: "volume ds = 0 \<longleftrightarrow> 0 \<in> set ds"
  by (auto simp: volume_def prod_list_zero_iff unat_eq_zero)

lemma rank_eq_length [simp]: "rank s = length s"
  by (simp add: rank_def)

lemma dims_eq [simp]: "dims s = s"
  by (simp add: dims_def)

lemma element_count_from_Some:
  assumes "element_count_from p ds = Some n"
  shows "DYNAMIC \<notin> set ds \<and> unat n = unat p * volume ds"
  using assms
proof (induction p ds rule: element_count_from.induct)
  case (1 product)
  then show ?case by simp
next
  case (2 product d ds)
  from "2.prems" obtain q where q: "d \<noteq> DYNAMIC" "checked_mul product d = Some q"
    "element_count_from q ds = Some n"
    by (auto split: if_splits option.splits)
  with "2.IH" have "DYNAMIC \<notin> set ds \<and> unat n = unat q * volume ds" by simp
  with q show ?case by (auto simp: checked_mul_Some)
qed

lemma element_count_from_complete:
  assumes "DYNAMIC \<notin> set ds" and "0 \<notin> set ds" and "unat p * volume ds < 2 ^ 64" and "p \<noteq> 0"
  shows "element_count_from p ds = Some (word_of_nat (unat p * volume ds))"
  using assms
proof (induction ds arbitrary: p)
  case Nil
  then show ?case by simp
next
  case (Cons d ds)
  have v: "1 \<le> volume ds" using Cons.prems(2) volume_zero_iff [of ds] by (simp add: Suc_le_eq)
  have "unat p * unat d * 1 \<le> unat p * unat d * volume ds" using v by (intro mult_le_mono2)
  also have "\<dots> < 2 ^ 64" using Cons.prems(3) by (simp add: mult.assoc)
  finally have lt: "unat p * unat d < 2 ^ 64" by simp
  then have m: "checked_mul p d = Some (p * d)" by (simp add: checked_mul_def)
  then have u: "unat (p * d) = unat p * unat d" by (simp add: checked_mul_Some)
  have "d \<noteq> 0" using Cons.prems(2) by auto
  then have "p * d \<noteq> 0" using u Cons.prems(4) by (metis mult_is_0 unat_eq_zero)
  with Cons u have "element_count_from (p * d) ds = Some (word_of_nat (unat p * unat d * volume ds))"
    by (simp add: mult.assoc)
  with m Cons.prems(1) show ?case by (auto simp: mult.assoc)
qed

text \<open>
  \<open>Shape::element_count\<close> on a static shape with no zero dimension returns a count exactly
  when the product of the dimensions fits in 64 bits, and the count is that product.
\<close>

theorem element_count_exact:
  assumes "\<not> has_dynamic s" and "\<not> is_empty_tensor s"
  shows "element_count s =
    (if prod_list (map unat s) < 2 ^ 64 then Some (word_of_nat (prod_list (map unat s))) else None)"
proof (cases "volume s < 2 ^ 64")
  case True
  then show ?thesis using assms element_count_from_complete [of s 1]
    by (simp add: element_count_def has_dynamic_def is_empty_tensor_def volume_def)
next
  case False
  have "element_count s = None"
  proof (rule ccontr)
    assume "element_count s \<noteq> None"
    then obtain n where "element_count s = Some n" by blast
    then have "unat n = volume s"
      using element_count_from_Some [of 1 s n] by (simp add: element_count_def)
    with False show False using unsigned_less [of n, where 'a = nat] by simp
  qed
  with False show ?thesis by (simp add: volume_def)
qed

theorem element_count_exact_witness:
  "element_count [2, 3, 4] = Some 24 \<and> element_count [2 ^ 33, 2 ^ 33] = None"
proof -
  have "element_count [2, 3, 4] =
    (if prod_list (map unat [2, 3, 4 :: u64]) < 2 ^ 64
     then Some (word_of_nat (prod_list (map unat [2, 3, 4 :: u64]))) else None)"
    by (rule element_count_exact) (simp_all add: has_dynamic_def is_empty_tensor_def DYNAMIC_def)
  moreover have "element_count [2 ^ 33, 2 ^ 33] =
    (if prod_list (map unat [2 ^ 33, 2 ^ 33 :: u64]) < 2 ^ 64
     then Some (word_of_nat (prod_list (map unat [2 ^ 33, 2 ^ 33 :: u64]))) else None)"
    by (rule element_count_exact) (simp_all add: has_dynamic_def is_empty_tensor_def DYNAMIC_def)
  ultimately show ?thesis by simp
qed

end
