(* ===== verification/Layouts.thy ===== *)
theory Layouts
  imports Shapes
begin

text \<open>
  Layout descriptors (\<open>hurray-core/src/layout/\<close>): the payload struct of each layout, the tag
  classification, the constructors with their checks, \<open>LayoutDescriptor\<close> and its
  \<open>validate_against_shape\<close>. The element types \<open>OuterStrides\<close> and \<open>InnerStrides\<close>, which wrap one
  vector each, are the vectors themselves.
\<close>

section \<open>Tags\<close>

definition TAG_ROW_MAJOR :: u8 where "TAG_ROW_MAJOR = 0x01"
definition TAG_COL_MAJOR :: u8 where "TAG_COL_MAJOR = 0x02"
definition TAG_STRIDED :: u8 where "TAG_STRIDED = 0x03"
definition TAG_TILED :: u8 where "TAG_TILED = 0x04"
definition TAG_MORTON :: u8 where "TAG_MORTON = 0x05"
definition TAG_COO :: u8 where "TAG_COO = 0x06"
definition TAG_CSR :: u8 where "TAG_CSR = 0x07"
definition TAG_CSC :: u8 where "TAG_CSC = 0x08"
definition TAG_CSF :: u8 where "TAG_CSF = 0x09"
definition TAG_BLOCK_PAGED :: u8 where "TAG_BLOCK_PAGED = 0x0A"
definition TAG_COMPOSITE :: u8 where "TAG_COMPOSITE = 0x0B"
definition TAG_HILBERT :: u8 where "TAG_HILBERT = 0x40"
definition PRIVATE_LAYOUT_TAG_MIN :: u8 where "PRIVATE_LAYOUT_TAG_MIN = 0xF0"
definition PRIVATE_LAYOUT_TAG_MAX :: u8 where "PRIVATE_LAYOUT_TAG_MAX = 0xFE"

lemmas layout_tag_defs = TAG_ROW_MAJOR_def TAG_COL_MAJOR_def TAG_STRIDED_def TAG_TILED_def
  TAG_MORTON_def TAG_COO_def TAG_CSR_def TAG_CSC_def TAG_CSF_def TAG_BLOCK_PAGED_def
  TAG_COMPOSITE_def TAG_HILBERT_def PRIVATE_LAYOUT_TAG_MIN_def PRIVATE_LAYOUT_TAG_MAX_def

definition is_invalid_tag :: "u8 \<Rightarrow> bool" where
  "is_invalid_tag t \<longleftrightarrow> t = 0x00 \<or> t = 0xFF"

definition is_reserved_tag :: "u8 \<Rightarrow> bool" where
  "is_reserved_tag t \<longleftrightarrow>
     0x0C \<le> t \<and> t \<le> 0x3F \<or> 0x41 \<le> t \<and> t \<le> 0x7F \<or> 0x80 \<le> t \<and> t \<le> 0xEF"

definition is_private_tag :: "u8 \<Rightarrow> bool" where
  "is_private_tag t \<longleftrightarrow> PRIVATE_LAYOUT_TAG_MIN \<le> t \<and> t \<le> PRIVATE_LAYOUT_TAG_MAX"

definition is_named_tag :: "u8 \<Rightarrow> bool" where
  "is_named_tag t \<longleftrightarrow>
     t \<in> {TAG_ROW_MAJOR, TAG_COL_MAJOR, TAG_STRIDED, TAG_TILED, TAG_MORTON, TAG_COO, TAG_CSR,
          TAG_CSC, TAG_CSF, TAG_BLOCK_PAGED, TAG_COMPOSITE, TAG_HILBERT}"

definition validate_layout_tag_strict :: "u8 \<Rightarrow> unit core_result" where
  "validate_layout_tag_strict t =
     (if t = 0x00 \<or> t = 0xFF then Err (InvalidLayoutTag t)
      else if is_reserved_tag t then Err (ReservedLayoutTag t)
      else if is_private_tag t then Err (PrivateLayoutTag t)
      else if is_named_tag t then Ok ()
      else Err (UnknownLayoutTag t))"

section \<open>Payload structs and their constructors\<close>

record strided_layout =
  strides :: "i64 list"

definition strided_new :: "i64 list \<Rightarrow> strided_layout" where
  "strided_new s = \<lparr>strides = s\<rparr>"

record coo_layout =
  coo_nnz :: u64
  is_sorted :: bool

definition coo_new :: "u64 \<Rightarrow> bool \<Rightarrow> coo_layout" where
  "coo_new n s = \<lparr>coo_nnz = n, is_sorted = s\<rparr>"

record csr_layout =
  csr_nnz :: u64

definition csr_new :: "u64 \<Rightarrow> csr_layout" where
  "csr_new n = \<lparr>csr_nnz = n\<rparr>"

record csc_layout =
  csc_nnz :: u64

definition csc_new :: "u64 \<Rightarrow> csc_layout" where
  "csc_new n = \<lparr>csc_nnz = n\<rparr>"

record csf_layout =
  csf_nnz :: u64
  mode_order :: "u32 list"

definition csf_new :: "u64 \<Rightarrow> u32 list \<Rightarrow> csf_layout" where
  "csf_new n m = \<lparr>csf_nnz = n, mode_order = m\<rparr>"

record hilbert_layout =
  hilbert_order :: u32
  hilbert_rank :: u32

definition hilbert_new :: "u32 \<Rightarrow> u32 \<Rightarrow> hilbert_layout core_result" where
  "hilbert_new ord rk =
     (if ord = 0 then Err (InvalidLayout ''hilbert_order'')
      else if rk < 2 then Err (InvalidLayout ''hilbert_rank'')
      else Ok \<lparr>hilbert_order = ord, hilbert_rank = rk\<rparr>)"

record morton_layout =
  morton_bits :: "u32 list"

definition morton_new :: "u32 list \<Rightarrow> morton_layout core_result" where
  "morton_new bits =
     (if bits = [] then Err (InvalidLayout ''morton_bits empty'')
      else if 0 \<in> set bits then Err (InvalidLayout ''morton_bits zero'')
      else Ok \<lparr>morton_bits = bits\<rparr>)"

record private_extension_layout =
  priv_tag :: u8
  extension_layout_id :: u64
  extension_data :: bytes

definition private_extension_new :: "u8 \<Rightarrow> u64 \<Rightarrow> bytes \<Rightarrow> private_extension_layout core_result" where
  "private_extension_new t i d =
     (if \<not> (PRIVATE_LAYOUT_TAG_MIN \<le> t \<and> t \<le> PRIVATE_LAYOUT_TAG_MAX)
      then Err (InvalidLayout ''private tag'')
      else Ok \<lparr>priv_tag = t, extension_layout_id = i, extension_data = d\<rparr>)"

record unknown_layout =
  unk_tag :: u8
  raw_bytes :: bytes

definition unknown_new :: "u8 \<Rightarrow> bytes \<Rightarrow> unknown_layout core_result" where
  "unknown_new t raw =
     (if is_invalid_tag t then Err (InvalidLayoutTag t)
      else if is_named_tag t then Err (NamedLayoutTag t)
      else if is_private_tag t then Err (PrivateLayoutTag t)
      else Ok \<lparr>unk_tag = t, raw_bytes = raw\<rparr>)"

subsection \<open>Tiled\<close>

definition MAX_TILED_DEPTH :: usize where
  "MAX_TILED_DEPTH = 8"

datatype tiled_layout = TiledLayout
  (tile_shape: "u64 list")
  (outer_layout: u8)
  (inner_layout: u8)
  (outer_strides: "i64 list option")
  (inner_strides: "i64 list option")
  (inner_tiled: "tiled_layout option")

text \<open>\<open>presence_check what tag want has\<close> is one of the three \<open>match (layout, x.is_some())\<close> blocks:
  \<open>x\<close> must be present exactly when the layout byte is \<open>want\<close>.\<close>

definition presence_check :: "string \<Rightarrow> string \<Rightarrow> u8 \<Rightarrow> u8 \<Rightarrow> bool \<Rightarrow> unit core_result" where
  "presence_check missing extra layout want present =
     (if layout = want \<and> \<not> present then Err (InvalidLayout missing)
      else if present \<and> layout \<noteq> want then Err (InvalidLayout extra)
      else Ok ())"

text \<open>\<open>tiled_check depth t\<close> is \<open>new_at_depth\<close> on the fields of \<open>t\<close>; it rebuilds \<open>t\<close>.\<close>

fun tiled_check :: "usize \<Rightarrow> tiled_layout \<Rightarrow> tiled_layout core_result" where
  "tiled_check depth (TiledLayout ts ol il os ins it) =
     (if depth \<ge> MAX_TILED_DEPTH
      then Err (InvalidLayout ''tiled depth'')
      else if ts = [] then Err (InvalidLayout ''tile_shape empty'')
      else if 0 \<in> set ts then Err (InvalidLayout ''tile_shape zero'')
      else if \<not> (0x01 \<le> ol \<and> ol \<le> 0x03)
      then Err (InvalidLayout ''outer_layout'')
      else if \<not> (0x01 \<le> il \<and> il \<le> 0x04)
      then Err (InvalidLayout ''inner_layout'')
      else
        r_bind (presence_check
          ''outer_strides missing''
          ''outer_strides extra'' ol 0x03 (os \<noteq> None)) (\<lambda>_.
        r_bind (presence_check
          ''inner_strides missing''
          ''inner_strides extra'' il 0x03 (ins \<noteq> None)) (\<lambda>_.
        r_bind (presence_check
          ''inner_tiled missing''
          ''inner_tiled extra'' il 0x04 (it \<noteq> None)) (\<lambda>_.
        r_bind (case it of
            None \<Rightarrow> Ok None
          | Some t \<Rightarrow> r_bind (tiled_check (depth + 1) t) (\<lambda>v. Ok (Some v))) (\<lambda>it'.
        Ok (TiledLayout ts ol il os ins it'))))))"

definition tiled_new ::
  "u64 list \<Rightarrow> u8 \<Rightarrow> u8 \<Rightarrow> i64 list option \<Rightarrow> i64 list option \<Rightarrow> tiled_layout option \<Rightarrow>
   tiled_layout core_result" where
  "tiled_new ts ol il os ins it = tiled_check 0 (TiledLayout ts ol il os ins it)"

subsection \<open>Block-paged\<close>

datatype kv_role = Key | Value | Fused

primrec kv_role_wire_byte :: "kv_role \<Rightarrow> u8" where
  "kv_role_wire_byte Key = 0x00"
| "kv_role_wire_byte Value = 0x01"
| "kv_role_wire_byte Fused = 0x02"

definition kv_role_from_wire :: "u8 \<Rightarrow> kv_role option" where
  "kv_role_from_wire b =
     (if b = 0x00 then Some Key else if b = 0x01 then Some Value
      else if b = 0x02 then Some Fused else None)"

datatype block_table_index_type = U32 | U64

primrec index_type_wire_byte :: "block_table_index_type \<Rightarrow> u8" where
  "index_type_wire_byte U32 = 0x00"
| "index_type_wire_byte U64 = 0x01"

definition index_type_from_wire :: "u8 \<Rightarrow> block_table_index_type option" where
  "index_type_from_wire b = (if b = 0x00 then Some U32 else if b = 0x01 then Some U64 else None)"

primrec index_type_element_bytes :: "block_table_index_type \<Rightarrow> usize" where
  "index_type_element_bytes U32 = 4"
| "index_type_element_bytes U64 = 8"

definition LAYER_INDEX_NONE :: u32 where
  "LAYER_INDEX_NONE = 0xFFFFFFFF"

record block_paged_layout =
  page_size :: u32
  num_pages :: u64
  paged_axis :: u32
  num_seqs :: u32
  bp_kv_role :: kv_role
  layer_index :: "u32 option"
  bp_index_type :: block_table_index_type

definition block_paged_new ::
  "u32 \<Rightarrow> u64 \<Rightarrow> u32 \<Rightarrow> u32 \<Rightarrow> kv_role \<Rightarrow> u32 option \<Rightarrow> block_table_index_type \<Rightarrow>
   block_paged_layout" where
  "block_paged_new ps np pa ns kv li ty =
     \<lparr>page_size = ps, num_pages = np, paged_axis = pa, num_seqs = ns, bp_kv_role = kv,
      layer_index = li, bp_index_type = ty\<rparr>"

definition validate_quantization_compatibility ::
  "block_paged_layout \<Rightarrow> u8 \<Rightarrow> u32 \<Rightarrow> u32 \<Rightarrow> unit core_result" where
  "validate_quantization_compatibility bp scheme_tag quant_axis quant_block_size =
     (if scheme_tag = 0x02 then
        (if quant_axis = 0
         then Err (InvalidQuantization ''per-channel axis'')
         else Ok ())
      else if scheme_tag = 0x03 then
        (if quant_axis \<noteq> 0
         then Err (InvalidQuantization ''per-block axis'')
         else if quant_block_size \<noteq> page_size bp
         then Err (InvalidQuantization ''per-block size'')
         else Ok ())
      else Ok ())"

subsection \<open>Composite\<close>

definition OPEN_COMPOSITE_SENTINEL :: u32 where
  "OPEN_COMPOSITE_SENTINEL = 0xFFFFFFFF"

datatype combine_op = Replace | Add

primrec combine_op_wire_byte :: "combine_op \<Rightarrow> u8" where
  "combine_op_wire_byte Replace = 0x01"
| "combine_op_wire_byte Add = 0x02"

definition combine_op_from_wire :: "u8 \<Rightarrow> combine_op option" where
  "combine_op_from_wire b = (if b = 0x01 then Some Replace else if b = 0x02 then Some Add else None)"

datatype composition_rule = Partition | Overlay combine_op | Group

primrec rule_byte :: "composition_rule \<Rightarrow> u8" where
  "rule_byte Partition = 0x01"
| "rule_byte (Overlay _) = 0x02"
| "rule_byte Group = 0x03"

primrec combine_op_byte :: "composition_rule \<Rightarrow> u8" where
  "combine_op_byte (Overlay opr) = combine_op_wire_byte opr"
| "combine_op_byte Partition = 0x00"
| "combine_op_byte Group = 0x00"

definition composition_rule_from_wire :: "u8 \<Rightarrow> u8 \<Rightarrow> composition_rule core_result" where
  "composition_rule_from_wire rl opr =
     (if rl = 0xFF then Err (InvalidCompositionRule rl)
      else if rl = 0x00 \<or> 0x04 \<le> rl \<and> rl \<le> 0xEF then Err (ReservedCompositionRule rl)
      else if 0xF0 \<le> rl \<and> rl \<le> 0xFE then Err (PrivateCompositionRule rl)
      else if rl = 0x01 \<and> opr = 0x00 then Ok Partition
      else if rl = 0x03 \<and> opr = 0x00 then Ok Group
      else if rl = 0x02 \<and> opr = 0x01 then Ok (Overlay Replace)
      else if rl = 0x02 \<and> opr = 0x02 then Ok (Overlay Add)
      else Err (InvalidCombineOp rl opr))"

record composite_layout =
  comp_rule :: composition_rule
  member_count :: u32

definition composite_layout_new :: "composition_rule \<Rightarrow> u32 \<Rightarrow> composite_layout core_result" where
  "composite_layout_new rl n =
     (if n = OPEN_COMPOSITE_SENTINEL then Err OpenCompositeReserved
      else Ok \<lparr>comp_rule = rl, member_count = n\<rparr>)"

section \<open>LayoutDescriptor\<close>

datatype layout_descriptor =
    RowMajor
  | ColMajor
  | Strided strided_layout
  | Tiled tiled_layout
  | Morton morton_layout
  | Coo coo_layout
  | Csr csr_layout
  | Csc csc_layout
  | Csf csf_layout
  | BlockPaged block_paged_layout
  | Composite composite_layout
  | Hilbert hilbert_layout
  | PrivateExtension private_extension_layout
  | Unknown unknown_layout

primrec layout_tag :: "layout_descriptor \<Rightarrow> u8" where
  "layout_tag RowMajor = TAG_ROW_MAJOR"
| "layout_tag ColMajor = TAG_COL_MAJOR"
| "layout_tag (Strided _) = TAG_STRIDED"
| "layout_tag (Tiled _) = TAG_TILED"
| "layout_tag (Morton _) = TAG_MORTON"
| "layout_tag (Coo _) = TAG_COO"
| "layout_tag (Csr _) = TAG_CSR"
| "layout_tag (Csc _) = TAG_CSC"
| "layout_tag (Csf _) = TAG_CSF"
| "layout_tag (BlockPaged _) = TAG_BLOCK_PAGED"
| "layout_tag (Composite _) = TAG_COMPOSITE"
| "layout_tag (Hilbert _) = TAG_HILBERT"
| "layout_tag (PrivateExtension p) = priv_tag p"
| "layout_tag (Unknown u) = unk_tag u"

text \<open>A \<open>NonZeroU8\<close> is a \<open>u8\<close>; \<open>NonZeroU8::new\<close> of zero is \<open>None\<close>.\<close>

definition nonzero_u8 :: "u8 \<Rightarrow> u8 option" where
  "nonzero_u8 n = (if n = 0 then None else Some n)"

primrec buffer_count :: "layout_descriptor \<Rightarrow> u8 option" where
  "buffer_count RowMajor = nonzero_u8 1"
| "buffer_count ColMajor = nonzero_u8 1"
| "buffer_count (Strided _) = nonzero_u8 1"
| "buffer_count (Tiled _) = nonzero_u8 1"
| "buffer_count (Morton _) = nonzero_u8 1"
| "buffer_count (Hilbert _) = nonzero_u8 1"
| "buffer_count (Coo _) = nonzero_u8 2"
| "buffer_count (Csr _) = nonzero_u8 3"
| "buffer_count (Csc _) = nonzero_u8 3"
| "buffer_count (BlockPaged _) = nonzero_u8 3"
| "buffer_count (Csf c) = nonzero_u8 (word_of_nat (min (2 * length (mode_order c) + 1) 255))"
| "buffer_count (Composite _) = None"
| "buffer_count (PrivateExtension _) = None"
| "buffer_count (Unknown _) = None"

definition is_virtual :: "layout_descriptor \<Rightarrow> bool" where
  "is_virtual l = (case l of Composite _ \<Rightarrow> True | _ \<Rightarrow> False)"

lemma is_virtual_iff: "is_virtual l \<longleftrightarrow> (\<exists>c. l = Composite c)"
  by (cases l) (simp_all add: is_virtual_def)

subsection \<open>Validation against a shape\<close>

text \<open>The loops of \<open>validate_against_shape\<close>: the Morton and Hilbert dimension checks, and the
  presence bitmap that checks that \<open>mode_order\<close> is a permutation (\<open>oor\<close> and \<open>dup\<close> are the messages,
  which differ between this function and \<open>decode_csf\<close>).\<close>

fun morton_check_dims :: "u32 list \<Rightarrow> u64 list \<Rightarrow> unit core_result" where
  "morton_check_dims (bits # bs) (dim # ds) =
     (if dim = DYNAMIC then morton_check_dims bs ds
      else let max_dim = (if bits \<ge> 64 then - 1 else push_bit (unat bits) 1) in
        if dim > max_dim
        then Err (InvalidLayout ''Morton dim'')
        else morton_check_dims bs ds)"
| "morton_check_dims _ _ = Ok ()"

fun hilbert_check_dims :: "u64 \<Rightarrow> u64 list \<Rightarrow> unit core_result" where
  "hilbert_check_dims expected [] = Ok ()"
| "hilbert_check_dims expected (dim # ds) =
     (if dim = DYNAMIC then hilbert_check_dims expected ds
      else if dim \<noteq> expected
      then Err (InvalidLayout ''Hilbert dim'')
      else hilbert_check_dims expected ds)"

fun mode_order_check :: "string \<Rightarrow> string \<Rightarrow> usize \<Rightarrow> u64 \<Rightarrow> u32 list \<Rightarrow> unit core_result" where
  "mode_order_check oor dup rk seen [] = Ok ()"
| "mode_order_check oor dup rk seen (dim # ds) =
     (if unat dim \<ge> rk then Err (InvalidLayout oor)
      else r_bind (plain_shl 1 dim) (\<lambda>bit.
        if seen AND bit \<noteq> 0 then Err (InvalidLayout dup)
        else mode_order_check oor dup rk (seen OR bit) ds))"

primrec validate_against_shape :: "layout_descriptor \<Rightarrow> shape \<Rightarrow> unit core_result" where
  "validate_against_shape RowMajor sh = Ok ()"
| "validate_against_shape ColMajor sh = Ok ()"
| "validate_against_shape (Strided s) sh =
     (if length (strides s) \<noteq> rank sh
      then Err (InvalidLayout ''strided rank'')
      else if rank sh = 0
      then Err (InvalidLayout ''strided scalar'')
      else Ok ())"
| "validate_against_shape (Tiled t) sh =
     (if length (tile_shape t) \<noteq> rank sh
      then Err (InvalidLayout ''tiled rank'')
      else if rank sh = 0
      then Err (InvalidLayout ''tiled scalar'')
      else Ok ())"
| "validate_against_shape (Morton m) sh =
     (if length (morton_bits m) \<noteq> rank sh
      then Err (InvalidLayout ''Morton rank'')
      else morton_check_dims (morton_bits m) (dims sh))"
| "validate_against_shape (Coo c) sh =
     (if rank sh = 0
      then Err (InvalidLayout ''COO scalar'')
      else Ok ())"
| "validate_against_shape (Csr c) sh =
     (if rank sh \<noteq> 2 then Err (InvalidLayout ''CSR rank'') else Ok ())"
| "validate_against_shape (Csc c) sh =
     (if rank sh \<noteq> 2 then Err (InvalidLayout ''CSC rank'') else Ok ())"
| "validate_against_shape (Csf c) sh =
     (if rank sh < 3 then Err (InvalidLayout ''CSF rank'')
      else if length (mode_order c) \<noteq> rank sh
      then Err (InvalidLayout ''CSF mode_order'')
      else mode_order_check ''CSF range''
        ''CSF duplicate'' (rank sh) 0 (mode_order c))"
| "validate_against_shape (BlockPaged bp) sh =
     (if rank sh \<noteq> 3 then Err (InvalidLayout ''block-paged rank'')
      else if paged_axis bp \<noteq> 0
      then Err (InvalidLayout ''paged_axis'')
      else if page_size bp < 1
      then Err (InvalidLayout ''page_size'')
      else Ok ())"
| "validate_against_shape (Composite c) sh =
     (if comp_rule c \<noteq> Group \<and> has_dynamic sh
      then Err (InvalidLayout ''composite dynamic'')
      else Ok ())"
| "validate_against_shape (Hilbert h) sh =
     (if unat (hilbert_rank h) \<noteq> rank sh
      then Err (InvalidLayout ''Hilbert rank'')
      else r_bind (ok_or (checked_shl 1 (hilbert_order h))
             (InvalidLayout ''Hilbert order''))
           (\<lambda>expected. hilbert_check_dims expected (dims sh)))"
| "validate_against_shape (PrivateExtension p) sh = Ok ()"
| "validate_against_shape (Unknown u) sh = Ok ()"

section \<open>Properties\<close>

subsection \<open>Tags\<close>

lemma tag_classes_nat:
  "is_reserved_tag t \<longleftrightarrow> 12 \<le> unat t \<and> unat t \<le> 63 \<or> 65 \<le> unat t \<and> unat t \<le> 239"
  "is_private_tag t \<longleftrightarrow> 240 \<le> unat t \<and> unat t \<le> 254"
  "is_invalid_tag t \<longleftrightarrow> unat t = 0 \<or> unat t = 255"
  "is_named_tag t \<longleftrightarrow> 1 \<le> unat t \<and> unat t \<le> 11 \<or> unat t = 64"
proof -
  show "is_reserved_tag t \<longleftrightarrow> 12 \<le> unat t \<and> unat t \<le> 63 \<or> 65 \<le> unat t \<and> unat t \<le> 239"
    by (simp add: is_reserved_tag_def word_le_nat_alt) arith
  show "is_private_tag t \<longleftrightarrow> 240 \<le> unat t \<and> unat t \<le> 254"
    by (simp add: is_private_tag_def layout_tag_defs word_le_nat_alt)
  show "is_invalid_tag t \<longleftrightarrow> unat t = 0 \<or> unat t = 255"
    by (simp add: is_invalid_tag_def word_unat_eq_iff)
  show "is_named_tag t \<longleftrightarrow> 1 \<le> unat t \<and> unat t \<le> 11 \<or> unat t = 64"
    by (simp add: is_named_tag_def layout_tag_defs word_unat_eq_iff) presburger
qed

lemma is_reserved_tag_iff:
  "is_reserved_tag t \<longleftrightarrow> \<not> is_named_tag t \<and> \<not> is_invalid_tag t \<and> \<not> is_private_tag t"
proof -
  have "unat t < 256" using unsigned_less [of t, where 'a = nat] by simp
  then show ?thesis unfolding tag_classes_nat by presburger
qed

lemma tag_classes_disjoint:
  "is_named_tag t \<Longrightarrow> \<not> is_invalid_tag t \<and> \<not> is_private_tag t"
  "is_private_tag t \<Longrightarrow> \<not> is_invalid_tag t"
  unfolding tag_classes_nat by presburger+

text \<open>
  The tag ranges partition the byte: \<open>validate_layout_tag_strict\<close> accepts exactly the twelve
  named tags, and every other byte falls in exactly one of invalid, reserved and private, which is the
  error it is reported with (\<open>UnknownLayoutTag\<close> is never returned).
\<close>

theorem layout_tag_classes:
  "validate_layout_tag_strict t =
     (if is_named_tag t then Ok ()
      else if is_invalid_tag t then Err (InvalidLayoutTag t)
      else if is_private_tag t then Err (PrivateLayoutTag t)
      else Err (ReservedLayoutTag t)) \<and>
   (is_reserved_tag t = (\<not> is_named_tag t \<and> \<not> is_invalid_tag t \<and> \<not> is_private_tag t))"
  using tag_classes_disjoint [of t]
  by (simp add: validate_layout_tag_strict_def is_reserved_tag_iff flip: is_invalid_tag_def)

lemma layout_tag_named:
  "is_named_tag (layout_tag l) \<or> (\<exists>p. l = PrivateExtension p) \<or> (\<exists>u. l = Unknown u)"
  by (cases l) (simp_all add: is_named_tag_def)

subsection \<open>Tiled\<close>

text \<open>\<open>tiled_wf n t\<close>: at most \<open>n\<close> levels, each of them well formed.\<close>

fun tiled_wf :: "nat \<Rightarrow> tiled_layout \<Rightarrow> bool" where
  "tiled_wf 0 t = False"
| "tiled_wf (Suc n) (TiledLayout ts ol il os ins it) \<longleftrightarrow>
     ts \<noteq> [] \<and> 0 \<notin> set ts \<and> 0x01 \<le> ol \<and> ol \<le> 0x03 \<and> 0x01 \<le> il \<and> il \<le> 0x04 \<and>
     (os \<noteq> None \<longleftrightarrow> ol = 0x03) \<and> (ins \<noteq> None \<longleftrightarrow> il = 0x03) \<and> (it \<noteq> None \<longleftrightarrow> il = 0x04) \<and>
     (case it of None \<Rightarrow> True | Some t \<Rightarrow> tiled_wf n t)"

lemma presence_check_Ok:
  "presence_check m e layout want present = Ok () \<longleftrightarrow> (present \<longleftrightarrow> layout = want)"
  by (auto simp: presence_check_def)

lemma presence_check_not_Panic [simp]: "presence_check m e layout want present \<noteq> Panic"
  by (auto simp: presence_check_def)

lemma tiled_check_not_Panic [simp]: "tiled_check d t \<noteq> Panic"
  by (induction d t rule: tiled_check.induct) (auto simp: r_bind_Panic_iff split: option.splits)

lemma tiled_check_Ok:
  "tiled_check d t = Ok t' \<longleftrightarrow> t' = t \<and> tiled_wf (MAX_TILED_DEPTH - d) t"
proof (induction d t arbitrary: t' rule: tiled_check.induct)
  case (1 depth ts ol il os ins it)
  show ?case
  proof (cases "MAX_TILED_DEPTH - depth")
    case 0
    then show ?thesis by simp
  next
    case (Suc n)
    then have n: "MAX_TILED_DEPTH - (depth + 1) = n" and d: "\<not> MAX_TILED_DEPTH \<le> depth" by auto
    note IH = 1 [simplified n]
    show ?thesis
    proof (cases it)
      case None
      then show ?thesis using d Suc
        by (auto simp: r_bind_Ok_iff presence_check_Ok)
    next
      case (Some t)
      show ?thesis using d Suc Some IH
        by (auto simp: r_bind_Ok_iff presence_check_Ok)
    qed
  qed
qed

declare tiled_check.simps [simp del]

lemma tiled_new_Ok:
  "tiled_new ts ol il os ins it = Ok t \<longleftrightarrow>
     t = TiledLayout ts ol il os ins it \<and> tiled_wf MAX_TILED_DEPTH t"
  by (auto simp: tiled_new_def tiled_check_Ok)

lemma tiled_new_not_Panic [simp]: "tiled_new ts ol il os ins it \<noteq> Panic"
  by (simp add: tiled_new_def)

subsection \<open>The mode-order bitmap\<close>

lemma plain_shl_1:
  "unat d < 64 \<Longrightarrow> plain_shl (1 :: u64) d = Ok (2 ^ unat d)"
  by (simp add: plain_shl_def checked_shl_def)

lemma and_power_iff: "n < 64 \<Longrightarrow> (seen :: u64) AND 2 ^ n = 0 \<longleftrightarrow> \<not> bit seen n"
  by (metis and.commute and_exp_eq_0_iff_not_bit)

lemma bit_or_power: "n < 64 \<Longrightarrow> bit ((seen :: u64) OR 2 ^ n) m \<longleftrightarrow> bit seen m \<or> m = n"
  by (auto simp: bit_or_iff bit_exp_iff)

lemma mode_order_check_Ok:
  assumes "rk \<le> 64"
  shows "mode_order_check oor dup rk seen ds = Ok () \<longleftrightarrow>
    distinct ds \<and> (\<forall>d \<in> set ds. unat d < rk \<and> \<not> bit seen (unat d))"
  using assms
proof (induction ds arbitrary: seen)
  case Nil
  show ?case by simp
next
  case (Cons d ds)
  show ?case
  proof (cases "unat d < rk")
    case False
    then show ?thesis by auto
  next
    case True
    with Cons.prems have d: "unat d < 64" by simp
    have e: "unat e = unat d \<longleftrightarrow> e = d" for e :: u32 by (simp add: word_unat_eq_iff)
    show ?thesis
      using True Cons.IH [OF Cons.prems, of "seen OR 2 ^ unat d"]
      by (auto simp: plain_shl_1 [OF d] and_power_iff [OF d] bit_or_power [OF d] e)
  qed
qed

lemma mode_order_check_not_Panic [simp]:
  "rk \<le> 64 \<Longrightarrow> mode_order_check oor dup rk seen ds \<noteq> Panic"
  by (induction ds arbitrary: seen) (auto simp: plain_shl_1)

lemma mode_order_permutation:
  fixes ds :: "u32 list"
  assumes "length ds = rk"
  shows "distinct ds \<and> (\<forall>d \<in> set ds. unat d < rk) \<longleftrightarrow> distinct (map unat ds) \<and> set (map unat ds) = {..<rk}"
proof
  assume *: "distinct ds \<and> (\<forall>d \<in> set ds. unat d < rk)"
  then have d: "distinct (map unat ds)" by (simp add: distinct_map inj_on_def word_unat_eq_iff)
  have "set (map unat ds) = {..<rk}"
  proof (rule card_subset_eq)
    show "set (map unat ds) \<subseteq> {..<rk}" using * by auto
    show "card (set (map unat ds)) = card {..<rk}"
      using d assms distinct_card [OF d] by simp
  qed simp
  with d show "distinct (map unat ds) \<and> set (map unat ds) = {..<rk}" by simp
next
  assume "distinct (map unat ds) \<and> set (map unat ds) = {..<rk}"
  then show "distinct ds \<and> (\<forall>d \<in> set ds. unat d < rk)"
    by (auto simp: distinct_map)
qed

text \<open>
  The presence bitmap is exact: \<open>validate_against_shape\<close> accepts a CSF layout exactly when the
  rank is at least 3 and \<open>mode_order\<close> is a permutation of the dimensions \<open>0, \<dots>, rank - 1\<close>; it never
  panics on a shape within the maximal rank.
\<close>

theorem csf_mode_order_permutation:
  assumes "rank sh \<le> MAX_RANK"
  shows "validate_against_shape (Csf c) sh \<noteq> Panic \<and>
    (validate_against_shape (Csf c) sh = Ok () \<longleftrightarrow>
      3 \<le> rank sh \<and> length (mode_order c) = rank sh \<and>
      distinct (map unat (mode_order c)) \<and> set (map unat (mode_order c)) = {..<rank sh})"
proof -
  have r: "length sh \<le> 64" using assms by (simp add: MAX_RANK_def)
  show ?thesis
  proof (cases "length (mode_order c) = length sh")
    case True
    then show ?thesis using mode_order_permutation [OF True] r
      by (simp add: mode_order_check_Ok not_less)
  next
    case False
    then show ?thesis by simp
  qed
qed

theorem csf_mode_order_permutation_witness:
  "validate_against_shape (Csf \<lparr>csf_nnz = 4, mode_order = [2, 0, 1]\<rparr>) [2, 3, 4] = Ok () \<and>
   validate_against_shape (Csf \<lparr>csf_nnz = 4, mode_order = [2, 0, 2]\<rparr>) [2, 3, 4] \<noteq> Ok ()"
proof -
  have r: "rank [2, 3, 4] \<le> MAX_RANK" by (simp add: MAX_RANK_def)
  have s: "{2, 0, 1} = {..<3::nat}" by (auto simp: lessThan_nat_numeral lessThan_Suc)
  show ?thesis
    by (simp only: csf_mode_order_permutation [OF r, THEN conjunct2]) (simp add: s [simplified])
qed

end
