(* ===== verification/Layout_Codec.thy ===== *)
theory Layout_Codec
  imports Cursor Layouts
begin

text \<open>
  The layout payload of a descriptor (\<open>hurray-core/src/descriptor/layout_codec.rs\<close>): one encoder and
  one decoder per layout, the recursive tiled payload with its nesting limit, and the dispatch on
  the layout tag. \<open>layout_ok rk l\<close> is the invariant under which the pair is a \<open>wire_format\<close>: what the
  decoder can return for the rank \<open>rk\<close>, which is also all that the encoder writes so that it can be
  read back.
\<close>

section \<open>The codec\<close>

text \<open>The guard on reserved bytes that most decoders have.\<close>

definition check_reserved :: "string \<Rightarrow> bytes \<Rightarrow> unit core_result" where
  "check_reserved field b = (if all_zero b then Ok () else Err (ReservedBytesNonZero field))"

definition encode_strided :: "strided_layout \<Rightarrow> byte_writer \<Rightarrow> byte_writer core_result" where
  "encode_strided l w = Ok (fold write_i64_le (strides l) w)"

definition decode_strided :: "u32 \<Rightarrow> layout_descriptor reader" where
  "decode_strided rk =
     rd_bind (read_many (unat rk) read_i64_le) (\<lambda>s. rd_ret (Strided (strided_new s)))"

text \<open>An absent \<open>Option<OuterStrides>\<close> writes nothing, as \<open>if let Some(os)\<close> does.\<close>

definition write_strides_if :: "bool \<Rightarrow> i64 list option \<Rightarrow> byte_writer \<Rightarrow> byte_writer" where
  "write_strides_if b s w =
     (if b then (case s of None \<Rightarrow> w | Some ss \<Rightarrow> fold write_i64_le ss w) else w)"

fun encode_tiled :: "tiled_layout \<Rightarrow> u32 \<Rightarrow> byte_writer \<Rightarrow> usize \<Rightarrow> byte_writer core_result" where
  "encode_tiled (TiledLayout ts ol il os ins it) rk w depth =
     (if depth \<ge> MAX_TILED_DEPTH then Err SubpavingNestingTooDeep
      else
        let w = fold write_u64_le ts w;
            w = write_u8 ol w;
            w = write_u8 il w;
            w = write_zeros 2 w;
            w = write_strides_if (ol = TAG_STRIDED) os w;
            w = write_strides_if (il = TAG_STRIDED) ins w
        in if il = TAG_TILED
           then (case it of None \<Rightarrow> Ok w | Some t \<Rightarrow> encode_tiled t rk w (depth + 1))
           else Ok w)"

definition read_strides_if :: "bool \<Rightarrow> u32 \<Rightarrow> i64 list option reader" where
  "read_strides_if b rk =
     (if b then rd_bind (read_many (unat rk) read_i64_le) (\<lambda>s. rd_ret (Some s)) else rd_ret None)"

function decode_tiled :: "u32 \<Rightarrow> usize \<Rightarrow> tiled_layout reader" where
  "decode_tiled rk depth =
     (if depth \<ge> MAX_TILED_DEPTH then rd_lift (Err SubpavingNestingTooDeep)
      else
        rd_bind (read_many (unat rk) read_u64_le) (\<lambda>ts.
        rd_bind read_u8 (\<lambda>ol.
        rd_bind read_u8 (\<lambda>il.
        rd_bind (read_bytes 2) (\<lambda>res.
        rd_bind (rd_lift (check_reserved ''tiled._reserved'' res)) (\<lambda>_.
        rd_bind (read_strides_if (ol = TAG_STRIDED) rk) (\<lambda>os.
        rd_bind (read_strides_if (il = TAG_STRIDED) rk) (\<lambda>ins.
        rd_bind (if il = TAG_TILED
                 then rd_bind (decode_tiled rk (depth + 1)) (\<lambda>t. rd_ret (Some t))
                 else rd_ret None) (\<lambda>it.
        rd_lift (tiled_new ts ol il os ins it))))))))))"
  by pat_completeness auto
termination
  by (relation "measure (\<lambda>(rk, depth). MAX_TILED_DEPTH - depth)") auto

declare decode_tiled.simps [simp del]

definition encode_morton :: "morton_layout \<Rightarrow> byte_writer \<Rightarrow> byte_writer core_result" where
  "encode_morton l w = Ok (fold write_u32_le (morton_bits l) w)"

definition decode_morton :: "u32 \<Rightarrow> layout_descriptor reader" where
  "decode_morton rk =
     rd_bind (read_many (unat rk) read_u32_le) (\<lambda>bits.
     rd_bind (rd_lift (morton_new bits)) (\<lambda>l. rd_ret (Morton l)))"

definition encode_coo :: "coo_layout \<Rightarrow> byte_writer \<Rightarrow> byte_writer core_result" where
  "encode_coo l w = Ok (write_zeros 7 (write_u8 (u8_of_bool (is_sorted l)) (write_u64_le (coo_nnz l) w)))"

definition decode_coo :: "layout_descriptor reader" where
  "decode_coo =
     rd_bind read_u64_le (\<lambda>nnz.
     rd_bind read_u8 (\<lambda>s.
     rd_bind (read_bytes 7) (\<lambda>res.
     rd_bind (rd_lift (check_reserved ''coo._reserved'' res)) (\<lambda>_.
     rd_ret (Coo (coo_new nnz (s \<noteq> 0)))))))"

definition encode_csr :: "csr_layout \<Rightarrow> byte_writer \<Rightarrow> byte_writer core_result" where
  "encode_csr l w = Ok (write_zeros 8 (write_u64_le (csr_nnz l) w))"

definition decode_csr :: "layout_descriptor reader" where
  "decode_csr =
     rd_bind read_u64_le (\<lambda>nnz.
     rd_bind (read_bytes 8) (\<lambda>res.
     rd_bind (rd_lift (check_reserved ''csr._reserved'' res)) (\<lambda>_.
     rd_ret (Csr (csr_new nnz)))))"

definition encode_csc :: "csc_layout \<Rightarrow> byte_writer \<Rightarrow> byte_writer core_result" where
  "encode_csc l w = Ok (write_zeros 8 (write_u64_le (csc_nnz l) w))"

definition decode_csc :: "layout_descriptor reader" where
  "decode_csc =
     rd_bind read_u64_le (\<lambda>nnz.
     rd_bind (read_bytes 8) (\<lambda>res.
     rd_bind (rd_lift (check_reserved ''csc._reserved'' res)) (\<lambda>_.
     rd_ret (Csc (csc_new nnz)))))"

definition encode_csf :: "csf_layout \<Rightarrow> u32 \<Rightarrow> byte_writer \<Rightarrow> byte_writer core_result" where
  "encode_csf l rk w =
     (let w = write_u64_le (csf_nnz l) w in
      if word_of_nat (length (mode_order l)) \<noteq> rk then Err (InvalidLayout ''csf encode'')
      else Ok (write_zeros 8 (fold write_u32_le (mode_order l) w)))"

definition decode_csf :: "u32 \<Rightarrow> layout_descriptor reader" where
  "decode_csf rk =
     rd_bind read_u64_le (\<lambda>nnz.
     rd_bind (read_many (unat rk) read_u32_le) (\<lambda>mo.
     rd_bind (read_bytes 8) (\<lambda>res.
     rd_bind (rd_lift (check_reserved ''csf._reserved'' res)) (\<lambda>_.
     rd_bind (rd_lift (mode_order_check ''csf range'' ''csf duplicate'' (unat rk) 0 mo)) (\<lambda>_.
     rd_ret (Csf (csf_new nnz mo)))))))"

definition encode_block_paged :: "block_paged_layout \<Rightarrow> byte_writer \<Rightarrow> byte_writer core_result" where
  "encode_block_paged l w =
     (let w = write_u32_le (page_size l) w;
          w = write_u64_le (num_pages l) w;
          w = write_u32_le (paged_axis l) w;
          w = write_u32_le (num_seqs l) w;
          w = write_u8 (kv_role_wire_byte (bp_kv_role l)) w;
          w = write_u32_le (case layer_index l of None \<Rightarrow> LAYER_INDEX_NONE | Some i \<Rightarrow> i) w;
          w = write_u8 (index_type_wire_byte (bp_index_type l)) w
      in Ok (write_zeros 6 w))"

definition decode_block_paged :: "layout_descriptor reader" where
  "decode_block_paged =
     rd_bind read_u32_le (\<lambda>ps.
     rd_bind read_u64_le (\<lambda>np.
     rd_bind read_u32_le (\<lambda>pa.
     rd_bind read_u32_le (\<lambda>ns.
     rd_bind read_u8 (\<lambda>kvb.
     rd_bind (rd_lift (ok_or (kv_role_from_wire kvb) (InvalidLayout ''block-paged: kv_role''))) (\<lambda>kv.
     rd_bind read_u32_le (\<lambda>liw.
     rd_bind read_u8 (\<lambda>itb.
     rd_bind (rd_lift (ok_or (index_type_from_wire itb) (InvalidLayout ''block-paged: index type''))) (\<lambda>ty.
     rd_bind (read_bytes 6) (\<lambda>res.
     rd_bind (rd_lift (check_reserved ''block_paged._reserved'' res)) (\<lambda>_.
     rd_ret (BlockPaged (block_paged_new ps np pa ns kv
       (if liw = LAYER_INDEX_NONE then None else Some liw) ty)))))))))))))"

definition encode_composite :: "composite_layout \<Rightarrow> byte_writer \<Rightarrow> byte_writer core_result" where
  "encode_composite l w =
     (let w = write_u8 (rule_byte (comp_rule l)) w;
          w = write_u8 (combine_op_byte (comp_rule l)) w;
          w = write_zeros 2 w
      in Ok (write_u32_le (member_count l) w))"

definition decode_composite :: "layout_descriptor reader" where
  "decode_composite =
     rd_bind read_u8 (\<lambda>rb.
     rd_bind read_u8 (\<lambda>ob.
     rd_bind (read_bytes 2) (\<lambda>res.
     rd_bind (rd_lift (check_reserved ''composite._reserved'' res)) (\<lambda>_.
     rd_bind read_u32_le (\<lambda>n.
     rd_bind (rd_lift (composition_rule_from_wire rb ob)) (\<lambda>rl.
     rd_bind (rd_lift (composite_layout_new rl n)) (\<lambda>l.
     rd_ret (Composite l))))))))"

definition encode_hilbert :: "hilbert_layout \<Rightarrow> byte_writer \<Rightarrow> byte_writer core_result" where
  "encode_hilbert l w = Ok (write_u32_le (hilbert_rank l) (write_u32_le (hilbert_order l) w))"

definition decode_hilbert :: "layout_descriptor reader" where
  "decode_hilbert =
     rd_bind read_u32_le (\<lambda>ord.
     rd_bind read_u32_le (\<lambda>rk.
     rd_bind (rd_lift (hilbert_new ord rk)) (\<lambda>l. rd_ret (Hilbert l))))"

definition encode_private_extension ::
  "private_extension_layout \<Rightarrow> byte_writer \<Rightarrow> byte_writer core_result" where
  "encode_private_extension l w =
     Ok (write_bytes (extension_data l)
          (write_u32_le (word_of_nat (length (extension_data l)))
            (write_u64_le (extension_layout_id l) w)))"

definition decode_private_extension :: "u8 \<Rightarrow> layout_descriptor reader" where
  "decode_private_extension t =
     rd_bind read_u64_le (\<lambda>i.
     rd_bind read_u32_le (\<lambda>n.
     rd_bind (read_bytes (unat n)) (\<lambda>d.
     rd_bind (rd_lift (private_extension_new t i d)) (\<lambda>l. rd_ret (PrivateExtension l)))))"

primrec encode_layout_payload_at_depth ::
  "layout_descriptor \<Rightarrow> u32 \<Rightarrow> usize \<Rightarrow> byte_writer \<Rightarrow> byte_writer core_result" where
  "encode_layout_payload_at_depth RowMajor rk depth w = Ok w"
| "encode_layout_payload_at_depth ColMajor rk depth w = Ok w"
| "encode_layout_payload_at_depth (Strided s) rk depth w = encode_strided s w"
| "encode_layout_payload_at_depth (Tiled t) rk depth w = encode_tiled t rk w depth"
| "encode_layout_payload_at_depth (Morton m) rk depth w = encode_morton m w"
| "encode_layout_payload_at_depth (Coo c) rk depth w = encode_coo c w"
| "encode_layout_payload_at_depth (Csr c) rk depth w = encode_csr c w"
| "encode_layout_payload_at_depth (Csc c) rk depth w = encode_csc c w"
| "encode_layout_payload_at_depth (Csf c) rk depth w = encode_csf c rk w"
| "encode_layout_payload_at_depth (BlockPaged b) rk depth w = encode_block_paged b w"
| "encode_layout_payload_at_depth (Composite c) rk depth w = encode_composite c w"
| "encode_layout_payload_at_depth (Hilbert h) rk depth w = encode_hilbert h w"
| "encode_layout_payload_at_depth (PrivateExtension p) rk depth w = encode_private_extension p w"
| "encode_layout_payload_at_depth (Unknown u) rk depth w =
     Err (UnknownLayoutTag (layout_tag (Unknown u)))"

definition encode_layout_payload ::
  "layout_descriptor \<Rightarrow> u32 \<Rightarrow> byte_writer \<Rightarrow> byte_writer core_result" where
  "encode_layout_payload l rk w = encode_layout_payload_at_depth l rk 0 w"

definition decode_layout_payload :: "u8 \<Rightarrow> u32 \<Rightarrow> usize \<Rightarrow> layout_descriptor reader" where
  "decode_layout_payload t rk depth =
     (if depth \<ge> MAX_TILED_DEPTH then rd_lift (Err SubpavingNestingTooDeep)
      else if t = TAG_ROW_MAJOR then rd_ret RowMajor
      else if t = TAG_COL_MAJOR then rd_ret ColMajor
      else if t = TAG_STRIDED then decode_strided rk
      else if t = TAG_TILED then rd_bind (decode_tiled rk depth) (\<lambda>l. rd_ret (Tiled l))
      else if t = TAG_MORTON then decode_morton rk
      else if t = TAG_COO then decode_coo
      else if t = TAG_CSR then decode_csr
      else if t = TAG_CSC then decode_csc
      else if t = TAG_CSF then decode_csf rk
      else if t = TAG_BLOCK_PAGED then decode_block_paged
      else if t = TAG_COMPOSITE then decode_composite
      else if t = TAG_HILBERT then decode_hilbert
      else if 0xF0 \<le> t \<and> t \<le> 0xFE then decode_private_extension t
      else if t = 0x00 \<or> t = 0xFF then rd_lift (Err (InvalidLayoutTag t))
      else if is_reserved_tag t then rd_lift (Err (ReservedLayoutTag t))
      else rd_lift (Err (UnknownLayoutTag t)))"

section \<open>The bytes of a payload\<close>

definition tile_stride_bytes :: "i64 list option \<Rightarrow> bytes" where
  "tile_stride_bytes s = (case s of None \<Rightarrow> [] | Some ss \<Rightarrow> concat (map to_le_bytes ss))"

fun tiled_bytes :: "tiled_layout \<Rightarrow> bytes" where
  "tiled_bytes (TiledLayout ts ol il os ins it) =
     concat (map to_le_bytes ts) @ ol # il # replicate 2 0 @
     tile_stride_bytes os @ tile_stride_bytes ins @
     (case it of None \<Rightarrow> [] | Some t \<Rightarrow> tiled_bytes t)"

primrec layout_payload :: "layout_descriptor \<Rightarrow> bytes" where
  "layout_payload RowMajor = []"
| "layout_payload ColMajor = []"
| "layout_payload (Strided s) = concat (map to_le_bytes (strides s))"
| "layout_payload (Tiled t) = tiled_bytes t"
| "layout_payload (Morton m) = concat (map to_le_bytes (morton_bits m))"
| "layout_payload (Coo c) = to_le_bytes (coo_nnz c) @ u8_of_bool (is_sorted c) # replicate 7 0"
| "layout_payload (Csr c) = to_le_bytes (csr_nnz c) @ replicate 8 0"
| "layout_payload (Csc c) = to_le_bytes (csc_nnz c) @ replicate 8 0"
| "layout_payload (Csf c) =
     to_le_bytes (csf_nnz c) @ concat (map to_le_bytes (mode_order c)) @ replicate 8 0"
| "layout_payload (BlockPaged b) =
     to_le_bytes (page_size b) @ to_le_bytes (num_pages b) @ to_le_bytes (paged_axis b) @
     to_le_bytes (num_seqs b) @ kv_role_wire_byte (bp_kv_role b) #
     to_le_bytes (case layer_index b of None \<Rightarrow> LAYER_INDEX_NONE | Some i \<Rightarrow> i) @
     index_type_wire_byte (bp_index_type b) # replicate 6 0"
| "layout_payload (Composite c) =
     rule_byte (comp_rule c) # combine_op_byte (comp_rule c) # replicate 2 0 @
     to_le_bytes (member_count c)"
| "layout_payload (Hilbert h) = to_le_bytes (hilbert_order h) @ to_le_bytes (hilbert_rank h)"
| "layout_payload (PrivateExtension p) =
     to_le_bytes (extension_layout_id p) @
     to_le_bytes (word_of_nat (length (extension_data p)) :: u32) @ extension_data p"
| "layout_payload (Unknown u) = []"

section \<open>Well-formed layouts\<close>

text \<open>All vectors of a tiled layout have the tensor's rank.\<close>

fun tiled_fits :: "nat \<Rightarrow> tiled_layout \<Rightarrow> bool" where
  "tiled_fits rk (TiledLayout ts ol il os ins it) \<longleftrightarrow>
     length ts = rk \<and> (case os of None \<Rightarrow> True | Some s \<Rightarrow> length s = rk) \<and>
     (case ins of None \<Rightarrow> True | Some s \<Rightarrow> length s = rk) \<and>
     (case it of None \<Rightarrow> True | Some t \<Rightarrow> tiled_fits rk t)"

primrec layout_ok :: "nat \<Rightarrow> layout_descriptor \<Rightarrow> bool" where
  "layout_ok rk RowMajor = True"
| "layout_ok rk ColMajor = True"
| "layout_ok rk (Strided s) = (length (strides s) = rk)"
| "layout_ok rk (Tiled t) = (tiled_wf MAX_TILED_DEPTH t \<and> tiled_fits rk t)"
| "layout_ok rk (Morton m) =
     (length (morton_bits m) = rk \<and> morton_bits m \<noteq> [] \<and> 0 \<notin> set (morton_bits m))"
| "layout_ok rk (Coo c) = True"
| "layout_ok rk (Csr c) = True"
| "layout_ok rk (Csc c) = True"
| "layout_ok rk (Csf c) =
     (length (mode_order c) = rk \<and> distinct (mode_order c) \<and> (\<forall>d \<in> set (mode_order c). unat d < rk))"
| "layout_ok rk (BlockPaged b) = (layer_index b \<noteq> Some LAYER_INDEX_NONE)"
| "layout_ok rk (Composite c) = (member_count c \<noteq> OPEN_COMPOSITE_SENTINEL)"
| "layout_ok rk (Hilbert h) = (hilbert_order h \<noteq> 0 \<and> 2 \<le> hilbert_rank h)"
| "layout_ok rk (PrivateExtension p) =
     (is_private_tag (priv_tag p) \<and> length (extension_data p) < 2 ^ 32)"
| "layout_ok rk (Unknown u) = False"

section \<open>What the encoder writes\<close>

lemma unat_of_nat_u32: "n < 2 ^ 32 \<Longrightarrow> unat (word_of_nat n :: u32) = n"
  by (simp add: unat_of_nat)

lemma unat_u32_less [simp]: "unat (v :: u32) < 4294967296"
  using unsigned_less [of v, where 'a = nat] by simp

lemma write_strides_if_eq:
  "(s \<noteq> None \<longleftrightarrow> b) \<Longrightarrow> write_strides_if b s w = w\<lparr>w_buf := w_buf w @ tile_stride_bytes s\<rparr>"
  by (auto simp: write_strides_if_def tile_stride_bytes_def writer_simps)

lemma encode_tiled_writes:
  "tiled_wf (MAX_TILED_DEPTH - depth) t \<Longrightarrow>
   encode_tiled t rk w depth = Ok (w\<lparr>w_buf := w_buf w @ tiled_bytes t\<rparr>)"
proof (induction t rk w depth rule: encode_tiled.induct)
  case (1 ts ol il os ins it rk w depth)
  then obtain n where n: "MAX_TILED_DEPTH - depth = Suc n"
    by (cases "MAX_TILED_DEPTH - depth") auto
  then have d: "\<not> MAX_TILED_DEPTH \<le> depth" and n': "MAX_TILED_DEPTH - (depth + 1) = n" by auto
  have wf: "os \<noteq> None \<longleftrightarrow> ol = TAG_STRIDED" "ins \<noteq> None \<longleftrightarrow> il = TAG_STRIDED"
    "it \<noteq> None \<longleftrightarrow> il = TAG_TILED" "case it of None \<Rightarrow> True | Some t \<Rightarrow> tiled_wf n t"
    using "1.prems" n by (auto simp: layout_tag_defs)
  show ?case
  proof (cases it)
    case None
    then show ?thesis using d wf
      by (simp add: Let_def write_strides_if_eq writer_simps)
  next
    case (Some t)
    then have "il = TAG_TILED" "tiled_wf n t" using wf by auto
    then show ?thesis using "1.IH" [OF d refl refl refl refl refl refl _ Some] d wf Some
      by (simp add: Let_def write_strides_if_eq writer_simps n' [simplified])
  qed
qed

lemma encode_layout_payload_writes:
  assumes "layout_ok (unat rk) l"
  shows "encode_layout_payload l rk w = Ok (w\<lparr>w_buf := w_buf w @ layout_payload l\<rparr>)"
  using assms
  by (cases l) (auto simp: encode_layout_payload_def encode_strided_def encode_morton_def
      encode_coo_def encode_csr_def encode_csc_def encode_csf_def encode_block_paged_def
      encode_composite_def encode_hilbert_def encode_private_extension_def encode_tiled_writes
      Let_def writer_simps)

section \<open>What the decoder reads\<close>

lemma check_reserved_replicate [simp]: "check_reserved field (replicate n 0) = Ok ()"
  by (simp add: check_reserved_def)

lemma check_reserved_not_Panic [simp]: "check_reserved field b \<noteq> Panic"
  by (simp add: check_reserved_def)

lemma reads_as_bind_zeros [reads_steps]:
  "reads_as (f (replicate n 0)) cs y \<Longrightarrow>
   reads_as (rd_bind (read_bytes n) f) (replicate n 0 @ cs) y"
  "reads_as (f (replicate n 0)) [] y \<Longrightarrow> reads_as (rd_bind (read_bytes n) f) (replicate n 0) y"
  by (simp_all add: reads_as_bind_bytes reads_as_bind_bytes_last)

lemma tiled_wf_mono: "tiled_wf n t \<Longrightarrow> n \<le> m \<Longrightarrow> tiled_wf m t"
proof (induction n t arbitrary: m rule: tiled_wf.induct)
  case (2 n ts ol il os ins it)
  then obtain k where "m = Suc k" "n \<le> k" by (cases m) auto
  with 2 show ?case by (auto split: option.splits)
qed simp

lemma tiled_wf_step:
  "tiled_wf m (TiledLayout ts ol il os ins it) \<Longrightarrow> (\<And>t. it = Some t \<Longrightarrow> tiled_wf n t) \<Longrightarrow>
   tiled_wf (Suc n) (TiledLayout ts ol il os ins it)"
  by (cases m) (auto split: option.splits)

lemma reads_as_strides_if:
  assumes "s \<noteq> None \<longleftrightarrow> b" and "case s of None \<Rightarrow> True | Some ss \<Rightarrow> length ss = unat rk"
  shows "reads_as (read_strides_if b rk) (tile_stride_bytes s) s"
  using assms
  by (cases s) (auto simp: read_strides_if_def tile_stride_bytes_def intro: reads_as_ret reads_steps)

lemma reads_as_tiled:
  "tiled_wf (MAX_TILED_DEPTH - depth) t \<Longrightarrow> tiled_fits (unat rk) t \<Longrightarrow>
   reads_as (decode_tiled rk depth) (tiled_bytes t) t"
proof (induction rk depth arbitrary: t rule: decode_tiled.induct)
  case (1 rk depth)
  obtain ts ol il os ins it where t: "t = TiledLayout ts ol il os ins it" by (cases t)
  from "1.prems" obtain n where n: "MAX_TILED_DEPTH - depth = Suc n"
    by (cases "MAX_TILED_DEPTH - depth") auto
  then have d: "\<not> MAX_TILED_DEPTH \<le> depth" and n': "MAX_TILED_DEPTH - (depth + 1) = n" by auto
  have wf: "os \<noteq> None \<longleftrightarrow> ol = TAG_STRIDED" "ins \<noteq> None \<longleftrightarrow> il = TAG_STRIDED"
    "it \<noteq> None \<longleftrightarrow> il = TAG_TILED" "case it of None \<Rightarrow> True | Some t \<Rightarrow> tiled_wf n t"
    using "1.prems"(1) n by (auto simp: layout_tag_defs t)
  have fits: "length ts = unat rk" "case os of None \<Rightarrow> True | Some ss \<Rightarrow> length ss = unat rk"
    "case ins of None \<Rightarrow> True | Some ss \<Rightarrow> length ss = unat rk"
    "case it of None \<Rightarrow> True | Some t \<Rightarrow> tiled_fits (unat rk) t"
    using "1.prems"(2) by (auto simp: t)
  have new: "tiled_new ts ol il os ins it = Ok t"
    using "1.prems"(1) tiled_wf_mono [of "MAX_TILED_DEPTH - depth" t MAX_TILED_DEPTH]
    by (simp add: tiled_new_Ok t)
  have inner: "reads_as (if il = TAG_TILED
        then rd_bind (decode_tiled rk (depth + 1)) (\<lambda>t. rd_ret (Some t)) else rd_ret None)
      (case it of None \<Rightarrow> [] | Some t \<Rightarrow> tiled_bytes t) it"
  proof (cases it)
    case None
    then show ?thesis using wf(3) by (simp add: reads_as_ret)
  next
    case (Some u)
    have "reads_as (decode_tiled rk (depth + 1)) (tiled_bytes u) u"
      by (rule "1.IH" [OF d refl]) (use wf fits Some n' in auto)
    with Some wf(3) show ?thesis by (auto intro: reads_as_bind_last reads_as_ret)
  qed
  show ?case
    unfolding decode_tiled.simps [of rk depth] t tiled_bytes.simps
    using d fits(1)
    by (simp only: if_False)
      (intro reads_steps reads_as_bind [OF reads_as_strides_if [OF wf(1) fits(2)]]
        reads_as_bind [OF reads_as_strides_if [OF wf(2) fits(3)]] reads_as_bind_last [OF inner]
        reads_as_lift; simp add: new t)
qed


lemma composition_rule_roundtrip [simp]:
  "composition_rule_from_wire (rule_byte r) (combine_op_byte r) = Ok r"
  by (cases r; (cases "case r of Overlay x \<Rightarrow> x | _ \<Rightarrow> Add")?)
    (auto simp: composition_rule_from_wire_def word_le_nat_alt)

lemma block_paged_bytes_roundtrip [simp]:
  "kv_role_from_wire (kv_role_wire_byte k) = Some k"
  "index_type_from_wire (index_type_wire_byte i) = Some i"
  by (cases k; simp add: kv_role_from_wire_def) (cases i; simp add: index_type_from_wire_def)

lemma u8_of_bool_nonzero [simp]: "u8_of_bool b \<noteq> 0 \<longleftrightarrow> b"
  by (simp add: u8_of_bool_def)

lemma reads_as_layout_payload:
  assumes ok: "layout_ok (unat rk) l" and rk: "unat rk \<le> MAX_RANK"
  shows "reads_as (decode_layout_payload (layout_tag l) rk 0) (layout_payload l) l"
proof (cases l)
  case RowMajor
  then show ?thesis by (simp add: decode_layout_payload_def MAX_TILED_DEPTH_def reads_as_ret)
next
  case ColMajor
  then show ?thesis
    by (simp add: decode_layout_payload_def MAX_TILED_DEPTH_def reads_as_ret layout_tag_defs)
next
  case (Strided s)
  have "reads_as (decode_strided rk) (concat (map to_le_bytes (strides s))) l"
    unfolding decode_strided_def using ok Strided
    by (intro reads_steps reads_as_ret_eq) (simp_all add: strided_new_def)
  then show ?thesis
    by (simp add: Strided decode_layout_payload_def MAX_TILED_DEPTH_def layout_tag_defs)
next
  case (Tiled t)
  have "reads_as (rd_bind (decode_tiled rk 0) (\<lambda>l. rd_ret (Tiled l))) (tiled_bytes t) l"
    using ok Tiled by (intro reads_as_bind_last [OF reads_as_tiled] reads_as_ret_eq) simp_all
  then show ?thesis
    by (simp add: Tiled decode_layout_payload_def MAX_TILED_DEPTH_def layout_tag_defs)
next
  case (Morton m)
  have "reads_as (decode_morton rk) (concat (map to_le_bytes (morton_bits m))) l"
    unfolding decode_morton_def using ok Morton
    by (intro reads_steps reads_as_ret_eq) (simp_all add: morton_new_def)
  then show ?thesis
    by (simp add: Morton decode_layout_payload_def MAX_TILED_DEPTH_def layout_tag_defs)
next
  case (Coo c)
  have "reads_as decode_coo (layout_payload l) l"
    unfolding decode_coo_def Coo layout_payload.simps
    by (intro reads_steps reads_as_ret_eq) (simp_all add: coo_new_def)
  then show ?thesis
    by (simp add: Coo decode_layout_payload_def MAX_TILED_DEPTH_def layout_tag_defs)
next
  case (Csr c)
  have "reads_as decode_csr (layout_payload l) l"
    unfolding decode_csr_def Csr layout_payload.simps
    by (intro reads_steps reads_as_ret_eq) (simp_all add: csr_new_def)
  then show ?thesis
    by (simp add: Csr decode_layout_payload_def MAX_TILED_DEPTH_def layout_tag_defs)
next
  case (Csc c)
  have "reads_as decode_csc (layout_payload l) l"
    unfolding decode_csc_def Csc layout_payload.simps
    by (intro reads_steps reads_as_ret_eq) (simp_all add: csc_new_def)
  then show ?thesis
    by (simp add: Csc decode_layout_payload_def MAX_TILED_DEPTH_def layout_tag_defs)
next
  case (Csf c)
  have "reads_as (decode_csf rk) (layout_payload l) l"
    unfolding decode_csf_def Csf layout_payload.simps using ok rk Csf
    by (intro reads_steps reads_as_ret_eq)
      (simp_all add: csf_new_def mode_order_check_Ok MAX_RANK_def)
  then show ?thesis
    by (simp add: Csf decode_layout_payload_def MAX_TILED_DEPTH_def layout_tag_defs)
next
  case (BlockPaged b)
  have "reads_as decode_block_paged (layout_payload l) l"
    unfolding decode_block_paged_def BlockPaged layout_payload.simps using ok BlockPaged
    by (intro reads_steps reads_as_ret_eq)
      (auto simp: block_paged_new_def ok_or_def split: option.splits)
  then show ?thesis
    by (simp add: BlockPaged decode_layout_payload_def MAX_TILED_DEPTH_def layout_tag_defs)
next
  case (Composite c)
  have "reads_as decode_composite (layout_payload l) l"
    unfolding decode_composite_def Composite layout_payload.simps using ok Composite
    by (intro reads_steps reads_as_ret_eq)
      (auto simp: composite_layout_new_def intro: composite_layout.equality)
  then show ?thesis
    by (simp add: Composite decode_layout_payload_def MAX_TILED_DEPTH_def layout_tag_defs)
next
  case (Hilbert h)
  have "reads_as decode_hilbert (layout_payload l) l"
    unfolding decode_hilbert_def Hilbert layout_payload.simps using ok Hilbert
    by (intro reads_steps reads_as_ret_eq) (simp_all add: hilbert_new_def not_less)
  then show ?thesis
    by (simp add: Hilbert decode_layout_payload_def MAX_TILED_DEPTH_def layout_tag_defs)
next
  case (PrivateExtension p)
  have "reads_as (decode_private_extension (priv_tag p)) (layout_payload l) l"
    unfolding decode_private_extension_def PrivateExtension layout_payload.simps
    using ok PrivateExtension
    by (intro reads_steps reads_as_bind_bytes_last reads_as_ret_eq)
      (simp_all add: private_extension_new_def is_private_tag_def unat_of_nat_u32)
  moreover have "\<not> is_named_tag (priv_tag p)"
    using ok PrivateExtension tag_classes_disjoint by auto
  moreover have "0xF0 \<le> priv_tag p \<and> priv_tag p \<le> 0xFE"
    using ok PrivateExtension by (simp add: is_private_tag_def layout_tag_defs)
  ultimately show ?thesis
    by (simp add: PrivateExtension decode_layout_payload_def MAX_TILED_DEPTH_def is_named_tag_def)
next
  case (Unknown u)
  then show ?thesis using ok by simp
qed

section \<open>What the decoder accepts\<close>

lemma dec_post_strides_if:
  "dec_post (read_strides_if b rk) (\<lambda>s n. (s \<noteq> None \<longleftrightarrow> b) \<and>
     (case s of None \<Rightarrow> True | Some ss \<Rightarrow> length ss = unat rk) \<and> n = length (tile_stride_bytes s))"
  unfolding read_strides_if_def
  by (intro dec_steps) (auto simp: tile_stride_bytes_def length_concat_const [where k = 8])

definition tiled_post :: "nat \<Rightarrow> u32 \<Rightarrow> tiled_layout \<Rightarrow> nat \<Rightarrow> bool" where
  "tiled_post n rk t m \<longleftrightarrow> tiled_wf n t \<and> tiled_fits (unat rk) t \<and> m = length (tiled_bytes t)"

lemma dec_post_tiled: "dec_post (decode_tiled rk depth) (tiled_post (MAX_TILED_DEPTH - depth) rk)"
proof (induction rk depth rule: decode_tiled.induct)
  case (1 rk depth)
  show ?case
  proof (cases "MAX_TILED_DEPTH \<le> depth")
    case True
    then show ?thesis by (simp add: decode_tiled.simps [of rk depth])
  next
    case d: False
    define n where "n = MAX_TILED_DEPTH - (depth + 1)"
    then have n: "MAX_TILED_DEPTH - depth = Suc n" using d by simp
    have inner: "dec_post (if il = TAG_TILED
        then rd_bind (decode_tiled rk (depth + 1)) (\<lambda>t. rd_ret (Some t)) else rd_ret None)
        (\<lambda>it m. (it \<noteq> None \<longleftrightarrow> il = TAG_TILED) \<and>
          (case it of None \<Rightarrow> m = 0 | Some t \<Rightarrow> tiled_post n rk t m))" for il
    proof (cases "il = TAG_TILED")
      case True
      then have "dec_post (decode_tiled rk (depth + 1)) (tiled_post n rk)"
        using "1.IH" [OF d True] by (simp add: n_def)
      then show ?thesis using True
        by (auto intro!: dec_post_bind [where Q = "tiled_post n rk"] dec_post_ret)
    next
      case False
      then show ?thesis by (auto intro: dec_post_ret)
    qed
    show ?thesis
      unfolding decode_tiled.simps [of rk depth] if_not_P [OF d] n
      by (intro dec_steps dec_post_bind [OF dec_post_strides_if] dec_post_bind [OF inner] dec_post_lift)
        (auto simp: tiled_new_Ok tiled_post_def length_concat_const [where k = 8]
          simp del: tiled_wf.simps intro!: tiled_wf_step split: option.splits)
  qed
qed

lemma rule_from_wire_not_Panic [simp]: "composition_rule_from_wire a b \<noteq> Panic"
  by (simp add: composition_rule_from_wire_def)

lemma layout_new_not_Panic [simp]:
  "morton_new b \<noteq> Panic" "hilbert_new a c \<noteq> Panic" "private_extension_new t i d \<noteq> Panic"
  "composite_layout_new r n \<noteq> Panic"
  by (simp_all add: morton_new_def hilbert_new_def private_extension_new_def composite_layout_new_def)

definition payload_post :: "u32 \<Rightarrow> u8 \<Rightarrow> layout_descriptor \<Rightarrow> nat \<Rightarrow> bool" where
  "payload_post rk t l n \<longleftrightarrow>
     layout_ok (unat rk) l \<and> layout_tag l = t \<and> n = length (layout_payload l)"

lemma dec_post_sparse_payloads:
  "dec_post (decode_strided rk) (payload_post rk TAG_STRIDED)"
  "dec_post (decode_morton rk) (payload_post rk TAG_MORTON)"
  "dec_post decode_coo (payload_post rk TAG_COO)"
  "dec_post decode_csr (payload_post rk TAG_CSR)"
  "dec_post decode_csc (payload_post rk TAG_CSC)"
  "dec_post decode_hilbert (payload_post rk TAG_HILBERT)"
  unfolding decode_strided_def decode_morton_def decode_coo_def decode_csr_def decode_csc_def
    decode_hilbert_def
  by (intro dec_steps; auto simp: payload_post_def strided_new_def morton_new_def coo_new_def
      csr_new_def csc_new_def hilbert_new_def length_concat_const [where k = 8]
      length_concat_const [where k = 4] not_less split: if_splits)+

lemma dec_post_csf:
  "unat rk \<le> MAX_RANK \<Longrightarrow> dec_post (decode_csf rk) (payload_post rk TAG_CSF)"
  unfolding decode_csf_def
  by (intro dec_steps)
    (auto simp: payload_post_def csf_new_def mode_order_check_Ok MAX_RANK_def
      length_concat_const [where k = 4])

lemma dec_post_block_paged: "dec_post decode_block_paged (payload_post rk TAG_BLOCK_PAGED)"
  unfolding decode_block_paged_def
  by (intro dec_steps) (auto simp: payload_post_def block_paged_new_def)

lemma dec_post_composite: "dec_post decode_composite (payload_post rk TAG_COMPOSITE)"
  unfolding decode_composite_def
  by (intro dec_steps)
    (auto simp: payload_post_def composite_layout_new_def split: if_splits)

lemma dec_post_private_extension:
  "is_private_tag t \<Longrightarrow> dec_post (decode_private_extension t) (payload_post rk t)"
  unfolding decode_private_extension_def
  by (intro dec_steps)
    (auto simp: payload_post_def private_extension_new_def is_private_tag_def unat_of_nat_u32
      split: if_splits)

lemma dec_post_layout_payload:
  assumes "unat rk \<le> MAX_RANK"
  shows "dec_post (decode_layout_payload t rk 0) (payload_post rk t)"
proof -
  have tiled: "dec_post (rd_bind (decode_tiled rk 0) (\<lambda>l. rd_ret (Tiled l))) (payload_post rk TAG_TILED)"
    by (intro dec_post_bind [OF dec_post_tiled] dec_post_ret) (simp add: payload_post_def tiled_post_def)
  have major: "dec_post (rd_ret RowMajor) (payload_post rk TAG_ROW_MAJOR)"
    "dec_post (rd_ret ColMajor) (payload_post rk TAG_COL_MAJOR)"
    by (intro dec_post_ret; simp add: payload_post_def)+
  have priv: "0xF0 \<le> t \<and> t \<le> 0xFE \<Longrightarrow> dec_post (decode_private_extension t) (payload_post rk t)"
    by (rule dec_post_private_extension) (simp add: is_private_tag_def layout_tag_defs)
  show ?thesis
    unfolding decode_layout_payload_def
    by (intro dec_post_if; (simp add: tiled major priv dec_post_sparse_payloads dec_post_csf [OF assms]
        dec_post_block_paged dec_post_composite)?)
qed


section \<open>The codec as a wire format\<close>

text \<open>The ranks a descriptor can have, as the codec receives them.\<close>

definition capped_rank :: "nat \<Rightarrow> u32" where
  "capped_rank n = word_of_nat (min n MAX_RANK)"

lemma unat_capped_rank [simp]: "unat (capped_rank n) = min n MAX_RANK"
  by (simp add: capped_rank_def unat_of_nat MAX_RANK_def min_def)

lemma capped_rank_unat: "unat rk \<le> MAX_RANK \<Longrightarrow> capped_rank (unat rk) = rk"
  by (simp add: capped_rank_def min_def)

interpretation payload: wire_format
  layout_payload
  "decode_layout_payload tag (capped_rank n) 0"
  "\<lambda>l. layout_ok (min n MAX_RANK) l \<and> layout_tag l = tag"
  "\<lambda>l. encode_layout_payload l (capped_rank n)"
  for tag n
proof
  fix l assume "layout_ok (min n MAX_RANK) l \<and> layout_tag l = tag"
  then show "reads_as (decode_layout_payload tag (capped_rank n) 0) (layout_payload l) l"
    using reads_as_layout_payload [of "capped_rank n" l] by auto
next
  show "dec_post (decode_layout_payload tag (capped_rank n) 0)
     (\<lambda>l m. (layout_ok (min n MAX_RANK) l \<and> layout_tag l = tag) \<and> m = length (layout_payload l))"
    using dec_post_layout_payload [of "capped_rank n" tag]
    by (rule dec_post_mono) (auto simp: payload_post_def)
next
  fix l w assume "layout_ok (min n MAX_RANK) l \<and> layout_tag l = tag"
  then show "encode_layout_payload l (capped_rank n) w =
      Ok (w\<lparr>w_buf := w_buf w @ layout_payload l\<rparr>)"
    by (simp add: encode_layout_payload_writes)
qed

section \<open>Properties\<close>

text \<open>
  C36. Layout payload round trip. For every layout that is well formed for the rank, the encoder
  succeeds, and decoding what it wrote, under the layout's tag and with any bytes behind it, returns
  the layout and stops exactly at the end of what was written.
\<close>

theorem layout_payload_roundtrip:
  assumes "unat rk \<le> MAX_RANK" and "layout_ok (unat rk) l"
  shows "\<exists>bs. encode_layout_payload l rk \<lparr>w_buf = []\<rparr> = Ok \<lparr>w_buf = bs\<rparr> \<and>
    decode_layout_payload (layout_tag l) rk 0 (cursor_new (bs @ rest) (length (bs @ rest))) =
      Ok (l, \<lparr>cur_data = bs @ rest, cur_pos = length bs, cur_limit = length (bs @ rest)\<rparr>)"
  using assms payload.writes [where n = "unat rk" and x = l and tag = "layout_tag l"]
    payload.decode_encoded [where n = "unat rk" and x = l and tag = "layout_tag l"]
  by (simp add: capped_rank_unat)

theorem layout_payload_roundtrip_witness:
  "\<exists>bs. encode_layout_payload (Strided \<lparr>strides = [4, -1]\<rparr>) 2 \<lparr>w_buf = []\<rparr> = Ok \<lparr>w_buf = bs\<rparr> \<and>
    decode_layout_payload TAG_STRIDED 2 0 (cursor_new (bs @ [7]) (length (bs @ [7]))) =
      Ok (Strided \<lparr>strides = [4, -1]\<rparr>,
          \<lparr>cur_data = bs @ [7], cur_pos = length bs, cur_limit = length (bs @ [7])\<rparr>)"
  using layout_payload_roundtrip [of 2 "Strided \<lparr>strides = [4, -1]\<rparr>" "[7]"]
  by (simp add: MAX_RANK_def)

text \<open>
  C37. The layout decoder is total and precise on arbitrary input: on any bytes, for any tag and any
  rank up to the maximum, it never panics; when it accepts, the layout has the tag it was decoded
  for, is well formed for the rank (so a tiled layout has at most \<open>MAX_TILED_DEPTH\<close> levels, a CSF mode
  order is a permutation), and takes exactly the bytes that encoding it again would take.
\<close>

theorem layout_payload_accepts_only_ok:
  assumes "unat rk \<le> MAX_RANK"
  shows "decode_layout_payload t rk 0 (cursor_new data limit) \<noteq> Panic \<and>
    (decode_layout_payload t rk 0 (cursor_new data limit) = Ok (l, c) \<longrightarrow>
      layout_ok (unat rk) l \<and> layout_tag l = t \<and> cur_pos c = length (layout_payload l))"
proof (intro conjI impI)
  show "decode_layout_payload t rk 0 (cursor_new data limit) \<noteq> Panic"
    using payload.never_panics [OF cursor_ok_new, where n = "unat rk"] assms
    by (simp add: capped_rank_unat)
next
  assume "decode_layout_payload t rk 0 (cursor_new data limit) = Ok (l, c)"
  then have "(layout_ok (min (unat rk) MAX_RANK) l \<and> layout_tag l = t) \<and>
      cur_pos c = cur_pos (cursor_new data limit) + length (layout_payload l)"
    using payload.redecode [OF cursor_ok_new, where n = "unat rk" and x = l and tag = t and c' = c] assms
    by (simp add: capped_rank_unat)
  then show "layout_ok (unat rk) l" "layout_tag l = t" "cur_pos c = length (layout_payload l)"
    using assms by (simp_all add: cursor_new_def)
qed

theorem layout_payload_accepts_only_ok_witness:
  "decode_layout_payload TAG_CSF 3 0 (cursor_new [] 0) \<noteq> Panic \<and> layout_ok 0 RowMajor"
  using layout_payload_accepts_only_ok [of 3 TAG_CSF "[]" 0]
    layout_payload_accepts_only_ok [of 0 TAG_ROW_MAJOR "[]" 0 RowMajor "cursor_new [] 0"]
  by (simp add: MAX_RANK_def)

text \<open>
  Payloads are prefix-free: two well-formed layouts with the same tag whose encodings begin the
  same byte string are equal, and leave the same rest. The format needs no length in front of the
  payload.
\<close>

theorem layout_payload_prefix_free:
  assumes "unat rk \<le> MAX_RANK" and "layout_ok (unat rk) l" and "layout_ok (unat rk) l'"
    and "layout_tag l = layout_tag l'"
    and "encode_layout_payload l rk w = Ok w1" and "encode_layout_payload l' rk w = Ok w2"
    and "w_buf w1 @ s = w_buf w2 @ t"
  shows "l = l' \<and> s = t"
proof (rule payload.prefix_free [where n = "unat rk" and tag = "layout_tag l"])
  show "layout_ok (min (unat rk) MAX_RANK) l \<and> layout_tag l = layout_tag l"
    "layout_ok (min (unat rk) MAX_RANK) l' \<and> layout_tag l' = layout_tag l"
    using assms by simp_all
  have "w1 = w\<lparr>w_buf := w_buf w @ layout_payload l\<rparr>" "w2 = w\<lparr>w_buf := w_buf w @ layout_payload l'\<rparr>"
    using assms(2,3,5,6) by (simp_all add: encode_layout_payload_writes)
  with assms(7) show "layout_payload l @ s = layout_payload l' @ t" by simp
qed

theorem layout_payload_prefix_free_witness:
  "layout_payload (Csr \<lparr>csr_nnz = 5\<rparr>) @ [1] \<noteq> layout_payload (Csr \<lparr>csr_nnz = 6\<rparr>) @ [1]"
proof
  assume "layout_payload (Csr \<lparr>csr_nnz = 5\<rparr>) @ [1] = layout_payload (Csr \<lparr>csr_nnz = 6\<rparr>) @ [1]"
  then have "Csr \<lparr>csr_nnz = 5\<rparr> = Csr \<lparr>csr_nnz = 6\<rparr> \<and> [1 :: u8] = [1]"
    by (intro layout_payload_prefix_free [of 2 _ _ "\<lparr>w_buf = []\<rparr>"
        "\<lparr>w_buf = layout_payload (Csr \<lparr>csr_nnz = 5\<rparr>)\<rparr>" "\<lparr>w_buf = layout_payload (Csr \<lparr>csr_nnz = 6\<rparr>)\<rparr>"])
      (simp_all add: MAX_RANK_def encode_layout_payload_writes del: layout_payload.simps)
  then show False by simp
qed

end
