(* ===== verification/Buffers.thy ===== *)
theory Buffers
  imports Errors
begin

text \<open>
  Buffer handles (\<open>hurray-core/src/buffer.rs\<close>): synchronisation modes, device tags and memory
  classes with their wire bytes, the validated handle constructors and the co-location check.
\<close>

definition MIN_BUFFER_ALIGNMENT :: u32 where
  "MIN_BUFFER_ALIGNMENT = 64"

definition PAGE_ALIGNMENT :: u32 where
  "PAGE_ALIGNMENT = 4096"

section \<open>Synchronisation modes\<close>

datatype sync_mode = ProducerSynced | Event | ConsumerStream

definition sync_mode_from_byte :: "u8 \<Rightarrow> sync_mode core_result" where
  "sync_mode_from_byte b =
     (if b = 0x00 then Ok ProducerSynced
      else if b = 0x01 then Ok Event
      else if b = 0x02 then Ok ConsumerStream
      else Err (InvalidSyncMode b))"

fun sync_mode_to_byte :: "sync_mode \<Rightarrow> u8" where
  "sync_mode_to_byte ProducerSynced = 0x00"
| "sync_mode_to_byte Event = 0x01"
| "sync_mode_to_byte ConsumerStream = 0x02"

section \<open>Device tags\<close>

text \<open>\<open>DevPrivate\<close> carries the byte of the source's \<open>PrivateTag\<close> wrapper.\<close>

datatype device_tag =
    Cpu | Cuda | Rocm | Metal | Vulkan | WebGpu | Hexagon | LevelZero | OpenCl
  | DevPrivate u8

definition device_tag_from_byte :: "u8 \<Rightarrow> device_tag core_result" where
  "device_tag_from_byte b =
     (if b = 0x00 then Ok Cpu
      else if b = 0x01 then Ok Cuda
      else if b = 0x02 then Ok Rocm
      else if b = 0x03 then Ok Metal
      else if b = 0x04 then Ok Vulkan
      else if b = 0x05 then Ok WebGpu
      else if b = 0x06 then Ok Hexagon
      else if b = 0x07 then Ok LevelZero
      else if b = 0x08 then Ok OpenCl
      else if 0x09 \<le> b \<and> b \<le> 0xEF then Err (ReservedDeviceTag b)
      else if 0xF0 \<le> b \<and> b \<le> 0xFE then Ok (DevPrivate b)
      else Err (InvalidDeviceTag b))"

fun device_tag_to_byte :: "device_tag \<Rightarrow> u8" where
  "device_tag_to_byte Cpu = 0x00"
| "device_tag_to_byte Cuda = 0x01"
| "device_tag_to_byte Rocm = 0x02"
| "device_tag_to_byte Metal = 0x03"
| "device_tag_to_byte Vulkan = 0x04"
| "device_tag_to_byte WebGpu = 0x05"
| "device_tag_to_byte Hexagon = 0x06"
| "device_tag_to_byte LevelZero = 0x07"
| "device_tag_to_byte OpenCl = 0x08"
| "device_tag_to_byte (DevPrivate t) = t"

fun device_tag_is_private :: "device_tag \<Rightarrow> bool" where
  "device_tag_is_private (DevPrivate _) = True"
| "device_tag_is_private _ = False"

section \<open>Memory classes\<close>

datatype memory_class = Standard | HostPinned | Unified | Peer | MemPrivate u8

definition memory_class_from_byte :: "u8 \<Rightarrow> memory_class core_result" where
  "memory_class_from_byte b =
     (if b = 0x00 then Ok Standard
      else if b = 0x01 then Ok HostPinned
      else if b = 0x02 then Ok Unified
      else if b = 0x03 then Ok Peer
      else if 0x04 \<le> b \<and> b \<le> 0xEF then Err (ReservedMemoryClass b)
      else if 0xF0 \<le> b \<and> b \<le> 0xFE then Ok (MemPrivate b)
      else Err (InvalidMemoryClass b))"

fun memory_class_to_byte :: "memory_class \<Rightarrow> u8" where
  "memory_class_to_byte Standard = 0x00"
| "memory_class_to_byte HostPinned = 0x01"
| "memory_class_to_byte Unified = 0x02"
| "memory_class_to_byte Peer = 0x03"
| "memory_class_to_byte (MemPrivate p) = p"

fun memory_class_is_private :: "memory_class \<Rightarrow> bool" where
  "memory_class_is_private (MemPrivate _) = True"
| "memory_class_is_private _ = False"

section \<open>Buffer handles\<close>

record buffer_handle =
  byte_size :: u64
  alignment :: u32
  device_tag :: device_tag
  sync_mode :: sync_mode
  memory_class :: memory_class

definition handle_with_memory_class ::
  "u64 \<Rightarrow> u32 \<Rightarrow> device_tag \<Rightarrow> sync_mode \<Rightarrow> memory_class \<Rightarrow> buffer_handle core_result" where
  "handle_with_memory_class sz align dev sync mem =
     (if \<not> is_power_of_two align then Err (AlignmentNotPowerOfTwo align)
      else if sz > 0 \<and> align < MIN_BUFFER_ALIGNMENT
      then Err (AlignmentBelowMinimum align MIN_BUFFER_ALIGNMENT)
      else if dev = Cpu \<and> sync \<noteq> ProducerSynced then Err (InvalidSyncMode (sync_mode_to_byte sync))
      else Ok \<lparr>byte_size = sz, alignment = align, device_tag = dev, sync_mode = sync,
               memory_class = mem\<rparr>)"

definition handle_new :: "u64 \<Rightarrow> u32 \<Rightarrow> device_tag \<Rightarrow> sync_mode \<Rightarrow> buffer_handle core_result" where
  "handle_new sz align dev sync = handle_with_memory_class sz align dev sync Standard"

definition handle_empty :: "device_tag \<Rightarrow> buffer_handle" where
  "handle_empty dev =
     \<lparr>byte_size = 0, alignment = 1, device_tag = dev, sync_mode = ProducerSynced,
      memory_class = Standard\<rparr>"

definition handle_is_empty :: "buffer_handle \<Rightarrow> bool" where
  "handle_is_empty h = (byte_size h = 0)"

text \<open>The loop of \<open>validate_colocation\<close> over the handles after the first.\<close>

fun check_colocated :: "device_tag \<Rightarrow> memory_class \<Rightarrow> buffer_handle list \<Rightarrow> unit core_result" where
  "check_colocated tag cls [] = Ok ()"
| "check_colocated tag cls (h # hs) =
     (if device_tag h \<noteq> tag
      then Err (DeviceTagMismatch (device_tag_to_byte tag) (device_tag_to_byte (device_tag h)))
      else if memory_class h \<noteq> cls
      then Err (MemoryClassMismatch (memory_class_to_byte cls) (memory_class_to_byte (memory_class h)))
      else check_colocated tag cls hs)"

definition validate_colocation :: "buffer_handle list \<Rightarrow> device_tag core_result" where
  "validate_colocation handles =
     (case handles of
        [] \<Rightarrow> Err EmptyBufferList
      | first # rest \<Rightarrow>
          r_bind (check_colocated (device_tag first) (memory_class first) rest)
            (\<lambda>_. Ok (device_tag first)))"

section \<open>Properties\<close>

text \<open>A tag that is not private, or private with its byte in the private range: the values the
  source's constructors can build (the wrapped byte of \<open>PrivateTag\<close> is not public).\<close>

definition device_tag_ok :: "device_tag \<Rightarrow> bool" where
  "device_tag_ok t = (case t of DevPrivate b \<Rightarrow> 0xF0 \<le> b \<and> b \<le> 0xFE | _ \<Rightarrow> True)"

definition memory_class_ok :: "memory_class \<Rightarrow> bool" where
  "memory_class_ok c = (case c of MemPrivate b \<Rightarrow> 0xF0 \<le> b \<and> b \<le> 0xFE | _ \<Rightarrow> True)"

definition handle_ok :: "buffer_handle \<Rightarrow> bool" where
  "handle_ok h \<longleftrightarrow>
     is_power_of_two (alignment h) \<and>
     (byte_size h > 0 \<longrightarrow> MIN_BUFFER_ALIGNMENT \<le> alignment h) \<and>
     (device_tag h = Cpu \<longrightarrow> sync_mode h = ProducerSynced) \<and>
     device_tag_ok (device_tag h) \<and> memory_class_ok (memory_class h)"

lemma sync_mode_roundtrip [simp]: "sync_mode_from_byte (sync_mode_to_byte m) = Ok m"
  by (cases m) (simp_all add: sync_mode_from_byte_def)

lemma device_tag_roundtrip [simp]:
  "device_tag_ok t \<Longrightarrow> device_tag_from_byte (device_tag_to_byte t) = Ok t"
  by (cases t) (auto simp: device_tag_from_byte_def device_tag_ok_def word_le_nat_alt)

lemma memory_class_roundtrip [simp]:
  "memory_class_ok c \<Longrightarrow> memory_class_from_byte (memory_class_to_byte c) = Ok c"
  by (cases c) (auto simp: memory_class_from_byte_def memory_class_ok_def word_le_nat_alt)

lemma device_tag_from_byte_Ok:
  "device_tag_from_byte b = Ok t \<Longrightarrow> device_tag_ok t \<and> device_tag_to_byte t = b"
  by (auto simp: device_tag_from_byte_def device_tag_ok_def split: if_splits)

lemma memory_class_from_byte_Ok:
  "memory_class_from_byte b = Ok c \<Longrightarrow> memory_class_ok c \<and> memory_class_to_byte c = b"
  by (auto simp: memory_class_from_byte_def memory_class_ok_def split: if_splits)

lemma from_byte_not_Panic [simp]:
  "sync_mode_from_byte b \<noteq> Panic" "device_tag_from_byte b \<noteq> Panic" "memory_class_from_byte b \<noteq> Panic"
  by (auto simp: sync_mode_from_byte_def device_tag_from_byte_def memory_class_from_byte_def)

lemma handle_with_memory_class_not_Panic [simp]:
  "handle_with_memory_class s a d m c \<noteq> Panic"
  by (auto simp: handle_with_memory_class_def)

lemma handle_with_memory_class_Ok:
  "handle_with_memory_class s a d m c = Ok h \<longleftrightarrow>
     h = \<lparr>byte_size = s, alignment = a, device_tag = d, sync_mode = m, memory_class = c\<rparr> \<and>
     is_power_of_two a \<and> (s > 0 \<longrightarrow> MIN_BUFFER_ALIGNMENT \<le> a) \<and> (d = Cpu \<longrightarrow> m = ProducerSynced)"
  by (auto simp: handle_with_memory_class_def not_less not_le)

lemma handle_with_memory_class_fields:
  "handle_ok h \<Longrightarrow>
   handle_with_memory_class (byte_size h) (alignment h) (device_tag h) (sync_mode h) (memory_class h) = Ok h"
  by (auto simp: handle_with_memory_class_Ok handle_ok_def)

lemma handle_empty_ok: "device_tag_ok d \<Longrightarrow> handle_ok (handle_empty d)"
  by (simp add: handle_ok_def handle_empty_def memory_class_ok_def is_power_of_two_def pow2_nat.simps)

lemma check_colocated_Ok:
  "check_colocated tag cls hs = Ok () \<longleftrightarrow>
     (\<forall>h \<in> set hs. device_tag h = tag \<and> memory_class h = cls)"
  by (induction hs) auto

text \<open>
  \<open>validate_colocation\<close> accepts a buffer list exactly when it is not empty and all its handles
  agree on device tag and memory class; it then returns their device tag.
\<close>

theorem validate_colocation_iff:
  "validate_colocation hs = Ok d \<longleftrightarrow>
     hs \<noteq> [] \<and> (\<exists>cls. \<forall>h \<in> set hs. device_tag h = d \<and> memory_class h = cls)"
  by (cases hs) (auto simp: validate_colocation_def r_bind_Ok_iff check_colocated_Ok)

theorem validate_colocation_iff_witness:
  "validate_colocation [handle_empty Cuda, handle_empty Cuda] = Ok Cuda \<and>
   validate_colocation [handle_empty Cuda, handle_empty Cpu] \<noteq> Ok Cuda"
  using validate_colocation_iff [of "[handle_empty Cuda, handle_empty Cuda]" Cuda]
    validate_colocation_iff [of "[handle_empty Cuda, handle_empty Cpu]" Cuda]
  by (simp add: handle_empty_def)

end
