(* ===== verification/Sections.thy ===== *)
theory Sections
  imports Layout_Codec Buffers
begin

text \<open>
  The optional sections of a descriptor: shard, statistics, extension type, composite member
  (\<open>hurray-core/src/descriptor/\<close> \<open>shard.rs\<close>, \<open>statistics.rs\<close>, \<open>ext_type.rs\<close>, \<open>composite_member.rs\<close>), and one
  row of the buffer table (the loops in \<open>encode.rs\<close> and \<open>decode.rs\<close>). Each is an interpretation of
  \<open>wire_format\<close>.
\<close>

section \<open>Shard\<close>

record shard_descriptor =
  parent_shape :: "u64 list"
  shard_offset :: "u64 list"

definition shard_new :: "u64 list \<Rightarrow> u64 list \<Rightarrow> shard_descriptor core_result" where
  "shard_new ps so =
     (if length ps \<noteq> length so then Err (InvalidShape ''shard lengths'')
      else Ok \<lparr>parent_shape = ps, shard_offset = so\<rparr>)"

text \<open>The loop \<open>for k in 0..parent_shape.len()\<close>, from index \<open>k\<close> on.\<close>

function shard_check_dims :: "shard_descriptor \<Rightarrow> shape \<Rightarrow> nat \<Rightarrow> unit core_result" where
  "shard_check_dims s sh k =
     (if k \<ge> length (parent_shape s) then Ok ()
      else
        r_bind (index_at (dims sh) k) (\<lambda>dim.
        r_bind (index_at (shard_offset s) k) (\<lambda>offset.
        r_bind (index_at (parent_shape s) k) (\<lambda>parent.
        if saturating_add offset dim > parent then Err (ShardOutOfBounds k offset dim parent)
        else shard_check_dims s sh (k + 1)))))"
  by pat_completeness auto
termination
  by (relation "measure (\<lambda>(s, sh, k). length (parent_shape s) - k)") auto

declare shard_check_dims.simps [simp del]

definition shard_validate_against_shape :: "shard_descriptor \<Rightarrow> shape \<Rightarrow> unit core_result" where
  "shard_validate_against_shape s sh = shard_check_dims s sh 0"

definition shard_encode_into :: "shard_descriptor \<Rightarrow> byte_writer \<Rightarrow> byte_writer" where
  "shard_encode_into s w = fold write_u64_le (shard_offset s) (fold write_u64_le (parent_shape s) w)"

definition shard_decode_from :: "u32 \<Rightarrow> shard_descriptor reader" where
  "shard_decode_from rk =
     rd_bind (read_many (unat rk) read_u64_le) (\<lambda>ps.
     rd_bind (read_many (unat rk) read_u64_le) (\<lambda>so.
     rd_ret \<lparr>parent_shape = ps, shard_offset = so\<rparr>))"

section \<open>Statistics\<close>

definition STATISTICS_RESERVED_MASK :: u32 where
  "STATISTICS_RESERVED_MASK = NOT 0x3F"

record statistics =
  computed_mask :: u32
  stat_nnz :: u64
  sparsity_ratio :: f64
  value_min :: f64
  value_max :: f64
  value_abs_max :: f64
  value_mean :: f64
  value_stddev :: f64
  nm_n :: u8
  nm_m :: u8
  stat_has_nan :: bool
  stat_has_inf :: bool

definition statistics_encode_into :: "statistics \<Rightarrow> byte_writer \<Rightarrow> byte_writer" where
  "statistics_encode_into s w =
     (let w = write_u32_le (computed_mask s) w;
          w = write_u32_le 0 w;
          w = write_u64_le (stat_nnz s) w;
          w = write_f64_le (sparsity_ratio s) w;
          w = write_f64_le (value_min s) w;
          w = write_f64_le (value_max s) w;
          w = write_f64_le (value_abs_max s) w;
          w = write_f64_le (value_mean s) w;
          w = write_f64_le (value_stddev s) w;
          w = write_u8 (nm_n s) w;
          w = write_u8 (nm_m s) w;
          w = write_u8 (u8_of_bool (stat_has_nan s)) w;
          w = write_u8 (u8_of_bool (stat_has_inf s)) w
      in write_zeros 4 w)"

definition statistics_decode_from :: "statistics reader" where
  "statistics_decode_from =
     rd_bind read_u32_le (\<lambda>mask.
     rd_bind read_u32_le (\<lambda>reserved1.
     rd_bind read_u64_le (\<lambda>nnz.
     rd_bind read_f64_le (\<lambda>ratio.
     rd_bind read_f64_le (\<lambda>vmin.
     rd_bind read_f64_le (\<lambda>vmax.
     rd_bind read_f64_le (\<lambda>vabs.
     rd_bind read_f64_le (\<lambda>vmean.
     rd_bind read_f64_le (\<lambda>vstd.
     rd_bind read_u8 (\<lambda>n.
     rd_bind read_u8 (\<lambda>m.
     rd_bind read_u8 (\<lambda>nanb.
     rd_bind read_u8 (\<lambda>infb.
     rd_bind (read_bytes 4) (\<lambda>reserved2.
     if mask AND STATISTICS_RESERVED_MASK \<noteq> 0 then rd_lift (Err (StatisticsReservedMaskBitsSet mask))
     else if reserved1 \<noteq> 0 then rd_lift (Err (ReservedBytesNonZero ''statistics._reserved''))
     else if reserved2 \<noteq> replicate 4 0 then rd_lift (Err (ReservedBytesNonZero ''statistics._reserved2''))
     else rd_ret
       \<lparr>computed_mask = mask, stat_nnz = nnz, sparsity_ratio = ratio, value_min = vmin,
        value_max = vmax, value_abs_max = vabs, value_mean = vmean, value_stddev = vstd,
        nm_n = n, nm_m = m, stat_has_nan = (nanb \<noteq> 0), stat_has_inf = (infb \<noteq> 0)\<rparr>))))))))))))))"

section \<open>Extension type\<close>

record ext_type =
  ext_bit_width :: u32
  packing_factor :: u8
  ext_is_float :: bool
  ext_is_signed :: bool
  sign_bits :: u8
  exponent_bits :: u8
  mantissa_bits :: u8
  exponent_bias :: u32
  ext_has_nan :: bool
  ext_has_inf :: bool

definition validate_packing :: "u32 \<Rightarrow> u8 \<Rightarrow> unit core_result" where
  "validate_packing bw pf =
     (if bw = 0 then Err (ExtensionTypePackingInvalid bw pf)
      else if bw \<ge> 8 then
        (if pf \<noteq> 1 then Err (ExtensionTypePackingInvalid bw pf) else Ok ())
      else
        r_bind (if bw = 1 then Ok 8 else if bw = 2 then Ok 4 else if bw = 4 then Ok 2
                else Err (ExtensionTypePackingInvalid bw pf)) (\<lambda>expected.
        if pf \<noteq> expected then Err (ExtensionTypePackingInvalid bw pf) else Ok ()))"

definition validate_fields :: "bool \<Rightarrow> bool \<Rightarrow> u8 \<Rightarrow> u8 \<Rightarrow> u8 \<Rightarrow> u32 \<Rightarrow> unit core_result" where
  "validate_fields is_fl is_sg sb eb mb bias =
     (if sb > 1 then Err (ExtensionTypeFieldInvalid ''sign_bits'')
      else if is_fl then
        (if is_sg then Err (ExtensionTypeFieldInvalid ''is_signed'') else Ok ())
      else if sb \<noteq> 0 \<or> eb \<noteq> 0 \<or> mb \<noteq> 0 \<or> bias \<noteq> 0
      then Err (ExtensionTypeFieldInvalid ''integer fields'')
      else Ok ())"

definition ext_type_new ::
  "u32 \<Rightarrow> u8 \<Rightarrow> bool \<Rightarrow> bool \<Rightarrow> u8 \<Rightarrow> u8 \<Rightarrow> u8 \<Rightarrow> u32 \<Rightarrow> bool \<Rightarrow> bool \<Rightarrow> ext_type core_result" where
  "ext_type_new bw pf is_fl is_sg sb eb mb bias nanb infb =
     r_bind (validate_packing bw pf) (\<lambda>_.
     r_bind (validate_fields is_fl is_sg sb eb mb bias) (\<lambda>_.
     Ok \<lparr>ext_bit_width = bw, packing_factor = pf, ext_is_float = is_fl, ext_is_signed = is_sg,
         sign_bits = sb, exponent_bits = eb, mantissa_bits = mb, exponent_bias = bias,
         ext_has_nan = nanb, ext_has_inf = infb\<rparr>))"

definition ext_buffer_size_bytes :: "ext_type \<Rightarrow> u64 \<Rightarrow> u64 core_result" where
  "ext_buffer_size_bytes e n =
     (if ext_bit_width e \<ge> 8 then plain_mul n (ucast (ext_bit_width e) div 8)
      else div_ceil n (ucast (packing_factor e)))"

definition ext_type_encode_into :: "ext_type \<Rightarrow> byte_writer \<Rightarrow> byte_writer" where
  "ext_type_encode_into e w =
     (let w = write_u32_le (ext_bit_width e) w;
          w = write_u8 (packing_factor e) w;
          w = write_u8 (u8_of_bool (ext_is_float e)) w;
          w = write_u8 (u8_of_bool (ext_is_signed e)) w;
          w = write_u8 (sign_bits e) w;
          w = write_u8 (exponent_bits e) w;
          w = write_u8 (mantissa_bits e) w;
          w = write_zeros 2 w;
          w = write_u32_le (exponent_bias e) w;
          w = write_u8 (u8_of_bool (ext_has_nan e)) w;
          w = write_u8 (u8_of_bool (ext_has_inf e)) w
      in write_zeros 2 w)"

definition ext_type_decode_from :: "ext_type reader" where
  "ext_type_decode_from =
     rd_bind read_u32_le (\<lambda>bw.
     rd_bind read_u8 (\<lambda>pf.
     rd_bind read_u8 (\<lambda>fl.
     rd_bind read_u8 (\<lambda>sg.
     rd_bind read_u8 (\<lambda>sb.
     rd_bind read_u8 (\<lambda>eb.
     rd_bind read_u8 (\<lambda>mb.
     rd_bind (read_bytes 2) (\<lambda>reserved1.
     rd_bind read_u32_le (\<lambda>bias.
     rd_bind read_u8 (\<lambda>nanb.
     rd_bind read_u8 (\<lambda>infb.
     rd_bind (read_bytes 2) (\<lambda>reserved2.
     rd_bind (rd_lift (validate_packing bw pf)) (\<lambda>_.
     if reserved1 \<noteq> replicate 2 0 then rd_lift (Err (ReservedBytesNonZero ''ext_type._reserved''))
     else if reserved2 \<noteq> replicate 2 0 then rd_lift (Err (ReservedBytesNonZero ''ext_type._reserved2''))
     else rd_ret
       \<lparr>ext_bit_width = bw, packing_factor = pf, ext_is_float = (fl \<noteq> 0), ext_is_signed = (sg \<noteq> 0),
        sign_bits = sb, exponent_bits = eb, mantissa_bits = mb, exponent_bias = bias,
        ext_has_nan = (nanb \<noteq> 0), ext_has_inf = (infb \<noteq> 0)\<rparr>)))))))))))))"

section \<open>Composite member\<close>

datatype member_role = Correction | Base

primrec member_role_wire_byte :: "member_role \<Rightarrow> u8" where
  "member_role_wire_byte Correction = 0x00"
| "member_role_wire_byte Base = 0x01"

definition member_role_from_wire :: "u8 \<Rightarrow> member_role core_result" where
  "member_role_from_wire b =
     (if b = 0x00 then Ok Correction else if b = 0x01 then Ok Base else Err (InvalidMemberRole b))"

record composite_member =
  member_role :: member_role

definition composite_member_encode_into :: "composite_member \<Rightarrow> byte_writer \<Rightarrow> byte_writer" where
  "composite_member_encode_into m w = write_zeros 15 (write_u8 (member_role_wire_byte (member_role m)) w)"

definition composite_member_decode_from :: "composite_member reader" where
  "composite_member_decode_from =
     rd_bind read_u8 (\<lambda>b.
     rd_bind (rd_lift (member_role_from_wire b)) (\<lambda>r.
     rd_bind (read_bytes 15) (\<lambda>res.
     rd_bind (rd_lift (check_reserved ''composite_member._reserved'' res)) (\<lambda>_.
     rd_ret \<lparr>member_role = r\<rparr>))))"

section \<open>One row of the buffer table\<close>

definition handle_encode_into :: "buffer_handle \<Rightarrow> byte_writer \<Rightarrow> byte_writer" where
  "handle_encode_into h w =
     (let w = write_u64_le (byte_size h) w;
          w = write_u32_le (alignment h) w;
          w = write_u8 (device_tag_to_byte (device_tag h)) w;
          w = write_u8 (sync_mode_to_byte (sync_mode h)) w;
          w = write_u8 (memory_class_to_byte (memory_class h)) w
      in write_zeros 1 w)"

definition handle_decode_from :: "buffer_handle reader" where
  "handle_decode_from =
     rd_bind read_u64_le (\<lambda>bs.
     rd_bind read_u32_le (\<lambda>al.
     rd_bind read_u8 (\<lambda>db.
     rd_bind read_u8 (\<lambda>sb.
     rd_bind read_u8 (\<lambda>mb.
     rd_bind read_u8 (\<lambda>res.
     if res \<noteq> 0 then rd_lift (Err (ReservedBytesNonZero ''buffer_handle._reserved''))
     else
       rd_bind (rd_lift (device_tag_from_byte db)) (\<lambda>dev.
       rd_bind (rd_lift (sync_mode_from_byte sb)) (\<lambda>sync.
       rd_bind (rd_lift (memory_class_from_byte mb)) (\<lambda>mem.
       rd_lift (handle_with_memory_class bs al dev sync mem))))))))))"

section \<open>The codecs as wire formats\<close>

definition shard_bytes :: "shard_descriptor \<Rightarrow> bytes" where
  "shard_bytes s = concat (map to_le_bytes (parent_shape s)) @ concat (map to_le_bytes (shard_offset s))"

definition shard_fits :: "nat \<Rightarrow> shard_descriptor \<Rightarrow> bool" where
  "shard_fits rk s \<longleftrightarrow> length (parent_shape s) = rk \<and> length (shard_offset s) = rk"

interpretation shard_section: wire_format shard_bytes "shard_decode_from rk" "shard_fits (unat rk)"
  "\<lambda>s w. Ok (shard_encode_into s w)" for rk
proof
  fix s assume "shard_fits (unat rk) s"
  then show "reads_as (shard_decode_from rk) (shard_bytes s) s"
    unfolding shard_decode_from_def shard_bytes_def shard_fits_def
    by (intro reads_steps reads_as_ret_eq) simp_all
next
  show "dec_post (shard_decode_from rk) (\<lambda>s n. shard_fits (unat rk) s \<and> n = length (shard_bytes s))"
    unfolding shard_decode_from_def
    by (intro dec_steps)
      (simp add: shard_fits_def shard_bytes_def length_concat_const [where k = 8])
next
  fix s w show "Ok (shard_encode_into s w) = Ok (w\<lparr>w_buf := w_buf w @ shard_bytes s\<rparr>)"
    by (simp add: shard_encode_into_def shard_bytes_def writer_simps)
qed

definition statistics_bytes :: "statistics \<Rightarrow> bytes" where
  "statistics_bytes s =
     to_le_bytes (computed_mask s) @ to_le_bytes (0 :: u32) @ to_le_bytes (stat_nnz s) @
     to_le_bytes (sparsity_ratio s) @ to_le_bytes (value_min s) @ to_le_bytes (value_max s) @
     to_le_bytes (value_abs_max s) @ to_le_bytes (value_mean s) @ to_le_bytes (value_stddev s) @
     nm_n s # nm_m s # u8_of_bool (stat_has_nan s) # u8_of_bool (stat_has_inf s) # replicate 4 0"

definition statistics_ok :: "statistics \<Rightarrow> bool" where
  "statistics_ok s \<longleftrightarrow> computed_mask s AND STATISTICS_RESERVED_MASK = 0"

interpretation statistics_section: wire_format statistics_bytes statistics_decode_from statistics_ok
  "\<lambda>s w. Ok (statistics_encode_into s w)"
proof
  fix s assume "statistics_ok s"
  then show "reads_as statistics_decode_from (statistics_bytes s) s"
    unfolding statistics_decode_from_def statistics_bytes_def statistics_ok_def
    by (intro reads_steps reads_as_if reads_as_ret_eq) simp_all
next
  show "dec_post statistics_decode_from (\<lambda>s n. statistics_ok s \<and> n = length (statistics_bytes s))"
    unfolding statistics_decode_from_def
    by (intro dec_steps) (simp add: statistics_ok_def statistics_bytes_def)
next
  fix s w show "Ok (statistics_encode_into s w) = Ok (w\<lparr>w_buf := w_buf w @ statistics_bytes s\<rparr>)"
    by (simp add: statistics_encode_into_def statistics_bytes_def Let_def writer_simps)
qed

definition ext_type_bytes :: "ext_type \<Rightarrow> bytes" where
  "ext_type_bytes e =
     to_le_bytes (ext_bit_width e) @ packing_factor e # u8_of_bool (ext_is_float e) #
     u8_of_bool (ext_is_signed e) # sign_bits e # exponent_bits e # mantissa_bits e # replicate 2 0 @
     to_le_bytes (exponent_bias e) @ u8_of_bool (ext_has_nan e) # u8_of_bool (ext_has_inf e) #
     replicate 2 0"

text \<open>The packing rule: whole bytes, or a power of two below a byte with as many elements per byte as
  fit.\<close>

definition packing_ok :: "u32 \<Rightarrow> u8 \<Rightarrow> bool" where
  "packing_ok bw pf \<longleftrightarrow>
     8 \<le> unat bw \<and> pf = 1 \<or> unat bw \<in> {1, 2, 4} \<and> unat bw * unat pf = 8"

lemma validate_packing_not_Panic [simp]: "validate_packing bw pf \<noteq> Panic"
  by (simp add: validate_packing_def)

lemma validate_packing_Ok: "validate_packing bw pf = Ok () \<longleftrightarrow> packing_ok bw pf"
proof (cases "unat bw \<ge> 8")
  case True
  then show ?thesis
    by (auto simp: validate_packing_def packing_ok_def word_le_nat_alt)
next
  case False
  have w: "bw = 1 \<longleftrightarrow> unat bw = 1" "bw = 2 \<longleftrightarrow> unat bw = 2" "bw = 4 \<longleftrightarrow> unat bw = 4" "bw = 0 \<longleftrightarrow> unat bw = 0"
    by (simp_all add: word_unat_eq_iff)
  have p: "pf = 8 \<longleftrightarrow> unat pf = 8" "pf = 4 \<longleftrightarrow> unat pf = 4" "pf = 2 \<longleftrightarrow> unat pf = 2"
    by (simp_all add: word_unat_eq_iff)
  consider "unat bw = 1" | "unat bw = 2" | "unat bw = 4" | "unat bw \<notin> {1, 2, 4}" by auto
  then show ?thesis
    by cases (use False in \<open>auto simp: validate_packing_def packing_ok_def word_le_nat_alt w p\<close>)
qed

definition ext_type_ok :: "ext_type \<Rightarrow> bool" where
  "ext_type_ok e \<longleftrightarrow> packing_ok (ext_bit_width e) (packing_factor e)"

interpretation ext_type_section: wire_format ext_type_bytes ext_type_decode_from ext_type_ok
  "\<lambda>e w. Ok (ext_type_encode_into e w)"
proof
  fix e assume "ext_type_ok e"
  then show "reads_as ext_type_decode_from (ext_type_bytes e) e"
    unfolding ext_type_decode_from_def ext_type_bytes_def ext_type_ok_def
    by (intro reads_steps reads_as_if reads_as_ret_eq) (simp_all add: validate_packing_Ok)
next
  show "dec_post ext_type_decode_from (\<lambda>e n. ext_type_ok e \<and> n = length (ext_type_bytes e))"
    unfolding ext_type_decode_from_def
    by (intro dec_steps) (simp_all add: ext_type_ok_def ext_type_bytes_def validate_packing_Ok)
next
  fix e w show "Ok (ext_type_encode_into e w) = Ok (w\<lparr>w_buf := w_buf w @ ext_type_bytes e\<rparr>)"
    by (simp add: ext_type_encode_into_def ext_type_bytes_def Let_def writer_simps)
qed

definition composite_member_bytes :: "composite_member \<Rightarrow> bytes" where
  "composite_member_bytes m = member_role_wire_byte (member_role m) # replicate 15 0"

lemma member_role_roundtrip [simp]: "member_role_from_wire (member_role_wire_byte r) = Ok r"
  by (cases r) (simp_all add: member_role_from_wire_def)

lemma member_role_from_wire_not_Panic [simp]: "member_role_from_wire b \<noteq> Panic"
  by (simp add: member_role_from_wire_def)

interpretation member_section: wire_format composite_member_bytes composite_member_decode_from
  "\<lambda>_. True" "\<lambda>m w. Ok (composite_member_encode_into m w)"
proof
  fix m show "reads_as composite_member_decode_from (composite_member_bytes m) m"
    unfolding composite_member_decode_from_def composite_member_bytes_def
    by (intro reads_steps reads_as_ret_eq) (auto intro: composite_member.equality)
next
  show "dec_post composite_member_decode_from (\<lambda>m n. True \<and> n = length (composite_member_bytes m))"
    unfolding composite_member_decode_from_def
    by (intro dec_steps) (simp_all add: composite_member_bytes_def)
next
  fix m w show "Ok (composite_member_encode_into m w) = Ok (w\<lparr>w_buf := w_buf w @ composite_member_bytes m\<rparr>)"
    by (simp add: composite_member_encode_into_def composite_member_bytes_def writer_simps)
qed

definition handle_bytes :: "buffer_handle \<Rightarrow> bytes" where
  "handle_bytes h =
     to_le_bytes (byte_size h) @ to_le_bytes (alignment h) @ device_tag_to_byte (device_tag h) #
     sync_mode_to_byte (sync_mode h) # memory_class_to_byte (memory_class h) # replicate 1 0"

interpretation handle_row: wire_format handle_bytes handle_decode_from handle_ok
  "\<lambda>h w. Ok (handle_encode_into h w)"
proof
  fix h assume h: "handle_ok h"
  then have *: "device_tag_from_byte (device_tag_to_byte (device_tag h)) = Ok (device_tag h)"
    "memory_class_from_byte (memory_class_to_byte (memory_class h)) = Ok (memory_class h)"
    by (simp_all add: handle_ok_def)
  show "reads_as handle_decode_from (handle_bytes h) h"
    unfolding handle_decode_from_def handle_bytes_def replicate_Suc replicate_0 One_nat_def
    by (intro reads_steps reads_as_if reads_as_lift)
      (simp, rule *, rule sync_mode_roundtrip, rule *, rule handle_with_memory_class_fields [OF h])
next
  show "dec_post handle_decode_from (\<lambda>h n. handle_ok h \<and> n = length (handle_bytes h))"
    unfolding handle_decode_from_def
    by (intro dec_steps dec_post_lift)
      (auto simp: handle_with_memory_class_Ok handle_ok_def handle_bytes_def
        dest: device_tag_from_byte_Ok memory_class_from_byte_Ok)
next
  fix h w show "Ok (handle_encode_into h w) = Ok (w\<lparr>w_buf := w_buf w @ handle_bytes h\<rparr>)"
    by (simp add: handle_encode_into_def handle_bytes_def Let_def writer_simps)
qed

section \<open>Properties\<close>

text \<open>
  Sizing a buffer of an extension type. The computed size holds all the elements exactly when the
  bit width is below a byte or a multiple of eight: widths such as 12, which \<open>validate_packing\<close>
  accepts, are rounded down to whole bytes per element.
\<close>

theorem ext_buffer_size_sufficient_iff:
  assumes "ext_type_ok e" and "ext_buffer_size_bytes e n = Ok s" and "0 < unat n"
  shows "unat n * unat (ext_bit_width e) \<le> 8 * unat s \<longleftrightarrow>
    unat (ext_bit_width e) < 8 \<or> 8 dvd unat (ext_bit_width e)"
proof (cases "8 \<le> unat (ext_bit_width e)")
  case True
  let ?w = "unat (ext_bit_width e)"
  have w: "unat (ucast (ext_bit_width e) div 8 :: u64) = ?w div 8"
    by (simp add: unat_div unat_ucast_u32_u64)
  have "(8 :: u32) \<le> ext_bit_width e" using True by (simp add: word_le_nat_alt)
  then have "unat s = unat n * (?w div 8)"
    using assms(2) by (auto simp: ext_buffer_size_bytes_def plain_mul_eq w unat_of_nat simp del: of_nat_mult split: if_splits)
  moreover have "?w \<le> 8 * (?w div 8) \<longleftrightarrow> 8 dvd ?w"
    by (metis dvd_triv_left dvd_mult_div_cancel le_antisym order_refl times_div_less_eq_dividend)
  ultimately show ?thesis
    using True assms(3) by (simp add: mult.left_commute [of 8])
next
  case False
  then have p: "unat (ext_bit_width e) * unat (packing_factor e) = 8"
    using assms(1) by (auto simp: ext_type_ok_def packing_ok_def)
  have "\<not> (8 :: u32) \<le> ext_bit_width e" using False by (simp add: word_le_nat_alt)
  then have "div_ceil n (ucast (packing_factor e)) = (Ok s :: u64 core_result)"
    using assms(2) by (simp add: ext_buffer_size_bytes_def)
  from div_ceil_covers [OF this] have "unat n \<le> unat s * unat (packing_factor e)"
    by (simp only: unat_ucast_u8_u64)
  then have "unat n * unat (ext_bit_width e) \<le> unat s * (unat (ext_bit_width e) * unat (packing_factor e))"
    by (metis mult.assoc mult.commute mult_le_mono1)
  with p False show ?thesis by (simp add: mult.commute)
qed

theorem ext_buffer_size_sufficient_iff_witness:
  "\<exists>e. ext_type_new 12 1 True False 1 5 6 15 False False = Ok e \<and>
     ext_buffer_size_bytes e 100 = Ok 100 \<and> \<not> 100 * unat (ext_bit_width e) \<le> 8 * unat (100 :: u64)"
proof -
  let ?e = "\<lparr>ext_bit_width = 12, packing_factor = 1, ext_is_float = True, ext_is_signed = False,
    sign_bits = 1, exponent_bits = 5, mantissa_bits = 6, exponent_bias = 15, ext_has_nan = False,
    ext_has_inf = False\<rparr>"
  have "ext_type_ok ?e" by (simp add: ext_type_ok_def packing_ok_def)
  moreover have s: "ext_buffer_size_bytes ?e 100 = Ok 100"
    by (simp add: ext_buffer_size_bytes_def plain_mul_eq word_le_nat_alt)
  ultimately have "\<not> unat (100 :: u64) * unat (ext_bit_width ?e) \<le> 8 * unat (100 :: u64)"
    using ext_buffer_size_sufficient_iff [of ?e 100 100] by simp
  moreover have "ext_type_new 12 1 True False 1 5 6 15 False False = Ok ?e"
    by (simp add: ext_type_new_def validate_packing_def validate_fields_def word_le_nat_alt word_less_nat_alt)
  ultimately show ?thesis using s by (intro exI [of _ ?e]) simp
qed
end
