(* ===== verification/Slices.thy ===== *)
theory Slices
  imports Prelude
begin

text \<open>
  Fixed-offset access to a byte slice, as the fixed-size wire structures use it: \<open>&b[off..off + n]\<close>,
  \<open>from_le_bytes\<close> of such a slice, and the writes into a mutable slice. Out-of-range access panics.
\<close>

definition slice_at :: "bytes \<Rightarrow> usize \<Rightarrow> usize \<Rightarrow> ('e, bytes) result" where
  "slice_at bs off n = (if off + n \<le> length bs then Ok (take n (drop off bs)) else Panic)"

definition get_le :: "bytes \<Rightarrow> usize \<Rightarrow> ('e, 'a::len word) result" where
  "get_le bs off = r_bind (slice_at bs off (LENGTH('a) div 8)) (\<lambda>b. Ok (from_le_bytes b))"

definition put_slice :: "usize \<Rightarrow> bytes \<Rightarrow> bytes \<Rightarrow> ('e, bytes) result" where
  "put_slice off src out =
     (if off + length src \<le> length out
      then Ok (take off out @ src @ drop (off + length src) out) else Panic)"

definition put_byte :: "usize \<Rightarrow> u8 \<Rightarrow> bytes \<Rightarrow> ('e, bytes) result" where
  "put_byte i b out = (if i < length out then Ok (out[i := b]) else Panic)"

lemma slice_at_Ok [simp]: "off + n \<le> length bs \<Longrightarrow> slice_at bs off n = Ok (take n (drop off bs))"
  by (simp add: slice_at_def)

lemma get_le_Ok:
  "off + LENGTH('a) div 8 \<le> length bs \<Longrightarrow>
   get_le bs off = Ok (from_le_bytes (take (LENGTH('a) div 8) (drop off bs)) :: 'a::len word)"
  by (simp add: get_le_def)

lemma put_slice_Ok [simp]:
  "off + length src \<le> length out \<Longrightarrow>
   put_slice off src out = Ok (take off out @ src @ drop (off + length src) out)"
  by (simp add: put_slice_def)

lemma put_byte_Ok [simp]: "i < length out \<Longrightarrow> put_byte i b out = Ok (out[i := b])"
  by (simp add: put_byte_def)

text \<open>The bytes of a word, one by one: with them the accesses at fixed offsets evaluate.\<close>

lemma list_of_length_2: "length xs = 2 \<Longrightarrow> \<exists>a b. xs = [a, b]"
  by (simp add: eval_nat_numeral length_Suc_conv) blast

lemma list_of_length_4: "length xs = 4 \<Longrightarrow> \<exists>a b c d. xs = [a, b, c, d]"
  by (simp add: eval_nat_numeral length_Suc_conv) blast

lemma list_of_length_8: "length xs = 8 \<Longrightarrow> \<exists>a b c d e f g h. xs = [a, b, c, d, e, f, g, h]"
  by (simp add: eval_nat_numeral length_Suc_conv) blast

lemma u16_bytes:
  obtains a b where "to_le_bytes (v :: u16) = [a, b]"
    and "from_le_bytes [a, b] = v"
proof -
  obtain a b where e: "to_le_bytes v = [a, b]"
    using list_of_length_2 [of "to_le_bytes v"] by auto
  with from_to_le_bytes_words(2) [of v] that show thesis by simp
qed

lemma u32_bytes:
  obtains a b c d where "to_le_bytes (v :: u32) = [a, b, c, d]"
    and "from_le_bytes [a, b, c, d] = v"
proof -
  obtain a b c d where e: "to_le_bytes v = [a, b, c, d]"
    using list_of_length_4 [of "to_le_bytes v"] by auto
  with from_to_le_bytes_words(3) [of v] that show thesis by simp
qed

lemma u64_bytes:
  obtains a b c d e f g h where "to_le_bytes (v :: u64) = [a, b, c, d, e, f, g, h]"
    and "from_le_bytes [a, b, c, d, e, f, g, h] = v"
proof -
  obtain a b c d e f g h where e: "to_le_bytes v = [a, b, c, d, e, f, g, h]"
    using list_of_length_8 [of "to_le_bytes v"] by auto
  with from_to_le_bytes_words(4) [of v] that show thesis by simp
qed

end
