(* ===== verification/ElementTypes.thy ===== *)
theory ElementTypes
  imports Errors
begin

text \<open>
  The element types of \<open>hurray-core/src/element_type.rs\<close> with their wire tags, widths and
  classifications, and the buffer sizing of \<open>hurray-core/src/lib.rs\<close>.
\<close>

datatype (plugins only: code size) element_type =
    Float16 | BFloat16 | Float32 | Float64
  | Int8 | Uint8 | Int16 | Uint16 | Int32 | Uint32 | Int64 | Uint64
  | Bool
  | Float8E4M3 | Float8E5M2 | Float8E8M0
  | Float4E2M1 | Float6E2M3 | Float6E3M2
  | Float128
  | Int4 | Uint4 | Int2 | Uint2
  | Complex64 | Complex128
  | Extension u8

fun type_tag :: "element_type \<Rightarrow> u8" where
  "type_tag Float16 = 0x01"
| "type_tag BFloat16 = 0x02"
| "type_tag Float32 = 0x03"
| "type_tag Float64 = 0x04"
| "type_tag Int8 = 0x10"
| "type_tag Uint8 = 0x11"
| "type_tag Int16 = 0x12"
| "type_tag Uint16 = 0x13"
| "type_tag Int32 = 0x14"
| "type_tag Uint32 = 0x15"
| "type_tag Int64 = 0x16"
| "type_tag Uint64 = 0x17"
| "type_tag Bool = 0x20"
| "type_tag Float8E4M3 = 0x40"
| "type_tag Float8E5M2 = 0x41"
| "type_tag Float8E8M0 = 0x42"
| "type_tag Float4E2M1 = 0x43"
| "type_tag Float6E2M3 = 0x44"
| "type_tag Float6E3M2 = 0x45"
| "type_tag Float128 = 0x46"
| "type_tag Int4 = 0x48"
| "type_tag Uint4 = 0x49"
| "type_tag Int2 = 0x4A"
| "type_tag Uint2 = 0x4B"
| "type_tag Complex64 = 0x50"
| "type_tag Complex128 = 0x51"
| "type_tag (Extension t) = t"

text \<open>The arms of the \<open>match\<close> in \<open>ElementType::from_tag\<close>, in the source's order.\<close>

definition from_tag :: "u8 \<Rightarrow> element_type core_result" where
  "from_tag tag =
     (if tag = 0x00 \<or> tag = 0xFF then Err (InvalidTypeTag tag)
      else if tag = 0x01 then Ok Float16
      else if tag = 0x02 then Ok BFloat16
      else if tag = 0x03 then Ok Float32
      else if tag = 0x04 then Ok Float64
      else if tag = 0x10 then Ok Int8
      else if tag = 0x11 then Ok Uint8
      else if tag = 0x12 then Ok Int16
      else if tag = 0x13 then Ok Uint16
      else if tag = 0x14 then Ok Int32
      else if tag = 0x15 then Ok Uint32
      else if tag = 0x16 then Ok Int64
      else if tag = 0x17 then Ok Uint64
      else if tag = 0x20 then Ok Bool
      else if tag = 0x40 then Ok Float8E4M3
      else if tag = 0x41 then Ok Float8E5M2
      else if tag = 0x42 then Ok Float8E8M0
      else if tag = 0x43 then Ok Float4E2M1
      else if tag = 0x44 then Ok Float6E2M3
      else if tag = 0x45 then Ok Float6E3M2
      else if tag = 0x46 then Ok Float128
      else if tag = 0x47 then Err (ReservedTypeTag tag)
      else if tag = 0x48 then Ok Int4
      else if tag = 0x49 then Ok Uint4
      else if tag = 0x4A then Ok Int2
      else if tag = 0x4B then Ok Uint2
      else if tag = 0x50 then Ok Complex64
      else if tag = 0x51 then Ok Complex128
      else if 0x80 \<le> tag \<and> tag \<le> 0xEF then Err (ReservedTypeTag tag)
      else if 0xF0 \<le> tag \<and> tag \<le> 0xFE then Ok (Extension tag)
      else Err (UnknownTypeTag tag))"

definition tier :: "element_type \<Rightarrow> u8" where
  "tier t = (if type_tag t < 0x40 then 1 else 2)"

fun bit_width :: "element_type \<Rightarrow> u32" where
  "bit_width Bool = 1"
| "bit_width Int2 = 2" | "bit_width Uint2 = 2"
| "bit_width Int4 = 4" | "bit_width Uint4 = 4" | "bit_width Float4E2M1 = 4"
| "bit_width Float6E2M3 = 6" | "bit_width Float6E3M2 = 6"
| "bit_width Int8 = 8" | "bit_width Uint8 = 8" | "bit_width Float8E4M3 = 8"
| "bit_width Float8E5M2 = 8" | "bit_width Float8E8M0 = 8"
| "bit_width Float16 = 16" | "bit_width BFloat16 = 16" | "bit_width Int16 = 16"
| "bit_width Uint16 = 16"
| "bit_width Float32 = 32" | "bit_width Int32 = 32" | "bit_width Uint32 = 32"
| "bit_width Float64 = 64" | "bit_width Int64 = 64" | "bit_width Uint64 = 64"
| "bit_width Complex64 = 64"
| "bit_width Float128 = 128" | "bit_width Complex128 = 128"
| "bit_width (Extension _) = 0"

fun is_extension :: "element_type \<Rightarrow> bool" where
  "is_extension (Extension _) = True"
| "is_extension _ = False"

definition is_sub_byte :: "element_type \<Rightarrow> bool" where
  "is_sub_byte t = (if is_extension t then False else bit_width t < 8)"

definition is_float :: "element_type \<Rightarrow> bool" where
  "is_float t = (t \<in> {Float16, BFloat16, Float32, Float64, Float8E4M3, Float8E5M2, Float8E8M0,
     Float4E2M1, Float6E2M3, Float6E3M2, Float128, Complex64, Complex128})"

definition is_integer :: "element_type \<Rightarrow> bool" where
  "is_integer t = (t \<in> {Int8, Uint8, Int16, Uint16, Int32, Uint32, Int64, Uint64,
     Int4, Uint4, Int2, Uint2})"

definition is_signed :: "element_type \<Rightarrow> bool" where
  "is_signed t = (if is_extension t then False
     else t \<notin> {Uint8, Uint16, Uint32, Uint64, Uint4, Uint2, Bool, Float8E8M0})"

fun element_alignment :: "element_type \<Rightarrow> usize" where
  "element_alignment Float16 = 2" | "element_alignment BFloat16 = 2"
| "element_alignment Int16 = 2" | "element_alignment Uint16 = 2"
| "element_alignment Float32 = 4" | "element_alignment Int32 = 4"
| "element_alignment Uint32 = 4" | "element_alignment Complex64 = 4"
| "element_alignment Float64 = 8" | "element_alignment Int64 = 8"
| "element_alignment Uint64 = 8" | "element_alignment Complex128 = 8"
| "element_alignment Float128 = 16"
| "element_alignment (Extension _) = 1"
| "element_alignment _ = 1"

text \<open>
  \<open>buffer_size_bytes\<close>: the products and the additions of \<open>div_ceil\<close> on \<open>u64\<close> panic on overflow;
  only the last branch widens to 128 bits, where \<open>element_count * bits\<close> cannot overflow.
\<close>

definition buffer_size_bytes :: "element_type \<Rightarrow> u64 \<Rightarrow> u64 core_result" where
  "buffer_size_bytes ty element_count =
     (let bits = ucast (bit_width ty) :: u64 in
      if bits = 0 then Ok 0
      else if bits \<ge> 8 then plain_mul element_count (bits div 8)
      else if bits = 6 then r_bind (div_ceil element_count 4) (\<lambda>q. plain_mul q 3)
      else r_bind (div_ceil (ucast element_count * ucast bits :: 128 word) 8) (\<lambda>q. Ok (ucast q)))"

section \<open>Properties\<close>

text \<open>The element types that can be put on the wire: every constructor except an \<open>Extension\<close>
  whose byte lies outside the private range (which \<open>from_tag\<close> never builds).\<close>

fun element_type_ok :: "element_type \<Rightarrow> bool" where
  "element_type_ok (Extension t) = (0xF0 \<le> t \<and> t \<le> 0xFE)"
| "element_type_ok _ = True"

lemma from_tag_type_tag: "element_type_ok t \<Longrightarrow> from_tag (type_tag t) = Ok t"
proof (cases t)
  case (Extension b)
  assume "element_type_ok t"
  with Extension have "0xF0 \<le> unat b" "unat b \<le> 0xFE" by (auto simp: word_le_nat_alt)
  with Extension show ?thesis
    by (auto simp: from_tag_def word_le_nat_alt)
qed (simp_all add: from_tag_def)

lemma from_tag_Ok: "from_tag b = Ok t \<Longrightarrow> type_tag t = b \<and> element_type_ok t"
  by (auto simp: from_tag_def split: if_splits)

lemma from_tag_not_Panic [simp]: "from_tag b \<noteq> Panic"
  by (auto simp: from_tag_def)

lemma is_extension_iff: "element_type_ok t \<Longrightarrow> is_extension t \<longleftrightarrow> 0xF0 \<le> type_tag t \<and> type_tag t \<le> 0xFE"
  by (cases t) (auto simp: word_le_nat_alt)

text \<open>
  The wire tags of element types: a byte is accepted by \<open>from_tag\<close> exactly when it is the tag
  of an element type (with an extension byte in the private range), which is then the one returned.
\<close>

theorem type_tag_roundtrip:
  "from_tag b = Ok t \<longleftrightarrow> element_type_ok t \<and> type_tag t = b"
  using from_tag_Ok from_tag_type_tag by blast

text \<open>The packed size in bytes of \<open>n\<close> elements of \<open>bits\<close> bits each: 6-bit types are stored in groups
  of four elements in three bytes, every other width without gaps, rounded up to a byte.\<close>

definition packed_size :: "nat \<Rightarrow> nat \<Rightarrow> nat" where
  "packed_size bits n = (if bits = 6 then (n + 3) div 4 * 3 else (n * bits + 7) div 8)"

lemma whole_byte_size:
  "buffer_size_bytes ty n =
    (if unat n * k < 2 ^ 64 then Ok (word_of_nat (unat n * k)) else Panic) \<and>
   packed_size (unat (bit_width ty)) (unat n) = unat n * k"
  if "unat (bit_width ty) = 8 * k" and "k = 1 \<or> k = 2 \<or> k = 4 \<or> k = 8 \<or> k = 16"
proof -
  have bw: "unat (ucast (bit_width ty) :: u64) = 8 * k"
    using that by (auto simp: unsigned_ucast_eq take_bit_nat_eq_self)
  then have "\<not> (ucast (bit_width ty) :: u64) = 0" "(8 :: u64) \<le> ucast (bit_width ty)"
    "unat (ucast (bit_width ty) div 8 :: u64) = k"
    using that(2) by (auto simp: word_le_nat_alt unat_div)
  then have "buffer_size_bytes ty n = (if unat n * k < 2 ^ 64 then Ok (word_of_nat (unat n * k)) else Panic)"
    by (simp add: buffer_size_bytes_def Let_def plain_mul_eq)
  moreover have "(unat n * (8 * k) + 7) div 8 = unat n * k" by simp
  ultimately show ?thesis using that by (auto simp: packed_size_def)
qed

lemma six_bit_size:
  assumes "bit_width ty = 6"
  shows "buffer_size_bytes ty n =
    (let s = packed_size 6 (unat n) in if s < 2 ^ 64 then Ok (word_of_nat s) else Panic)"
proof -
  have lt: "unat n < 2 ^ 64" using unsigned_less [of n, where 'a = nat] by simp
  have u: "unat (word_of_nat ((unat n + 3) div 4) :: u64) = (unat n + 3) div 4"
    using lt by (simp add: unat_of_nat)
  have "(div_ceil n 4 :: u64 core_result) = Ok (word_of_nat ((unat n + unat (4 :: u64) - 1) div unat (4 :: u64)))"
    by (rule div_ceil_eq) simp
  also have "unat n + unat (4 :: u64) - 1 = unat n + 3" by simp
  finally have "(div_ceil n 4 :: u64 core_result) = Ok (word_of_nat ((unat n + 3) div 4))" by simp
  with u show ?thesis
    by (simp add: buffer_size_bytes_def assms Let_def plain_mul_eq packed_size_def)
qed

lemma sub_byte_size:
  assumes "bit_width ty = b" and "b = 1 \<or> b = 2 \<or> b = 4"
  shows "buffer_size_bytes ty n = Ok (word_of_nat (packed_size (unat b) (unat n))) \<and>
    packed_size (unat b) (unat n) < 2 ^ 64"
proof -
  have lt: "unat n < 2 ^ 64" using unsigned_less [of n, where 'a = nat] by simp
  have m: "unat (ucast n * ucast (ucast b :: u64) :: 128 word) = unat n * unat b"
    using lt assms(2) by (auto simp: unat_word_ariths unsigned_ucast_eq take_bit_nat_eq_self)
  have ps: "packed_size (unat b) (unat n) = (unat n * unat b + 7) div 8"
    using assms(2) by (auto simp: packed_size_def)
  have ps_lt: "(unat n * unat b + 7) div 8 < 2 ^ 64"
    using lt assms(2) by auto
  let ?w = "ucast n * ucast (ucast b :: u64) :: 128 word"
  have "(div_ceil ?w 8 :: 128 word core_result) =
      Ok (word_of_nat ((unat ?w + unat (8 :: 128 word) - 1) div unat (8 :: 128 word)))"
    by (rule div_ceil_eq) simp
  also have "unat ?w + unat (8 :: 128 word) - 1 = unat n * unat b + 7" by (simp only: m) simp
  finally have "(div_ceil ?w 8 :: 128 word core_result) = Ok (word_of_nat ((unat n * unat b + 7) div 8))"
    by simp
  moreover have "\<not> (8 :: u64) \<le> ucast b" "(ucast b :: u64) \<noteq> 0" "(ucast b :: u64) \<noteq> 6"
    using assms(2) by (auto simp: word_le_nat_alt)
  ultimately have "buffer_size_bytes ty n = Ok (ucast (word_of_nat ((unat n * unat b + 7) div 8) :: 128 word))"
    by (simp only: buffer_size_bytes_def assms(1) Let_def if_False r_bind.simps)
  moreover have "ucast (word_of_nat ((unat n * unat b + 7) div 8) :: 128 word) =
      (word_of_nat ((unat n * unat b + 7) div 8) :: u64)"
    using ps_lt by (simp add: word_unat_eq_iff unsigned_ucast_eq unat_of_nat take_bit_nat_eq_self)
  ultimately show ?thesis using ps ps_lt by simp
qed

lemma bit_width_cases:
  "\<not> is_extension ty \<Longrightarrow>
   (\<exists>k. unat (bit_width ty) = 8 * k \<and> (k = 1 \<or> k = 2 \<or> k = 4 \<or> k = 8 \<or> k = 16))
   \<or> bit_width ty = 6 \<or> bit_width ty = 1 \<or> bit_width ty = 2 \<or> bit_width ty = 4"
  by (cases ty) auto

text \<open>
  What \<open>buffer_size_bytes\<close> returns on a type of known width, in a build with overflow checks: the packed size
  where it fits in 64 bits. The multiplications of the whole-byte and of the 6-bit branch are not widened,
  and panic where it does not fit.
\<close>

lemma buffer_size_bytes_eq:
  assumes "\<not> is_extension ty"
  shows "buffer_size_bytes ty n =
    (let s = packed_size (unat (bit_width ty)) (unat n)
     in if s < 2 ^ 64 then Ok (word_of_nat s) else Panic)"
  using bit_width_cases [OF assms]
proof (elim disjE)
  assume "\<exists>k. unat (bit_width ty) = 8 * k \<and> (k = 1 \<or> k = 2 \<or> k = 4 \<or> k = 8 \<or> k = 16)"
  then show ?thesis using whole_byte_size [of ty] by (auto simp: Let_def)
next
  assume "bit_width ty = 6"
  then show ?thesis using six_bit_size by simp
next
  assume "bit_width ty = 1"
  then show ?thesis using sub_byte_size [of ty 1 n] by (simp add: Let_def)
next
  assume "bit_width ty = 2"
  then show ?thesis using sub_byte_size [of ty 2 n] by (simp add: Let_def)
next
  assume "bit_width ty = 4"
  then show ?thesis using sub_byte_size [of ty 4 n] by (simp add: Let_def)
qed

theorem buffer_size_bytes_overflow:
  "buffer_size_bytes Float32 (2 ^ 62) = Panic"
proof -
  have "buffer_size_bytes Float32 (2 ^ 62) =
    (let s = packed_size (unat (bit_width Float32)) (unat (2 ^ 62 :: u64))
     in if s < 2 ^ 64 then Ok (word_of_nat s) else Panic)"
    by (rule buffer_size_bytes_eq) simp
  then show ?thesis by (simp add: packed_size_def)
qed

text \<open>
  C40. \<open>buffer_size_bytes\<close> is exact: on every type of known width and every element count whose packed size
  fits in 64 bits it returns that size (groups of four elements in three bytes for the 6-bit types, no
  gaps and rounding up to a byte for the others). No intermediate result overflows or is cut off there.
\<close>

theorem buffer_size_bytes_exact:
  assumes "\<not> is_extension ty" and "packed_size (unat (bit_width ty)) (unat n) < 2 ^ 64"
  shows "\<exists>s. buffer_size_bytes ty n = Ok s \<and> unat s = packed_size (unat (bit_width ty)) (unat n)"
  using buffer_size_bytes_eq [OF assms(1), of n] assms(2) by (simp add: Let_def unat_of_nat)

theorem buffer_size_bytes_exact_witness:
  "\<exists>s. buffer_size_bytes Float6E2M3 5 = Ok s \<and> unat s = 6"
  using buffer_size_bytes_exact [of Float6E2M3 5] by (simp add: packed_size_def)

end
