(* ===== verification/Quantization.thy ===== *)
theory Quantization
  imports Slices Buffers ElementTypes Shapes
begin

text \<open>
  Quantization descriptors (\<open>hurray-core/src/quantization/\<close>): the five schemes with their constructors
  and checks, the fixed-size wire form of each behind a common four-byte header, and the placement of
  the parameter buffers. An \<open>f32\<close> is its bit pattern.
\<close>

section \<open>Scheme tags and header\<close>

datatype scheme_tag = TagPerTensorAffine | TagPerChannelAffine | TagPerBlockAffine | TagNf4 | TagMxfp

primrec scheme_tag_byte :: "scheme_tag \<Rightarrow> u8" where
  "scheme_tag_byte TagPerTensorAffine = 0x01"
| "scheme_tag_byte TagPerChannelAffine = 0x02"
| "scheme_tag_byte TagPerBlockAffine = 0x03"
| "scheme_tag_byte TagNf4 = 0x04"
| "scheme_tag_byte TagMxfp = 0x05"

primrec scheme_tier :: "scheme_tag \<Rightarrow> u8" where
  "scheme_tier TagPerTensorAffine = 1"
| "scheme_tier TagPerChannelAffine = 1"
| "scheme_tier TagPerBlockAffine = 1"
| "scheme_tier TagNf4 = 2"
| "scheme_tier TagMxfp = 2"

definition scheme_tag_from_byte :: "u8 \<Rightarrow> scheme_tag core_result" where
  "scheme_tag_from_byte b =
     (if b = 0x00 \<or> b = 0xFF then Err (InvalidQuantizationSchemeTag b)
      else if b = 0x01 then Ok TagPerTensorAffine
      else if b = 0x02 then Ok TagPerChannelAffine
      else if b = 0x03 then Ok TagPerBlockAffine
      else if b = 0x04 then Ok TagNf4
      else if b = 0x05 then Ok TagMxfp
      else if 0x06 \<le> b \<and> b \<le> 0x3F then Err (UnknownQuantizationSchemeTag b)
      else if 0x40 \<le> b \<and> b \<le> 0x5F then Err (UnknownQuantizationSchemeTag b)
      else if 0x60 \<le> b \<and> b \<le> 0xEF then Err (ReservedQuantizationSchemeTag b)
      else if 0xF0 \<le> b \<and> b \<le> 0xFE then Err (PrivateQuantizationSchemeTag b)
      else Err (UnknownQuantizationSchemeTag b))"

record quantization_header =
  qh_scheme_tag :: scheme_tag
  scheme_version :: u8
  qh_flags :: u16

definition header_parse :: "bytes \<Rightarrow> u8 \<Rightarrow> quantization_header core_result" where
  "header_parse b supported =
     (if length b < 4 then Err (QuantizationDescriptorTooShort (length b) 4)
      else
        r_bind (index_at b 0) (\<lambda>tag_byte.
        r_bind (index_at b 1) (\<lambda>ver.
        r_bind (index_at b 2) (\<lambda>f0.
        r_bind (index_at b 3) (\<lambda>f1.
        r_bind (scheme_tag_from_byte tag_byte) (\<lambda>tag.
        if ver > supported then Err (UnsupportedSchemeVersion tag_byte ver supported)
        else Ok \<lparr>qh_scheme_tag = tag, scheme_version = ver, qh_flags = from_le_bytes [f0, f1]\<rparr>))))))"

definition header_write :: "quantization_header \<Rightarrow> bytes \<Rightarrow> bytes core_result" where
  "header_write h out =
     r_bind (put_byte 0 (scheme_tag_byte (qh_scheme_tag h)) out) (\<lambda>out.
     r_bind (put_byte 1 (scheme_version h) out) (\<lambda>out.
     r_bind (put_byte 2 (to_le_bytes (qh_flags h) ! 0) out) (\<lambda>out.
     put_byte 3 (to_le_bytes (qh_flags h) ! 1) out)))"

section \<open>The schemes\<close>

subsection \<open>Per-tensor affine\<close>

definition f32_is_finite :: "f32 \<Rightarrow> bool" where
  "f32_is_finite x \<longleftrightarrow> drop_bit 23 x AND 0xFF \<noteq> 0xFF"

definition f32_is_zero :: "f32 \<Rightarrow> bool" where
  "f32_is_zero x \<longleftrightarrow> x AND 0x7FFFFFFF = 0"

record per_tensor_affine =
  pt_scale :: f32
  pt_zero_point :: i32

definition per_tensor_new :: "f32 \<Rightarrow> i32 \<Rightarrow> per_tensor_affine core_result" where
  "per_tensor_new s z =
     (if \<not> f32_is_finite s \<or> f32_is_zero s then Err (InvalidQuantization ''per-tensor scale'')
      else Ok \<lparr>pt_scale = s, pt_zero_point = z\<rparr>)"

definition per_tensor_storage_types :: "element_type list" where
  "per_tensor_storage_types = [Int8, Uint8, Int16, Uint16, Int32, Uint32, Int4, Uint4, Int2, Uint2]"

definition integer_range_for_type :: "element_type \<Rightarrow> int \<times> int" where
  "integer_range_for_type ty =
     (case ty of
        Int8 \<Rightarrow> (-128, 127) | Uint8 \<Rightarrow> (0, 255)
      | Int16 \<Rightarrow> (-32768, 32767) | Uint16 \<Rightarrow> (0, 65535)
      | Int32 \<Rightarrow> (-2147483648, 2147483647) | Uint32 \<Rightarrow> (0, 4294967295)
      | Int4 \<Rightarrow> (-8, 7) | Uint4 \<Rightarrow> (0, 15)
      | Int2 \<Rightarrow> (-2, 1) | Uint2 \<Rightarrow> (0, 3)
      | _ \<Rightarrow> (-2147483648, 2147483647))"

definition validate_zero_point_for :: "per_tensor_affine \<Rightarrow> element_type \<Rightarrow> unit core_result" where
  "validate_zero_point_for p storage =
     (let (lo, hi) = integer_range_for_type storage;
          zp = sint (pt_zero_point p)
      in if zp < lo \<or> zp > hi
         then Err (ZeroPointOutOfRange (type_tag storage) (pt_zero_point p) lo hi)
         else Ok ())"

definition per_tensor_decode_payload :: "u16 \<Rightarrow> bytes \<Rightarrow> per_tensor_affine core_result" where
  "per_tensor_decode_payload flags b =
     (if length b < 16 then Err (QuantizationDescriptorTooShort (length b) 16)
      else if flags AND 0xFFFF \<noteq> 0 then Err (ReservedQuantizationFlagsBits flags 0xFFFF)
      else
        r_bind (get_le b 4) (\<lambda>s.
        r_bind (get_le b 8) (\<lambda>z.
        r_bind (slice_at b 12 4) (\<lambda>res.
        if \<not> all_zero res then Err (InvalidQuantization ''per-tensor reserved'')
        else per_tensor_new s z))))"

definition per_tensor_encode_payload :: "per_tensor_affine \<Rightarrow> bytes \<Rightarrow> bytes core_result" where
  "per_tensor_encode_payload p out =
     r_bind (put_slice 4 (to_le_bytes (pt_scale p)) out) (\<lambda>out.
     r_bind (put_slice 8 (to_le_bytes (pt_zero_point p)) out) (\<lambda>out.
     put_slice 12 (replicate 4 0) out))"

subsection \<open>Per-channel affine\<close>

definition ZP_SENTINEL :: u32 where
  "ZP_SENTINEL = 0xFFFFFFFF"

definition FLAG_SYMMETRIC :: u16 where
  "FLAG_SYMMETRIC = 1"

definition RESERVED_MASK :: u16 where
  "RESERVED_MASK = NOT FLAG_SYMMETRIC"

record per_channel_affine =
  pc_axis :: u32
  pc_scale_buffer_index :: u32
  pc_zero_point_buffer_index :: "u32 option"
  pc_scale_type :: element_type

definition per_channel_new_asymmetric :: "u32 \<Rightarrow> u32 \<Rightarrow> u32 \<Rightarrow> per_channel_affine core_result" where
  "per_channel_new_asymmetric ax sb zb =
     (if sb = ZP_SENTINEL then Err (InvalidQuantization ''scale_buffer_index sentinel'')
      else Ok \<lparr>pc_axis = ax, pc_scale_buffer_index = sb, pc_zero_point_buffer_index = Some zb,
               pc_scale_type = Float32\<rparr>)"

definition per_channel_new_symmetric :: "u32 \<Rightarrow> u32 \<Rightarrow> per_channel_affine core_result" where
  "per_channel_new_symmetric ax sb =
     (if sb = ZP_SENTINEL then Err (InvalidQuantization ''scale_buffer_index sentinel'')
      else Ok \<lparr>pc_axis = ax, pc_scale_buffer_index = sb, pc_zero_point_buffer_index = None,
               pc_scale_type = Float32\<rparr>)"

definition per_channel_is_symmetric :: "per_channel_affine \<Rightarrow> bool" where
  "per_channel_is_symmetric p = (pc_zero_point_buffer_index p = None)"

definition per_channel_storage_types :: "element_type list" where
  "per_channel_storage_types = [Int8, Uint8, Int16, Uint16, Int32, Uint32, Int4, Uint4, Int2, Uint2]"

definition per_channel_decode_payload :: "u16 \<Rightarrow> bytes \<Rightarrow> per_channel_affine core_result" where
  "per_channel_decode_payload flags b =
     (if length b < 20 then Err (QuantizationDescriptorTooShort (length b) 20)
      else if flags AND RESERVED_MASK \<noteq> 0 then Err (ReservedQuantizationFlagsBits flags RESERVED_MASK)
      else
        r_bind (get_le b 4) (\<lambda>ax.
        r_bind (get_le b 8) (\<lambda>sb.
        r_bind (get_le b 12) (\<lambda>zb.
        r_bind (index_at b 16) (\<lambda>ty.
        if sb = ZP_SENTINEL then Err (InvalidQuantization ''scale_buffer_index'')
        else if ty \<noteq> 0x03 then Err (InvalidQuantization ''per-channel scale_type_tag'')
        else
          r_bind (slice_at b 17 3) (\<lambda>res.
          if \<not> all_zero res then Err (InvalidQuantization ''per-channel reserved'')
          else if flags AND FLAG_SYMMETRIC \<noteq> 0 then
            (if zb \<noteq> ZP_SENTINEL then Err (InvalidQuantization ''SYMMETRIC set'')
             else Ok \<lparr>pc_axis = ax, pc_scale_buffer_index = sb, pc_zero_point_buffer_index = None,
                      pc_scale_type = Float32\<rparr>)
          else if zb = ZP_SENTINEL then Err (InvalidQuantization ''SYMMETRIC not set'')
          else Ok \<lparr>pc_axis = ax, pc_scale_buffer_index = sb, pc_zero_point_buffer_index = Some zb,
                   pc_scale_type = Float32\<rparr>))))))"

definition unwrap_index :: "u32 option \<Rightarrow> u32" where
  "unwrap_index i = (case i of None \<Rightarrow> ZP_SENTINEL | Some v \<Rightarrow> v)"

definition per_channel_encode_payload :: "per_channel_affine \<Rightarrow> bytes \<Rightarrow> bytes core_result" where
  "per_channel_encode_payload p out =
     r_bind (put_slice 4 (to_le_bytes (pc_axis p)) out) (\<lambda>out.
     r_bind (put_slice 8 (to_le_bytes (pc_scale_buffer_index p)) out) (\<lambda>out.
     r_bind (put_slice 12 (to_le_bytes (unwrap_index (pc_zero_point_buffer_index p))) out) (\<lambda>out.
     r_bind (put_byte 16 0x03 out) (\<lambda>out.
     put_slice 17 (replicate 3 0) out))))"

definition per_channel_flags :: "per_channel_affine \<Rightarrow> u16" where
  "per_channel_flags p = (if per_channel_is_symmetric p then FLAG_SYMMETRIC else 0)"

subsection \<open>Per-block affine\<close>

record per_block_affine =
  pb_axis :: u32
  pb_block_size :: u32
  pb_scale_buffer_index :: u32
  pb_zero_point_buffer_index :: "u32 option"
  pb_scale_type :: element_type

definition per_block_validate_block_size :: "u32 \<Rightarrow> unit core_result" where
  "per_block_validate_block_size bs =
     (if \<not> is_power_of_two bs \<or> bs < 2 then Err (InvalidBlockSize 0x03 bs 2 (- 1)) else Ok ())"

definition per_block_validate_scale_type :: "element_type \<Rightarrow> unit core_result" where
  "per_block_validate_scale_type ty =
     (if type_tag ty \<notin> {0x01, 0x02, 0x03} then Err (InvalidQuantization ''per-block scale_type'')
      else Ok ())"

definition per_block_new_asymmetric ::
  "u32 \<Rightarrow> u32 \<Rightarrow> u32 \<Rightarrow> u32 \<Rightarrow> element_type \<Rightarrow> per_block_affine core_result" where
  "per_block_new_asymmetric ax bs sb zb ty =
     r_bind (per_block_validate_block_size bs) (\<lambda>_.
     r_bind (per_block_validate_scale_type ty) (\<lambda>_.
     Ok \<lparr>pb_axis = ax, pb_block_size = bs, pb_scale_buffer_index = sb,
         pb_zero_point_buffer_index = Some zb, pb_scale_type = ty\<rparr>))"

definition per_block_new_symmetric ::
  "u32 \<Rightarrow> u32 \<Rightarrow> u32 \<Rightarrow> element_type \<Rightarrow> per_block_affine core_result" where
  "per_block_new_symmetric ax bs sb ty =
     r_bind (per_block_validate_block_size bs) (\<lambda>_.
     r_bind (per_block_validate_scale_type ty) (\<lambda>_.
     Ok \<lparr>pb_axis = ax, pb_block_size = bs, pb_scale_buffer_index = sb,
         pb_zero_point_buffer_index = None, pb_scale_type = ty\<rparr>))"

definition per_block_is_symmetric :: "per_block_affine \<Rightarrow> bool" where
  "per_block_is_symmetric p = (pb_zero_point_buffer_index p = None)"

definition per_block_num_blocks :: "per_block_affine \<Rightarrow> u64 \<Rightarrow> u64 core_result" where
  "per_block_num_blocks p shape_axis =
     (if shape_axis = 0 then Ok 0 else div_ceil shape_axis (ucast (pb_block_size p)))"

definition per_block_validate_shape_axis :: "per_block_affine \<Rightarrow> u64 \<Rightarrow> unit core_result" where
  "per_block_validate_shape_axis p shape_axis =
     (if shape_axis = DYNAMIC
      then Err (QuantizationShapeMismatch (pb_axis p) shape_axis (pb_block_size p) ''dynamic axis'')
      else if shape_axis > 0 \<and> ucast (pb_block_size p) > shape_axis
      then Err (QuantizationShapeMismatch (pb_axis p) shape_axis (pb_block_size p) ''block_size'')
      else Ok ())"

definition per_block_storage_types :: "element_type list" where
  "per_block_storage_types = [Int8, Uint8, Int4, Uint4, Int2, Uint2]"

definition per_block_decode_payload :: "u16 \<Rightarrow> bytes \<Rightarrow> per_block_affine core_result" where
  "per_block_decode_payload flags b =
     (if length b < 24 then Err (QuantizationDescriptorTooShort (length b) 24)
      else if flags AND RESERVED_MASK \<noteq> 0 then Err (ReservedQuantizationFlagsBits flags RESERVED_MASK)
      else
        r_bind (get_le b 4) (\<lambda>ax.
        r_bind (get_le b 8) (\<lambda>bs.
        r_bind (get_le b 12) (\<lambda>sb.
        r_bind (get_le b 16) (\<lambda>zb.
        r_bind (index_at b 20) (\<lambda>tyb.
        if \<not> is_power_of_two bs \<or> bs < 2 then Err (InvalidBlockSize 0x03 bs 2 (- 1))
        else if tyb \<notin> {0x01, 0x02, 0x03} then Err (InvalidQuantization ''per-block scale_type_tag'')
        else
          r_bind (from_tag tyb) (\<lambda>ty.
          r_bind (slice_at b 21 3) (\<lambda>res.
          if \<not> all_zero res then Err (InvalidQuantization ''per-block reserved'')
          else
            r_bind (if flags AND FLAG_SYMMETRIC \<noteq> 0
              then (if zb \<noteq> ZP_SENTINEL then Err (InvalidQuantization ''SYMMETRIC set'') else Ok None)
              else Ok (Some zb)) (\<lambda>zp.
            Ok \<lparr>pb_axis = ax, pb_block_size = bs, pb_scale_buffer_index = sb,
                pb_zero_point_buffer_index = zp, pb_scale_type = ty\<rparr>)))))))))"

definition per_block_encode_payload :: "per_block_affine \<Rightarrow> bytes \<Rightarrow> bytes core_result" where
  "per_block_encode_payload p out =
     r_bind (put_slice 4 (to_le_bytes (pb_axis p)) out) (\<lambda>out.
     r_bind (put_slice 8 (to_le_bytes (pb_block_size p)) out) (\<lambda>out.
     r_bind (put_slice 12 (to_le_bytes (pb_scale_buffer_index p)) out) (\<lambda>out.
     r_bind (put_slice 16 (to_le_bytes (unwrap_index (pb_zero_point_buffer_index p))) out) (\<lambda>out.
     r_bind (put_byte 20 (type_tag (pb_scale_type p)) out) (\<lambda>out.
     put_slice 21 (replicate 3 0) out)))))"

definition per_block_flags :: "per_block_affine \<Rightarrow> u16" where
  "per_block_flags p = (if per_block_is_symmetric p then FLAG_SYMMETRIC else 0)"

subsection \<open>NF4\<close>

record nf4 =
  nf4_axis :: u32
  nf4_block_size :: u32
  nf4_scale_buffer_index :: u32

definition nf4_validate_block_size :: "u32 \<Rightarrow> unit core_result" where
  "nf4_validate_block_size bs =
     (if \<not> is_power_of_two bs \<or> bs < 8 then Err (InvalidBlockSize 0x04 bs 8 (- 1)) else Ok ())"

definition nf4_new :: "u32 \<Rightarrow> u32 \<Rightarrow> u32 \<Rightarrow> nf4 core_result" where
  "nf4_new ax bs sb =
     r_bind (nf4_validate_block_size bs) (\<lambda>_.
     Ok \<lparr>nf4_axis = ax, nf4_block_size = bs, nf4_scale_buffer_index = sb\<rparr>)"

definition nf4_num_blocks :: "nf4 \<Rightarrow> u64 \<Rightarrow> u64 core_result" where
  "nf4_num_blocks p shape_axis =
     (if shape_axis = 0 then Ok 0 else div_ceil shape_axis (ucast (nf4_block_size p)))"

definition nf4_validate_shape_axis :: "nf4 \<Rightarrow> u64 \<Rightarrow> unit core_result" where
  "nf4_validate_shape_axis p shape_axis =
     (if shape_axis = DYNAMIC
      then Err (QuantizationShapeMismatch (nf4_axis p) shape_axis (nf4_block_size p) ''dynamic axis'')
      else if shape_axis > 0 \<and> ucast (nf4_block_size p) > shape_axis
      then Err (QuantizationShapeMismatch (nf4_axis p) shape_axis (nf4_block_size p) ''block_size'')
      else Ok ())"

definition nf4_storage_types :: "element_type list" where
  "nf4_storage_types = [Uint4]"

definition nf4_decode_payload :: "u16 \<Rightarrow> bytes \<Rightarrow> nf4 core_result" where
  "nf4_decode_payload flags b =
     (if length b < 16 then Err (QuantizationDescriptorTooShort (length b) 16)
      else if flags AND 0xFFFF \<noteq> 0 then Err (ReservedQuantizationFlagsBits flags 0xFFFF)
      else
        r_bind (get_le b 4) (\<lambda>ax.
        r_bind (get_le b 8) (\<lambda>bs.
        r_bind (get_le b 12) (\<lambda>sb.
        r_bind (nf4_validate_block_size bs) (\<lambda>_.
        if sb = ZP_SENTINEL then Err (InvalidQuantization ''NF4 scale_buffer_index'')
        else Ok \<lparr>nf4_axis = ax, nf4_block_size = bs, nf4_scale_buffer_index = sb\<rparr>)))))"

definition nf4_encode_payload :: "nf4 \<Rightarrow> bytes \<Rightarrow> bytes core_result" where
  "nf4_encode_payload p out =
     r_bind (put_slice 4 (to_le_bytes (nf4_axis p)) out) (\<lambda>out.
     r_bind (put_slice 8 (to_le_bytes (nf4_block_size p)) out) (\<lambda>out.
     put_slice 12 (to_le_bytes (nf4_scale_buffer_index p)) out))"

subsection \<open>MXFP\<close>

record mxfp =
  mx_axis :: u32
  mx_block_size :: u32
  mx_scale_buffer_index :: u32

definition mxfp_validate_block_size :: "u32 \<Rightarrow> unit core_result" where
  "mxfp_validate_block_size bs =
     (if \<not> is_power_of_two bs \<or> \<not> (16 \<le> bs \<and> bs \<le> 2048)
      then Err (InvalidBlockSize 0x05 bs 16 2048) else Ok ())"

definition mxfp_new :: "u32 \<Rightarrow> u32 \<Rightarrow> u32 \<Rightarrow> mxfp core_result" where
  "mxfp_new ax bs sb =
     r_bind (mxfp_validate_block_size bs) (\<lambda>_.
     Ok \<lparr>mx_axis = ax, mx_block_size = bs, mx_scale_buffer_index = sb\<rparr>)"

text \<open>\<open>is_multiple_of\<close> by zero holds of zero only; it does not divide.\<close>

definition is_multiple_of :: "u64 \<Rightarrow> u64 \<Rightarrow> bool" where
  "is_multiple_of x y = (if y = 0 then x = 0 else x mod y = 0)"

definition mxfp_num_blocks :: "mxfp \<Rightarrow> u64 \<Rightarrow> u64 core_result" where
  "mxfp_num_blocks p shape_axis =
     (if shape_axis = 0 \<or> \<not> is_multiple_of shape_axis (ucast (mx_block_size p))
      then Err (QuantizationShapeMismatch (mx_axis p) shape_axis (mx_block_size p) ''MXFP multiple'')
      else plain_div shape_axis (ucast (mx_block_size p)))"

definition mxfp_validate_shape_axis :: "mxfp \<Rightarrow> u64 \<Rightarrow> unit core_result" where
  "mxfp_validate_shape_axis p shape_axis = r_bind (mxfp_num_blocks p shape_axis) (\<lambda>_. Ok ())"

fun mxfp_validate_scale_bytes :: "bytes \<Rightarrow> unit core_result" where
  "mxfp_validate_scale_bytes [] = Ok ()"
| "mxfp_validate_scale_bytes (b # bs) =
     (if b = 0x00 \<or> b = 0xFF then Err (InvalidQuantization ''MXFP scale byte'')
      else mxfp_validate_scale_bytes bs)"

definition mxfp_storage_types :: "element_type list" where
  "mxfp_storage_types =
     [Float8E4M3, Float8E5M2, Float4E2M1, Float6E2M3, Float6E3M2, Int8, Int4]"

definition mxfp_decode_payload :: "u16 \<Rightarrow> bytes \<Rightarrow> mxfp core_result" where
  "mxfp_decode_payload flags b =
     (if length b < 16 then Err (QuantizationDescriptorTooShort (length b) 16)
      else if flags AND 0xFFFF \<noteq> 0 then Err (ReservedQuantizationFlagsBits flags 0xFFFF)
      else
        r_bind (get_le b 4) (\<lambda>ax.
        r_bind (get_le b 8) (\<lambda>bs.
        r_bind (get_le b 12) (\<lambda>sb.
        r_bind (mxfp_validate_block_size bs) (\<lambda>_.
        if sb = ZP_SENTINEL then Err (InvalidQuantization ''MXFP scale_buffer_index'')
        else Ok \<lparr>mx_axis = ax, mx_block_size = bs, mx_scale_buffer_index = sb\<rparr>)))))"

definition mxfp_encode_payload :: "mxfp \<Rightarrow> bytes \<Rightarrow> bytes core_result" where
  "mxfp_encode_payload p out =
     r_bind (put_slice 4 (to_le_bytes (mx_axis p)) out) (\<lambda>out.
     r_bind (put_slice 8 (to_le_bytes (mx_block_size p)) out) (\<lambda>out.
     put_slice 12 (to_le_bytes (mx_scale_buffer_index p)) out))"

section \<open>QuantizationDescriptor\<close>

datatype quantization_descriptor =
    PerTensorAffine per_tensor_affine
  | PerChannelAffine per_channel_affine
  | PerBlockAffine per_block_affine
  | Nf4 nf4
  | Mxfp mxfp

primrec qd_scheme_tag :: "quantization_descriptor \<Rightarrow> scheme_tag" where
  "qd_scheme_tag (PerTensorAffine _) = TagPerTensorAffine"
| "qd_scheme_tag (PerChannelAffine _) = TagPerChannelAffine"
| "qd_scheme_tag (PerBlockAffine _) = TagPerBlockAffine"
| "qd_scheme_tag (Nf4 _) = TagNf4"
| "qd_scheme_tag (Mxfp _) = TagMxfp"

primrec encoded_len :: "quantization_descriptor \<Rightarrow> usize" where
  "encoded_len (PerTensorAffine _) = 16"
| "encoded_len (PerChannelAffine _) = 20"
| "encoded_len (PerBlockAffine _) = 24"
| "encoded_len (Nf4 _) = 16"
| "encoded_len (Mxfp _) = 16"

primrec header_version_and_flags :: "quantization_descriptor \<Rightarrow> u8 \<times> u16" where
  "header_version_and_flags (PerTensorAffine _) = (0x01, 0)"
| "header_version_and_flags (PerChannelAffine p) = (0x01, per_channel_flags p)"
| "header_version_and_flags (PerBlockAffine p) = (0x01, per_block_flags p)"
| "header_version_and_flags (Nf4 _) = (0x01, 0)"
| "header_version_and_flags (Mxfp _) = (0x01, 0)"

primrec encode_payload :: "quantization_descriptor \<Rightarrow> bytes \<Rightarrow> bytes core_result" where
  "encode_payload (PerTensorAffine p) out = per_tensor_encode_payload p out"
| "encode_payload (PerChannelAffine p) out = per_channel_encode_payload p out"
| "encode_payload (PerBlockAffine p) out = per_block_encode_payload p out"
| "encode_payload (Nf4 p) out = nf4_encode_payload p out"
| "encode_payload (Mxfp p) out = mxfp_encode_payload p out"

text \<open>\<open>encode_into\<close> returns the length and the updated output slice.\<close>

definition encode_into :: "quantization_descriptor \<Rightarrow> bytes \<Rightarrow> (usize \<times> bytes) core_result" where
  "encode_into q out =
     (let len = encoded_len q in
      if length out < len then Err (InvalidQuantization ''output buffer too short'')
      else
        (case header_version_and_flags q of (ver, fl) \<Rightarrow>
          r_bind (header_write \<lparr>qh_scheme_tag = qd_scheme_tag q, scheme_version = ver, qh_flags = fl\<rparr> out)
            (\<lambda>out. r_bind (encode_payload q out) (\<lambda>out. Ok (len, out)))))"

definition encode_to_vec :: "quantization_descriptor \<Rightarrow> bytes core_result" where
  "encode_to_vec q =
     (case encode_into q (replicate (encoded_len q) 0) of
        Ok (n, out) \<Rightarrow> Ok out | Err e \<Rightarrow> Panic | Panic \<Rightarrow> Panic)"

primrec supported_version_for :: "scheme_tag \<Rightarrow> u8" where
  "supported_version_for TagPerTensorAffine = 0x01"
| "supported_version_for TagPerChannelAffine = 0x01"
| "supported_version_for TagPerBlockAffine = 0x01"
| "supported_version_for TagNf4 = 0x01"
| "supported_version_for TagMxfp = 0x01"

primrec decode_payload :: "scheme_tag \<Rightarrow> u16 \<Rightarrow> bytes \<Rightarrow> quantization_descriptor core_result" where
  "decode_payload TagPerTensorAffine fl b =
     r_bind (per_tensor_decode_payload fl b) (\<lambda>p. Ok (PerTensorAffine p))"
| "decode_payload TagPerChannelAffine fl b =
     r_bind (per_channel_decode_payload fl b) (\<lambda>p. Ok (PerChannelAffine p))"
| "decode_payload TagPerBlockAffine fl b =
     r_bind (per_block_decode_payload fl b) (\<lambda>p. Ok (PerBlockAffine p))"
| "decode_payload TagNf4 fl b = r_bind (nf4_decode_payload fl b) (\<lambda>p. Ok (Nf4 p))"
| "decode_payload TagMxfp fl b = r_bind (mxfp_decode_payload fl b) (\<lambda>p. Ok (Mxfp p))"

definition quantization_decode :: "bytes \<Rightarrow> (quantization_descriptor \<times> usize) core_result" where
  "quantization_decode b =
     (if b = [] then Err (QuantizationDescriptorTooShort 0 4)
      else
        r_bind (index_at b 0) (\<lambda>tag_byte.
        r_bind (scheme_tag_from_byte tag_byte) (\<lambda>tag.
        r_bind (header_parse b (supported_version_for tag)) (\<lambda>header.
        r_bind (decode_payload tag (qh_flags header) b) (\<lambda>q.
        Ok (q, encoded_len q))))))"

primrec valid_storage_types :: "quantization_descriptor \<Rightarrow> element_type list" where
  "valid_storage_types (PerTensorAffine _) = per_tensor_storage_types"
| "valid_storage_types (PerChannelAffine _) = per_channel_storage_types"
| "valid_storage_types (PerBlockAffine _) = per_block_storage_types"
| "valid_storage_types (Nf4 _) = nf4_storage_types"
| "valid_storage_types (Mxfp _) = mxfp_storage_types"

definition is_valid_storage_type :: "quantization_descriptor \<Rightarrow> element_type \<Rightarrow> bool" where
  "is_valid_storage_type q ty = (ty \<in> set (valid_storage_types q))"

definition validate_axis :: "u32 \<Rightarrow> u32 \<Rightarrow> unit core_result" where
  "validate_axis ax rk = (if ax \<ge> rk then Err (QuantizationAxisOutOfBounds ax rk) else Ok ())"

definition opt_list :: "'a option \<Rightarrow> 'a list" where
  "opt_list x = (case x of None \<Rightarrow> [] | Some v \<Rightarrow> [v])"

primrec param_buffer_indices :: "quantization_descriptor \<Rightarrow> u32 list" where
  "param_buffer_indices (PerTensorAffine _) = []"
| "param_buffer_indices (PerChannelAffine p) =
     pc_scale_buffer_index p # opt_list (pc_zero_point_buffer_index p)"
| "param_buffer_indices (PerBlockAffine p) =
     pb_scale_buffer_index p # opt_list (pb_zero_point_buffer_index p)"
| "param_buffer_indices (Nf4 p) = [nf4_scale_buffer_index p]"
| "param_buffer_indices (Mxfp p) = [mx_scale_buffer_index p]"

fun check_param_buffers ::
  "buffer_handle list \<Rightarrow> u32 \<Rightarrow> device_tag \<Rightarrow> u32 list \<Rightarrow> unit core_result" where
  "check_param_buffers bufs data_index dev [] = Ok ()"
| "check_param_buffers bufs data_index dev (i # is') =
     (if unat i \<ge> length bufs
      then Err (QuantizationBufferIndexOutOfRange i (word_of_nat (length bufs)))
      else if i = data_index then Err (QuantizationBufferAliasesData i)
      else r_bind (index_at bufs (unat i)) (\<lambda>h.
        if device_tag h \<noteq> dev
        then Err (DeviceTagMismatch (device_tag_to_byte dev) (device_tag_to_byte (device_tag h)))
        else check_param_buffers bufs data_index dev is'))"

definition validate_buffer_placement ::
  "quantization_descriptor \<Rightarrow> buffer_handle list \<Rightarrow> u32 \<Rightarrow> unit core_result" where
  "validate_buffer_placement q bufs data_index =
     (if unat data_index \<ge> length bufs
      then Err (QuantizationBufferIndexOutOfRange data_index (word_of_nat (length bufs)))
      else check_param_buffers bufs data_index (device_tag (bufs ! unat data_index))
             (param_buffer_indices q))"

section \<open>The bytes of a descriptor\<close>

primrec quant_payload :: "quantization_descriptor \<Rightarrow> bytes" where
  "quant_payload (PerTensorAffine p) =
     to_le_bytes (pt_scale p) @ to_le_bytes (pt_zero_point p) @ [0, 0, 0, 0]"
| "quant_payload (PerChannelAffine p) =
     to_le_bytes (pc_axis p) @ to_le_bytes (pc_scale_buffer_index p) @
     to_le_bytes (unwrap_index (pc_zero_point_buffer_index p)) @ [3, 0, 0, 0]"
| "quant_payload (PerBlockAffine p) =
     to_le_bytes (pb_axis p) @ to_le_bytes (pb_block_size p) @ to_le_bytes (pb_scale_buffer_index p) @
     to_le_bytes (unwrap_index (pb_zero_point_buffer_index p)) @ [type_tag (pb_scale_type p), 0, 0, 0]"
| "quant_payload (Nf4 p) =
     to_le_bytes (nf4_axis p) @ to_le_bytes (nf4_block_size p) @ to_le_bytes (nf4_scale_buffer_index p)"
| "quant_payload (Mxfp p) =
     to_le_bytes (mx_axis p) @ to_le_bytes (mx_block_size p) @ to_le_bytes (mx_scale_buffer_index p)"

definition quant_bytes_v :: "u8 \<Rightarrow> quantization_descriptor \<Rightarrow> bytes" where
  "quant_bytes_v ver q =
     scheme_tag_byte (qd_scheme_tag q) # ver # to_le_bytes (snd (header_version_and_flags q)) @
     quant_payload q"

abbreviation quant_bytes :: "quantization_descriptor \<Rightarrow> bytes" where
  "quant_bytes \<equiv> quant_bytes_v 1"

text \<open>The descriptors that have a wire form: what the decoder can return.\<close>

primrec quant_ok :: "quantization_descriptor \<Rightarrow> bool" where
  "quant_ok (PerTensorAffine p) = (f32_is_finite (pt_scale p) \<and> \<not> f32_is_zero (pt_scale p))"
| "quant_ok (PerChannelAffine p) =
     (pc_scale_buffer_index p \<noteq> ZP_SENTINEL \<and> pc_zero_point_buffer_index p \<noteq> Some ZP_SENTINEL \<and>
      pc_scale_type p = Float32)"
| "quant_ok (PerBlockAffine p) =
     (is_power_of_two (pb_block_size p) \<and> 2 \<le> pb_block_size p \<and>
      pb_scale_type p \<in> {Float16, BFloat16, Float32})"
| "quant_ok (Nf4 p) =
     (is_power_of_two (nf4_block_size p) \<and> 8 \<le> nf4_block_size p \<and>
      nf4_scale_buffer_index p \<noteq> ZP_SENTINEL)"
| "quant_ok (Mxfp p) =
     (is_power_of_two (mx_block_size p) \<and> 16 \<le> mx_block_size p \<and> mx_block_size p \<le> 2048 \<and>
      mx_scale_buffer_index p \<noteq> ZP_SENTINEL)"

lemma length_quant_bytes [simp]: "length (quant_bytes_v v q) = encoded_len q"
  by (cases q) (simp_all add: quant_bytes_v_def)

section \<open>What the encoder writes\<close>

lemma header_write_Ok:
  assumes "to_le_bytes fl = [f0, f1]"
  shows "header_write \<lparr>qh_scheme_tag = t, scheme_version = v, qh_flags = fl\<rparr> (a # b # c # d # out) =
    Ok (scheme_tag_byte t # v # f0 # f1 # out)"
  by (simp add: header_write_def assms eval_nat_numeral)

lemma put_4 [simp]:
  assumes "length w = 4"
  shows "put_slice 4 w (h0 # h1 # h2 # h3 # a # b # c # d # out) = Ok (h0 # h1 # h2 # h3 # w @ out)"
  using assms by simp

lemma header_write_append:
  assumes "length out = 4 + n"
  shows "header_write \<lparr>qh_scheme_tag = t, scheme_version = v, qh_flags = fl\<rparr> out =
    Ok (scheme_tag_byte t # v # to_le_bytes fl @ drop 4 out)"
proof -
  obtain f0 f1 where f: "to_le_bytes fl = [f0, f1]" by (rule u16_bytes)
  have "length (take 4 out) = 4" using assms by simp
  then obtain a b c d where "take 4 out = [a, b, c, d]" using list_of_length_4 by blast
  then have "out = a # b # c # d # drop 4 out"
    using append_take_drop_id [of 4 out] by simp
  then show ?thesis
    using header_write_Ok [OF f, of t v a b c d "drop 4 out"] f by simp
qed

lemma zeros_3_4: "replicate 3 (0 :: u8) = [0, 0, 0]" "replicate 4 (0 :: u8) = [0, 0, 0, 0]"
  by (simp_all add: eval_nat_numeral)

lemma put_byte_slice: "put_byte i b out = put_slice i [b] out"
  by (simp add: put_byte_def put_slice_def upd_conv_take_nth_drop)

lemma encode_payload_writes:
  assumes "length h = 4" and "length z = encoded_len q - 4"
  shows "encode_payload q (h @ z) = Ok (h @ quant_payload q)"
  using assms
  by (cases q)
    (simp_all add: per_tensor_encode_payload_def per_channel_encode_payload_def
      per_block_encode_payload_def nf4_encode_payload_def mxfp_encode_payload_def put_byte_slice
      zeros_3_4)

lemma encode_into_writes:
  assumes "length out = encoded_len q"
  shows "encode_into q out = Ok (encoded_len q, quant_bytes q)"
proof -
  have l: "encoded_len q = 4 + (encoded_len q - 4)" by (cases q) simp_all
  obtain ver fl where vf: "header_version_and_flags q = (ver, fl)" by fastforce
  then have ver: "ver = 1" by (cases q) auto
  have "encode_payload q ((scheme_tag_byte (qd_scheme_tag q) # 1 # to_le_bytes fl) @ drop 4 out) =
      Ok ((scheme_tag_byte (qd_scheme_tag q) # 1 # to_le_bytes fl) @ quant_payload q)"
    using assms by (intro encode_payload_writes) simp_all
  then show ?thesis
    using assms header_write_append [of out "encoded_len q - 4"] l
    by (simp add: encode_into_def Let_def vf ver quant_bytes_v_def)
qed

lemma encode_to_vec_eq: "encode_to_vec q = Ok (quant_bytes q)"
  by (simp add: encode_to_vec_def encode_into_writes)

section \<open>What the decoder reads\<close>

lemma and_FFFF [simp]: "(x :: u16) AND 0xFFFF = x"
proof -
  have "(0xFFFF :: u16) = - 1" by simp
  then show ?thesis by (simp only: and.right_neutral)
qed

lemma flags_cases:
  "(x :: u16) AND RESERVED_MASK = 0 \<longleftrightarrow> x = 0 \<or> x = FLAG_SYMMETRIC"
proof
  assume a: "x AND RESERVED_MASK = 0"
  have "x = (x AND NOT 1) OR (x AND 1)" by (simp flip: bit.conj_disj_distrib)
  with a have "x = x AND 1" by (simp add: RESERVED_MASK_def FLAG_SYMMETRIC_def)
  then have "x = x mod 2" by (simp add: and_one_eq)
  then show "x = 0 \<or> x = FLAG_SYMMETRIC"
    by (metis FLAG_SYMMETRIC_def even_iff_mod_2_eq_zero odd_iff_mod_2_eq_one)
next
  assume "x = 0 \<or> x = FLAG_SYMMETRIC"
  then show "x AND RESERVED_MASK = 0" by (auto simp: RESERVED_MASK_def FLAG_SYMMETRIC_def)
qed

lemma from_tag_scale_types:
  "from_tag 1 = Ok Float16" "from_tag 2 = Ok BFloat16" "from_tag 3 = Ok Float32"
  by (simp_all add: from_tag_def)

lemma decode_payload_quant:
  assumes q: "quant_ok q" and h: "length h = 4"
  shows "decode_payload (qd_scheme_tag q) (snd (header_version_and_flags q)) (h @ quant_payload q @ rest) =
    Ok q"
proof -
  obtain h0 h1 h2 h3 where h': "h = [h0, h1, h2, h3]" using h list_of_length_4 by blast
  show ?thesis
  proof (cases q)
    case (PerTensorAffine p)
    obtain a b c d where s: "to_le_bytes (pt_scale p) = [a, b, c, d]" "from_le_bytes [a, b, c, d] = pt_scale p"
      by (rule u32_bytes)
    obtain e f g i where z: "to_le_bytes (pt_zero_point p) = [e, f, g, i]" "from_le_bytes [e, f, g, i] = pt_zero_point p"
      by (rule u32_bytes)
    show ?thesis using q
      by (simp add: PerTensorAffine h' s z per_tensor_decode_payload_def get_le_Ok per_tensor_new_def
          all_zero_def)
  next
    case (PerChannelAffine p)
    obtain a b c d where x: "to_le_bytes (pc_axis p) = [a, b, c, d]" "from_le_bytes [a, b, c, d] = pc_axis p"
      by (rule u32_bytes)
    obtain e f g i where y: "to_le_bytes (pc_scale_buffer_index p) = [e, f, g, i]"
      "from_le_bytes [e, f, g, i] = pc_scale_buffer_index p" by (rule u32_bytes)
    obtain j k l m where z: "to_le_bytes (unwrap_index (pc_zero_point_buffer_index p)) = [j, k, l, m]"
      "from_le_bytes [j, k, l, m] = unwrap_index (pc_zero_point_buffer_index p)" by (rule u32_bytes)
    show ?thesis using q
      by (cases "pc_zero_point_buffer_index p")
        (insert z, simp_all add: PerChannelAffine h' x y per_channel_decode_payload_def get_le_Ok
          all_zero_def per_channel_flags_def per_channel_is_symmetric_def flags_cases FLAG_SYMMETRIC_def
          unwrap_index_def)
  next
    case (PerBlockAffine p)
    obtain a b c d where w: "to_le_bytes (pb_axis p) = [a, b, c, d]" "from_le_bytes [a, b, c, d] = pb_axis p"
      by (rule u32_bytes)
    obtain e f g i where x: "to_le_bytes (pb_block_size p) = [e, f, g, i]"
      "from_le_bytes [e, f, g, i] = pb_block_size p" by (rule u32_bytes)
    obtain j k l m where y: "to_le_bytes (pb_scale_buffer_index p) = [j, k, l, m]"
      "from_le_bytes [j, k, l, m] = pb_scale_buffer_index p" by (rule u32_bytes)
    obtain n p' r s where z: "to_le_bytes (unwrap_index (pb_zero_point_buffer_index p)) = [n, p', r, s]"
      "from_le_bytes [n, p', r, s] = unwrap_index (pb_zero_point_buffer_index p)" by (rule u32_bytes)
    have t: "type_tag (pb_scale_type p) \<in> {1, 2, 3}" "from_tag (type_tag (pb_scale_type p)) = Ok (pb_scale_type p)"
      using q from_tag_scale_types unfolding PerBlockAffine quant_ok.simps by auto
    have "\<not> pb_block_size p < 2" "is_power_of_two (pb_block_size p)"
      using q PerBlockAffine by (auto simp: not_less)
    with t show ?thesis
      by (cases "pb_zero_point_buffer_index p")
        (insert z, simp_all add: PerBlockAffine h' w x y per_block_decode_payload_def get_le_Ok
          all_zero_def per_block_flags_def per_block_is_symmetric_def flags_cases FLAG_SYMMETRIC_def
          unwrap_index_def)
  next
    case (Nf4 p)
    obtain a b c d where w: "to_le_bytes (nf4_axis p) = [a, b, c, d]" "from_le_bytes [a, b, c, d] = nf4_axis p"
      by (rule u32_bytes)
    obtain e f g i where x: "to_le_bytes (nf4_block_size p) = [e, f, g, i]"
      "from_le_bytes [e, f, g, i] = nf4_block_size p" by (rule u32_bytes)
    obtain j k l m where y: "to_le_bytes (nf4_scale_buffer_index p) = [j, k, l, m]"
      "from_le_bytes [j, k, l, m] = nf4_scale_buffer_index p" by (rule u32_bytes)
    show ?thesis using q
      by (simp add: Nf4 h' w x y nf4_decode_payload_def get_le_Ok nf4_validate_block_size_def not_less)
  next
    case (Mxfp p)
    obtain a b c d where w: "to_le_bytes (mx_axis p) = [a, b, c, d]" "from_le_bytes [a, b, c, d] = mx_axis p"
      by (rule u32_bytes)
    obtain e f g i where x: "to_le_bytes (mx_block_size p) = [e, f, g, i]"
      "from_le_bytes [e, f, g, i] = mx_block_size p" by (rule u32_bytes)
    obtain j k l m where y: "to_le_bytes (mx_scale_buffer_index p) = [j, k, l, m]"
      "from_le_bytes [j, k, l, m] = mx_scale_buffer_index p" by (rule u32_bytes)
    show ?thesis using q
      by (simp add: Mxfp h' w x y mxfp_decode_payload_def get_le_Ok mxfp_validate_block_size_def)
  qed
qed

lemma scheme_tag_roundtrip [simp]: "scheme_tag_from_byte (scheme_tag_byte t) = Ok t"
  by (cases t) (simp_all add: scheme_tag_from_byte_def)

lemma header_parse_quant:
  assumes "v \<le> 1"
  shows "header_parse (scheme_tag_byte t # v # to_le_bytes fl @ rest) (supported_version_for t') =
    Ok \<lparr>qh_scheme_tag = t, scheme_version = v, qh_flags = fl\<rparr>"
proof -
  obtain f0 f1 where "to_le_bytes fl = [f0, f1]" "from_le_bytes [f0, f1] = fl" by (rule u16_bytes)
  moreover have "supported_version_for t' = 1" by (cases t') simp_all
  ultimately show ?thesis using assms by (simp add: header_parse_def not_less)
qed

lemma quantization_decode_bytes:
  assumes "quant_ok q" and "v \<le> 1"
  shows "quantization_decode (quant_bytes_v v q @ rest) = Ok (q, encoded_len q)"
proof -
  let ?h = "scheme_tag_byte (qd_scheme_tag q) # v # to_le_bytes (snd (header_version_and_flags q))"
  have "quant_bytes_v v q @ rest = ?h @ quant_payload q @ rest" by (simp add: quant_bytes_v_def)
  moreover have "decode_payload (qd_scheme_tag q) (snd (header_version_and_flags q))
      (?h @ quant_payload q @ rest) = Ok q"
    using assms(1) by (intro decode_payload_quant) simp_all
  ultimately show ?thesis
    using header_parse_quant [OF assms(2)] by (simp add: quantization_decode_def)
qed

section \<open>What the decoder accepts\<close>

lemma to_from_le_slice:
  "off + 4 \<le> length b \<Longrightarrow> to_le_bytes (from_le_bytes (take 4 (drop off b)) :: u32) = take 4 (drop off b)"
  by (rule to_from_le_bytes) simp

lemma take_4_more: "take (4 + n) (drop off b) = take 4 (drop off b) @ take n (drop (off + 4) b)"
  by (simp only: take_add drop_drop add.commute [of off])

lemma le_slice_eqI:
  "off + 4 \<le> length b \<Longrightarrow> from_le_bytes (take 4 (drop off b)) = (v :: u32) \<Longrightarrow>
   take 4 (drop off b) = to_le_bytes v"
  by (auto simp: to_from_le_slice)

lemma take_slices:
  "take 12 (drop 4 b) = take 4 (drop 4 b) @ take 4 (drop 8 b) @ take 4 (drop 12 b)"
  "take 16 (drop 4 b) = take 4 (drop 4 b) @ take 4 (drop 8 b) @ take 4 (drop 12 b) @ take 4 (drop 16 b)"
  "take 20 (drop 4 b) = take 4 (drop 4 b) @ take 4 (drop 8 b) @ take 4 (drop 12 b) @
     take 4 (drop 16 b) @ take 4 (drop 20 b)"
  using take_4_more [of 8 4 b] take_4_more [of 4 8 b] take_4_more [of 12 4 b] take_4_more [of 8 8 b]
    take_4_more [of 4 12 b] take_4_more [of 16 4 b] take_4_more [of 12 8 b] take_4_more [of 8 12 b]
    take_4_more [of 4 16 b]
  by simp_all

lemma take_4_byte:
  assumes "off < length b" and "take 3 (drop (Suc off) b) = [0, 0, 0]"
  shows "take 4 (drop off b) = [b ! off, 0, 0, 0]"
  using assms by (simp add: Cons_nth_drop_Suc [symmetric] numeral_eq_Suc)

lemma all_zero_slice:
  "off + n \<le> length b \<Longrightarrow> all_zero (take n (drop off b)) \<Longrightarrow> take n (drop off b) = replicate n 0"
  by (simp add: all_zero_eq_replicate)

lemma per_tensor_decode_Ok:
  assumes "per_tensor_decode_payload fl b = Ok p"
  shows "quant_ok (PerTensorAffine p) \<and> 16 \<le> length b \<and> fl = 0 \<and>
    take 12 (drop 4 b) = quant_payload (PerTensorAffine p)"
  using assms all_zero_slice [of 12 4 b]
  by (auto simp: per_tensor_decode_payload_def get_le_Ok per_tensor_new_def take_slices to_from_le_slice
      zeros_3_4 split: if_splits)

lemma per_channel_decode_Ok:
  assumes "per_channel_decode_payload fl b = Ok p"
  shows "quant_ok (PerChannelAffine p) \<and> 20 \<le> length b \<and> fl = per_channel_flags p \<and>
    take 16 (drop 4 b) = quant_payload (PerChannelAffine p)"
  using assms all_zero_slice [of 17 3 b] take_4_byte [of 16 b]
  by (auto simp: per_channel_decode_payload_def get_le_Ok take_slices to_from_le_slice
      zeros_3_4 flags_cases FLAG_SYMMETRIC_def per_channel_flags_def per_channel_is_symmetric_def
      unwrap_index_def intro: le_slice_eqI split: if_splits)

lemma from_tag_scale_type_Ok:
  "t \<in> {1, 2, 3} \<Longrightarrow> from_tag t = Ok ty \<Longrightarrow> ty \<in> {Float16, BFloat16, Float32} \<and> type_tag ty = t"
  using from_tag_scale_types by auto

lemma per_block_decode_Ok:
  assumes "per_block_decode_payload fl b = Ok p"
  shows "quant_ok (PerBlockAffine p) \<and> 24 \<le> length b \<and> fl = per_block_flags p \<and>
    take 20 (drop 4 b) = quant_payload (PerBlockAffine p)"
proof -
  have l: "24 \<le> length b" and f: "fl = 0 \<or> fl = FLAG_SYMMETRIC"
    using assms flags_cases [of fl] by (auto simp: per_block_decode_payload_def split: if_splits)
  let ?bs = "from_le_bytes (take 4 (drop 8 b)) :: u32"
  let ?zb = "from_le_bytes (take 4 (drop 16 b)) :: u32"
  from assms have "\<not> length b < 24" "is_power_of_two ?bs" "\<not> ?bs < 2" "b ! 20 \<in> {1, 2, 3}"
    by (auto simp: per_block_decode_payload_def get_le_Ok split: if_splits)
  with assms obtain ty zp where ty: "from_tag (b ! 20) = Ok ty"
    and res: "all_zero (take 3 (drop 21 b))"
    and zp: "(if fl AND FLAG_SYMMETRIC \<noteq> 0 then if ?zb \<noteq> ZP_SENTINEL
        then Err (InvalidQuantization ''SYMMETRIC set'') else Ok None else Ok (Some ?zb)) = Ok zp"
    and p: "p = \<lparr>pb_axis = from_le_bytes (take 4 (drop 4 b)), pb_block_size = ?bs,
      pb_scale_buffer_index = from_le_bytes (take 4 (drop 12 b)), pb_zero_point_buffer_index = zp,
      pb_scale_type = ty\<rparr>"
    unfolding per_block_decode_payload_def
    by (simp only: get_le_Ok r_bind.simps) (auto simp: get_le_Ok r_bind_Ok_iff simp del: insert_iff
        split: if_split_asm)
  have "take 3 (drop 21 b) = [0, 0, 0]"
    using all_zero_slice [OF _ res] l by (simp add: zeros_3_4)
  then have t: "take 4 (drop 20 b) = [type_tag ty, 0, 0, 0]"
    using take_4_byte [of 20 b] l from_tag_scale_type_Ok [OF \<open>b ! 20 \<in> {1, 2, 3}\<close> ty] by simp
  have z: "fl = per_block_flags p \<and> take 4 (drop 16 b) = to_le_bytes (unwrap_index zp)"
    using zp f l le_slice_eqI [of 16 b]
    by (auto simp: p per_block_flags_def per_block_is_symmetric_def unwrap_index_def FLAG_SYMMETRIC_def
        split: if_splits)
  show ?thesis
    using l t z from_tag_scale_type_Ok [OF \<open>b ! 20 \<in> {1, 2, 3}\<close> ty]
      \<open>is_power_of_two ?bs\<close> \<open>\<not> ?bs < 2\<close>
    by (simp add: p take_slices to_from_le_slice not_less)
qed

lemma nf4_decode_Ok:
  assumes "nf4_decode_payload fl b = Ok p"
  shows "quant_ok (Nf4 p) \<and> 16 \<le> length b \<and> fl = 0 \<and> take 12 (drop 4 b) = quant_payload (Nf4 p)"
  using assms
  by (auto simp: nf4_decode_payload_def get_le_Ok take_slices to_from_le_slice
      nf4_validate_block_size_def split: if_splits)

lemma mxfp_decode_Ok:
  assumes "mxfp_decode_payload fl b = Ok p"
  shows "quant_ok (Mxfp p) \<and> 16 \<le> length b \<and> fl = 0 \<and> take 12 (drop 4 b) = quant_payload (Mxfp p)"
  using assms
  by (auto simp: mxfp_decode_payload_def get_le_Ok take_slices to_from_le_slice
      mxfp_validate_block_size_def split: if_splits)

lemma decode_payload_Ok:
  assumes "decode_payload t fl b = Ok q"
  shows "quant_ok q \<and> qd_scheme_tag q = t \<and> encoded_len q \<le> length b \<and>
    fl = snd (header_version_and_flags q) \<and> take (encoded_len q - 4) (drop 4 b) = quant_payload q"
proof (cases t)
  case TagPerTensorAffine
  then show ?thesis using assms per_tensor_decode_Ok by (auto simp: r_bind_Ok_iff)
next
  case TagPerChannelAffine
  then show ?thesis using assms per_channel_decode_Ok by (auto simp: r_bind_Ok_iff)
next
  case TagPerBlockAffine
  then show ?thesis using assms per_block_decode_Ok by (auto simp: r_bind_Ok_iff)
next
  case TagNf4
  then show ?thesis using assms nf4_decode_Ok by (auto simp: r_bind_Ok_iff)
next
  case TagMxfp
  then show ?thesis using assms mxfp_decode_Ok by (auto simp: r_bind_Ok_iff)
qed

lemma scheme_tag_from_byte_Ok: "scheme_tag_from_byte b = Ok t \<Longrightarrow> scheme_tag_byte t = b"
  by (auto simp: scheme_tag_from_byte_def split: if_splits)

lemma header_parse_Ok:
  assumes "header_parse b (supported_version_for t) = Ok h"
  shows "4 \<le> length b \<and> scheme_version h \<le> 1 \<and>
    take 4 b = scheme_tag_byte (qh_scheme_tag h) # scheme_version h # to_le_bytes (qh_flags h)"
proof -
  have l: "4 \<le> length b" using assms by (auto simp: header_parse_def split: if_splits)
  then have "length (take 4 b) = 4" by simp
  then obtain x0 x1 x2 x3 where "take 4 b = [x0, x1, x2, x3]" using list_of_length_4 by blast
  then have b: "b = x0 # x1 # x2 # x3 # drop 4 b" using append_take_drop_id [of 4 b] by simp
  have v: "supported_version_for t = 1" by (cases t) simp_all
  have f: "to_le_bytes (from_le_bytes [x2, x3] :: u16) = [x2, x3]" by (rule to_from_le_bytes) simp
  from assms have "r_bind (scheme_tag_from_byte x0) (\<lambda>tag.
      if x1 > 1 then Err (UnsupportedSchemeVersion x0 x1 1)
      else Ok \<lparr>qh_scheme_tag = tag, scheme_version = x1, qh_flags = from_le_bytes [x2, x3]\<rparr>) = Ok h"
    using l by (subst (asm) b) (simp add: header_parse_def v)
  then show ?thesis using l b f scheme_tag_from_byte_Ok [of x0]
    by (auto simp: r_bind_Ok_iff \<open>take 4 b = [x0, x1, x2, x3]\<close> split: if_splits)
qed

lemma quantization_decode_Ok:
  assumes "quantization_decode b = Ok (q, n)"
  shows "quant_ok q \<and> n = encoded_len q \<and> n \<le> length b \<and> (\<exists>v \<le> 1. take n b = quant_bytes_v v q)"
proof -
  from assms obtain t h where t: "scheme_tag_from_byte (b ! 0) = Ok t" and b: "b \<noteq> []"
    and h: "header_parse b (supported_version_for t) = Ok h"
    and q: "decode_payload t (qh_flags h) b = Ok q" and n: "n = encoded_len q"
    by (auto simp: quantization_decode_def r_bind_Ok_iff split: if_splits)
  note h' = header_parse_Ok [OF h] and q' = decode_payload_Ok [OF q]
  have "qh_scheme_tag h = t"
  proof -
    have "take 4 b ! 0 = scheme_tag_byte (qh_scheme_tag h)" by (metis h' nth_Cons_0)
    then have "b ! 0 = scheme_tag_byte (qh_scheme_tag h)" by simp
    then show ?thesis using t by simp
  qed
  moreover have "take n b = take 4 b @ take (n - 4) (drop 4 b)"
    using n by (cases q) (simp_all flip: take_add)
  ultimately have "take n b = quant_bytes_v (scheme_version h) q"
    using h' q' n by (simp add: quant_bytes_v_def)
  with h' q' n show ?thesis by auto
qed

lemma per_scheme_decode_not_Panic [simp]:
  "per_tensor_decode_payload fl b \<noteq> Panic" "per_channel_decode_payload fl b \<noteq> Panic"
  "per_block_decode_payload fl b \<noteq> Panic" "nf4_decode_payload fl b \<noteq> Panic"
  "mxfp_decode_payload fl b \<noteq> Panic"
proof -
  show "per_tensor_decode_payload fl b \<noteq> Panic"
    by (auto simp: per_tensor_decode_payload_def get_le_Ok per_tensor_new_def)
  show "per_channel_decode_payload fl b \<noteq> Panic"
    by (auto simp: per_channel_decode_payload_def get_le_Ok)
  show "per_block_decode_payload fl b \<noteq> Panic"
    by (auto simp: per_block_decode_payload_def get_le_Ok r_bind_Panic_iff from_tag_scale_types)
  show "nf4_decode_payload fl b \<noteq> Panic"
    by (auto simp: nf4_decode_payload_def get_le_Ok nf4_validate_block_size_def)
  show "mxfp_decode_payload fl b \<noteq> Panic"
    by (auto simp: mxfp_decode_payload_def get_le_Ok mxfp_validate_block_size_def)
qed

lemma scheme_tag_from_byte_not_Panic [simp]: "scheme_tag_from_byte b \<noteq> Panic"
  by (simp add: scheme_tag_from_byte_def)

lemma header_parse_not_Panic [simp]: "header_parse b v \<noteq> Panic"
  by (auto simp: header_parse_def r_bind_Panic_iff index_at_def)

lemma quantization_decode_not_Panic: "quantization_decode b \<noteq> Panic"
proof
  assume "quantization_decode b = Panic"
  then obtain t and h :: quantization_header where "decode_payload t (qh_flags h) b = Panic"
    by (auto simp: quantization_decode_def r_bind_Panic_iff split: if_splits)
  then show False by (cases t) (auto simp: r_bind_Panic_iff)
qed

section \<open>Properties\<close>



text \<open>The zero-point index of a block-wise affine descriptor is not the sentinel that the wire form
  reserves for symmetric quantization.\<close>

primrec zero_point_present :: "quantization_descriptor \<Rightarrow> bool" where
  "zero_point_present (PerTensorAffine _) = True"
| "zero_point_present (PerChannelAffine _) = True"
| "zero_point_present (PerBlockAffine p) = (pb_zero_point_buffer_index p \<noteq> Some ZP_SENTINEL)"
| "zero_point_present (Nf4 _) = True"
| "zero_point_present (Mxfp _) = True"

lemma quant_bytes_v_nth: "quant_bytes_v v q ! Suc 0 = v"
  by (simp add: quant_bytes_v_def)

lemma quantization_decode_version:
  assumes "quantization_decode (t # v # r) = Ok (q, n)"
  shows "v \<le> 1 \<and> take n (t # v # r) = quant_bytes_v v q"
proof -
  from quantization_decode_Ok [OF assms] obtain w where w: "w \<le> 1" "take n (t # v # r) = quant_bytes_v w q"
    and n: "n = encoded_len q" by blast
  have "Suc 0 < n" unfolding n by (cases q) simp_all
  then have "take n (t # v # r) ! Suc 0 = v" by simp
  with w show ?thesis by (simp add: quant_bytes_v_nth)
qed

text \<open>
  C39. The quantization decoder on arbitrary bytes. It never panics, and it accepts nothing of a scheme
  version above 1. Of scheme version 1 it accepts exactly the encodings, with any bytes behind, of the
  descriptors that have a wire form, and reports their length: every reserved byte and flag, the block
  size, the scale and the sentinels are checked. The one class of results left aside are block-wise affine
  descriptors that are not symmetric and have the sentinel as zero-point index.
\<close>

theorem quantization_decode_precise:
  assumes "zero_point_present q" and "1 < v"
  shows "quantization_decode b \<noteq> Panic \<and>
   quantization_decode (t # v # r) \<noteq> Ok (q', n') \<and>
   (quantization_decode (t # 1 # r) = Ok (q, n) \<longleftrightarrow>
      quant_ok q \<and> n = encoded_len q \<and> n \<le> length (t # 1 # r) \<and> take n (t # 1 # r) = quant_bytes q)"
proof (intro conjI iffI)
  show "quantization_decode b \<noteq> Panic" by (rule quantization_decode_not_Panic)
  show "quantization_decode (t # v # r) \<noteq> Ok (q', n')"
    using quantization_decode_version [of t v r q' n'] assms(2) by auto
next
  assume "quantization_decode (t # 1 # r) = Ok (q, n)"
  then show "quant_ok q" "n = encoded_len q" "n \<le> length (t # 1 # r)" "take n (t # 1 # r) = quant_bytes q"
    using quantization_decode_Ok quantization_decode_version by blast+
next
  assume *: "quant_ok q \<and> n = encoded_len q \<and> n \<le> length (t # 1 # r) \<and> take n (t # 1 # r) = quant_bytes q"
  have "quant_bytes q @ drop n (t # 1 # r) = t # 1 # r"
    using * append_take_drop_id [of n "t # 1 # r"] by metis
  moreover have "quantization_decode (quant_bytes q @ drop n (t # 1 # r)) = Ok (q, n)"
    using * quantization_decode_bytes [of q 1] by simp
  ultimately show "quantization_decode (t # 1 # r) = Ok (q, n)" by simp
qed

theorem quantization_decode_precise_witness:
  "quantization_decode [1, 1, 0, 0, 0, 0, 128, 63, 0, 0, 0, 0, 0, 0, 0, 0] =
     Ok (PerTensorAffine \<lparr>pt_scale = 0x3F800000, pt_zero_point = 0\<rparr>, 16) \<and>
   quantization_decode [1, 2, 0, 0, 0, 0, 128, 63, 0, 0, 0, 0, 0, 0, 0, 0] \<noteq>
     Ok (PerTensorAffine \<lparr>pt_scale = 0x3F800000, pt_zero_point = 0\<rparr>, 16)"
proof -
  let ?q = "PerTensorAffine \<lparr>pt_scale = 0x3F800000, pt_zero_point = 0\<rparr>"
  let ?r = "[0, 0, 0, 0, 128, 63, 0, 0, 0, 0, 0, 0, 0, 0] :: bytes"
  have "quant_ok ?q" by (simp add: f32_is_finite_def f32_is_zero_def)
  moreover have "take 16 (1 # 1 # ?r) = quant_bytes ?q" by (simp add: quant_bytes_v_def to_le_bytes_def)
  ultimately have "quant_ok ?q \<and> 16 = encoded_len ?q \<and> 16 \<le> length (1 # 1 # ?r) \<and> take 16 (1 # 1 # ?r) = quant_bytes ?q"
    by (intro conjI) simp_all
  moreover have "zero_point_present ?q" "(1 :: u8) < 2" by simp_all
  ultimately show ?thesis
    using quantization_decode_precise [of ?q 2 "[]" 1 ?r ?q 16 16] by blast
qed

text \<open>
  Two inputs that the documents rule out are accepted: a scheme version of 0, of which only versions above
  the supported one are rejected, and a block-wise affine descriptor whose SYMMETRIC flag is clear although
  its zero-point index is the sentinel.
\<close>

theorem quantization_version_zero_accepted:
  "quantization_decode [1, 0, 0, 0, 0, 0, 128, 63, 0, 0, 0, 0, 0, 0, 0, 0] =
     Ok (PerTensorAffine \<lparr>pt_scale = 0x3F800000, pt_zero_point = 0\<rparr>, 16)"
proof -
  let ?q = "PerTensorAffine \<lparr>pt_scale = 0x3F800000, pt_zero_point = 0\<rparr>"
  have "quant_ok ?q" by (simp add: f32_is_finite_def f32_is_zero_def)
  from quantization_decode_bytes [OF this, of 0 "[]"]
  have "quantization_decode (quant_bytes_v 0 ?q) = Ok (?q, 16)" by simp
  moreover have "quant_bytes_v 0 ?q = [1, 0, 0, 0, 0, 0, 128, 63, 0, 0, 0, 0, 0, 0, 0, 0]"
    by (simp add: quant_bytes_v_def to_le_bytes_def)
  ultimately show ?thesis by simp
qed

theorem per_block_sentinel_accepted:
  "\<exists>p. pb_zero_point_buffer_index p = Some ZP_SENTINEL \<and> per_block_flags p = 0 \<and>
     quantization_decode (quant_bytes (PerBlockAffine p)) = Ok (PerBlockAffine p, 24)"
proof -
  let ?p = "\<lparr>pb_axis = 0, pb_block_size = 4, pb_scale_buffer_index = 1,
      pb_zero_point_buffer_index = Some ZP_SENTINEL, pb_scale_type = Float16\<rparr>"
  have "is_power_of_two (4 :: u32)" by (auto simp: is_power_of_two_iff intro: exI [of _ 2])
  then have "quant_ok (PerBlockAffine ?p)" by (simp add: word_le_nat_alt)
  from quantization_decode_bytes [OF this, of 1 "[]"]
  have "quantization_decode (quant_bytes (PerBlockAffine ?p)) = Ok (PerBlockAffine ?p, 24)" by simp
  then show ?thesis
    by (intro exI [of _ ?p]) (simp add: per_block_flags_def per_block_is_symmetric_def)
qed

text \<open>
  The number of blocks covers the axis exactly: for a valid descriptor and a positive axis size,
  \<open>num_blocks_per_axis\<close> returns the \<open>n\<close> with \<open>(n - 1) * block_size < axis \<le> n * block_size\<close>, and does not
  panic.
\<close>

theorem num_blocks_cover:
  assumes "quant_ok (PerBlockAffine p)" and "0 < shape_axis"
  shows "\<exists>n. per_block_num_blocks p shape_axis = Ok n \<and> 0 < unat n \<and>
    (unat n - 1) * unat (pb_block_size p) < unat shape_axis \<and>
    unat shape_axis \<le> unat n * unat (pb_block_size p)"
proof -
  let ?b = "unat (pb_block_size p)" and ?a = "unat shape_axis"
  have u: "unat (ucast (pb_block_size p) :: u64) = ?b" by (rule unat_ucast_u32_u64)
  have b: "0 < ?b" using assms(1) is_power_of_two_nonzero [of "pb_block_size p"] by (simp add: unat_gt_0)
  then have nz: "(ucast (pb_block_size p) :: u64) \<noteq> 0" using u by (metis unat_0 less_irrefl)
  then obtain n where n: "(div_ceil shape_axis (ucast (pb_block_size p)) :: u64 core_result) = Ok n"
    by (simp add: div_ceil_eq)
  have a: "0 < ?a" using assms(2) by (simp add: word_less_nat_alt)
  have v: "unat n = (?a + ?b - 1) div ?b" using unat_div_ceil [OF n] u by simp
  have q: "unat n * ?b \<le> ?a + ?b - 1 \<and> ?a + ?b - 1 < unat n * ?b + ?b"
    unfolding v using b by (metis div_mult_mod_eq le_add1 mod_less_divisor nat_add_left_cancel_less)
  then have "?a \<le> unat n * ?b" using b by linarith
  moreover from this a have "0 < unat n" by (cases "unat n") auto
  moreover have "(unat n - 1) * ?b < ?a" using q a b by (cases "unat n") (auto simp: algebra_simps)
  ultimately show ?thesis using n assms(2) by (auto simp: per_block_num_blocks_def)
qed

theorem num_blocks_cover_witness:
  "\<exists>n. per_block_num_blocks \<lparr>pb_axis = 0, pb_block_size = 4, pb_scale_buffer_index = 1,
      pb_zero_point_buffer_index = None, pb_scale_type = Float16\<rparr> 10 = Ok n \<and> 0 < unat n \<and>
    (unat n - 1) * 4 < 10 \<and> 10 \<le> unat n * 4"
proof -
  have "is_power_of_two (4 :: u32)" by (auto simp: is_power_of_two_iff intro: exI [of _ 2])
  then show ?thesis
    using num_blocks_cover [of "\<lparr>pb_axis = 0, pb_block_size = 4, pb_scale_buffer_index = 1,
      pb_zero_point_buffer_index = None, pb_scale_type = Float16\<rparr>" 10]
    by (simp add: word_le_nat_alt word_less_nat_alt)
qed

lemma check_param_buffers_Ok:
  "check_param_buffers bufs d dev ps = Ok () \<longleftrightarrow>
     (\<forall>i \<in> set ps. unat i < length bufs \<and> i \<noteq> d \<and> device_tag (bufs ! unat i) = dev)"
  by (induction ps) (auto simp: not_le)

lemma check_param_buffers_not_Panic [simp]: "check_param_buffers bufs d dev ps \<noteq> Panic"
  by (induction ps) (auto simp: not_le)

text \<open>
  \<open>validate_buffer_placement\<close> accepts exactly when the data buffer index is in range and every
  parameter buffer (scale, and zero point where there is one) is in range, is not the data buffer,
  and is on the data buffer's device; it never panics.
\<close>

theorem validate_buffer_placement_iff:
  "validate_buffer_placement q bufs d \<noteq> Panic \<and>
   (validate_buffer_placement q bufs d = Ok () \<longleftrightarrow>
      unat d < length bufs \<and>
      (\<forall>i \<in> set (param_buffer_indices q).
         unat i < length bufs \<and> i \<noteq> d \<and> device_tag (bufs ! unat i) = device_tag (bufs ! unat d)))"
  by (auto simp: validate_buffer_placement_def check_param_buffers_Ok not_le)

theorem validate_buffer_placement_iff_witness:
  "validate_buffer_placement (Nf4 \<lparr>nf4_axis = 0, nf4_block_size = 8, nf4_scale_buffer_index = 1\<rparr>)
     [handle_empty Cuda, handle_empty Cuda] 0 = Ok ()"
  using validate_buffer_placement_iff [of "Nf4 \<lparr>nf4_axis = 0, nf4_block_size = 8, nf4_scale_buffer_index = 1\<rparr>"
      "[handle_empty Cuda, handle_empty Cuda]" 0]
  by (simp add: handle_empty_def)

text \<open>
  The constructors of the block schemes accept descriptors that have no wire form: \<open>Mxfp::new\<close> and
  \<open>Nf4::new\<close> take the sentinel \<open>0xFFFFFFFF\<close> as scale buffer index, such a descriptor encodes, and
  decoding what was written fails.
\<close>

theorem block_scheme_new_sentinel:
  "\<exists>p bs. mxfp_new ax 32 ZP_SENTINEL = Ok p \<and> encode_to_vec (Mxfp p) = Ok bs \<and>
     (\<forall>q n. quantization_decode (bs @ rest) \<noteq> Ok (q, n))"
proof -
  let ?p = "\<lparr>mx_axis = ax, mx_block_size = 32, mx_scale_buffer_index = ZP_SENTINEL\<rparr>"
  have "is_power_of_two (32 :: u32)" by (auto simp: is_power_of_two_iff intro: exI [of _ 5])
  then have "mxfp_new ax 32 ZP_SENTINEL = Ok ?p"
    by (simp add: mxfp_new_def mxfp_validate_block_size_def word_le_nat_alt)
  moreover have "quantization_decode (quant_bytes (Mxfp ?p) @ rest) \<noteq> Ok (q, n)" for q n
  proof
    assume "quantization_decode (quant_bytes (Mxfp ?p) @ rest) = Ok (q, n)"
    from quantization_decode_Ok [OF this] obtain v where q: "quant_ok q"
      and e: "take (encoded_len q) (quant_bytes (Mxfp ?p) @ rest) = quant_bytes_v v q" by auto
    have "0 < encoded_len q" by (cases q) simp_all
    with e have "scheme_tag_byte TagMxfp = scheme_tag_byte (qd_scheme_tag q)"
      by (cases "encoded_len q") (auto simp: quant_bytes_v_def)
    then have "qd_scheme_tag q = TagMxfp" by (cases q) simp_all
    then obtain r where r: "q = Mxfp r" by (cases q) auto
    with e have "quant_payload (Mxfp ?p) = quant_payload (Mxfp r)" by (simp add: quant_bytes_v_def)
    then have "mx_scale_buffer_index r = ZP_SENTINEL" by simp
    with q r show False by simp
  qed
  ultimately show ?thesis by (auto simp: encode_to_vec_eq)
qed

end
