(* ===== verification/Descriptor.thy ===== *)
theory Descriptor
  imports Sections Quantization
begin

text \<open>
  The tensor descriptor (\<open>hurray-core/src/descriptor/\<close> \<open>mod.rs\<close>, \<open>encode.rs\<close>, \<open>decode.rs\<close>): the checks of
  \<open>TensorDescriptor::new\<close>, the encoder with its back-patched length, and the decoder, composed of
  the layout codec, the buffer table and the optional sections.
\<close>

section \<open>Constants and flags\<close>

definition MAGIC :: bytes where
  "MAGIC = [0x48, 0x52, 0x52, 0x59]"

definition DESCRIPTOR_VERSION_MAJOR :: u8 where
  "DESCRIPTOR_VERSION_MAJOR = 1"

definition DESCRIPTOR_VERSION_MINOR :: u8 where
  "DESCRIPTOR_VERSION_MINOR = 0"

definition MIN_DESCRIPTOR_LEN :: u32 where
  "MIN_DESCRIPTOR_LEN = 20"

definition RESERVED_FLAGS_MASK :: u32 where
  "RESERVED_FLAGS_MASK = NOT 0x1F"

text \<open>The flag bits, in the order of their positions.\<close>

definition HAS_QUANTIZATION :: u32 where "HAS_QUANTIZATION = 1"
definition HAS_SHARD :: u32 where "HAS_SHARD = 2"
definition HAS_EXTENSION_TYPE :: u32 where "HAS_EXTENSION_TYPE = 4"
definition HAS_STATISTICS :: u32 where "HAS_STATISTICS = 8"
definition HAS_COMPOSITE_MEMBER :: u32 where "HAS_COMPOSITE_MEMBER = 16"

definition has_quantization :: "u32 \<Rightarrow> bool" where
  "has_quantization fl = (fl AND HAS_QUANTIZATION \<noteq> 0)"

definition has_shard :: "u32 \<Rightarrow> bool" where
  "has_shard fl = (fl AND HAS_SHARD \<noteq> 0)"

definition has_extension_type :: "u32 \<Rightarrow> bool" where
  "has_extension_type fl = (fl AND HAS_EXTENSION_TYPE \<noteq> 0)"

definition has_statistics :: "u32 \<Rightarrow> bool" where
  "has_statistics fl = (fl AND HAS_STATISTICS \<noteq> 0)"

definition has_composite_member :: "u32 \<Rightarrow> bool" where
  "has_composite_member fl = (fl AND HAS_COMPOSITE_MEMBER \<noteq> 0)"

section \<open>TensorDescriptor\<close>

record tensor_descriptor =
  version_major :: u8
  version_minor :: u8
  element_ty :: element_type
  td_shape :: shape
  byte_offset :: u64
  layout :: layout_descriptor
  buffers :: "buffer_handle list"
  quantization :: "bytes option"
  shard :: "shard_descriptor option"
  td_statistics :: "statistics option"
  extension_type :: "ext_type option"
  member_section :: "composite_member option"

text \<open>The axis and block size \<open>TensorDescriptor::new\<close> reads off a quantization descriptor.\<close>

primrec quant_axis_block :: "quantization_descriptor \<Rightarrow> u32 \<times> u32" where
  "quant_axis_block (PerChannelAffine x) = (pc_axis x, 0)"
| "quant_axis_block (PerBlockAffine x) = (pb_axis x, pb_block_size x)"
| "quant_axis_block (Nf4 x) = (nf4_axis x, nf4_block_size x)"
| "quant_axis_block (Mxfp x) = (mx_axis x, mx_block_size x)"
| "quant_axis_block (PerTensorAffine x) = (0, 0)"

definition is_block_paged :: "layout_descriptor \<Rightarrow> bool" where
  "is_block_paged l = (case l of BlockPaged _ \<Rightarrow> True | _ \<Rightarrow> False)"

definition is_csf :: "layout_descriptor \<Rightarrow> bool" where
  "is_csf l = (case l of Csf _ \<Rightarrow> True | _ \<Rightarrow> False)"

text \<open>The successive invariant checks of \<open>new\<close>: buffer table and composite head, extension type,
  shard, and quantization of a block-paged layout.\<close>

definition check_buffer_table ::
  "layout_descriptor \<Rightarrow> buffer_handle list \<Rightarrow> u64 \<Rightarrow> bytes option \<Rightarrow> unit core_result" where
  "check_buffer_table l bufs off q =
     r_bind
       (if is_virtual l then
          (if bufs \<noteq> [] then Err (CompositeHeadHasBuffers (word_of_nat (min (length bufs) 255)))
           else if off \<noteq> 0 then Err (CompositeHeadHasByteOffset off)
           else if q \<noteq> None then Err CompositeHeadHasQuantization
           else Ok ())
        else if bufs = [] then Err EmptyBufferTable
        else Ok ())
       (\<lambda>_. if length bufs > 255 then Err (InvalidLayout ''buffer_count'') else Ok ())"

definition ext_range_label :: "bool \<Rightarrow> string" where
  "ext_range_label b = (if b then ''in 0xF0-0xFE'' else ''not in 0xF0-0xFE'')"

definition check_extension :: "element_type \<Rightarrow> ext_type option \<Rightarrow> unit core_result" where
  "check_extension ty ext =
     (let is_ext_tag = (0xF0 \<le> type_tag ty \<and> type_tag ty \<le> 0xFE);
          has_ext = (ext \<noteq> None)
      in if is_ext_tag \<noteq> has_ext
         then Err (ExtensionTypeFlagMismatch has_ext (type_tag ty) (ext_range_label is_ext_tag))
         else Ok ())"

definition check_shard :: "layout_descriptor \<Rightarrow> shape \<Rightarrow> shard_descriptor option \<Rightarrow> unit core_result" where
  "check_shard l sh s =
     (case s of None \<Rightarrow> Ok ()
      | Some s \<Rightarrow>
          if length (parent_shape s) \<noteq> rank sh then Err (InvalidShape ''shard rank'')
          else if is_block_paged l then Err (InvalidLayout ''block-paged shard'')
          else if is_csf l then Err (InvalidLayout ''CSF shard'')
          else Ok ())"

definition check_paged_quantization :: "layout_descriptor \<Rightarrow> bytes option \<Rightarrow> unit core_result" where
  "check_paged_quantization l q =
     (case (l, q) of
        (BlockPaged bp, Some qb) \<Rightarrow>
          r_bind (quantization_decode qb) (\<lambda>(qd, n).
            case quant_axis_block qd of (ax, bs) \<Rightarrow>
              validate_quantization_compatibility bp (scheme_tag_byte (qd_scheme_tag qd)) ax bs)
      | _ \<Rightarrow> Ok ())"

definition tensor_descriptor_new ::
  "u8 \<Rightarrow> u8 \<Rightarrow> element_type \<Rightarrow> shape \<Rightarrow> u64 \<Rightarrow> layout_descriptor \<Rightarrow> buffer_handle list \<Rightarrow> bytes option \<Rightarrow>
   shard_descriptor option \<Rightarrow> statistics option \<Rightarrow> ext_type option \<Rightarrow> tensor_descriptor core_result" where
  "tensor_descriptor_new vmaj vmin ty sh off l bufs q s st ext =
     r_bind (check_buffer_table l bufs off q) (\<lambda>_.
     r_bind (check_extension ty ext) (\<lambda>_.
     r_bind (check_shard l sh s) (\<lambda>_.
     r_bind (check_paged_quantization l q) (\<lambda>_.
     Ok \<lparr>version_major = vmaj, version_minor = vmin, element_ty = ty, td_shape = sh, byte_offset = off,
         layout = l, buffers = bufs, quantization = q, shard = s, td_statistics = st,
         extension_type = ext, member_section = None\<rparr>))))"

definition with_composite_member :: "tensor_descriptor \<Rightarrow> composite_member \<Rightarrow> tensor_descriptor" where
  "with_composite_member d m = d\<lparr>member_section := Some m\<rparr>"

definition flag_if :: "bool \<Rightarrow> u32 \<Rightarrow> u32 \<Rightarrow> u32" where
  "flag_if b fb fl = (if b then fl OR fb else fl)"

definition descriptor_flags :: "tensor_descriptor \<Rightarrow> u32" where
  "descriptor_flags d =
     (let fl = 0;
          fl = flag_if (quantization d \<noteq> None) HAS_QUANTIZATION fl;
          fl = flag_if (shard d \<noteq> None) HAS_SHARD fl;
          fl = flag_if (extension_type d \<noteq> None) HAS_EXTENSION_TYPE fl;
          fl = flag_if (td_statistics d \<noteq> None) HAS_STATISTICS fl
      in flag_if (member_section d \<noteq> None) HAS_COMPOSITE_MEMBER fl)"

section \<open>Encoder\<close>

definition write_opt :: "('a \<Rightarrow> byte_writer \<Rightarrow> byte_writer) \<Rightarrow> 'a option \<Rightarrow> byte_writer \<Rightarrow> byte_writer" where
  "write_opt f x w = (case x of None \<Rightarrow> w | Some v \<Rightarrow> f v w)"

definition write_quantization :: "bytes \<Rightarrow> byte_writer \<Rightarrow> byte_writer" where
  "write_quantization q w = write_bytes q (write_u32_le (word_of_nat (length q)) w)"

definition encode_header :: "tensor_descriptor \<Rightarrow> byte_writer" where
  "encode_header d =
     (let w = \<lparr>w_buf = []\<rparr>;
          w = write_bytes MAGIC w;
          w = write_u8 (version_major d) w;
          w = write_u8 (version_minor d) w;
          w = write_u32_le 0 w;
          w = write_u32_le (descriptor_flags d) w;
          w = write_u8 (type_tag (element_ty d)) w;
          w = write_u8 (layout_tag (layout d)) w;
          w = write_u32_le (word_of_nat (rank (td_shape d))) w;
          w = fold write_u64_le (dims (td_shape d)) w
      in write_u64_le (byte_offset d) w)"

definition encode_tail :: "tensor_descriptor \<Rightarrow> byte_writer \<Rightarrow> byte_writer core_result" where
  "encode_tail d w =
     (if length (buffers d) > 255 then Err (InvalidLayout ''buffer_count'')
      else
        let w = write_u8 (word_of_nat (length (buffers d))) w;
            w = fold handle_encode_into (buffers d) w;
            w = write_opt write_quantization (quantization d) w;
            w = write_opt shard_encode_into (shard d) w;
            w = write_opt statistics_encode_into (td_statistics d) w;
            w = write_opt ext_type_encode_into (extension_type d) w
        in case member_section d of
             None \<Rightarrow> Ok w
           | Some m \<Rightarrow>
               if is_virtual (layout d) then Err (InvalidLayout ''composite head member section'')
               else Ok (composite_member_encode_into m w))"

definition encode :: "tensor_descriptor \<Rightarrow> bytes core_result" where
  "encode d =
     r_bind (encode_layout_payload (layout d) (word_of_nat (rank (td_shape d))) (encode_header d)) (\<lambda>w.
     r_bind (encode_tail d w) (\<lambda>w.
     let total_len = length (w_buf w) in
     if total_len > 0xFFFFFFFF then Err (DescriptorLengthMismatch 0xFFFFFFFF total_len)
     else put_slice 6 (to_le_bytes (word_of_nat total_len :: u32)) (w_buf w)))"

section \<open>Decoder\<close>

definition read_quantization :: "bytes reader" where
  "read_quantization = rd_bind read_u32_le (\<lambda>n. read_bytes (unat n))"

definition read_shard :: "u32 \<Rightarrow> shape \<Rightarrow> shard_descriptor reader" where
  "read_shard rk sh =
     rd_bind (shard_decode_from rk) (\<lambda>s.
     rd_bind (rd_lift (shard_validate_against_shape s sh)) (\<lambda>_. rd_ret s))"

text \<open>Steps 14 to 18b of \<open>decode\<close>: the buffer table and the optional sections.\<close>

definition read_sections ::
  "u8 \<Rightarrow> u8 \<Rightarrow> u32 \<Rightarrow> element_type \<Rightarrow> u32 \<Rightarrow> shape \<Rightarrow> u64 \<Rightarrow> layout_descriptor \<Rightarrow> tensor_descriptor reader" where
  "read_sections vmaj vmin fl ty rk sh off l =
     rd_bind read_u8 (\<lambda>count.
     if count = 0 \<and> \<not> is_virtual l then rd_lift (Err EmptyBufferTable)
     else
       rd_bind (read_many (unat count) handle_decode_from) (\<lambda>bufs.
       rd_bind (read_if (has_quantization fl) read_quantization) (\<lambda>q.
       rd_bind (read_if (has_shard fl) (read_shard rk sh)) (\<lambda>s.
       rd_bind (read_if (has_statistics fl) statistics_decode_from) (\<lambda>st.
       rd_bind (read_if (has_extension_type fl) ext_type_decode_from) (\<lambda>ext.
       rd_bind (read_if (has_composite_member fl) composite_member_decode_from) (\<lambda>m.
       rd_ret \<lparr>version_major = vmaj, version_minor = vmin, element_ty = ty, td_shape = sh,
               byte_offset = off, layout = l, buffers = bufs, quantization = q, shard = s,
               td_statistics = st, extension_type = ext, member_section = m\<rparr>)))))))"

text \<open>Steps 6 to 18b: everything behind the ten bytes that \<open>decode\<close> looks at directly.\<close>

definition read_fields :: "u8 \<Rightarrow> u8 \<Rightarrow> tensor_descriptor reader" where
  "read_fields vmaj vmin =
     rd_bind read_u32_le (\<lambda>fl.
     if fl AND RESERVED_FLAGS_MASK \<noteq> 0
     then rd_lift (Err (ReservedDescriptorFlagBitsSet fl RESERVED_FLAGS_MASK))
     else
       rd_bind read_u8 (\<lambda>tag.
       rd_bind (rd_lift (from_tag tag)) (\<lambda>ty.
       rd_bind read_u8 (\<lambda>ltag.
       rd_bind read_u32_le (\<lambda>rk.
       if unat rk > MAX_RANK then rd_lift (Err (RankExceedsMaximum rk (word_of_nat MAX_RANK)))
       else
         rd_bind (read_many (unat rk) read_u64_le) (\<lambda>ds.
         rd_bind (rd_lift (shape_new ds)) (\<lambda>sh.
         rd_bind read_u64_le (\<lambda>off.
         rd_bind (decode_layout_payload ltag rk 0) (\<lambda>l.
         if is_extension ty \<noteq> has_extension_type fl
         then rd_lift (Err (ExtensionTypeFlagMismatch (has_extension_type fl) tag
                (ext_range_label (is_extension ty))))
         else read_sections vmaj vmin fl ty rk sh off l)))))))))"

text \<open>Step 20: the constructor's checks, and the composite member on top.\<close>

definition finish_descriptor :: "tensor_descriptor \<Rightarrow> tensor_descriptor core_result" where
  "finish_descriptor d =
     r_bind (tensor_descriptor_new (version_major d) (version_minor d) (element_ty d) (td_shape d)
       (byte_offset d) (layout d) (buffers d) (quantization d) (shard d) (td_statistics d)
       (extension_type d)) (\<lambda>d'.
     case member_section d of
       None \<Rightarrow> Ok d'
     | Some m \<Rightarrow>
         if is_virtual (layout d) then Err (InvalidLayout ''composite head member section'')
         else Ok (with_composite_member d' m))"

definition decode :: "bytes \<Rightarrow> tensor_descriptor core_result" where
  "decode b =
     (if length b < 10 then Err (DescriptorTruncated 0 10 (length b))
      else
        r_bind (slice_at b 0 4) (\<lambda>magic.
        if magic \<noteq> MAGIC then Err (InvalidMagic magic)
        else
          r_bind (index_at b 4) (\<lambda>vmaj.
          r_bind (index_at b 5) (\<lambda>vmin.
          if vmaj > DESCRIPTOR_VERSION_MAJOR then Err (UnsupportedDescriptorVersion vmaj vmin)
          else
            r_bind (get_le b 6) (\<lambda>dlen :: u32.
            if dlen < MIN_DESCRIPTOR_LEN then Err (DescriptorTooShort dlen)
            else
              let limit = min (unat dlen) (length b) in
              r_bind (read_bytes 10 (cursor_new b limit)) (\<lambda>(_, c).
              r_bind (read_fields vmaj vmin c) (\<lambda>(d, c).
              if vmin = DESCRIPTOR_VERSION_MINOR \<and> cur_pos c \<noteq> unat dlen
              then Err (DescriptorLengthMismatch dlen (cur_pos c))
              else finish_descriptor d)))))))"

section \<open>The bytes of a descriptor\<close>

definition opt_bytes :: "('a \<Rightarrow> bytes) \<Rightarrow> 'a option \<Rightarrow> bytes" where
  "opt_bytes f x = (case x of None \<Rightarrow> [] | Some v \<Rightarrow> f v)"

definition quantization_section_bytes :: "bytes \<Rightarrow> bytes" where
  "quantization_section_bytes q = to_le_bytes (word_of_nat (length q) :: u32) @ q"

definition section_bytes :: "tensor_descriptor \<Rightarrow> bytes" where
  "section_bytes d =
     word_of_nat (length (buffers d)) # concat (map handle_bytes (buffers d)) @
     opt_bytes quantization_section_bytes (quantization d) @ opt_bytes shard_bytes (shard d) @
     opt_bytes statistics_bytes (td_statistics d) @ opt_bytes ext_type_bytes (extension_type d) @
     opt_bytes composite_member_bytes (member_section d)"

definition descriptor_body :: "tensor_descriptor \<Rightarrow> bytes" where
  "descriptor_body d =
     to_le_bytes (descriptor_flags d) @ type_tag (element_ty d) # layout_tag (layout d) #
     to_le_bytes (word_of_nat (length (td_shape d)) :: u32) @ concat (map to_le_bytes (td_shape d)) @
     to_le_bytes (byte_offset d) @ layout_payload (layout d) @ section_bytes d"

definition descriptor_bytes :: "tensor_descriptor \<Rightarrow> bytes" where
  "descriptor_bytes d =
     MAGIC @ version_major d # version_minor d #
     to_le_bytes (word_of_nat (10 + length (descriptor_body d)) :: u32) @ descriptor_body d"

lemma length_descriptor_bytes [simp]: "length (descriptor_bytes d) = 10 + length (descriptor_body d)"
  by (simp add: descriptor_bytes_def MAGIC_def)

section \<open>Valid descriptors\<close>

text \<open>Every dimension of a shard lies within its parent. The check adds with saturation, so that a
  parent dimension of \<open>u64::MAX\<close> admits any offset.\<close>

definition shard_in_bounds :: "shard_descriptor \<Rightarrow> shape \<Rightarrow> bool" where
  "shard_in_bounds s sh \<longleftrightarrow>
     (\<forall>k < length sh. unat (shard_offset s ! k) + unat (sh ! k) \<le> unat (parent_shape s ! k) \<or>
        parent_shape s ! k = - 1)"

text \<open>\<open>fields_ok\<close> is what reading the fields guarantees, \<open>finish_ok\<close> what \<open>TensorDescriptor::new\<close> adds.\<close>

definition fields_ok :: "tensor_descriptor \<Rightarrow> bool" where
  "fields_ok d \<longleftrightarrow>
     element_type_ok (element_ty d) \<and> length (td_shape d) \<le> MAX_RANK \<and>
     layout_ok (length (td_shape d)) (layout d) \<and>
     length (buffers d) \<le> 255 \<and> (\<forall>h \<in> set (buffers d). handle_ok h) \<and>
     (\<not> is_virtual (layout d) \<longrightarrow> buffers d \<noteq> []) \<and>
     (\<forall>q. quantization d = Some q \<longrightarrow> length q < 2 ^ 32) \<and>
     (\<forall>s. shard d = Some s \<longrightarrow> shard_fits (length (td_shape d)) s \<and> shard_in_bounds s (td_shape d)) \<and>
     (\<forall>s. td_statistics d = Some s \<longrightarrow> statistics_ok s) \<and>
     (\<forall>e. extension_type d = Some e \<longrightarrow> ext_type_ok e) \<and>
     (is_extension (element_ty d) \<longleftrightarrow> extension_type d \<noteq> None)"

text \<open>A block-paged layout carries a quantization only if it decodes and is compatible with the
  pages: not per channel of the paged axis, and per block only with the page as the block.\<close>

definition paged_quantization_ok :: "block_paged_layout \<Rightarrow> bytes \<Rightarrow> bool" where
  "paged_quantization_ok bp qb \<longleftrightarrow>
     (\<exists>qd n. quantization_decode qb = Ok (qd, n) \<and>
        (case qd of
           PerChannelAffine p \<Rightarrow> pc_axis p \<noteq> 0
         | PerBlockAffine p \<Rightarrow> pb_axis p = 0 \<and> pb_block_size p = page_size bp
         | _ \<Rightarrow> True))"

definition finish_ok :: "tensor_descriptor \<Rightarrow> bool" where
  "finish_ok d \<longleftrightarrow>
     (is_virtual (layout d) \<longrightarrow>
        buffers d = [] \<and> byte_offset d = 0 \<and> quantization d = None \<and> member_section d = None) \<and>
     (shard d \<noteq> None \<longrightarrow> \<not> is_block_paged (layout d) \<and> \<not> is_csf (layout d)) \<and>
     (\<forall>bp q. layout d = BlockPaged bp \<longrightarrow> quantization d = Some q \<longrightarrow> paged_quantization_ok bp q)"

definition descriptor_ok :: "tensor_descriptor \<Rightarrow> bool" where
  "descriptor_ok d \<longleftrightarrow> version_major d \<le> 1 \<and> fields_ok d \<and> finish_ok d"

section \<open>Shard bounds\<close>

lemma saturating_add_le_iff:
  "\<not> saturating_add x y > z \<longleftrightarrow> unat x + unat y \<le> unat z \<or> z = - 1" for x y z :: u64
proof -
  have m: "unat z \<le> 2 ^ 64 - 1" using unsigned_less [of z, where 'a = nat] by simp
  have "z = - 1 \<longleftrightarrow> unat z = 2 ^ 64 - 1"
    by (simp add: word_unat_eq_iff unsigned_minus_1_eq_mask mask_eq_exp_minus_1)
  then show ?thesis
    using m by (simp only: not_less word_le_nat_alt unat_saturating_add) auto
qed

lemma shard_check_dims_spec:
  assumes "length (parent_shape s) = length sh" and "length (shard_offset s) = length sh"
  shows "shard_check_dims s sh k \<noteq> Panic \<and>
    (shard_check_dims s sh k = Ok () \<longleftrightarrow>
      (\<forall>j. k \<le> j \<and> j < length sh \<longrightarrow>
         unat (shard_offset s ! j) + unat (sh ! j) \<le> unat (parent_shape s ! j) \<or> parent_shape s ! j = - 1))"
  using assms
proof (induction s sh k rule: shard_check_dims.induct)
  case (1 s sh k)
  show ?case
  proof (cases "k < length sh")
    case False
    then show ?thesis using "1.prems" by (simp add: shard_check_dims.simps [of s sh k])
  next
    case True
    let ?bad = "saturating_add (shard_offset s ! k) (sh ! k) > parent_shape s ! k"
    have step: "shard_check_dims s sh k =
        (if ?bad then Err (ShardOutOfBounds k (shard_offset s ! k) (sh ! k) (parent_shape s ! k))
         else shard_check_dims s sh (k + 1))"
      using True "1.prems" by (simp add: shard_check_dims.simps [of s sh k] dims_def)
    have all: "(\<forall>j. k \<le> j \<and> j < length sh \<longrightarrow> P j) \<longleftrightarrow> P k \<and> (\<forall>j. k + 1 \<le> j \<and> j < length sh \<longrightarrow> P j)" for P
      using True by (auto simp: Suc_le_eq) (metis le_neq_implies_less)
    show ?thesis
    proof (cases ?bad)
      case True
      then show ?thesis using saturating_add_le_iff step all by auto
    next
      case False
      have "shard_check_dims s sh (k + 1) \<noteq> Panic \<and> (shard_check_dims s sh (k + 1) = Ok () \<longleftrightarrow>
          (\<forall>j. k + 1 \<le> j \<and> j < length sh \<longrightarrow> unat (shard_offset s ! j) + unat (sh ! j) \<le>
            unat (parent_shape s ! j) \<or> parent_shape s ! j = - 1))"
        by (rule "1.IH") (use True "1.prems" False in \<open>auto simp: dims_def\<close>)
      with False show ?thesis unfolding step all using saturating_add_le_iff by auto
    qed
  qed
qed

lemma shard_validate_spec:
  "shard_fits (length sh) s \<Longrightarrow>
   shard_validate_against_shape s sh \<noteq> Panic \<and>
   (shard_validate_against_shape s sh = Ok () \<longleftrightarrow> shard_in_bounds s sh)"
  using shard_check_dims_spec [of s sh 0]
  by (simp add: shard_fits_def shard_validate_against_shape_def shard_in_bounds_def)

section \<open>The constructor's checks\<close>

lemma check_paged_quantization_spec:
  "check_paged_quantization l q \<noteq> Panic \<and>
   (check_paged_quantization l q = Ok () \<longleftrightarrow>
      (\<forall>bp qb. l = BlockPaged bp \<longrightarrow> q = Some qb \<longrightarrow> paged_quantization_ok bp qb))"
proof (cases "\<exists>bp qb. l = BlockPaged bp \<and> q = Some qb")
  case False
  then have "check_paged_quantization l q = Ok ()"
    by (cases l; cases q) (auto simp: check_paged_quantization_def)
  with False show ?thesis by auto
next
  case True
  then obtain bp qb where l: "l = BlockPaged bp" and q: "q = Some qb" by blast
  show ?thesis
  proof (cases "quantization_decode qb")
    case (Ok r)
    obtain qd n where r: "r = (qd, n)" by fastforce
    have "check_paged_quantization l q \<noteq> Panic \<and> (check_paged_quantization l q = Ok () \<longleftrightarrow>
        (case qd of PerChannelAffine p \<Rightarrow> pc_axis p \<noteq> 0
         | PerBlockAffine p \<Rightarrow> pb_axis p = 0 \<and> pb_block_size p = page_size bp | _ \<Rightarrow> True))"
      by (cases qd) (simp_all add: check_paged_quantization_def l q Ok r validate_quantization_compatibility_def)
    then show ?thesis by (simp add: l q paged_quantization_ok_def Ok r)
  next
    case (Err e)
    then show ?thesis by (simp add: check_paged_quantization_def l q paged_quantization_ok_def)
  next
    case Panic
    then show ?thesis using quantization_decode_not_Panic by blast
  qed
qed

lemma check_buffer_table_spec:
  "check_buffer_table l bufs off q \<noteq> Panic \<and>
   (check_buffer_table l bufs off q = Ok () \<longleftrightarrow>
      length bufs \<le> 255 \<and>
      (if is_virtual l then bufs = [] \<and> off = 0 \<and> q = None else bufs \<noteq> []))"
  by (auto simp: check_buffer_table_def)

lemma check_shard_spec:
  "check_shard l sh s \<noteq> Panic \<and>
   (check_shard l sh s = Ok () \<longleftrightarrow>
      (\<forall>x. s = Some x \<longrightarrow> length (parent_shape x) = length sh \<and> \<not> is_block_paged l \<and> \<not> is_csf l))"
  by (auto simp: check_shard_def split: option.splits)

lemma finish_descriptor_spec:
  assumes "fields_ok d"
  shows "finish_descriptor d \<noteq> Panic \<and> (finish_descriptor d = Ok d' \<longleftrightarrow> d' = d \<and> finish_ok d)"
proof -
  have ext: "check_extension (element_ty d) (extension_type d) = Ok ()"
    using assms is_extension_iff [of "element_ty d"]
    by (simp add: fields_ok_def check_extension_def Let_def)
  have rec: "d\<lparr>member_section := member_section d\<rparr> = d" by simp
  let ?d = "d\<lparr>member_section := None\<rparr>"
  let ?new = "tensor_descriptor_new (version_major d) (version_minor d) (element_ty d) (td_shape d)
       (byte_offset d) (layout d) (buffers d) (quantization d) (shard d) (td_statistics d)
       (extension_type d)"
  let ?P = "check_buffer_table (layout d) (buffers d) (byte_offset d) (quantization d) = Ok () \<and>
     check_shard (layout d) (td_shape d) (shard d) = Ok () \<and>
     check_paged_quantization (layout d) (quantization d) = Ok ()"
  have eq: "\<lparr>version_major = version_major d, version_minor = version_minor d, element_ty = element_ty d,
      td_shape = td_shape d, byte_offset = byte_offset d, layout = layout d, buffers = buffers d,
      quantization = quantization d, shard = shard d, td_statistics = td_statistics d,
      extension_type = extension_type d, member_section = None\<rparr> = ?d"
    by (cases d) simp
  have new: "?new \<noteq> Panic \<and> (\<forall>x. ?new = Ok x \<longleftrightarrow> x = ?d \<and> ?P)"
    using ext check_buffer_table_spec [of "layout d" "buffers d" "byte_offset d" "quantization d"]
      check_shard_spec [of "layout d" "td_shape d" "shard d"]
      check_paged_quantization_spec [of "layout d" "quantization d"]
    unfolding tensor_descriptor_new_def eq by (auto simp: r_bind_Ok_iff r_bind_Panic_iff)
  have P: "?P \<and> (is_virtual (layout d) \<longrightarrow> member_section d = None) \<longleftrightarrow> finish_ok d"
    using assms check_buffer_table_spec [of "layout d" "buffers d" "byte_offset d" "quantization d"]
      check_shard_spec [of "layout d" "td_shape d" "shard d"]
      check_paged_quantization_spec [of "layout d" "quantization d"]
    unfolding finish_ok_def fields_ok_def shard_fits_def by (cases "is_virtual (layout d)") auto
  show ?thesis
  proof (cases "member_section d")
    case None
    then have "?d = d" using rec by simp
    with None new P show ?thesis
      by (auto simp: finish_descriptor_def r_bind_Ok_iff r_bind_Panic_iff)
  next
    case (Some m)
    then have "with_composite_member ?d m = d" by (simp add: with_composite_member_def)
    with Some new P show ?thesis
      by (auto simp: finish_descriptor_def r_bind_Ok_iff r_bind_Panic_iff)
  qed
qed

section \<open>What the encoder writes\<close>

lemma write_opt_appends:
  assumes "\<And>v w. f v w = w\<lparr>w_buf := w_buf w @ g v\<rparr>"
  shows "write_opt f x w = w\<lparr>w_buf := w_buf w @ opt_bytes g x\<rparr>"
  by (cases x) (simp_all add: write_opt_def opt_bytes_def assms)

lemma section_appends [writer_simps]:
  "handle_encode_into h w = w\<lparr>w_buf := w_buf w @ handle_bytes h\<rparr>"
  "write_quantization q w = w\<lparr>w_buf := w_buf w @ quantization_section_bytes q\<rparr>"
  "composite_member_encode_into m w = w\<lparr>w_buf := w_buf w @ composite_member_bytes m\<rparr>"
  using handle_row.writes [of h w] member_section.writes [of m w]
  by (simp_all add: write_quantization_def quantization_section_bytes_def writer_simps
      handle_encode_into_def handle_bytes_def Let_def)

lemma optional_section_appends [writer_simps]:
  "write_opt write_quantization q w = w\<lparr>w_buf := w_buf w @ opt_bytes quantization_section_bytes q\<rparr>"
  "write_opt shard_encode_into s w = w\<lparr>w_buf := w_buf w @ opt_bytes shard_bytes s\<rparr>"
  "write_opt statistics_encode_into st w = w\<lparr>w_buf := w_buf w @ opt_bytes statistics_bytes st\<rparr>"
  "write_opt ext_type_encode_into e w = w\<lparr>w_buf := w_buf w @ opt_bytes ext_type_bytes e\<rparr>"
  by (rule write_opt_appends, simp add: writer_simps shard_encode_into_def shard_bytes_def
      statistics_encode_into_def statistics_bytes_def ext_type_encode_into_def ext_type_bytes_def Let_def)+

lemmas fold_handles = fold_write_appends [of handle_encode_into handle_bytes, OF section_appends(1)]

lemma encode_tail_writes:
  assumes "length (buffers d) \<le> 255" and "is_virtual (layout d) \<longrightarrow> member_section d = None"
  shows "encode_tail d w = Ok (w\<lparr>w_buf := w_buf w @ section_bytes d\<rparr>)"
  using assms
  by (cases "member_section d")
    (simp_all add: encode_tail_def Let_def writer_simps fold_handles section_bytes_def opt_bytes_def [of _ None]
      opt_bytes_def [of _ "Some _"])

lemma unat_rank_word: "n \<le> MAX_RANK \<Longrightarrow> unat (word_of_nat n :: u32) = n"
  by (simp add: MAX_RANK_def unat_of_nat)

lemma encode_header_bytes:
  "encode_header d = \<lparr>w_buf = MAGIC @ version_major d # version_minor d # to_le_bytes (0 :: u32) @
     to_le_bytes (descriptor_flags d) @ type_tag (element_ty d) # layout_tag (layout d) #
     to_le_bytes (word_of_nat (length (td_shape d)) :: u32) @ concat (map to_le_bytes (td_shape d)) @
     to_le_bytes (byte_offset d)\<rparr>"
  by (simp add: encode_header_def Let_def writer_simps dims_def)

lemma back_patch:
  assumes "length m = 4" and "length l = 4" and "length l' = 4"
  shows "put_slice 6 l (m @ a # b # l' @ rest) = Ok (m @ a # b # l @ rest)"
  using assms by simp

lemma encode_eq:
  assumes "descriptor_ok d"
  shows "encode d =
    (if length (descriptor_bytes d) < 2 ^ 32 then Ok (descriptor_bytes d)
     else Err (DescriptorLengthMismatch 0xFFFFFFFF (length (descriptor_bytes d))))"
proof -
  let ?h = "MAGIC @ version_major d # version_minor d # to_le_bytes (0 :: u32) @ descriptor_body d"
  have lay: "encode_layout_payload (layout d) (word_of_nat (length (td_shape d))) w =
      Ok (w\<lparr>w_buf := w_buf w @ layout_payload (layout d)\<rparr>)" for w
    using assms by (intro encode_layout_payload_writes)
      (simp add: descriptor_ok_def fields_ok_def unat_rank_word)
  have tail: "encode_tail d w = Ok (w\<lparr>w_buf := w_buf w @ section_bytes d\<rparr>)" for w
    using assms by (intro encode_tail_writes) (simp_all add: descriptor_ok_def fields_ok_def finish_ok_def)
  have len: "length ?h = length (descriptor_bytes d)" by (simp add: descriptor_bytes_def)
  have patch: "put_slice 6 (to_le_bytes (word_of_nat (length ?h) :: u32)) ?h = Ok (descriptor_bytes d)"
    unfolding len by (subst back_patch) (simp_all add: MAGIC_def descriptor_bytes_def)
  let ?w = "(encode_header d)\<lparr>w_buf := w_buf (encode_header d) @ layout_payload (layout d)\<rparr>"
  have buf: "w_buf (?w\<lparr>w_buf := w_buf ?w @ section_bytes d\<rparr>) = ?h"
    by (simp add: encode_header_bytes descriptor_body_def)
  have "encode d = (if length ?h > 0xFFFFFFFF then Err (DescriptorLengthMismatch 0xFFFFFFFF (length ?h))
      else put_slice 6 (to_le_bytes (word_of_nat (length ?h) :: u32)) ?h)"
    by (simp only: encode_def rank_eq_length lay r_bind.simps tail buf Let_def)
  then have "encode d = (if length ?h > 0xFFFFFFFF then Err (DescriptorLengthMismatch 0xFFFFFFFF (length ?h))
      else Ok (descriptor_bytes d))"
    by (simp only: patch)
  then show ?thesis unfolding len by (auto simp del: length_descriptor_bytes)
qed

section \<open>What the decoder reads\<close>

lemma flags_bits:
  "has_quantization (descriptor_flags d) \<longleftrightarrow> quantization d \<noteq> None"
  "has_shard (descriptor_flags d) \<longleftrightarrow> shard d \<noteq> None"
  "has_extension_type (descriptor_flags d) \<longleftrightarrow> extension_type d \<noteq> None"
  "has_statistics (descriptor_flags d) \<longleftrightarrow> td_statistics d \<noteq> None"
  "has_composite_member (descriptor_flags d) \<longleftrightarrow> member_section d \<noteq> None"
  "descriptor_flags d AND RESERVED_FLAGS_MASK = 0"
  by (cases "quantization d = None"; cases "shard d = None"; cases "extension_type d = None";
      cases "td_statistics d = None"; cases "member_section d = None";
      simp add: descriptor_flags_def flag_if_def Let_def has_quantization_def has_shard_def
        has_extension_type_def has_statistics_def has_composite_member_def HAS_QUANTIZATION_def
        HAS_SHARD_def HAS_EXTENSION_TYPE_def HAS_STATISTICS_def HAS_COMPOSITE_MEMBER_def
        RESERVED_FLAGS_MASK_def)+

lemma quantization_section_decodes:
  "length q < 2 ^ 32 \<Longrightarrow> reads_as read_quantization (quantization_section_bytes q) q"
  unfolding read_quantization_def quantization_section_bytes_def
  by (intro reads_steps reads_as_bytes) (simp add: unat_of_nat_u32)

lemma quantization_section_sound:
  "dec_post read_quantization (\<lambda>q n. length q < 2 ^ 32 \<and> n = length (quantization_section_bytes q))"
  unfolding read_quantization_def
  by (intro dec_steps dec_post_bytes) (simp add: quantization_section_bytes_def)

interpretation quantization_part: wire_format quantization_section_bytes read_quantization
  "\<lambda>q. length q < 2 ^ 32" "\<lambda>q w. Ok (write_quantization q w)"
proof
  show "reads_as read_quantization (quantization_section_bytes q) q" if "length q < 2 ^ 32" for q
    using that by (rule quantization_section_decodes)
  show "dec_post read_quantization (\<lambda>q n. length q < 2 ^ 32 \<and> n = length (quantization_section_bytes q))"
    by (rule quantization_section_sound)
  show "Ok (write_quantization q w) = Ok (w\<lparr>w_buf := w_buf w @ quantization_section_bytes q\<rparr>)" for q w
    by (simp add: writer_simps)
qed

lemma read_shard_decodes:
  "length sh = unat rk \<Longrightarrow> shard_fits (unat rk) s \<Longrightarrow> shard_in_bounds s sh \<Longrightarrow>
   reads_as (read_shard rk sh) (shard_bytes s) s"
  unfolding read_shard_def
  by (intro reads_as_bind_last [OF shard_section.decodes] reads_steps reads_as_ret_eq)
    (use shard_validate_spec [of sh s] in simp_all)

lemma read_shard_sound:
  "length sh = unat rk \<Longrightarrow>
   dec_post (read_shard rk sh)
     (\<lambda>s n. (shard_fits (unat rk) s \<and> shard_in_bounds s sh) \<and> n = length (shard_bytes s))"
  unfolding read_shard_def
  by (intro dec_post_bind [OF shard_section.sound] dec_steps)
    (use shard_validate_spec [of sh] in auto)

lemma read_sections_decodes:
  assumes d: "fields_ok d" and rk: "length (td_shape d) = unat rk"
  shows "reads_as (read_sections (version_major d) (version_minor d) (descriptor_flags d) (element_ty d) rk
    (td_shape d) (byte_offset d) (layout d)) (section_bytes d) d"
proof -
  note f = d [unfolded fields_ok_def]
  have count: "unat (word_of_nat (length (buffers d)) :: u8) = length (buffers d)"
    using f by (simp add: unat_of_nat)
  have zero: "(word_of_nat (length (buffers d)) :: u8) = 0 \<longleftrightarrow> buffers d = []"
    by (metis count length_0_conv unat_0 unsigned_0 word_unat_eq_iff)
  have bufs: "reads_as (read_many (unat (word_of_nat (length (buffers d)) :: u8)) handle_decode_from)
      (concat (map handle_bytes (buffers d))) (buffers d)"
    using f count by (intro handle_row.many_decodes) auto
  have q: "reads_as (read_if (has_quantization (descriptor_flags d)) read_quantization)
      (opt_bytes quantization_section_bytes (quantization d)) (quantization d)"
    unfolding opt_bytes_def using f by (intro quantization_part.optional_decodes) (auto simp: flags_bits)
  have s: "reads_as (read_if (has_shard (descriptor_flags d)) (read_shard rk (td_shape d)))
      (opt_bytes shard_bytes (shard d)) (shard d)"
    unfolding opt_bytes_def using f rk
    by (intro reads_as_read_if read_shard_decodes) (auto simp: flags_bits)
  have st: "reads_as (read_if (has_statistics (descriptor_flags d)) statistics_decode_from)
      (opt_bytes statistics_bytes (td_statistics d)) (td_statistics d)"
    unfolding opt_bytes_def using f by (intro statistics_section.optional_decodes) (auto simp: flags_bits)
  have e: "reads_as (read_if (has_extension_type (descriptor_flags d)) ext_type_decode_from)
      (opt_bytes ext_type_bytes (extension_type d)) (extension_type d)"
    unfolding opt_bytes_def using f by (intro ext_type_section.optional_decodes) (auto simp: flags_bits)
  have m: "reads_as (read_if (has_composite_member (descriptor_flags d)) composite_member_decode_from)
      (opt_bytes composite_member_bytes (member_section d)) (member_section d)"
    unfolding opt_bytes_def by (intro member_section.optional_decodes) (auto simp: flags_bits)
  show ?thesis
    unfolding read_sections_def section_bytes_def
    by (intro reads_as_bind_u8 reads_as_if reads_as_bind [OF bufs] reads_as_bind [OF q]
        reads_as_bind [OF s] reads_as_bind [OF st] reads_as_bind [OF e] reads_as_bind_last [OF m]
        reads_as_ret_eq)
      (use f zero in simp_all)
qed

lemma read_fields_decodes:
  assumes d: "fields_ok d"
  shows "reads_as (read_fields (version_major d) (version_minor d)) (descriptor_body d) d"
proof -
  note f = d [unfolded fields_ok_def]
  let ?rk = "word_of_nat (length (td_shape d)) :: u32"
  have rk: "unat ?rk = length (td_shape d)" using f unat_rank_word by blast
  have ty: "from_tag (type_tag (element_ty d)) = Ok (element_ty d)" using f from_tag_type_tag by blast
  have sh: "shape_new (td_shape d) = Ok (td_shape d)" using f by (simp add: shape_new_def)
  have lay: "reads_as (decode_layout_payload (layout_tag (layout d)) ?rk 0) (layout_payload (layout d)) (layout d)"
    using f rk by (intro reads_as_layout_payload) simp_all
  show ?thesis
    unfolding read_fields_def descriptor_body_def
    by (intro reads_steps reads_as_if reads_as_bind [OF lay] reads_as_bind_lift [OF ty]
        reads_as_bind_lift [OF sh] read_sections_decodes [OF d])
      (use f rk in \<open>simp_all add: flags_bits\<close>)
qed

lemma decode_bytes:
  assumes d: "descriptor_ok d" and len: "length (descriptor_bytes d) < 2 ^ 32"
  shows "decode (descriptor_bytes d @ rest) = Ok d"
proof -
  let ?n = "length (descriptor_bytes d)"
  let ?l = "word_of_nat ?n :: u32"
  let ?b = "descriptor_bytes d @ rest"
  have l: "unat ?l = ?n" using len by (rule unat_of_nat_u32)
  obtain l0 l1 l2 l3 where w: "to_le_bytes ?l = [l0, l1, l2, l3]" "from_le_bytes [l0, l1, l2, l3] = ?l"
    by (rule u32_bytes)
  have b: "?b = 0x48 # 0x52 # 0x52 # 0x59 # version_major d # version_minor d # l0 # l1 # l2 # l3 #
      descriptor_body d @ rest"
    using w(1) by (simp add: descriptor_bytes_def MAGIC_def)
  have get: "get_le ?b 6 = (Ok ?l :: u32 core_result)" using w(2) by (simp add: b get_le_Ok)
  have min: "\<not> ?l < MIN_DESCRIPTOR_LEN"
    unfolding word_less_nat_alt l by (simp add: MIN_DESCRIPTOR_LEN_def descriptor_body_def)
  let ?c = "\<lambda>p. \<lparr>cur_data = ?b, cur_pos = p, cur_limit = ?n\<rparr>"
  have skip: "read_bytes 10 (cursor_new ?b (min (unat ?l) (length ?b))) = Ok (take 10 ?b, ?c 10)"
    unfolding l by (simp add: read_bytes_def cursor_new_def)
  have rf: "reads_as (read_fields (version_major d) (version_minor d)) (descriptor_body d) d"
    using d by (intro read_fields_decodes) (simp add: descriptor_ok_def)
  have pre: "take 10 ?b @ descriptor_body d @ rest = ?b" "length (take 10 ?b) = 10" by (simp_all add: b)
  have read: "read_fields (version_major d) (version_minor d) (?c 10) = Ok (d, ?c ?n)"
    using rf [unfolded reads_as_def, rule_format, of "take 10 ?b" ?n rest] unfolding pre by simp
  have fin: "finish_descriptor d = Ok d"
    using d finish_descriptor_spec [of d d] by (simp add: descriptor_ok_def)
  have v: "\<not> version_major d > DESCRIPTOR_VERSION_MAJOR"
    using d by (simp add: descriptor_ok_def DESCRIPTOR_VERSION_MAJOR_def not_less)
  have "length ?b \<ge> 10" "slice_at ?b 0 4 = (Ok MAGIC :: bytes core_result)"
    "index_at ?b 4 = (Ok (version_major d) :: u8 core_result)"
    "index_at ?b 5 = (Ok (version_minor d) :: u8 core_result)"
    unfolding b by (simp_all add: MAGIC_def)
  then show ?thesis
    using get min skip read fin v l
    by (simp only: decode_def Let_def r_bind.simps prod.case) simp
qed

section \<open>What the decoder accepts\<close>

definition sections_post :: "tensor_descriptor \<Rightarrow> nat \<Rightarrow> bool" where
  "sections_post d n \<longleftrightarrow>
     length (buffers d) \<le> 255 \<and> (\<forall>h \<in> set (buffers d). handle_ok h) \<and>
     (\<not> is_virtual (layout d) \<longrightarrow> buffers d \<noteq> []) \<and>
     (\<forall>q. quantization d = Some q \<longrightarrow> length q < 2 ^ 32) \<and>
     (\<forall>s. shard d = Some s \<longrightarrow> shard_fits (length (td_shape d)) s \<and> shard_in_bounds s (td_shape d)) \<and>
     (\<forall>s. td_statistics d = Some s \<longrightarrow> statistics_ok s) \<and>
     (\<forall>e. extension_type d = Some e \<longrightarrow> ext_type_ok e) \<and> n = length (section_bytes d)"

lemma unat_u8_le [simp]: "unat (b :: u8) \<le> 255"
  using unsigned_less [of b, where 'a = nat] by simp

lemma read_sections_sound:
  assumes "length sh = unat rk"
  shows "dec_post (read_sections vmaj vmin fl ty rk sh off l) (\<lambda>d n.
    sections_post d n \<and> version_major d = vmaj \<and> version_minor d = vmin \<and> element_ty d = ty \<and>
    td_shape d = sh \<and> byte_offset d = off \<and> layout d = l \<and> (extension_type d \<noteq> None \<longleftrightarrow> has_extension_type fl))"
  unfolding read_sections_def
  by (intro dec_post_bind_words(1) dec_post_if dec_post_Err dec_post_bind [OF handle_row.many_sound]
      dec_post_bind [OF quantization_part.optional_sound]
      dec_post_bind [OF dec_post_read_if [OF read_shard_sound [OF assms]]]
      dec_post_bind [OF statistics_section.optional_sound] dec_post_bind [OF ext_type_section.optional_sound]
      dec_post_bind [OF member_section.optional_sound] dec_post_ret)
    (use assms in \<open>auto simp: sections_post_def section_bytes_def opt_bytes_def unat_eq_zero\<close>)

lemma read_fields_sound:
  "dec_post (read_fields vmaj vmin) (\<lambda>d n. fields_ok d \<and> version_major d = vmaj \<and> version_minor d = vmin \<and>
     n = length (descriptor_body d))"
proof -
  have sec: "dec_post (read_sections vmaj vmin fl ty rk sh off l) (\<lambda>d n.
      fields_ok d \<and> version_major d = vmaj \<and> version_minor d = vmin \<and>
      18 + length sh * 8 + length (layout_payload l) + n = length (descriptor_body d))"
    if "element_type_ok ty" "length sh \<le> MAX_RANK" "length sh = unat rk" "layout_ok (length sh) l"
      "is_extension ty = has_extension_type fl" for fl ty rk sh off l
    using that
    by (intro dec_post_mono [OF read_sections_sound])
      (auto simp: sections_post_def fields_ok_def descriptor_body_def length_concat_const [where k = 8])
  show ?thesis
    unfolding read_fields_def
    by (intro dec_steps dec_post_bind [OF dec_post_layout_payload] dec_post_mono [OF sec])
      (auto simp: payload_post_def shape_new_def not_less dest: from_tag_Ok split: if_splits)
qed

text \<open>What \<open>decode\<close> promises of arbitrary bytes: no panic, and a result that is valid, carries the bytes'
  versions, fits the declared length and, for the current minor version, fills it.\<close>

lemma decode_sound:
  "decode b \<noteq> Panic \<and>
   (decode b = Ok d \<longrightarrow>
      descriptor_ok d \<and> take 6 b = MAGIC @ [version_major d, version_minor d] \<and>
      (\<exists>dlen. get_le b 6 = (Ok dlen :: u32 core_result) \<and>
         length (descriptor_bytes d) \<le> min (unat dlen) (length b) \<and>
         (version_minor d = 0 \<longrightarrow> length (descriptor_bytes d) = unat dlen)))"
proof (cases "length b < 10")
  case True
  then show ?thesis by (simp add: decode_def)
next
  case False
  then obtain l :: u32 where l: "get_le b 6 = (Ok l :: u32 core_result)" by (simp add: get_le_Ok)
  let ?lim = "min (unat l) (length b)"
  have pre: "slice_at b 0 4 = (Ok (take 4 b) :: bytes core_result)"
    "index_at b 4 = (Ok (b ! 4) :: u8 core_result)" "index_at b 5 = (Ok (b ! 5) :: u8 core_result)"
    using False by simp_all
  have six: "take 6 b = take 4 b @ [b ! 4, b ! 5]"
    using False take_Suc_conv_app_nth [of 4 b] take_Suc_conv_app_nth [of 5 b] by (simp add: eval_nat_numeral)
  show ?thesis
  proof (cases "take 4 b = MAGIC \<and> \<not> b ! 4 > DESCRIPTOR_VERSION_MAJOR \<and> \<not> l < MIN_DESCRIPTOR_LEN")
    case bad: False
    then show ?thesis using False pre l by (auto simp: decode_def)
  next
    case good: True
    let ?c = "\<lparr>cur_data = b, cur_pos = 10, cur_limit = ?lim\<rparr>"
    have lim: "10 \<le> ?lim"
      using good False by (simp add: MIN_DESCRIPTOR_LEN_def word_less_nat_alt)
    then have skip: "read_bytes 10 (cursor_new b ?lim) = Ok (take 10 b, ?c)"
      by (simp add: read_bytes_def cursor_new_def not_less del: min_less_iff_conj min.bounded_iff)
    have cok: "cursor_ok ?c" using lim by (simp add: cursor_ok_def)
    have dec: "decode b = r_bind (read_fields (b ! 4) (b ! 5) ?c) (\<lambda>(d, c).
        if b ! 5 = DESCRIPTOR_VERSION_MINOR \<and> cur_pos c \<noteq> unat l
        then Err (DescriptorLengthMismatch l (cur_pos c)) else finish_descriptor d)"
      using False pre l good skip by (simp add: decode_def Let_def)
    show ?thesis
    proof (cases "read_fields (b ! 4) (b ! 5) ?c")
      case (Ok r)
      obtain d' c' where r: "r = (d', c')" by fastforce
      from read_fields_sound cok Ok [unfolded r] obtain n where
        c': "c' = ?c\<lparr>cur_pos := 10 + n\<rparr>" "cursor_ok c'" and d': "fields_ok d'" "version_major d' = b ! 4"
          "version_minor d' = b ! 5" "n = length (descriptor_body d')"
        by (rule dec_post_Ok) auto
      have fin: "finish_descriptor d' \<noteq> Panic" "finish_descriptor d' = Ok d \<Longrightarrow> d = d' \<and> finish_ok d'"
        using finish_descriptor_spec [OF d'(1)] by blast+
      have v: "b ! 4 \<le> 1" using good by (simp add: DESCRIPTOR_VERSION_MAJOR_def not_less)
      have n: "10 + n \<le> ?lim" using c' by (simp add: cursor_ok_def)
      show ?thesis
        using fin v d' c'(1) good six n l
        by (auto simp: dec Ok r descriptor_ok_def DESCRIPTOR_VERSION_MINOR_def)
    next
      case (Err e)
      then show ?thesis by (simp add: dec)
    next
      case Panic
      then show ?thesis using dec_post_not_Panic [OF read_fields_sound cok] by blast
    qed
  qed
qed

section \<open>Properties\<close>

text \<open>
  C13. Descriptor round trip: a valid descriptor whose encoding fits the 32-bit length field is encoded,
  and decoding the bytes, whatever follows them, gives the descriptor back.
\<close>

theorem descriptor_roundtrip:
  assumes "descriptor_ok d" and "length (descriptor_bytes d) < 2 ^ 32"
  shows "\<exists>bs. encode d = Ok bs \<and> length bs = length (descriptor_bytes d) \<and> (\<forall>rest. decode (bs @ rest) = Ok d)"
  using encode_eq [OF assms(1)] decode_bytes [OF assms] assms(2) by (simp del: length_descriptor_bytes)

text \<open>A dense rank-2 descriptor over one CPU buffer.\<close>

definition sample_descriptor :: tensor_descriptor where
  "sample_descriptor =
     \<lparr>version_major = 1, version_minor = 0, element_ty = Float32, td_shape = [2, 3], byte_offset = 0,
      layout = RowMajor, buffers = [handle_empty Cpu], quantization = None, shard = None,
      td_statistics = None, extension_type = None, member_section = None\<rparr>"

lemma sample_descriptor_ok:
  "descriptor_ok sample_descriptor" "length (descriptor_bytes sample_descriptor) < 2 ^ 32"
  by (simp_all add: sample_descriptor_def descriptor_ok_def fields_ok_def finish_ok_def MAX_RANK_def
      descriptor_body_def section_bytes_def opt_bytes_def handle_bytes_def handle_empty_ok device_tag_ok_def is_virtual_def)

theorem descriptor_roundtrip_witness:
  "\<exists>bs. encode sample_descriptor = Ok bs \<and> length bs = length (descriptor_bytes sample_descriptor) \<and>
    (\<forall>rest. decode (bs @ rest) = Ok sample_descriptor)"
  using descriptor_roundtrip [OF sample_descriptor_ok] .

text \<open>
  C14. The decoder on arbitrary bytes never panics. Whatever it accepts is a valid descriptor, carries the
  magic and the versions of the input, and its encoding fits the declared length, which it fills
  exactly when the minor version is the current one.
\<close>

theorem decode_total_sound:
  "decode b \<noteq> Panic \<and>
   (decode b = Ok d \<longrightarrow>
      descriptor_ok d \<and> take 6 b = MAGIC @ [version_major d, version_minor d] \<and>
      (\<exists>dlen. get_le b 6 = (Ok dlen :: u32 core_result) \<and>
         length (descriptor_bytes d) \<le> min (unat dlen) (length b) \<and>
         (version_minor d = 0 \<longrightarrow> length (descriptor_bytes d) = unat dlen)))"
  by (rule decode_sound)

theorem decode_total_sound_witness:
  "\<exists>b. decode b = Ok sample_descriptor \<and> take 6 b = MAGIC @ [1, 0] \<and>
    (\<exists>dlen. get_le b 6 = (Ok dlen :: u32 core_result) \<and> length (descriptor_bytes sample_descriptor) = unat dlen)"
proof -
  have v: "version_major sample_descriptor = 1" "version_minor sample_descriptor = 0"
    by (simp_all add: sample_descriptor_def)
  have d: "decode (descriptor_bytes sample_descriptor) = Ok sample_descriptor"
    using decode_bytes [OF sample_descriptor_ok, of "[]"] by simp
  then show ?thesis
    using decode_total_sound [of "descriptor_bytes sample_descriptor" sample_descriptor] v by auto
qed

text \<open>
  C15. Normalisation: whatever the decoder accepts can be encoded again, in no more bytes than were
  given, and decodes to the same descriptor.
\<close>

theorem decode_encode_decode:
  assumes "decode b = Ok d"
  shows "\<exists>bs. encode d = Ok bs \<and> length bs \<le> length b \<and> decode bs = Ok d"
proof -
  obtain l :: u32 where ok: "descriptor_ok d" and l: "length (descriptor_bytes d) \<le> min (unat l) (length b)"
    using decode_sound [of b d] assms by blast
  have "unat l < 2 ^ 32" using unsigned_less [of l, where 'a = nat] by simp
  with l have len: "length (descriptor_bytes d) < 2 ^ 32" by linarith
  show ?thesis
    using encode_eq [OF ok] len l decode_bytes [OF ok len, of "[]"] by (simp del: length_descriptor_bytes)
qed

theorem decode_encode_decode_witness:
  "\<exists>bs. encode sample_descriptor = Ok bs \<and>
    length bs \<le> length (descriptor_bytes sample_descriptor @ [0, 0]) \<and> decode bs = Ok sample_descriptor"
  by (rule decode_encode_decode [OF decode_bytes [OF sample_descriptor_ok]])



text \<open>
  The bounds check of a shard against its parent: for vectors of the shape's rank it never panics,
  and it accepts exactly when every dimension ends inside the parent or the parent dimension is
  \<open>u64::MAX\<close>, where the saturating addition can never exceed it.
\<close>

theorem shard_validate_iff:
  assumes "shard_fits (length sh) s"
  shows "shard_validate_against_shape s sh \<noteq> Panic \<and>
    (shard_validate_against_shape s sh = Ok () \<longleftrightarrow>
       (\<forall>k < length sh. unat (shard_offset s ! k) + unat (sh ! k) \<le> unat (parent_shape s ! k) \<or>
          parent_shape s ! k = - 1))"
  using shard_validate_spec [OF assms] by (simp add: shard_in_bounds_def)

theorem shard_validate_iff_witness:
  "shard_validate_against_shape \<lparr>parent_shape = [- 1], shard_offset = [- 1]\<rparr> [5] = Ok ()"
  using shard_validate_iff [of "[5]" "\<lparr>parent_shape = [- 1], shard_offset = [- 1]\<rparr>"]
  by (simp add: shard_fits_def)

end
