(* ===== verification/Addressing.thy ===== *)
theory Addressing
  imports Layout_Codec ElementTypes
begin

text \<open>
  Element addressing (\<open>hurray-core/src/layout/addressing/\<close> \<open>mod.rs\<close>, \<open>row_major.rs\<close>, \<open>col_major.rs\<close>): from a
  multi-dimensional index to an element offset in row- and column-major order, and to a byte
  address, with every overflow check of the sources. The contract of
  the trait \<open>ElementAddress\<close> is the locale \<open>element_address\<close>: offsets of valid indices exist, lie in a
  span of elements and do not collide.
\<close>

section \<open>Index validation\<close>

fun check_index :: "nat \<Rightarrow> u64 list \<Rightarrow> u64 list \<Rightarrow> unit core_result" where
  "check_index k (i # is) (d # ds) =
     (if d = DYNAMIC then Err (DynamicDimInIndexing (word_of_nat k))
      else if i \<ge> d then Err (IndexOutOfRange (word_of_nat k) i d)
      else check_index (k + 1) is ds)"
| "check_index k _ _ = Ok ()"

definition validate_index :: "u64 list \<Rightarrow> shape \<Rightarrow> unit core_result" where
  "validate_index idx sh =
     (if length idx \<noteq> rank sh then Err (IndexRankMismatch (length idx) (rank sh))
      else check_index 0 idx (dims sh))"

section \<open>Row-major and column-major\<close>

text \<open>The two loops, at position \<open>k\<close> (\<open>row_major_loop\<close> counts down, \<open>col_major_loop\<close> up) with the running
  offset and stride.\<close>

fun row_major_loop :: "u64 list \<Rightarrow> u64 list \<Rightarrow> nat \<Rightarrow> u64 \<Rightarrow> u64 \<Rightarrow> u64 core_result" where
  "row_major_loop idx ds 0 off st = Ok off"
| "row_major_loop idx ds (Suc k) off st =
     r_bind (index_at idx k) (\<lambda>i.
     r_bind (ok_or (checked_mul i st) AddressOverflow) (\<lambda>t.
     r_bind (ok_or (checked_add off t) AddressOverflow) (\<lambda>off.
     r_bind (if k > 0
             then r_bind (index_at ds k) (\<lambda>d. ok_or (checked_mul st d) AddressOverflow)
             else Ok st) (\<lambda>st.
     row_major_loop idx ds k off st))))"

definition row_major_offset :: "u64 list \<Rightarrow> u64 list \<Rightarrow> u64 core_result" where
  "row_major_offset idx ds = (if idx = [] then Ok 0 else row_major_loop idx ds (length idx) 0 1)"

definition row_major_element_offset :: "u64 list \<Rightarrow> shape \<Rightarrow> u64 core_result" where
  "row_major_element_offset idx sh =
     r_bind (validate_index idx sh) (\<lambda>_. row_major_offset idx (dims sh))"

function col_major_loop :: "u64 list \<Rightarrow> u64 list \<Rightarrow> nat \<Rightarrow> u64 \<Rightarrow> u64 \<Rightarrow> u64 core_result" where
  "col_major_loop idx ds k off st =
     (if k < length idx then
        r_bind (index_at idx k) (\<lambda>i.
        r_bind (ok_or (checked_mul i st) AddressOverflow) (\<lambda>t.
        r_bind (ok_or (checked_add off t) AddressOverflow) (\<lambda>off.
        r_bind (if k < length idx - 1
                then r_bind (index_at ds k) (\<lambda>d. ok_or (checked_mul st d) AddressOverflow)
                else Ok st) (\<lambda>st.
        col_major_loop idx ds (k + 1) off st))))
      else Ok off)"
  by pat_completeness auto

termination
  by (relation "measure (\<lambda>(idx, ds, k, off, st). length idx - k)") auto

declare col_major_loop.simps [simp del]

definition col_major_offset :: "u64 list \<Rightarrow> u64 list \<Rightarrow> u64 core_result" where
  "col_major_offset idx ds = (if idx = [] then Ok 0 else col_major_loop idx ds 0 0 1)"

definition col_major_element_offset :: "u64 list \<Rightarrow> shape \<Rightarrow> u64 core_result" where
  "col_major_element_offset idx sh =
     r_bind (validate_index idx sh) (\<lambda>_. col_major_offset idx (dims sh))"

section \<open>Byte addresses\<close>

text \<open>The width \<open>bit_width\<close> is read as an \<open>i64\<close>; an extension type has width 0, for which \<open>8 / bits\<close>
  divides by zero.\<close>

definition byte_delta :: "i64 \<Rightarrow> i64 \<Rightarrow> i64 core_result" where
  "byte_delta sg bits =
     (if sint bits \<ge> 8 then ok_or (checked_mul_i64 sg (bits div 8)) AddressOverflow
      else if bits = 6 then
        r_bind (div_euclid_i64 sg 4) (\<lambda>g. ok_or (checked_mul_i64 g 3) AddressOverflow)
      else r_bind (plain_div 8 bits) (\<lambda>p. div_euclid_i64 sg p))"

definition byte_address_from_element_offset ::
  "u64 \<Rightarrow> u64 \<Rightarrow> element_type \<Rightarrow> u64 \<Rightarrow> u64 core_result" where
  "byte_address_from_element_offset element_offset boff ty buffer_size =
     r_bind (byte_delta element_offset (ucast (bit_width ty))) (\<lambda>delta.
     r_bind (ok_or (checked_add_i64 boff delta) AddressOverflow) (\<lambda>addr.
     if sint addr < 0 \<or> addr \<ge> buffer_size then Err (ByteAddressOverflow buffer_size)
     else Ok addr))"

section \<open>Valid indices\<close>

definition valid_index :: "u64 list \<Rightarrow> shape \<Rightarrow> bool" where
  "valid_index idx sh \<longleftrightarrow> list_all2 (\<lambda>i d. i < d \<and> d \<noteq> DYNAMIC) idx sh"

lemma check_index_Ok:
  "length idx = length ds \<Longrightarrow> check_index k idx ds = Ok () \<longleftrightarrow> valid_index idx ds"
  by (induction k idx ds rule: check_index.induct) (auto simp: valid_index_def not_le)

lemma check_index_not_Panic [simp]: "check_index k idx ds \<noteq> Panic"
  by (induction k idx ds rule: check_index.induct) auto

lemma valid_index_length: "valid_index idx sh \<Longrightarrow> length idx = length sh"
  by (simp add: valid_index_def list_all2_lengthD)

lemma validate_index_Ok: "validate_index idx sh = Ok () \<longleftrightarrow> valid_index idx sh"
  using valid_index_length [of idx sh] by (auto simp: validate_index_def check_index_Ok)

lemma validate_index_not_Panic [simp]: "validate_index idx sh \<noteq> Panic"
  by (simp add: validate_index_def)

text \<open>Indices below their dimensions, as natural numbers: the digits of a mixed-radix numeral, least
  significant digit first.\<close>

abbreviation digits_ok :: "nat list \<Rightarrow> nat list \<Rightarrow> bool" where
  "digits_ok \<equiv> list_all2 (<)"

fun mixed :: "nat list \<Rightarrow> nat list \<Rightarrow> nat" where
  "mixed (i # is) (d # ds) = i + d * mixed is ds"
| "mixed _ _ = 0"

lemma mixed_less: "digits_ok is ds \<Longrightarrow> mixed is ds < prod_list ds"
proof (induction "is" ds rule: list_all2_induct)
  case (Cons i "is" d ds)
  then have "i + d * mixed is ds < d * (mixed is ds + 1)" by simp
  also have "\<dots> \<le> d * prod_list ds" using Cons by (intro mult_le_mono2) simp
  finally show ?case by simp
qed simp

lemma mixed_inj:
  "digits_ok is ds \<Longrightarrow> digits_ok js ds \<Longrightarrow> mixed is ds = mixed js ds \<Longrightarrow> is = js"
proof (induction "is" ds arbitrary: js rule: list_all2_induct)
  case (Cons i "is" d ds)
  from Cons.prems obtain j js' where js: "js = j # js'" "j < d" "digits_ok js' ds"
    by (auto simp: list_all2_Cons2)
  have "i + d * mixed is ds = j + d * mixed js' ds" using Cons.prems js by simp
  then have "i = j \<and> mixed is ds = mixed js' ds"
    using \<open>i < d\<close> js(2) by (metis add_left_imp_eq mod_less mod_mult_self2 mult_cancel1 not_less_zero)
  with Cons.IH js show ?case by simp
qed simp

lemma quot_rem_unique:
  fixes a b m x y :: nat
  assumes "a * m + x = b * m + y" and "x < m" and "y < m"
  shows "a = b \<and> x = y"
proof -
  have "(a * m + x) div m = a" "(b * m + y) div m = b" using assms(2,3) by simp_all
  then show ?thesis using assms(1) by simp
qed

text \<open>Every number below the product is the value of a digit sequence.\<close>

fun undigits :: "nat \<Rightarrow> nat list \<Rightarrow> nat list" where
  "undigits n [] = []"
| "undigits n (d # ds) = n mod d # undigits (n div d) ds"

lemma undigits_mixed:
  "n < prod_list ds \<Longrightarrow> digits_ok (undigits n ds) ds \<and> mixed (undigits n ds) ds = n"
proof (induction n ds rule: undigits.induct)
  case (2 n d ds)
  then have "0 < d" by (cases d) auto
  moreover have "n div d < prod_list ds" using 2 by (simp add: less_mult_imp_div_less mult.commute)
  ultimately show ?case using "2.IH" by simp
qed simp

lemma digits_ok_rev: "digits_ok (rev is) (rev ds) \<longleftrightarrow> digits_ok is ds"
  by (rule list_all2_rev)

lemma valid_index_digits: "valid_index idx sh \<Longrightarrow> digits_ok (map unat idx) (map unat sh)"
  by (auto simp: valid_index_def list_all2_conv_all_nth word_less_nat_alt)

lemma valid_index_iff:
  "DYNAMIC \<notin> set sh \<Longrightarrow> valid_index idx sh \<longleftrightarrow> digits_ok (map unat idx) (map unat sh)"
  by (auto simp: valid_index_def list_all2_conv_all_nth word_less_nat_alt) (metis nth_mem)

section \<open>The two orders as one computation\<close>

text \<open>\<open>radix_acc\<close> is the common loop body of both orders on lists, least significant dimension first.\<close>

fun radix_acc :: "u64 list \<Rightarrow> u64 list \<Rightarrow> u64 \<Rightarrow> u64 \<Rightarrow> u64 core_result" where
  "radix_acc (i # is) (d # ds) off st =
     r_bind (ok_or (checked_mul i st) AddressOverflow) (\<lambda>t.
     r_bind (ok_or (checked_add off t) AddressOverflow) (\<lambda>off.
     r_bind (if is \<noteq> [] then ok_or (checked_mul st d) AddressOverflow else Ok st) (\<lambda>st.
     radix_acc is ds off st)))"
| "radix_acc _ _ off st = Ok off"

lemma col_major_loop_acc:
  "length idx = length ds \<Longrightarrow> col_major_loop idx ds k off st = radix_acc (drop k idx) (drop k ds) off st"
proof (induction idx ds k off st rule: col_major_loop.induct)
  case (1 idx ds k off st)
  show ?case
  proof (cases "k < length idx")
    case True
    then have d: "drop k idx = idx ! k # drop (k + 1) idx" "drop k ds = ds ! k # drop (k + 1) ds"
      using "1.prems" by (simp_all add: Cons_nth_drop_Suc)
    have e: "k < length idx - 1 \<longleftrightarrow> drop (k + 1) idx \<noteq> []" by auto
    show ?thesis
      unfolding d radix_acc.simps e [symmetric]
      using True 1 by (subst col_major_loop.simps) (auto cong: r_bind_cong)
  next
    case False
    then show ?thesis by (subst col_major_loop.simps) simp
  qed
qed

lemma row_major_loop_acc:
  "length idx = length ds \<Longrightarrow> k \<le> length idx \<Longrightarrow>
   row_major_loop idx ds k off st = radix_acc (rev (take k idx)) (rev (take k ds)) off st"
proof (induction idx ds k off st rule: row_major_loop.induct)
  case (2 idx ds k off st)
  then have d: "rev (take (Suc k) idx) = idx ! k # rev (take k idx)" "rev (take (Suc k) ds) = ds ! k # rev (take k ds)"
    by (simp_all add: take_Suc_conv_app_nth)
  have e: "k > 0 \<longleftrightarrow> rev (take k idx) \<noteq> []" using "2.prems" by auto
  show ?case
    unfolding d radix_acc.simps e [symmetric] using 2 by (auto cong: r_bind_cong)
qed simp

lemma col_major_acc: "length idx = length ds \<Longrightarrow> col_major_offset idx ds = radix_acc idx ds 0 1"
  by (cases idx) (simp_all add: col_major_offset_def col_major_loop_acc)

lemma row_major_acc: "length idx = length ds \<Longrightarrow> row_major_offset idx ds = radix_acc (rev idx) (rev ds) 0 1"
  by (cases idx) (simp_all add: row_major_offset_def row_major_loop_acc del: row_major_loop.simps)

lemma checked_mul_cases:
  "(checked_mul x y = Some (word_of_nat (unat x * unat y)) \<and> unat x * unat y < 2 ^ LENGTH('a)) \<or>
   (checked_mul x y = None \<and> 2 ^ LENGTH('a) \<le> unat x * unat y)" for x y :: "'a::len word"
  by (auto simp: checked_mul_def)

text \<open>The computation is exact: it gives the mixed-radix value, unless the stride of the last
  dimension or the value itself exceeds 64 bits.\<close>

lemma radix_acc_exact:
  assumes "digits_ok (map unat is) (map unat ds)"
  shows "radix_acc is ds off st =
    (if is = [] \<or> unat st * volume (butlast ds) < 2 ^ 64 \<and> unat off + unat st * mixed (map unat is) (map unat ds) < 2 ^ 64
     then Ok (word_of_nat (unat off + unat st * mixed (map unat is) (map unat ds)))
     else Err AddressOverflow)"
  using assms
proof (induction "is" ds off st rule: radix_acc.induct)
  case (1 i "is" d ds off st)
  let ?m = "mixed (map unat is) (map unat ds)"
  let ?v = "unat off + unat st * (unat i + unat d * ?m)"
  have v: "?v = unat off + unat i * unat st + unat st * unat d * ?m" by (simp add: algebra_simps)
  have digits: "unat i < unat d" "digits_ok (map unat is) (map unat ds)" using "1.prems" by auto
  have len: "length is = length ds" using digits(2) by (simp add: list_all2_conv_all_nth)
  show ?case
  proof (cases "unat i * unat st < 2 ^ 64 \<and> unat off + unat i * unat st < 2 ^ 64")
    case False
    then have big: "\<not> ?v < 2 ^ 64" unfolding v by auto
    show ?thesis
    proof (cases "unat i * unat st < 2 ^ 64")
      case True
      then have m: "checked_mul i st = Some (i * st)" "unat (i * st) = unat i * unat st"
        by (simp_all add: checked_mul_def unat_word_ariths)
      then have "checked_add off (i * st) = None" using True False by (simp add: checked_add_None)
      with m(1) big show ?thesis by simp
    next
      case False
      then have "checked_mul i st = None" by (simp add: checked_mul_None)
      with big show ?thesis by simp
    qed
  next
    case True
    then have m: "checked_mul i st = Some (i * st)" "unat (i * st) = unat i * unat st"
      by (simp_all add: checked_mul_def unat_word_ariths)
    then have a: "checked_add off (i * st) = Some (off + i * st)"
      "unat (off + i * st) = unat off + unat i * unat st"
      using True by (simp_all add: checked_add_def unat_word_ariths)
    show ?thesis
    proof (cases "is = []")
      case nil: True
      then have "ds = []" using len by simp
      have "unat st < 2 ^ 64" using unsigned_less [of st, where 'a = nat] by simp
      moreover have "off + i * st = word_of_nat (unat off + unat st * unat i)"
        by (simp add: mult.commute)
      ultimately show ?thesis using nil \<open>ds = []\<close> m(1) a(1) True by (simp add: mult.commute)
    next
      case ne: False
      then have "ds \<noteq> []" using len by auto
      have pos: "1 \<le> volume (butlast ds)"
      proof -
        have "0 \<notin> set ds" using digits(2) by (auto simp: list_all2_conv_all_nth in_set_conv_nth)
        then have "0 \<notin> set (butlast ds)" by (meson in_set_butlastD)
        then show ?thesis using volume_zero_iff [of "butlast ds"] by (simp add: Suc_le_eq)
      qed
      show ?thesis
      proof (cases "unat st * unat d < 2 ^ 64")
        case True
        then have s: "checked_mul st d = Some (st * d)" "unat (st * d) = unat st * unat d"
          by (simp_all add: checked_mul_def unat_word_ariths)
        have "radix_acc (i # is) (d # ds) off st = radix_acc is ds (off + i * st) (st * d)"
          using m(1) a(1) s(1) ne by simp
        also have "\<dots> = (if is = [] \<or> unat (st * d) * volume (butlast ds) < 2 ^ 64 \<and>
              unat (off + i * st) + unat (st * d) * ?m < 2 ^ 64
            then Ok (word_of_nat (unat (off + i * st) + unat (st * d) * ?m)) else Err AddressOverflow)"
          by (rule "1.IH" [of "i * st" "off + i * st" "st * d"]) (use m(1) a(1) s(1) ne digits(2) in simp_all)
        also have "unat (off + i * st) + unat (st * d) * ?m = ?v" unfolding a(2) s(2) v ..
        also have "unat (st * d) * volume (butlast ds) = unat st * volume (butlast (d # ds))"
          unfolding s(2) using \<open>ds \<noteq> []\<close> by (simp add: mult.assoc)
        finally show ?thesis using ne by (simp only: list.map mixed.simps list.distinct)
      next
        case False
        then have "checked_mul st d = None" by (simp add: checked_mul_None)
        moreover have "\<not> unat st * (unat d * volume (butlast ds)) < 2 ^ 64"
        proof -
          have "unat st * unat d * 1 \<le> unat st * unat d * volume (butlast ds)"
            using pos by (intro mult_le_mono2)
          then show ?thesis using False unfolding mult.assoc by linarith
        qed
        ultimately show ?thesis using m(1) a(1) ne \<open>ds \<noteq> []\<close> by simp
      qed
    qed
  qed
qed auto

lemma volume_rev [simp]: "volume (rev ds) = volume ds"
  by (induction ds) simp_all

lemma prod_list_unat [simp]: "prod_list (map unat ds) = volume ds"
  by (simp add: volume_def)

lemma digits_ok_pos: "digits_ok (map unat is) (map unat ds) \<Longrightarrow> 0 \<notin> set ds"
  by (auto simp: list_all2_conv_all_nth in_set_conv_nth)

lemma volume_butlast_le: "0 \<notin> set ds \<Longrightarrow> volume (butlast ds) \<le> volume ds"
proof (cases ds rule: rev_cases)
  case (snoc xs x)
  assume "0 \<notin> set ds"
  then have "1 \<le> unat x" using snoc by (simp add: Suc_le_eq unat_gt_0)
  then have "volume xs * 1 \<le> volume xs * unat x" by (intro mult_le_mono2)
  then show ?thesis using snoc by simp
qed simp

lemma radix_acc_fits:
  assumes d: "digits_ok (map unat is) (map unat ds)" and v: "volume ds < 2 ^ 64"
  shows "radix_acc is ds 0 1 = Ok (word_of_nat (mixed (map unat is) (map unat ds)))"
proof -
  have "volume (butlast ds) < 2 ^ 64"
    using volume_butlast_le [OF digits_ok_pos [OF d]] v by linarith
  moreover have "mixed (map unat is) (map unat ds) < 2 ^ 64" using mixed_less [OF d] v by simp
  ultimately show ?thesis using radix_acc_exact [OF d, of 0 1] by simp
qed

lemma unat_mixed:
  assumes "digits_ok (map unat is) (map unat ds)" and "volume ds < 2 ^ 64"
  shows "unat (word_of_nat (mixed (map unat is) (map unat ds)) :: u64) = mixed (map unat is) (map unat ds)"
  using mixed_less [OF assms(1)] assms(2) by (simp add: unat_of_nat take_bit_nat_eq_self)

lemma prod_list_rev [simp]: "prod_list (rev xs) = prod_list xs" for xs :: "nat list"
  by (induction xs) (simp_all add: mult.commute)

text \<open>The positions of both orders on natural numbers.\<close>

definition col_pos :: "u64 list \<Rightarrow> u64 list \<Rightarrow> nat" where
  "col_pos idx ds = mixed (map unat idx) (map unat ds)"

definition row_pos :: "u64 list \<Rightarrow> u64 list \<Rightarrow> nat" where
  "row_pos idx ds = mixed (rev (map unat idx)) (rev (map unat ds))"

lemma pos_less:
  assumes "digits_ok (map unat idx) (map unat ds)"
  shows "col_pos idx ds < volume ds" "row_pos idx ds < volume ds"
  using mixed_less [OF assms] mixed_less [of "rev (map unat idx)" "rev (map unat ds)"] assms
  by (simp_all add: col_pos_def row_pos_def)

lemma pos_inj:
  assumes "digits_ok (map unat i) (map unat ds)" and "digits_ok (map unat j) (map unat ds)"
  shows "col_pos i ds = col_pos j ds \<Longrightarrow> i = j" "row_pos i ds = row_pos j ds \<Longrightarrow> i = j"
proof -
  have inj: "map unat i = map unat j \<Longrightarrow> i = j" by (simp add: inj_map_eq_map inj_def word_unat_eq_iff)
  show "col_pos i ds = col_pos j ds \<Longrightarrow> i = j"
    using mixed_inj [OF assms] inj by (simp add: col_pos_def)
  show "row_pos i ds = row_pos j ds \<Longrightarrow> i = j"
    using mixed_inj [of "rev (map unat i)" "rev (map unat ds)" "rev (map unat j)"] assms inj
    by (simp add: row_pos_def)
qed

lemma offsets_fit:
  assumes "digits_ok (map unat idx) (map unat ds)" and "volume ds < 2 ^ 64"
  shows "col_major_offset idx ds = Ok (word_of_nat (col_pos idx ds))"
    "row_major_offset idx ds = Ok (word_of_nat (row_pos idx ds))"
proof -
  have len: "length idx = length ds" using assms(1) by (simp add: list_all2_conv_all_nth)
  then show "col_major_offset idx ds = Ok (word_of_nat (col_pos idx ds))"
    using assms by (simp add: col_major_acc radix_acc_fits col_pos_def)
  show "row_major_offset idx ds = Ok (word_of_nat (row_pos idx ds))"
    using len assms radix_acc_fits [of "rev idx" "rev ds"] by (simp add: row_major_acc row_pos_def rev_map [symmetric])
qed

lemma pos_onto:
  assumes "n < volume ds"
  obtains i j where "digits_ok (map unat i) (map unat ds)" "col_pos i ds = n"
    "digits_ok (map unat j) (map unat ds)" "row_pos j ds = n"
proof -
  have unat_word: "map unat (map word_of_nat xs :: u64 list) = xs"
    if "digits_ok xs (map unat es)" for xs :: "nat list" and es :: "u64 list"
  proof (rule nth_equalityI)
    fix k assume "k < length (map unat (map word_of_nat xs :: u64 list))"
    then have "xs ! k < unat (es ! k)" using that by (auto simp: list_all2_conv_all_nth)
    also have "\<dots> < 2 ^ 64" using unsigned_less [of "es ! k", where 'a = nat] by simp
    finally show "map unat (map word_of_nat xs :: u64 list) ! k = xs ! k"
      using \<open>k < _\<close> by (simp add: unat_of_nat take_bit_nat_eq_self)
  qed simp
  let ?i = "map word_of_nat (undigits n (map unat ds)) :: u64 list"
  let ?j = "rev (map word_of_nat (undigits n (map unat (rev ds)))) :: u64 list"
  have u: "digits_ok (undigits n (map unat ds)) (map unat ds)" "mixed (undigits n (map unat ds)) (map unat ds) = n"
    using undigits_mixed [of n "map unat ds"] assms by simp_all
  have v: "digits_ok (undigits n (map unat (rev ds))) (map unat (rev ds))"
    "mixed (undigits n (map unat (rev ds))) (map unat (rev ds)) = n"
    using undigits_mixed [of n "map unat (rev ds)"] assms by simp_all
  have i: "map unat ?i = undigits n (map unat ds)" using unat_word [OF u(1)] .
  have j: "map unat (rev ?j) = undigits n (map unat (rev ds))" using unat_word [OF v(1)] by simp
  show ?thesis
  proof (rule that)
    show "digits_ok (map unat ?i) (map unat ds)" "col_pos ?i ds = n" using u i by (simp_all add: col_pos_def)
    show "digits_ok (map unat ?j) (map unat ds)"
      using v(1) j digits_ok_rev [of "map unat ?j" "map unat ds"] by (simp add: rev_map)
    show "row_pos ?j ds = n" using v(2) j by (simp add: row_pos_def rev_map)
  qed
qed

section \<open>Byte addresses of whole-byte elements\<close>

lemma sint_unat_u64: "unat (x :: u64) < 2 ^ 63 \<Longrightarrow> sint x = int (unat x)"
proof -
  assume "unat x < 2 ^ 63"
  moreover have "uint x = int (unat x)" by simp
  ultimately have "uint x < 2 ^ 63" by (metis of_nat_less_iff of_nat_numeral of_nat_power)
  moreover have "- (2 ^ 63) \<le> uint x" by (rule order_trans [of _ 0]) simp_all
  ultimately have "signed_take_bit 63 (uint x) = uint x" by (intro signed_take_bit_int_eq_self)
  then show ?thesis by (simp add: sint_uint)
qed

lemma checked_add_i64_nat:
  "unat x + unat y < 2 ^ 63 \<Longrightarrow> checked_add_i64 x y = Some (x + y) \<and> unat (x + y) = unat x + unat y"
  using checked_add_i64_Some [of x y "x + y"] by (simp add: sint_unat_u64 unat_word_ariths)

lemma checked_mul_i64_nat:
  assumes "unat x * unat y < 2 ^ 63" and "unat x < 2 ^ 63" and "unat y < 2 ^ 63"
  shows "checked_mul_i64 x y = Some (x * y) \<and> unat (x * y) = unat x * unat y"
  using checked_mul_i64_Some [of x y "x * y"] assms by (simp add: sint_unat_u64 unat_word_ariths)

lemma byte_address_whole:
  assumes "unat (bit_width ty) = 8 * w" and "0 < w" and "w \<le> 16"
    and fits: "unat boff + (unat v + 1) * w \<le> unat bsize" and small: "unat bsize < 2 ^ 63"
  shows "\<exists>a. byte_address_from_element_offset v boff ty bsize = Ok a \<and> unat a = unat boff + unat v * w"
proof -
  let ?b = "ucast (bit_width ty) :: i64"
  have b: "unat ?b = 8 * w" using assms(1,3) by (simp add: unsigned_ucast_eq take_bit_nat_eq_self)
  then have w: "unat (?b div 8) = w" by (simp add: unat_div)
  have vw: "unat v * w < 2 ^ 63" "unat v < 2 ^ 63"
  proof -
    show "unat v * w < 2 ^ 63" using fits small by auto
    have "unat v * 1 \<le> unat v * w" using assms(2) by (intro mult_le_mono2) simp
    then show "unat v < 2 ^ 63" using \<open>unat v * w < 2 ^ 63\<close> by linarith
  qed
  have m: "checked_mul_i64 v (?b div 8) = Some (v * (?b div 8))" "unat (v * (?b div 8)) = unat v * w"
    using checked_mul_i64_nat [of v "?b div 8"] vw assms(3) by (simp_all add: w)
  have ge: "8 \<le> sint ?b" using b assms(2,3) by (simp add: sint_unat_u64)
  have d: "byte_delta v ?b = Ok (v * (?b div 8))" using ge m(1) by (simp add: byte_delta_def)
  have s: "unat boff + unat v * w < 2 ^ 63" using fits small by auto
  then have a: "checked_add_i64 boff (v * (?b div 8)) = Some (boff + v * (?b div 8))"
    "unat (boff + v * (?b div 8)) = unat boff + unat v * w"
    using checked_add_i64_nat [of boff "v * (?b div 8)"] by (simp_all add: m(2))
  have "\<not> sint (boff + v * (?b div 8)) < 0" using a(2) s by (simp only: sint_unat_u64)
  moreover have "\<not> boff + v * (?b div 8) \<ge> bsize"
    using a(2) fits assms(2) by (simp add: word_le_nat_alt)
  ultimately show ?thesis
    using d a by (simp add: byte_address_from_element_offset_def)
qed

section \<open>The contract of an addressing scheme\<close>

text \<open>What the readers of a layout rely on: every valid index of a shape the scheme supports has an
  offset below the span, different indices have different offsets, and invalid indices have none.\<close>

locale element_address =
  fixes elem_offset :: "u64 list \<Rightarrow> shape \<Rightarrow> u64 core_result"
    and supports :: "shape \<Rightarrow> bool"
    and span :: "shape \<Rightarrow> nat"
  assumes in_span: "supports sh \<Longrightarrow> valid_index idx sh \<Longrightarrow> \<exists>v. elem_offset idx sh = Ok v \<and> unat v < span sh"
    and collision_free: "supports sh \<Longrightarrow> elem_offset i sh = Ok v \<Longrightarrow> elem_offset j sh = Ok v \<Longrightarrow> i = j"
    and only_valid: "elem_offset idx sh = Ok v \<Longrightarrow> valid_index idx sh"
begin

lemma offset_bound:
  "supports sh \<Longrightarrow> elem_offset idx sh = Ok v \<Longrightarrow> unat v < span sh"
  using in_span [of sh idx] only_valid [of idx sh v] by fastforce

lemma distinct_offsets:
  "supports sh \<Longrightarrow> valid_index i sh \<Longrightarrow> valid_index j sh \<Longrightarrow> i \<noteq> j \<Longrightarrow>
   \<exists>u v. elem_offset i sh = Ok u \<and> elem_offset j sh = Ok v \<and> u \<noteq> v"
  using in_span [of sh i] in_span [of sh j] collision_free [of sh i _ j] by metis

text \<open>With elements of \<open>w\<close> bytes and a buffer that holds the span, the byte ranges of two different
  elements lie in the buffer and do not overlap.\<close>

lemma disjoint_bytes:
  assumes "supports sh" and "valid_index i sh" and "valid_index j sh" and "i \<noteq> j"
    and "unat (bit_width ty) = 8 * w" and "0 < w" and "w \<le> 16"
    and "unat boff + span sh * w \<le> unat bsize" and "unat bsize < 2 ^ 63"
  shows "\<exists>u v a b. elem_offset i sh = Ok u \<and> elem_offset j sh = Ok v \<and>
    byte_address_from_element_offset u boff ty bsize = Ok a \<and>
    byte_address_from_element_offset v boff ty bsize = Ok b \<and>
    unat a + w \<le> unat bsize \<and> unat b + w \<le> unat bsize \<and>
    (unat a + w \<le> unat b \<or> unat b + w \<le> unat a)"
proof -
  obtain u v where u: "elem_offset i sh = Ok u" and v: "elem_offset j sh = Ok v" and uv: "u \<noteq> v"
    using distinct_offsets assms(1-4) by blast
  have fits: "unat boff + (unat x + 1) * w \<le> unat bsize" if "unat x < span sh" for x :: u64
  proof -
    have "(unat x + 1) * w \<le> span sh * w" using that by (intro mult_le_mono1) simp
    then show ?thesis using assms(8) by linarith
  qed
  from byte_address_whole [OF assms(5-7) fits [OF offset_bound [OF assms(1) u]] assms(9)]
  obtain a where a: "byte_address_from_element_offset u boff ty bsize = Ok a" "unat a = unat boff + unat u * w"
    by blast
  from byte_address_whole [OF assms(5-7) fits [OF offset_bound [OF assms(1) v]] assms(9)]
  obtain b where b: "byte_address_from_element_offset v boff ty bsize = Ok b" "unat b = unat boff + unat v * w"
    by blast
  have "unat u \<noteq> unat v" using uv by (simp add: word_unat_eq_iff)
  then have "unat u + 1 \<le> unat v \<or> unat v + 1 \<le> unat u" by linarith
  then have "(unat u + 1) * w \<le> unat v * w \<or> (unat v + 1) * w \<le> unat u * w"
    using mult_le_mono1 by blast
  then have "unat a + w \<le> unat b \<or> unat b + w \<le> unat a" unfolding a(2) b(2) by auto
  moreover have "unat a + w \<le> unat bsize" "unat b + w \<le> unat bsize"
    using fits [OF offset_bound [OF assms(1) u]] fits [OF offset_bound [OF assms(1) v]]
    unfolding a(2) b(2) by simp_all
  ultimately show ?thesis using u v a(1) b(1) by blast
qed

end

text \<open>A dense scheme spans exactly the elements of the shape and reaches each position.\<close>

locale dense_address = element_address elem_offset supports volume
  for elem_offset :: "u64 list \<Rightarrow> shape \<Rightarrow> u64 core_result" and supports :: "shape \<Rightarrow> bool" +
  assumes onto: "supports sh \<Longrightarrow> n < volume sh \<Longrightarrow> \<exists>idx. elem_offset idx sh = Ok (word_of_nat n)"
begin

lemma unique_index: "supports sh \<Longrightarrow> n < volume sh \<Longrightarrow> \<exists>!idx. elem_offset idx sh = Ok (word_of_nat n)"
  using onto collision_free by blast

end

text \<open>The shapes an order supports: static, with an element count that fits in 64 bits.\<close>

definition countable_shape :: "shape \<Rightarrow> bool" where
  "countable_shape sh \<longleftrightarrow> DYNAMIC \<notin> set sh \<and> volume sh < 2 ^ 64"

lemma order_is_dense:
  assumes off: "\<And>idx sh. off idx sh = r_bind (validate_index idx sh) (\<lambda>_. f idx sh)"
    and f: "\<And>idx sh. digits_ok (map unat idx) (map unat sh) \<Longrightarrow> volume sh < 2 ^ 64 \<Longrightarrow>
      f idx sh = Ok (word_of_nat (p idx sh))"
    and less: "\<And>idx sh. digits_ok (map unat idx) (map unat sh) \<Longrightarrow> p idx sh < volume sh"
    and inj: "\<And>i j sh. digits_ok (map unat i) (map unat sh) \<Longrightarrow> digits_ok (map unat j) (map unat sh) \<Longrightarrow>
      p i sh = p j sh \<Longrightarrow> i = j"
    and onto: "\<And>n sh. n < volume sh \<Longrightarrow> \<exists>i. digits_ok (map unat i) (map unat sh) \<and> p i sh = n"
  shows "dense_address off countable_shape"
proof -
  have val: "off idx sh = Ok v \<longleftrightarrow> valid_index idx sh \<and> f idx sh = Ok v" for idx sh v
    by (cases "validate_index idx sh") (auto simp: off validate_index_Ok [symmetric])
  have pos: "f idx sh = Ok v \<longleftrightarrow> unat v = p idx sh" if "valid_index idx sh" "countable_shape sh" for idx sh v
  proof -
    have d: "digits_ok (map unat idx) (map unat sh)" and c: "volume sh < 2 ^ 64"
      using that valid_index_digits by (auto simp: countable_shape_def)
    have "p idx sh < 2 ^ 64" using less [OF d] c by linarith
    then show ?thesis using f [OF d c] by (auto simp: word_unat_eq_iff unat_of_nat take_bit_nat_eq_self)
  qed
  show ?thesis
  proof
    fix sh idx assume s: "countable_shape sh" "valid_index idx sh"
    have d: "digits_ok (map unat idx) (map unat sh)" using s valid_index_digits by blast
    have "p idx sh < 2 ^ 64" using less [OF d] s by (simp add: countable_shape_def)
    then have "unat (word_of_nat (p idx sh) :: u64) = p idx sh" by (simp add: unat_of_nat take_bit_nat_eq_self)
    then show "\<exists>v. off idx sh = Ok v \<and> unat v < volume sh"
      using s pos [OF s(2,1)] less [OF d] val by (intro exI [of _ "word_of_nat (p idx sh)"]) simp
  next
    fix sh i j v assume "countable_shape sh" "off i sh = Ok v" "off j sh = Ok v"
    then show "i = j" using val pos inj valid_index_digits by metis
  next
    fix idx sh v assume "off idx sh = Ok v"
    then show "valid_index idx sh" using val by blast
  next
    fix sh n assume s: "countable_shape sh" "n < volume sh"
    then obtain i where i: "digits_ok (map unat i) (map unat sh)" "p i sh = n" using onto by blast
    then have "valid_index i sh" using s valid_index_iff by (auto simp: countable_shape_def)
    moreover have "unat (word_of_nat n :: u64) = n"
      using s by (simp add: countable_shape_def unat_of_nat take_bit_nat_eq_self)
    ultimately show "\<exists>idx. off idx sh = Ok (word_of_nat n)" using val pos s(1) i(2) by metis
  qed
qed

interpretation row_major: dense_address row_major_element_offset countable_shape
  by (rule order_is_dense [where p = row_pos and f = row_major_offset])
    (auto simp: row_major_element_offset_def offsets_fit pos_less dest: pos_inj(2) intro: pos_onto)

interpretation col_major: dense_address col_major_element_offset countable_shape
  by (rule order_is_dense [where p = col_pos and f = col_major_offset])
    (auto simp: col_major_element_offset_def offsets_fit pos_less dest: pos_inj(1) intro: pos_onto)

section \<open>Properties\<close>

text \<open>
  Row- and column-major offsets are exact: for a valid index the checked loops return the
  mixed-radix value of the index (dimensions reversed for row-major), unless the stride of the
  outermost dimension or that value does not fit in 64 bits, and then they report an overflow.
\<close>

theorem order_offsets_exact:
  assumes "valid_index idx sh" and "sh \<noteq> []"
  shows "row_major_element_offset idx sh =
      (if volume (tl sh) < 2 ^ 64 \<and> row_pos idx sh < 2 ^ 64 then Ok (word_of_nat (row_pos idx sh))
       else Err AddressOverflow) \<and>
    col_major_element_offset idx sh =
      (if volume (butlast sh) < 2 ^ 64 \<and> col_pos idx sh < 2 ^ 64 then Ok (word_of_nat (col_pos idx sh))
       else Err AddressOverflow)"
proof -
  have len: "length idx = length sh" and ne: "idx \<noteq> []" using assms valid_index_length by fastforce+
  have d: "digits_ok (map unat idx) (map unat sh)" using assms(1) by (rule valid_index_digits)
  then have r: "digits_ok (map unat (rev idx)) (map unat (rev sh))" by (simp add: rev_map [symmetric])
  have b: "butlast (rev sh) = rev (tl sh)" using assms(2) by (cases sh) simp_all
  have ok: "validate_index idx sh = Ok ()" using assms(1) validate_index_Ok by blast
  show ?thesis
    using radix_acc_exact [OF d, of 0 1] radix_acc_exact [OF r, of 0 1] ok ne
    by (simp add: row_major_element_offset_def col_major_element_offset_def row_major_acc [OF len]
        col_major_acc [OF len] b row_pos_def col_pos_def rev_map)
qed

theorem order_offsets_exact_witness:
  "row_major_element_offset [1, 2] [3, 4] = Ok 6 \<and> col_major_element_offset [1, 2] [3, 4] = Ok 7"
  using order_offsets_exact [of "[1, 2]" "[3, 4]"]
  by (simp add: valid_index_def DYNAMIC_def word_less_nat_alt row_pos_def col_pos_def)

text \<open>
  C20. On a static shape whose element count fits in 64 bits, each position below the element count is
  the row-major offset of exactly one index, and the column-major offset of exactly one index.
\<close>

theorem dense_orders_bijective:
  assumes "DYNAMIC \<notin> set sh" and "volume sh < 2 ^ 64" and "n < volume sh"
  shows "(\<exists>!idx. row_major_element_offset idx sh = Ok (word_of_nat n)) \<and>
    (\<exists>!idx. col_major_element_offset idx sh = Ok (word_of_nat n))"
  using assms row_major.unique_index [of sh n] col_major.unique_index [of sh n]
  by (simp add: countable_shape_def)

theorem dense_orders_bijective_witness:
  "(\<exists>!idx. row_major_element_offset idx [3, 4] = Ok (word_of_nat 5)) \<and>
    (\<exists>!idx. col_major_element_offset idx [3, 4] = Ok (word_of_nat 5))"
  by (rule dense_orders_bijective) (simp_all add: DYNAMIC_def)

text \<open>
  Memory safety of row-major access to whole-byte elements: with a buffer that holds the tensor
  behind \<open>boff\<close>, different valid indices get byte addresses whose element ranges lie in the buffer
  and do not overlap.
\<close>

theorem row_major_bytes_disjoint:
  assumes "DYNAMIC \<notin> set sh" and "volume sh < 2 ^ 64"
    and "valid_index i sh" and "valid_index j sh" and "i \<noteq> j"
    and "unat (bit_width ty) = 8 * w" and "0 < w" and "w \<le> 16"
    and "unat boff + volume sh * w \<le> unat bsize" and "unat bsize < 2 ^ 63"
  shows "\<exists>u v a b. row_major_element_offset i sh = Ok u \<and> row_major_element_offset j sh = Ok v \<and>
    byte_address_from_element_offset u boff ty bsize = Ok a \<and>
    byte_address_from_element_offset v boff ty bsize = Ok b \<and>
    unat a + w \<le> unat bsize \<and> unat b + w \<le> unat bsize \<and>
    (unat a + w \<le> unat b \<or> unat b + w \<le> unat a)"
  using assms(1,2) by (intro row_major.disjoint_bytes [OF _ assms(3-)]) (simp add: countable_shape_def)

theorem row_major_bytes_disjoint_witness:
  "\<exists>u v a b. row_major_element_offset [0, 1] [2, 3] = Ok u \<and> row_major_element_offset [1, 0] [2, 3] = Ok v \<and>
    byte_address_from_element_offset u 16 Float32 40 = Ok a \<and>
    byte_address_from_element_offset v 16 Float32 40 = Ok b \<and>
    unat a + 4 \<le> unat (40 :: u64) \<and> unat b + 4 \<le> unat (40 :: u64) \<and>
    (unat a + 4 \<le> unat b \<or> unat b + 4 \<le> unat a)"
  by (rule row_major_bytes_disjoint) (simp_all add: DYNAMIC_def valid_index_def word_less_nat_alt)

text \<open>
  Byte addresses of extension types: for an element type of the private range the width is 0,
  and \<open>byte_address_from_element_offset\<close> panics on the division by zero whatever the offset.
\<close>

theorem byte_address_extension_panics:
  "byte_address_from_element_offset off boff (Extension t) bsize = Panic"
  by (simp add: byte_address_from_element_offset_def byte_delta_def plain_div_def)

end
