(* ===== verification/Tiling.thy ===== *)
theory Tiling
  imports Addressing
begin

text \<open>
  Addressing of strided and tiled layouts (\<open>hurray-core/src/layout/addressing/\<close> \<open>strided.rs\<close>, \<open>tiled.rs\<close>):
  signed arithmetic on 64 bits, nested tiles. Layouts whose levels are ordered row- or column-major
  and whose nested tiles divide the tiles around them fulfil the contract of an addressing scheme.
\<close>

section \<open>Strided\<close>

fun strided_sum :: "i64 \<Rightarrow> u64 list \<Rightarrow> i64 list \<Rightarrow> i64 core_result" where
  "strided_sum sm (i # is) (s # ss) =
     r_bind (ok_or (checked_mul_i64 i s) AddressOverflow) (\<lambda>tm.
     r_bind (ok_or (checked_add_i64 sm tm) AddressOverflow) (\<lambda>sm.
     strided_sum sm is ss))"
| "strided_sum sm _ _ = Ok sm"

definition strided_element_offset :: "strided_layout \<Rightarrow> u64 list \<Rightarrow> shape \<Rightarrow> u64 core_result" where
  "strided_element_offset l idx sh =
     r_bind (validate_index idx sh) (\<lambda>_.
     if length (strides l) \<noteq> rank sh then Err (IndexRankMismatch (length (strides l)) (rank sh))
     else strided_sum 0 idx (strides l))"

section \<open>Tiled\<close>

fun strided_offset_from :: "nat \<Rightarrow> u64 list \<Rightarrow> i64 list \<Rightarrow> i64 \<Rightarrow> i64 core_result" where
  "strided_offset_from k [] ss sm = Ok sm"
| "strided_offset_from k (i # is) ss sm =
     r_bind (index_at ss k) (\<lambda>s.
     r_bind (ok_or (checked_mul_i64 i s) AddressOverflow) (\<lambda>tm.
     r_bind (ok_or (checked_add_i64 sm tm) AddressOverflow) (\<lambda>sm.
     strided_offset_from (k + 1) is ss sm)))"

definition strided_offset :: "u64 list \<Rightarrow> i64 list \<Rightarrow> i64 core_result" where
  "strided_offset idx ss = strided_offset_from 0 idx ss 0"

text \<open>Step 1 of \<open>tiled_offset\<close> gives the tile index and the index in the tile, step 2 the tile grid,
  step 4 the number of elements of a tile.\<close>

fun split_index :: "nat \<Rightarrow> u64 list \<Rightarrow> u64 list \<Rightarrow> (u64 list \<times> u64 list) core_result" where
  "split_index k [] ts = Ok ([], [])"
| "split_index k (i # is) ts =
     r_bind (index_at ts k) (\<lambda>t.
     r_bind (plain_div i t) (\<lambda>q.
     r_bind (plain_mod i t) (\<lambda>r.
     r_bind (split_index (k + 1) is ts) (\<lambda>(qs, rs). Ok (q # qs, r # rs)))))"

fun tile_grid_dims :: "u64 list \<Rightarrow> u64 list \<Rightarrow> u64 list core_result" where
  "tile_grid_dims (s # ss) (t # ts) =
     r_bind (div_ceil s t) (\<lambda>g. r_bind (tile_grid_dims ss ts) (\<lambda>gs. Ok (g # gs)))"
| "tile_grid_dims _ _ = Ok []"

fun tile_size_from :: "i64 \<Rightarrow> u64 list \<Rightarrow> i64 core_result" where
  "tile_size_from acc [] = Ok acc"
| "tile_size_from acc (d # ds) =
     r_bind (ok_or (checked_mul_i64 acc d) AddressOverflow) (\<lambda>acc. tile_size_from acc ds)"

fun tiled_offset :: "tiled_layout \<Rightarrow> u64 list \<Rightarrow> u64 list \<Rightarrow> u64 core_result" where
  "tiled_offset (TiledLayout ts ol il os ins it) idx ds =
     r_bind (split_index 0 idx ts) (\<lambda>(tile_idx, intra_idx).
     r_bind (tile_grid_dims ds ts) (\<lambda>grid.
     r_bind (if ol = 0x01 then row_major_offset tile_idx grid
             else if ol = 0x02 then col_major_offset tile_idx grid
             else if ol = 0x03
             then (case os of None \<Rightarrow> Panic | Some ss \<Rightarrow> strided_offset tile_idx ss)
             else Panic) (\<lambda>tile_number.
     r_bind (tile_size_from 1 ts) (\<lambda>tile_size.
     r_bind (if il = 0x01 then row_major_offset intra_idx ts
             else if il = 0x02 then col_major_offset intra_idx ts
             else if il = 0x03
             then (case ins of None \<Rightarrow> Panic | Some ss \<Rightarrow> strided_offset intra_idx ss)
             else if il = 0x04
             then (case it of None \<Rightarrow> Panic | Some t \<Rightarrow> tiled_offset t intra_idx ts)
             else Panic) (\<lambda>intra_offset.
     r_bind (ok_or (checked_mul_i64 tile_number tile_size) AddressOverflow) (\<lambda>base.
     ok_or (checked_add_i64 base intra_offset) AddressOverflow))))))"

definition tiled_element_offset :: "tiled_layout \<Rightarrow> u64 list \<Rightarrow> shape \<Rightarrow> u64 core_result" where
  "tiled_element_offset l idx sh =
     r_bind (validate_index idx sh) (\<lambda>_.
     if length (tile_shape l) \<noteq> rank sh
     then Err (IndexRankMismatch (length (tile_shape l)) (rank sh))
     else tiled_offset l idx (dims sh))"

section \<open>Tiled layouts without strided levels\<close>

text \<open>A tiled layout is \<open>tiled_regular\<close> when every level orders its tiles row- or column-major and every
  nested tile shape divides the tile it subdivides.\<close>

fun tiled_regular :: "nat \<Rightarrow> tiled_layout \<Rightarrow> bool" where
  "tiled_regular rk (TiledLayout ts ol il os ins it) \<longleftrightarrow>
     length ts = rk \<and> 0 \<notin> set ts \<and> (ol = 0x01 \<or> ol = 0x02) \<and>
     (case it of
        None \<Rightarrow> il = 0x01 \<or> il = 0x02
      | Some t \<Rightarrow> il = 0x04 \<and> list_all2 (\<lambda>x y. unat x dvd unat y) (tile_shape t) ts \<and> tiled_regular rk t)"

definition grid_size :: "u64 \<Rightarrow> u64 \<Rightarrow> u64" where
  "grid_size s t = word_of_nat ((unat s + unat t - 1) div unat t)"

definition tiled_span :: "tiled_layout \<Rightarrow> u64 list \<Rightarrow> nat" where
  "tiled_span t ds = volume (map2 grid_size ds (tile_shape t)) * volume (tile_shape t)"

text \<open>The position of an element: the number of its tile times the tile size, plus the position in
  the tile.\<close>

definition order_pos :: "u8 \<Rightarrow> u64 list \<Rightarrow> u64 list \<Rightarrow> nat" where
  "order_pos l idx ds = (if l = 0x01 then row_pos idx ds else col_pos idx ds)"

fun tiled_pos :: "tiled_layout \<Rightarrow> u64 list \<Rightarrow> u64 list \<Rightarrow> nat" where
  "tiled_pos (TiledLayout ts ol il os ins it) idx ds =
     order_pos ol (map2 (div) idx ts) (map2 grid_size ds ts) * volume ts +
     (case it of
        None \<Rightarrow> order_pos il (map2 (mod) idx ts) ts
      | Some t \<Rightarrow> tiled_pos t (map2 (mod) idx ts) ts)"

lemma split_index_Ok:
  "length idx = length ts - k \<Longrightarrow> k \<le> length ts \<Longrightarrow> 0 \<notin> set ts \<Longrightarrow>
   split_index k idx ts = Ok (map2 (div) idx (drop k ts), map2 (mod) idx (drop k ts))"
proof (induction k idx ts rule: split_index.induct)
  case (2 k i "is" ts)
  then have "k < length ts" by auto
  then have d: "drop k ts = ts ! k # drop (k + 1) ts" by (simp add: Cons_nth_drop_Suc)
  have nz: "ts ! k \<noteq> 0" using "2.prems"(3) \<open>k < length ts\<close> by (metis nth_mem)
  have "split_index (k + 1) is ts = Ok (map2 (div) is (drop (k + 1) ts), map2 (mod) is (drop (k + 1) ts))"
    using 2 \<open>k < length ts\<close> nz by (simp add: plain_div_def plain_mod_def)
  with nz \<open>k < length ts\<close> show ?case unfolding d by (simp add: plain_div_def plain_mod_def)
qed simp

lemma unat_grid_size: "t \<noteq> 0 \<Longrightarrow> unat (grid_size s t) = (unat s + unat t - 1) div unat t"
  using unat_div_ceil [of s t "grid_size s t"] by (simp add: div_ceil_eq grid_size_def)

lemma tile_grid_dims_Ok: "0 \<notin> set ts \<Longrightarrow> tile_grid_dims ds ts = Ok (map2 grid_size ds ts)"
  by (induction ds ts rule: tile_grid_dims.induct) (auto simp: div_ceil_eq grid_size_def)

lemma tile_size_from_Ok:
  "0 \<notin> set ts \<Longrightarrow> unat acc * volume ts < 2 ^ 63 \<Longrightarrow> 0 < unat acc \<Longrightarrow>
   \<exists>v. tile_size_from acc ts = Ok v \<and> unat v = unat acc * volume ts"
proof (induction acc ts rule: tile_size_from.induct)
  case (2 acc d ds)
  have v: "1 \<le> volume ds" using "2.prems"(1) volume_zero_iff [of ds] by (simp add: Suc_le_eq)
  have d: "0 < unat d" using "2.prems"(1) by (auto simp: unat_gt_0)
  have "unat acc * unat d * 1 \<le> unat acc * unat d * volume ds" using v by (intro mult_le_mono2)
  then have ad: "unat acc * unat d < 2 ^ 63" using "2.prems"(2) unfolding volume_simps mult.assoc by linarith
  have "unat acc * 1 \<le> unat acc * unat d" "1 * unat d \<le> unat acc * unat d"
    using d "2.prems"(3) by (intro mult_le_mono1 mult_le_mono2; simp)+
  then have "unat acc < 2 ^ 63" "unat d < 2 ^ 63" using ad by linarith+
  then have m: "checked_mul_i64 acc d = Some (acc * d)" "unat (acc * d) = unat acc * unat d"
    using checked_mul_i64_nat [OF ad] by simp_all
  have "\<exists>v. tile_size_from (acc * d) ds = Ok v \<and> unat v = unat (acc * d) * volume ds"
    using "2.IH" [of "acc * d"] "2.prems" m d by (simp add: mult.assoc)
  then show ?case using m by (simp add: mult.assoc)
qed simp

lemma div_mod_digits:
  assumes "digits_ok (map unat idx) (map unat ds)" and "length ts = length ds" and "0 \<notin> set ts"
  shows "digits_ok (map unat (map2 (div) idx ts)) (map unat (map2 grid_size ds ts))"
    and "digits_ok (map unat (map2 (mod) idx ts)) (map unat ts)"
proof -
  have len: "length idx = length ds" using assms(1) by (simp add: list_all2_conv_all_nth)
  have "unat (idx ! k div ts ! k) < unat (grid_size (ds ! k) (ts ! k)) \<and> unat (idx ! k mod ts ! k) < unat (ts ! k)"
    if k: "k < length ds" for k
  proof -
    have nz: "ts ! k \<noteq> 0" using assms(2,3) k by (metis nth_mem)
    then have t: "0 < unat (ts ! k)" by (simp add: unat_gt_0)
    have "unat (idx ! k) < unat (ds ! k)" using assms(1) k len by (auto simp: list_all2_conv_all_nth)
    then have "unat (idx ! k) + unat (ts ! k) \<le> unat (ds ! k) + unat (ts ! k) - 1" by linarith
    then have "(unat (idx ! k) + unat (ts ! k)) div unat (ts ! k) \<le> (unat (ds ! k) + unat (ts ! k) - 1) div unat (ts ! k)"
      by (rule div_le_mono)
    then have "unat (idx ! k) div unat (ts ! k) < (unat (ds ! k) + unat (ts ! k) - 1) div unat (ts ! k)"
      using div_add_self2 [of "unat (ts ! k)" "unat (idx ! k)"] t by linarith
    then show ?thesis using t nz by (simp add: unat_grid_size unat_div unat_mod)
  qed
  then show "digits_ok (map unat (map2 (div) idx ts)) (map unat (map2 grid_size ds ts))"
    "digits_ok (map unat (map2 (mod) idx ts)) (map unat ts)"
    using len assms(2) by (simp_all add: list_all2_conv_all_nth)
qed

lemma div_mod_eq:
  assumes "length i = length ts" and "length j = length ts"
    and "map2 (div) i ts = map2 (div) j ts" and "map2 (mod) i ts = map2 (mod) j ts"
  shows "i = (j :: u64 list)"
proof (rule nth_equalityI)
  show "length i = length j" using assms by simp
  fix k assume k: "k < length i"
  have "i ! k div ts ! k = j ! k div ts ! k" "i ! k mod ts ! k = j ! k mod ts ! k"
    using assms k by (auto dest!: arg_cong [where f = "\<lambda>xs. xs ! k"])
  then show "i ! k = j ! k" by (metis div_mult_mod_eq)
qed

lemma order_pos_less: "digits_ok (map unat idx) (map unat ds) \<Longrightarrow> order_pos l idx ds < volume ds"
  by (simp add: order_pos_def pos_less)

lemma order_pos_inj:
  "digits_ok (map unat i) (map unat ds) \<Longrightarrow> digits_ok (map unat j) (map unat ds) \<Longrightarrow>
   order_pos l i ds = order_pos l j ds \<Longrightarrow> i = j"
  using pos_inj [of i ds j] by (auto simp: order_pos_def split: if_splits)

lemma nested_span:
  assumes "list_all2 (\<lambda>x y. unat x dvd unat y) (tile_shape t) ts" and "0 \<notin> set (tile_shape t)" and "0 \<notin> set ts"
  shows "tiled_span t ts = volume ts"
proof -
  have "volume (map2 grid_size ts us) * volume us = volume ts"
    if "list_all2 (\<lambda>x y. unat x dvd unat y) us ts" "0 \<notin> set us" "0 \<notin> set ts" for us
    using that
  proof (induction us ts rule: list_all2_induct)
    case (Cons u us t ts)
    then have u: "0 < unat u" by (auto simp: unat_gt_0)
    obtain k where k: "unat t = unat u * k" using Cons.hyps(1) by auto
    have "(unat u * k + unat u - 1) div unat u = k"
      using nat_div_ceil_eq [OF u, of "unat u * k"] u by simp
    moreover have "u \<noteq> 0" using u by auto
    ultimately have "unat (grid_size t u) * unat u = unat t"
      using k by (simp add: unat_grid_size)
    with Cons show ?case by (simp add: mult.assoc mult.left_commute [of "volume _" "unat u"])
  qed simp
  then show ?thesis using assms by (simp add: tiled_span_def)
qed

lemma tiled_offset_exact:
  assumes "tiled_regular (length ds) t" and "digits_ok (map unat idx) (map unat ds)" and "tiled_span t ds < 2 ^ 63"
  shows "tiled_pos t idx ds < tiled_span t ds \<and> tiled_offset t idx ds = Ok (word_of_nat (tiled_pos t idx ds))"
  using assms
proof (induction t arbitrary: idx ds)
  case (TiledLayout ts ol il os ins it)
  let ?q = "map2 (div) idx ts" and ?r = "map2 (mod) idx ts" and ?g = "map2 grid_size ds ts"
  have reg: "length ts = length ds" "0 \<notin> set ts" "ol = 1 \<or> ol = 2"
    using TiledLayout.prems(1) by auto
  have len: "length idx = length ds" using TiledLayout.prems(2) by (simp add: list_all2_conv_all_nth)
  note dig = div_mod_digits [OF TiledLayout.prems(2) reg(1,2)]
  have span: "volume ?g * volume ts < 2 ^ 63" using TiledLayout.prems(3) by (simp add: tiled_span_def)
  let ?o = "order_pos ol ?q ?g"
  have o: "?o < volume ?g" using order_pos_less [OF dig(1)] .
  have ts1: "1 \<le> volume ts" using reg(2) volume_zero_iff [of ts] by (simp add: Suc_le_eq)
  have "volume ts \<le> volume ?g * volume ts" "volume ?g \<le> volume ?g * volume ts" using o ts1 by auto
  then have small: "volume ts < 2 ^ 63" "volume ?g < 2 ^ 63" using span by linarith+
  have outer: "(if ol = 0x01 then row_major_offset ?q ?g else if ol = 0x02 then col_major_offset ?q ?g
      else if ol = 0x03 then (case os of None \<Rightarrow> Panic | Some ss \<Rightarrow> strided_offset ?q ss) else Panic) =
      Ok (word_of_nat ?o)"
    using reg(3) offsets_fit [OF dig(1)] small by (auto simp: order_pos_def)
  obtain ip where ip: "ip < volume ts" "tiled_pos (TiledLayout ts ol il os ins it) idx ds = ?o * volume ts + ip"
    and inner: "(if il = 0x01 then row_major_offset ?r ts else if il = 0x02 then col_major_offset ?r ts
      else if il = 0x03 then (case ins of None \<Rightarrow> Panic | Some ss \<Rightarrow> strided_offset ?r ss)
      else if il = 0x04 then (case it of None \<Rightarrow> Panic | Some t \<Rightarrow> tiled_offset t ?r ts) else Panic) =
      Ok (word_of_nat ip)"
  proof (cases it)
    case None
    then have "il = 1 \<or> il = 2" using TiledLayout.prems(1) by simp
    then show ?thesis
      using that [of "order_pos il ?r ts"] None order_pos_less [OF dig(2)] offsets_fit [OF dig(2)] small
      by (auto simp: order_pos_def)
  next
    case (Some t)
    then have t: "il = 4" "list_all2 (\<lambda>x y. unat x dvd unat y) (tile_shape t) ts" "tiled_regular (length ts) t"
      using TiledLayout.prems(1) reg(1) by auto
    then have "0 \<notin> set (tile_shape t)" by (cases t) simp
    then have sp: "tiled_span t ts = volume ts" using nested_span [OF t(2) _ reg(2)] by simp
    have "tiled_pos t ?r ts < tiled_span t ts \<and> tiled_offset t ?r ts = Ok (word_of_nat (tiled_pos t ?r ts))"
      using TiledLayout.IH [of t ts ?r] Some t(3) dig(2) sp small by simp
    then show ?thesis using that [of "tiled_pos t ?r ts"] Some sp t(1) by simp
  qed
  obtain sz :: u64 where sz: "tile_size_from 1 ts = Ok sz" "unat sz = volume ts"
    using tile_size_from_Ok [of ts 1] reg(2) small by auto
  let ?O = "word_of_nat ?o :: u64" and ?I = "word_of_nat ip :: u64"
  have "(?o + 1) * volume ts \<le> volume ?g * volume ts" using o by (intro mult_le_mono1) simp
  then have tot: "?o * volume ts + ip < volume ?g * volume ts" using ip(1) by simp
  have uO: "unat ?O = ?o" using o small by (simp add: unat_of_nat take_bit_nat_eq_self)
  have uI: "unat ?I = ip" using ip(1) small by (simp add: unat_of_nat take_bit_nat_eq_self)
  have m: "checked_mul_i64 ?O sz = Some (?O * sz)" "unat (?O * sz) = ?o * volume ts"
    using checked_mul_i64_nat [of ?O sz] uO sz(2) tot span o small by simp_all
  have a: "checked_add_i64 (?O * sz) ?I = Some (?O * sz + ?I)" "unat (?O * sz + ?I) = ?o * volume ts + ip"
    using checked_add_i64_nat [of "?O * sz" ?I] m(2) uI tot span by simp_all
  have sp: "split_index 0 idx ts = Ok (?q, ?r)" using split_index_Ok [of idx ts 0] len reg by simp
  have "tiled_offset (TiledLayout ts ol il os ins it) idx ds = Ok (?O * sz + ?I)"
    unfolding tiled_offset.simps sp r_bind.simps prod.case tile_grid_dims_Ok [OF reg(2)] outer sz(1) inner
    by (simp only: m(1) a(1) ok_or_simps r_bind.simps)
  moreover have "?O * sz + ?I = word_of_nat (?o * volume ts + ip)"
    using a(2) by (metis of_nat_unat ucast_id)
  ultimately show ?case using tot ip(2) by (simp only: tiled_span_def tiled_layout.sel)
qed

lemma tiled_pos_inj:
  assumes "tiled_regular (length ds) t"
    and "digits_ok (map unat i) (map unat ds)" and "digits_ok (map unat j) (map unat ds)"
    and "tiled_span t ds < 2 ^ 63" and "tiled_pos t i ds = tiled_pos t j ds"
  shows "i = j"
  using assms
proof (induction t arbitrary: i j ds)
  case (TiledLayout ts ol il os ins it)
  have reg: "length ts = length ds" "0 \<notin> set ts" using TiledLayout.prems(1) by auto
  have len: "length i = length ts" "length j = length ts"
    using TiledLayout.prems(2,3) reg(1) by (simp_all add: list_all2_conv_all_nth)
  note di = div_mod_digits [OF TiledLayout.prems(2) reg] and dj = div_mod_digits [OF TiledLayout.prems(3) reg]
  let ?ip = "\<lambda>x. case it of None \<Rightarrow> order_pos il (map2 (mod) x ts) ts | Some t \<Rightarrow> tiled_pos t (map2 (mod) x ts) ts"
  let ?op = "\<lambda>x. order_pos ol (map2 (div) x ts) (map2 grid_size ds ts)"
  have nest: "tiled_span t ts = volume ts \<and> tiled_regular (length ts) t \<and> volume ts < 2 ^ 63" if "it = Some t" for t
  proof -
    have t: "list_all2 (\<lambda>x y. unat x dvd unat y) (tile_shape t) ts" "tiled_regular (length ts) t"
      using TiledLayout.prems(1) reg(1) that by auto
    then have "0 \<notin> set (tile_shape t)" by (cases t) simp
    moreover have "volume ts \<le> volume (map2 grid_size ds ts) * volume ts"
      using order_pos_less [OF di(1)] by (cases "volume (map2 grid_size ds ts)") auto
    moreover have "volume (map2 grid_size ds ts) * volume ts < 2 ^ 63"
      using TiledLayout.prems(4) by (simp add: tiled_span_def)
    ultimately have "0 \<notin> set (tile_shape t)" "volume ts < 2 ^ 63" by linarith+
    then show ?thesis using nested_span [OF t(1) _ reg(2)] t(2) by simp
  qed
  have less: "?ip x < volume ts" if "digits_ok (map unat (map2 (mod) x ts)) (map unat ts)" for x
  proof (cases it)
    case None
    then show ?thesis using order_pos_less [OF that] by simp
  next
    case (Some t)
    then show ?thesis using nest [OF Some] tiled_offset_exact [OF _ that, of t] by simp
  qed
  have "?op i * volume ts + ?ip i = ?op j * volume ts + ?ip j" using TiledLayout.prems(5) by simp
  then have eq: "?op i = ?op j \<and> ?ip i = ?ip j"
    using less [OF di(2)] less [OF dj(2)]
    by (intro quot_rem_unique)
  have "map2 (mod) i ts = map2 (mod) j ts"
  proof (cases it)
    case None
    then show ?thesis using eq order_pos_inj [OF di(2) dj(2), of il] by simp
  next
    case (Some t)
    then show ?thesis using eq nest [OF Some] TiledLayout.IH [of t ts] di(2) dj(2) by simp
  qed
  moreover have "map2 (div) i ts = map2 (div) j ts" using eq order_pos_inj [OF di(1) dj(1)] by blast
  ultimately show ?case using div_mod_eq [OF len] by blast
qed

text \<open>The shapes a regular tiled layout supports: static, with a padded element count that fits the
  signed arithmetic.\<close>

definition tiled_supports :: "tiled_layout \<Rightarrow> shape \<Rightarrow> bool" where
  "tiled_supports t sh \<longleftrightarrow> DYNAMIC \<notin> set sh \<and> tiled_regular (length sh) t \<and> tiled_span t sh < 2 ^ 63"

lemma tiled_element_offset_Ok:
  assumes "tiled_supports t sh"
  shows "tiled_element_offset t idx sh = Ok v \<longleftrightarrow> valid_index idx sh \<and> unat v = tiled_pos t idx sh"
proof (cases "valid_index idx sh")
  case True
  have s: "tiled_regular (length sh) t" "tiled_span t sh < 2 ^ 63" using assms by (simp_all add: tiled_supports_def)
  have e: "tiled_pos t idx sh < tiled_span t sh" "tiled_offset t idx sh = Ok (word_of_nat (tiled_pos t idx sh))"
    using tiled_offset_exact [OF s(1) valid_index_digits [OF True] s(2)] by blast+
  have "length (tile_shape t) = length sh" using s(1) by (cases t) simp
  then have "tiled_element_offset t idx sh = Ok (word_of_nat (tiled_pos t idx sh))"
    using e(2) validate_index_Ok [THEN iffD2, OF True] by (simp add: tiled_element_offset_def)
  moreover have "unat (word_of_nat (tiled_pos t idx sh) :: u64) = tiled_pos t idx sh"
    using e(1) s(2) by (simp add: unat_of_nat take_bit_nat_eq_self)
  ultimately show ?thesis using True by (auto simp: word_unat_eq_iff)
next
  case False
  then show ?thesis
    using validate_index_Ok [of idx sh] by (auto simp: tiled_element_offset_def r_bind_Ok_iff)
qed

interpretation tiled: element_address "tiled_element_offset t" "tiled_supports t" "tiled_span t" for t
proof
  fix sh idx assume s: "tiled_supports t sh" "valid_index idx sh"
  then have "tiled_pos t idx sh < tiled_span t sh" "tiled_span t sh < 2 ^ 63"
    using tiled_offset_exact [of sh t idx] valid_index_digits by (auto simp: tiled_supports_def)
  moreover from this have "unat (word_of_nat (tiled_pos t idx sh) :: u64) = tiled_pos t idx sh"
    by (simp add: unat_of_nat take_bit_nat_eq_self)
  ultimately show "\<exists>v. tiled_element_offset t idx sh = Ok v \<and> unat v < tiled_span t sh"
    using s tiled_element_offset_Ok [OF s(1), of idx "word_of_nat (tiled_pos t idx sh)"]
    by (intro exI [of _ "word_of_nat (tiled_pos t idx sh)"]) simp
next
  fix sh i j v
  assume s: "tiled_supports t sh" and "tiled_element_offset t i sh = Ok v" "tiled_element_offset t j sh = Ok v"
  then show "i = j"
    using tiled_element_offset_Ok [OF s] tiled_pos_inj [of sh t i j] valid_index_digits
    by (auto simp: tiled_supports_def)
next
  fix idx sh v assume "tiled_element_offset t idx sh = Ok v"
  then show "valid_index idx sh"
    using validate_index_Ok [of idx sh] by (auto simp: tiled_element_offset_def r_bind_Ok_iff)
qed

section \<open>Strided layouts with the canonical strides\<close>

fun row_strides :: "u64 list \<Rightarrow> i64 list" where
  "row_strides [] = []"
| "row_strides (d # ds) = word_of_nat (volume ds) # row_strides ds"

lemma length_row_strides [simp]: "length (row_strides ds) = length ds"
  by (induction ds) simp_all

lemma mixed_snoc:
  "length is = length ds \<Longrightarrow> mixed (is @ [i]) (ds @ [d]) = mixed is ds + prod_list ds * i"
  by (induction "is" ds rule: list_induct2) (simp_all add: algebra_simps)

lemma row_pos_Cons:
  "length is = length ds \<Longrightarrow> row_pos (i # is) (d # ds) = row_pos is ds + unat i * volume ds"
  by (simp add: row_pos_def mixed_snoc mult.commute)

lemma strided_sum_row:
  assumes "digits_ok (map unat is) (map unat ds)" and "unat sm + row_pos is ds < 2 ^ 63" and "volume ds < 2 ^ 63"
    and "\<forall>d \<in> set ds. unat d < 2 ^ 63"
  shows "strided_sum sm is (row_strides ds) = Ok (word_of_nat (unat sm + row_pos is ds))"
  using assms
proof (induction "is" arbitrary: sm ds)
  case Nil
  then show ?case by (simp add: row_pos_def)
next
  case (Cons i "is")
  then obtain d es where ds: "ds = d # es" "unat i < unat d" "digits_ok (map unat is) (map unat es)"
    by (auto simp: list_all2_Cons1 map_eq_Cons_conv)
  have len: "length is = length es" using ds(3) by (simp add: list_all2_conv_all_nth)
  let ?s = "word_of_nat (volume es) :: i64"
  have pos: "row_pos (i # is) ds = row_pos is es + unat i * volume es" using ds(1) row_pos_Cons [OF len] by simp
  have "0 \<notin> set ds" using digits_ok_pos [OF Cons.prems(1)] .
  then have "1 * volume es \<le> unat d * volume es" using ds(1) by (intro mult_le_mono1) (simp add: Suc_le_eq unat_gt_0)
  then have ves: "volume es < 2 ^ 63" using Cons.prems(3) unfolding ds(1) volume_simps by linarith
  have us: "unat ?s = volume es" using ves by (simp add: unat_of_nat take_bit_nat_eq_self)
  have tm: "unat i * volume es < 2 ^ 63" using Cons.prems(2) pos by linarith
  have ui: "unat i < 2 ^ 63" using Cons.prems(4) ds by auto
  have m: "checked_mul_i64 i ?s = Some (i * ?s)" "unat (i * ?s) = unat i * volume es"
    using checked_mul_i64_nat [of i ?s] tm us ves ui by simp_all
  have a: "checked_add_i64 sm (i * ?s) = Some (sm + i * ?s)" "unat (sm + i * ?s) = unat sm + unat i * volume es"
    using checked_add_i64_nat [of sm "i * ?s"] m(2) Cons.prems(2) pos by simp_all
  have "strided_sum (sm + i * ?s) is (row_strides es) = Ok (word_of_nat (unat (sm + i * ?s) + row_pos is es))"
    using Cons.prems(2,4) ves pos a(2) ds(1,3) by (intro Cons.IH) simp_all
  then have "strided_sum (sm + i * ?s) is (row_strides es) = Ok (word_of_nat (unat sm + row_pos (i # is) ds))"
    unfolding a(2) pos by (simp only: add.commute add.left_commute add.assoc)
  then show ?case using ds(1) m(1) a(1) by simp
qed

section \<open>Properties\<close>

text \<open>
  A strided layout with the canonical row-major strides addresses every valid index as the
  row-major layout does, while the element count fits in 63 bits.
\<close>

theorem strided_row_major_equiv:
  assumes "valid_index idx sh" and "volume sh < 2 ^ 63" and "\<forall>d \<in> set sh. unat d < 2 ^ 63"
  shows "strided_element_offset \<lparr>strides = row_strides sh\<rparr> idx sh = row_major_element_offset idx sh"
proof -
  have d: "digits_ok (map unat idx) (map unat sh)" using assms(1) by (rule valid_index_digits)
  have "row_pos idx sh < 2 ^ 63" using pos_less(2) [OF d] assms(2) by linarith
  then have "strided_sum 0 idx (row_strides sh) = Ok (word_of_nat (row_pos idx sh))"
    using strided_sum_row [OF d, of 0] assms(2,3) by simp
  moreover have "row_major_offset idx sh = Ok (word_of_nat (row_pos idx sh))"
    using offsets_fit(2) [OF d] assms(2) by simp
  ultimately show ?thesis
    using validate_index_Ok [THEN iffD2, OF assms(1)]
    by (simp add: strided_element_offset_def row_major_element_offset_def)
qed

theorem strided_row_major_equiv_witness:
  "strided_element_offset \<lparr>strides = [12, 4, 1]\<rparr> [1, 2, 3] [2, 3, 4] = row_major_element_offset [1, 2, 3] [2, 3, 4]"
  using strided_row_major_equiv [of "[1, 2, 3]" "[2, 3, 4]"]
  by (simp add: valid_index_def DYNAMIC_def word_less_nat_alt)

text \<open>
  C18. Tiled layouts whose levels are row- or column-major and whose nested tile shapes divide the
  tiles around them: every valid index has an offset within the padded element count, and different
  indices have different offsets.
\<close>

theorem tiled_offsets_distinct:
  assumes "DYNAMIC \<notin> set sh" and "tiled_regular (length sh) t" and "tiled_span t sh < 2 ^ 63"
    and "valid_index i sh" and "valid_index j sh" and "i \<noteq> j"
  shows "\<exists>u v. tiled_element_offset t i sh = Ok u \<and> tiled_element_offset t j sh = Ok v \<and>
    unat u < tiled_span t sh \<and> unat v < tiled_span t sh \<and> u \<noteq> v"
proof -
  have s: "tiled_supports t sh" using assms(1-3) by (simp add: tiled_supports_def)
  show ?thesis
    using tiled.distinct_offsets [OF s assms(4-6)] tiled.offset_bound [OF s] by blast
qed

text \<open>Two levels of tiles: 4 by 4 tiles, subdivided into 2 by 2 tiles.\<close>

definition sample_tiles :: tiled_layout where
  "sample_tiles = TiledLayout [4, 4] 1 4 None None (Some (TiledLayout [2, 2] 1 2 None None None))"

theorem tiled_offsets_distinct_witness:
  "\<exists>u v. tiled_element_offset sample_tiles [5, 6] [6, 8] = Ok u \<and>
    tiled_element_offset sample_tiles [2, 3] [6, 8] = Ok v \<and>
    unat u < tiled_span sample_tiles [6, 8] \<and> unat v < tiled_span sample_tiles [6, 8] \<and> u \<noteq> v"
  by (rule tiled_offsets_distinct)
    (simp_all add: sample_tiles_def tiled_span_def grid_size_def DYNAMIC_def valid_index_def word_less_nat_alt)

definition uneven_tiles :: tiled_layout where
  "uneven_tiles = TiledLayout [3, 3] 1 4 None None (Some (TiledLayout [2, 2] 1 1 None None None))"

lemmas addressing_eval = tiled_element_offset_def validate_index_def row_major_offset_def checked_mul_def
  checked_add_def checked_mul_i64_def checked_add_i64_def in_i64_def plain_div_def plain_mod_def div_ceil_def
  DYNAMIC_def word_le_nat_alt

text \<open>
  Nested tiles that do not divide the tile around them collide: \<open>TiledLayout::new\<close> accepts 3 by 3
  tiles subdivided into 2 by 2 tiles, and on a 3 by 6 tensor the elements \<open>(2, 2)\<close> and \<open>(1, 4)\<close> get the
  same offset, since the padded inner tiling needs 16 elements where a tile is given 9.
\<close>

theorem tiled_nested_collision:
  "tiled_new [3, 3] 1 4 None None (Some (TiledLayout [2, 2] 1 1 None None None)) = Ok uneven_tiles \<and>
   tiled_element_offset uneven_tiles [2, 2] [3, 6] = Ok 12 \<and>
   tiled_element_offset uneven_tiles [1, 4] [3, 6] = Ok 12"
proof (intro conjI)
  show "tiled_new [3, 3] 1 4 None None (Some (TiledLayout [2, 2] 1 1 None None None)) = Ok uneven_tiles"
    by (simp add: tiled_new_def uneven_tiles_def MAX_TILED_DEPTH_def presence_check_def word_le_nat_alt
        tiled_check.simps)
  show "tiled_element_offset uneven_tiles [2, 2] [3, 6] = Ok 12"
    by (simp add: uneven_tiles_def addressing_eval)
  show "tiled_element_offset uneven_tiles [1, 4] [3, 6] = Ok 12"
    by (simp add: uneven_tiles_def addressing_eval)
qed

end
