(* ===== verification/Morton_Curve.thy ===== *)
theory Morton_Curve
  imports Addressing
begin

text \<open>
  Addressing along the Morton curve (\<open>hurray-core/src/layout/addressing/morton.rs\<close>): the code
  interleaves the bits of the index. The computed code is characterised bit by bit, which makes it
  an addressing scheme without collisions.
\<close>

section \<open>Morton\<close>

text \<open>\<open>x >> n\<close>: shifting by the width or more panics.\<close>

definition plain_shr :: "u64 \<Rightarrow> u32 \<Rightarrow> u64 core_result" where
  "plain_shr x n = (if unat n < 64 then Ok (drop_bit (unat n) x) else Panic)"

fun sum_u32 :: "u32 \<Rightarrow> u32 list \<Rightarrow> u32 core_result" where
  "sum_u32 acc [] = Ok acc"
| "sum_u32 acc (b # bs) = r_bind (plain_add acc b) (\<lambda>acc. sum_u32 acc bs)"

definition max_u32 :: "u32 list \<Rightarrow> u32" where
  "max_u32 bs = fold max bs 0"

text \<open>\<open>morton_dims\<close> is the loop over the dimensions for one bit position \<open>b\<close>, \<open>morton_loop\<close> the loop over the
  bit positions.\<close>

fun morton_dims :: "u32 \<Rightarrow> u32 \<Rightarrow> nat \<Rightarrow> u64 list \<Rightarrow> u32 list \<Rightarrow> u64 \<Rightarrow> u64 core_result" where
  "morton_dims b rk d (i # is) (n # ns) code =
     (if b < n then
        r_bind (plain_shr i b) (\<lambda>s.
        r_bind (plain_mul b rk) (\<lambda>m.
        r_bind (plain_add m (word_of_nat d)) (\<lambda>shift.
        if shift \<ge> 64 then Err IndexArithmeticOverflow
        else
          r_bind (plain_shl (s AND 1) shift) (\<lambda>v.
          morton_dims b rk (d + 1) is ns (code OR v)))))
      else morton_dims b rk (d + 1) is ns code)"
| "morton_dims b rk d _ _ code = Ok code"

function morton_loop :: "nat \<Rightarrow> nat \<Rightarrow> u64 list \<Rightarrow> u32 list \<Rightarrow> u64 \<Rightarrow> u64 core_result" where
  "morton_loop b mx idx ns code =
     (if b < mx then
        r_bind (morton_dims (word_of_nat b) (word_of_nat (length idx)) 0 idx ns code)
          (\<lambda>code. morton_loop (b + 1) mx idx ns code)
      else Ok code)"
  by pat_completeness auto

termination
  by (relation "measure (\<lambda>(b, mx, idx, ns, code). mx - b)") auto

declare morton_loop.simps [simp del]

definition morton_element_offset :: "morton_layout \<Rightarrow> u64 list \<Rightarrow> shape \<Rightarrow> u64 core_result" where
  "morton_element_offset l idx sh =
     r_bind (validate_index idx sh) (\<lambda>_.
     if length (morton_bits l) \<noteq> rank sh
     then Err (IndexRankMismatch (length (morton_bits l)) (rank sh))
     else
       r_bind (sum_u32 0 (morton_bits l)) (\<lambda>total_bits.
       if total_bits > 64 then Err IndexArithmeticOverflow
       else morton_loop 0 (unat (max_u32 (morton_bits l))) idx (morton_bits l) 0))"

section \<open>Morton codes bit by bit\<close>

lemma ex_less_Suc: "(\<exists>k < Suc n. P k) \<longleftrightarrow> P 0 \<or> (\<exists>k < n. P (Suc k))"
  by (rule Ex_less_Suc2)

lemma all_less_Suc: "(\<forall>k < Suc n. P k) \<longleftrightarrow> P 0 \<and> (\<forall>k < n. P (Suc k))"
  by (rule All_less_Suc2)

lemma bit_push_bit_u64: "bit (push_bit n y :: u64) p \<longleftrightarrow> p < 64 \<and> n \<le> p \<and> bit y (p - n)"
  by (simp add: bit_push_bit_iff conj_ac)

lemma bit_and_1_u64: "bit ((x :: u64) AND 1) m \<longleftrightarrow> m = 0 \<and> bit x 0"
  by (auto simp: bit_simps)

lemma shifted_bit:
  "n < 64 \<Longrightarrow> bit (push_bit n (drop_bit b x AND 1) :: u64) p \<longleftrightarrow> p = n \<and> bit x b"
  unfolding bit_push_bit_u64 bit_and_1_u64 bit_drop_bit_eq by auto

text \<open>One bit position \<open>b\<close>: the loop succeeds exactly when all its target positions are below 64, and
  it sets those positions from the bits \<open>b\<close> of the coordinates.\<close>

lemma morton_dims_spec:
  assumes "unat b < 64" and "unat b * unat rk + d + length is < 2 ^ 32" and "length ns = length is"
  shows "morton_dims b rk d is ns code \<noteq> Panic \<and>
    (if \<forall>k < length is. b < ns ! k \<longrightarrow> unat b * unat rk + d + k < 64
     then \<exists>c. morton_dims b rk d is ns code = Ok c \<and>
       (\<forall>p. bit c p \<longleftrightarrow> bit code p \<or>
          (\<exists>k < length is. b < ns ! k \<and> p = unat b * unat rk + d + k \<and> bit (is ! k) (unat b)))
     else morton_dims b rk d is ns code = Err IndexArithmeticOverflow)"
  using assms
proof (induction b rk d "is" ns code rule: morton_dims.induct)
  case (1 b rk d i "is" n ns code)
  let ?s = "unat b * unat rk + d"
  have m: "plain_mul b rk = (Ok (b * rk) :: u32 core_result)" "unat (b * rk) = unat b * unat rk"
    using "1.prems"(2) by (simp_all add: plain_mul_eq unat_word_ariths)
  have a: "plain_add (b * rk) (word_of_nat d) = (Ok (b * rk + word_of_nat d) :: u32 core_result)"
    "unat (b * rk + word_of_nat d :: u32) = ?s"
  proof -
    have d: "unat (word_of_nat d :: u32) = d" using "1.prems"(2) by (simp add: unat_of_nat take_bit_nat_eq_self)
    show "unat (b * rk + word_of_nat d :: u32) = ?s" using "1.prems"(2) m(2) d by (simp add: unat_word_ariths(1))
    show "plain_add (b * rk) (word_of_nat d) = (Ok (b * rk + word_of_nat d) :: u32 core_result)"
      using "1.prems"(2) m(2) d by (simp add: plain_add_def checked_add_def)
  qed
  have suc: "unat b * unat rk + (d + 1) + k = Suc (?s + k)" for k by simp
  show ?case
  proof (cases "b < n")
    case False
    then have step: "morton_dims b rk d (i # is) (n # ns) code = morton_dims b rk (d + 1) is ns code" by simp
    show ?thesis
      using "1.IH"(2) [OF False "1.prems"(1), unfolded suc] "1.prems" False
      unfolding step list.size(4) One_nat_def add_0_right add_Suc_right ex_less_Suc all_less_Suc nth_Cons_0 nth_Cons_Suc
      by simp
  next
    case True
    show ?thesis
    proof (cases "?s < 64")
      case False
      then have "b * rk + word_of_nat d \<ge> 64" using a(2) by (simp add: word_le_nat_alt)
      then have "morton_dims b rk d (i # is) (n # ns) code = Err IndexArithmeticOverflow"
        using True m(1) a(1) "1.prems"(1) by (simp add: plain_shr_def)
      moreover have "\<not> (\<forall>k < length (i # is). b < (n # ns) ! k \<longrightarrow> ?s + k < 64)"
        using True False by (auto intro!: exI [of _ 0])
      ultimately show ?thesis by (simp only: if_False) simp
    next
      case s: True
      define v where "v = push_bit ?s (drop_bit (unat b) i AND 1)"
      have v: "bit v p \<longleftrightarrow> p = ?s \<and> bit i (unat b)" for p using shifted_bit [OF s] by (simp only: v_def)
      have lt: "\<not> b * rk + word_of_nat d \<ge> 64" using a(2) s by (simp add: word_le_nat_alt)
      have sh: "plain_shl (drop_bit (unat b) i AND 1) (b * rk + word_of_nat d) = (Ok v :: u64 core_result)"
        using s by (simp only: plain_shl_def checked_shl_def a(2) v_def) simp
      have shr: "plain_shr i b = Ok (drop_bit (unat b) i)" using "1.prems"(1) by (simp add: plain_shr_def)
      have step: "morton_dims b rk d (i # is) (n # ns) code = morton_dims b rk (d + 1) is ns (code OR v)"
        using True m(1) a(1) sh lt shr by simp
      show ?thesis
        using "1.IH"(1) [OF True shr m(1) a(1) lt sh "1.prems"(1), unfolded suc] "1.prems" True s
        unfolding step list.size(4) One_nat_def add_0_right add_Suc_right ex_less_Suc all_less_Suc nth_Cons_0 nth_Cons_Suc
        by (auto simp: bit_or_iff v)
    qed
  qed
qed simp_all

text \<open>Every bit of every coordinate has a target position below 64.\<close>

definition morton_fits :: "u32 list \<Rightarrow> bool" where
  "morton_fits ns \<longleftrightarrow> (\<forall>k < length ns. \<forall>b < unat (ns ! k). b * length ns + k < 64)"

lemma ex_from_step:
  "b < mx \<Longrightarrow> (\<exists>b' k. b \<le> b' \<and> b' < mx \<and> Q b' k) \<longleftrightarrow> (\<exists>k. Q b k) \<or> (\<exists>b' k. b + 1 \<le> b' \<and> b' < mx \<and> Q b' k)"
  for b mx :: nat
  using le_eq_less_or_eq [of b] by (simp only: Suc_eq_plus1 [symmetric] Suc_le_eq) blast

lemma morton_loop_spec:
  assumes "mx \<le> 64" and "length idx \<le> 64" and "length ns = length idx"
  shows "morton_loop b mx idx ns code \<noteq> Panic \<and>
    (if \<forall>b' k. b \<le> b' \<and> b' < mx \<and> k < length idx \<and> b' < unat (ns ! k) \<longrightarrow> b' * length idx + k < 64
     then \<exists>c. morton_loop b mx idx ns code = Ok c \<and>
       (\<forall>p. bit c p \<longleftrightarrow> bit code p \<or>
          (\<exists>b' k. b \<le> b' \<and> b' < mx \<and> k < length idx \<and> b' < unat (ns ! k) \<and>
             p = b' * length idx + k \<and> bit (idx ! k) b'))
     else morton_loop b mx idx ns code = Err IndexArithmeticOverflow)"
  using assms
proof (induction b mx idx ns code rule: morton_loop.induct)
  case (1 b mx idx ns code)
  let ?b = "word_of_nat b :: u32" and ?rk = "word_of_nat (length idx) :: u32"
  show ?case
  proof (cases "b < mx")
    case False
    then have "morton_loop b mx idx ns code = Ok code" by (simp add: morton_loop.simps [of b])
    then show ?thesis using False by auto
  next
    case True
    have ub: "unat ?b = b" using True "1.prems"(1) by (simp add: unat_of_nat take_bit_nat_eq_self)
    have ur: "unat ?rk = length idx" using "1.prems"(2) by (simp add: unat_of_nat take_bit_nat_eq_self)
    have "b * length idx \<le> 64 * 64" using True "1.prems"(1,2) by (intro mult_le_mono) simp_all
    then have small: "b * length idx + length idx < 2 ^ 32" using "1.prems"(2) by simp
    have dims: "morton_dims ?b ?rk 0 idx ns code \<noteq> Panic \<and>
      (if \<forall>k < length idx. b < unat (ns ! k) \<longrightarrow> b * length idx + k < 64
       then \<exists>c. morton_dims ?b ?rk 0 idx ns code = Ok c \<and>
         (\<forall>p. bit c p \<longleftrightarrow> bit code p \<or>
            (\<exists>k < length idx. b < unat (ns ! k) \<and> p = b * length idx + k \<and> bit (idx ! k) b))
       else morton_dims ?b ?rk 0 idx ns code = Err IndexArithmeticOverflow)"
      by (rule morton_dims_spec [of ?b ?rk 0 idx ns code, unfolded ub ur word_less_nat_alt add_0_right])
        (use True "1.prems" small in simp_all)
    have split: "(b \<le> b' \<and> b' < mx) \<longleftrightarrow> b' = b \<or> (b + 1 \<le> b' \<and> b' < mx)" for b' using True by auto
    show ?thesis
    proof (cases "\<forall>k < length idx. b < unat (ns ! k) \<longrightarrow> b * length idx + k < 64")
      case False
      then have "morton_dims ?b ?rk 0 idx ns code = Err IndexArithmeticOverflow"
        using dims [unfolded if_not_P [OF False]] by blast
      then have "morton_loop b mx idx ns code = Err IndexArithmeticOverflow"
        using True by (simp add: morton_loop.simps [of b])
      then show ?thesis using False True by auto
    next
      case fits: True
      then obtain c where c: "morton_dims ?b ?rk 0 idx ns code = Ok c"
        "\<And>p. bit c p \<longleftrightarrow> bit code p \<or>
           (\<exists>k < length idx. b < unat (ns ! k) \<and> p = b * length idx + k \<and> bit (idx ! k) b)"
        using dims [unfolded if_P [OF fits]] by blast
      have step: "morton_loop b mx idx ns code = morton_loop (b + 1) mx idx ns c"
        using True c(1) by (simp add: morton_loop.simps [of b])
      note IH = "1.IH" [OF True c(1) "1.prems"]
      have cond: "(\<forall>b' k. b \<le> b' \<and> b' < mx \<and> k < length idx \<and> b' < unat (ns ! k) \<longrightarrow> b' * length idx + k < 64) \<longleftrightarrow>
          (\<forall>b' k. b + 1 \<le> b' \<and> b' < mx \<and> k < length idx \<and> b' < unat (ns ! k) \<longrightarrow> b' * length idx + k < 64)"
        using split fits by (metis (no_types, lifting))
      have pos: "(\<exists>b' k. b \<le> b' \<and> b' < mx \<and> k < length idx \<and> b' < unat (ns ! k) \<and> p = b' * length idx + k \<and> bit (idx ! k) b') \<longleftrightarrow>
          (\<exists>k < length idx. b < unat (ns ! k) \<and> p = b * length idx + k \<and> bit (idx ! k) b) \<or>
          (\<exists>b' k. b + 1 \<le> b' \<and> b' < mx \<and> k < length idx \<and> b' < unat (ns ! k) \<and> p = b' * length idx + k \<and> bit (idx ! k) b')" for p
        by (rule ex_from_step [OF True])
      show ?thesis
        using IH unfolding step cond pos c(2) disj_assoc by assumption
    qed
  qed
qed

lemma sum_u32_spec:
  "sum_u32 acc bs =
    (if unat acc + sum_list (map unat bs) < 2 ^ 32 then Ok (word_of_nat (unat acc + sum_list (map unat bs))) else Panic)"
proof (induction acc bs rule: sum_u32.induct)
  case (1 acc)
  then show ?case using unsigned_less [of acc, where 'a = nat] by simp
next
  case (2 acc b bs)
  show ?case
  proof (cases "unat acc + unat b < 2 ^ 32")
    case True
    then have "plain_add acc b = (Ok (acc + b) :: u32 core_result)" "unat (acc + b) = unat acc + unat b"
      by (simp_all add: plain_add_def checked_add_def unat_word_ariths)
    with 2 show ?thesis by (simp add: add.assoc)
  next
    case False
    then show ?thesis by (simp add: plain_add_def checked_add_def)
  qed
qed

lemma fold_max_ge: "a \<le> fold max ns a" for a :: u32
proof (induction ns arbitrary: a)
  case (Cons n ns)
  have "a \<le> max n a" by simp
  also have "\<dots> \<le> fold max ns (max n a)" by (rule Cons)
  finally show ?case by simp
qed simp

lemma fold_max_upper: "n \<in> set ns \<Longrightarrow> n \<le> fold max ns a" for a :: u32
proof (induction ns arbitrary: a)
  case (Cons m ns)
  show ?case
  proof (cases "n = m")
    case True
    have "n \<le> max m a" using True by simp
    also have "\<dots> \<le> fold max ns (max m a)" by (rule fold_max_ge)
    finally show ?thesis by simp
  next
    case False
    then show ?thesis using Cons by simp
  qed
qed simp

lemma fold_max_sum: "unat (fold max ns a) \<le> unat a + sum_list (map unat ns)" for a :: u32
proof (induction ns arbitrary: a)
  case (Cons n ns)
  have "unat (max n a) \<le> unat n + unat a" by (simp add: max_def)
  with Cons [of "max n a"] show ?case by simp
qed simp

section \<open>Morton addressing\<close>

text \<open>The shapes a Morton layout supports: static, each dimension within its bits, all positions
  below 64.\<close>

definition morton_supports :: "morton_layout \<Rightarrow> shape \<Rightarrow> bool" where
  "morton_supports l sh \<longleftrightarrow>
     length (morton_bits l) = length sh \<and> length sh \<le> 64 \<and> sum_list (map unat (morton_bits l)) \<le> 64 \<and>
     morton_fits (morton_bits l) \<and> (\<forall>k < length sh. unat (sh ! k) \<le> 2 ^ unat (morton_bits l ! k))"

lemma morton_offset_spec:
  assumes v: "valid_index idx sh" and len: "length (morton_bits l) = length sh" "length sh \<le> 64"
    and tot: "sum_list (map unat (morton_bits l)) \<le> 64"
  shows "if morton_fits (morton_bits l)
    then \<exists>v. morton_element_offset l idx sh = Ok v \<and>
      (\<forall>p. bit v p \<longleftrightarrow> (\<exists>b k. k < length sh \<and> b < unat (morton_bits l ! k) \<and> p = b * length sh + k \<and> bit (idx ! k) b))
    else morton_element_offset l idx sh = Err IndexArithmeticOverflow"
proof -
  let ?ns = "morton_bits l" and ?mx = "unat (max_u32 (morton_bits l))"
  have li: "length idx = length sh" using v by (rule valid_index_length)
  have mx: "?mx \<le> 64" using fold_max_sum [of ?ns 0] tot by (simp add: max_u32_def)
  have below: "b < ?mx" if "k < length sh" "b < unat (?ns ! k)" for b k
  proof -
    have "?ns ! k \<le> max_u32 ?ns" using that(1) len(1) by (simp add: max_u32_def fold_max_upper)
    then show ?thesis using that(2) by (simp add: word_le_nat_alt)
  qed
  have eq: "morton_element_offset l idx sh = morton_loop 0 ?mx idx ?ns 0"
    using validate_index_Ok [THEN iffD2, OF v] len(1) tot
    by (simp add: morton_element_offset_def sum_u32_spec word_less_nat_alt unat_of_nat take_bit_nat_eq_self)
  have fits: "(\<forall>b' k. 0 \<le> b' \<and> b' < ?mx \<and> k < length idx \<and> b' < unat (?ns ! k) \<longrightarrow> b' * length idx + k < 64)
      \<longleftrightarrow> morton_fits ?ns"
    using below li len(1) by (auto simp: morton_fits_def)
  have pos: "(\<exists>b' k. 0 \<le> b' \<and> b' < ?mx \<and> k < length idx \<and> b' < unat (?ns ! k) \<and> p = b' * length idx + k \<and> bit (idx ! k) b')
      \<longleftrightarrow> (\<exists>b k. k < length sh \<and> b < unat (?ns ! k) \<and> p = b * length sh + k \<and> bit (idx ! k) b)" for p
    using below li by auto
  show ?thesis
    using morton_loop_spec [of ?mx idx ?ns 0 0, unfolded fits pos] mx li len
    unfolding eq by (cases "morton_fits ?ns") simp_all
qed

text \<open>The bits of a code are the bits of the coordinates, each at its own position.\<close>

lemma morton_offset_bits:
  assumes "valid_index idx sh" and "length (morton_bits l) = length sh" and "length sh \<le> 64"
    and "sum_list (map unat (morton_bits l)) \<le> 64" and "morton_fits (morton_bits l)"
  obtains v where "morton_element_offset l idx sh = Ok v"
    "\<And>b k. k < length sh \<Longrightarrow> bit v (b * length sh + k) \<longleftrightarrow> b < unat (morton_bits l ! k) \<and> bit (idx ! k) b"
    "\<And>p. bit v p \<Longrightarrow> p < length sh * unat (max_u32 (morton_bits l))"
proof -
  obtain v where v: "morton_element_offset l idx sh = Ok v"
    "\<And>p. bit v p \<longleftrightarrow> (\<exists>b k. k < length sh \<and> b < unat (morton_bits l ! k) \<and> p = b * length sh + k \<and> bit (idx ! k) b)"
    using morton_offset_spec [OF assms(1-4), unfolded if_P [OF assms(5)]] by blast
  show ?thesis
  proof (rule that [OF v(1)])
    fix b k assume k: "k < length sh"
    show "bit v (b * length sh + k) \<longleftrightarrow> b < unat (morton_bits l ! k) \<and> bit (idx ! k) b"
      unfolding v(2) using k quot_rem_unique [of b "length sh" k] by blast
  next
    fix p assume "bit v p"
    then obtain b k where bk: "k < length sh" "b < unat (morton_bits l ! k)" "p = b * length sh + k"
      unfolding v(2) by blast
    have "morton_bits l ! k \<le> max_u32 (morton_bits l)"
      using bk(1) assms(2) by (simp add: max_u32_def fold_max_upper)
    then have "b + 1 \<le> unat (max_u32 (morton_bits l))" using bk(2) by (simp add: word_le_nat_alt)
    then have "(b + 1) * length sh \<le> unat (max_u32 (morton_bits l)) * length sh" by (rule mult_le_mono1)
    then show "p < length sh * unat (max_u32 (morton_bits l))" using bk(1,3) by (simp add: mult.commute)
  qed
qed

lemma bits_bound_unat: "(\<And>p. bit (v :: u64) p \<Longrightarrow> p < n) \<Longrightarrow> unat v < 2 ^ n"
proof -
  assume b: "\<And>p. bit v p \<Longrightarrow> p < n"
  have "take_bit n v = v" by (rule bit_eqI) (use b in \<open>auto simp: bit_take_bit_iff\<close>)
  then have "take_bit n (unat v) = unat v" by (metis unsigned_take_bit_eq)
  then show ?thesis by (simp add: take_bit_nat_eq_self_iff)
qed

lemma unat_bit_below: "unat (x :: u64) < 2 ^ n \<Longrightarrow> bit x b \<Longrightarrow> b < n"
proof (rule ccontr)
  assume x: "unat x < 2 ^ n" "bit x b" "\<not> b < n"
  then have "bit (unat x) b" by (simp add: bit_unsigned_iff)
  moreover have "take_bit n (unat x) = unat x" using x(1) by (simp add: take_bit_nat_eq_self_iff)
  ultimately show False using x(3) by (metis bit_take_bit_iff)
qed

interpretation morton: element_address "morton_element_offset l" "morton_supports l"
  "\<lambda>sh. 2 ^ (length sh * unat (max_u32 (morton_bits l)))" for l
proof
  fix sh idx assume s: "morton_supports l sh" "valid_index idx sh"
  show "\<exists>v. morton_element_offset l idx sh = Ok v \<and> unat v < 2 ^ (length sh * unat (max_u32 (morton_bits l)))"
    by (rule morton_offset_bits [OF s(2), of l])
      (use s(1) bits_bound_unat in \<open>auto simp: morton_supports_def\<close>)
next
  fix sh i j v
  assume s: "morton_supports l sh" and iv: "morton_element_offset l i sh = Ok v" and jv: "morton_element_offset l j sh = Ok v"
  have ij: "valid_index i sh" "valid_index j sh"
    using iv jv validate_index_Ok by (auto simp: morton_element_offset_def r_bind_Ok_iff)
  then have len: "length i = length sh" "length j = length sh" using valid_index_length by blast+
  note sup = s [unfolded morton_supports_def]
  have bits: "bit v (b * length sh + k) \<longleftrightarrow> b < unat (morton_bits l ! k) \<and> bit (x ! k) b"
    if "valid_index x sh" "morton_element_offset l x sh = Ok v" "k < length sh" for x b k
    by (rule morton_offset_bits [OF that(1), of l]) (use sup that in auto)
  have low: "unat (x ! k) < 2 ^ unat (morton_bits l ! k)" if "valid_index x sh" "k < length sh" for x k
  proof -
    have "x ! k < sh ! k" using that by (auto simp: valid_index_def list_all2_conv_all_nth)
    moreover have "unat (sh ! k) \<le> 2 ^ unat (morton_bits l ! k)" using sup that(2) by blast
    ultimately show ?thesis unfolding word_less_nat_alt by linarith
  qed
  show "i = j"
  proof (rule nth_equalityI)
    fix k assume "k < length i"
    then have k: "k < length sh" using len by simp
    show "i ! k = j ! k"
    proof (rule bit_word_eqI)
      fix b
      show "bit (i ! k) b \<longleftrightarrow> bit (j ! k) b"
        using bits [OF ij(1) iv k] bits [OF ij(2) jv k] unat_bit_below [OF low [OF ij(1) k]]
          unat_bit_below [OF low [OF ij(2) k]] by blast
    qed
  qed (use len in simp)
next
  fix idx sh v assume "morton_element_offset l idx sh = Ok v"
  then show "valid_index idx sh"
    using validate_index_Ok by (auto simp: morton_element_offset_def r_bind_Ok_iff)
qed

section \<open>Properties\<close>

text \<open>
  C19. Morton offsets, for a valid index of a rank up to 64 and at most 64 bits in all: if every bit of
  every coordinate has a target position below 64, the offset has bit \<open>b\<close> of coordinate \<open>k\<close> at position
  \<open>b * rank + k\<close> and no other bit; otherwise the code reports an overflow.
\<close>

theorem morton_offset_exact:
  assumes "valid_index idx sh" and "length (morton_bits l) = length sh" and "length sh \<le> 64"
    and "sum_list (map unat (morton_bits l)) \<le> 64"
  shows "if \<forall>k < length (morton_bits l). \<forall>b < unat (morton_bits l ! k). b * length (morton_bits l) + k < 64
    then \<exists>v. morton_element_offset l idx sh = Ok v \<and>
      (\<forall>p. bit v p \<longleftrightarrow> (\<exists>b k. k < length sh \<and> b < unat (morton_bits l ! k) \<and> p = b * length sh + k \<and> bit (idx ! k) b))
    else morton_element_offset l idx sh = Err IndexArithmeticOverflow"
  using morton_offset_spec [OF assms] unfolding morton_fits_def by assumption

theorem morton_offset_exact_witness:
  "\<exists>v. morton_element_offset \<lparr>morton_bits = [2, 2]\<rparr> [2, 3] [4, 4] = Ok v \<and>
    (\<forall>p. bit v p \<longleftrightarrow> (\<exists>b k. k < length [4, 4 :: u64] \<and> b < unat ([2, 2 :: u32] ! k) \<and>
       p = b * length [4, 4 :: u64] + k \<and> bit ([2, 3 :: u64] ! k) b))"
proof -
  let ?l = "\<lparr>morton_bits = [2, 2]\<rparr>"
  have fits: "\<forall>k < length (morton_bits ?l). \<forall>b < unat (morton_bits ?l ! k). b * length (morton_bits ?l) + k < 64"
    by (simp add: All_less_Suc2)
  show ?thesis
    using morton_offset_exact [of "[2, 3]" "[4, 4]" ?l, unfolded if_P [OF fits]]
    by (simp add: valid_index_def DYNAMIC_def word_less_nat_alt)
qed

text \<open>
  Morton addressing of a supported shape has no collisions: different valid indices have different
  offsets, below two to the rank times the largest number of bits.
\<close>

theorem morton_offsets_distinct:
  assumes "morton_supports l sh" and "valid_index i sh" and "valid_index j sh" and "i \<noteq> j"
  shows "\<exists>u v. morton_element_offset l i sh = Ok u \<and> morton_element_offset l j sh = Ok v \<and> u \<noteq> v \<and>
    unat u < 2 ^ (length sh * unat (max_u32 (morton_bits l))) \<and>
    unat v < 2 ^ (length sh * unat (max_u32 (morton_bits l)))"
  using morton.distinct_offsets [OF assms] morton.offset_bound [OF assms(1)] by blast

lemma sample_morton_supports: "morton_supports \<lparr>morton_bits = [2, 2]\<rparr> [4, 4]"
  by (simp add: morton_supports_def morton_fits_def All_less_Suc2)

theorem morton_offsets_distinct_witness:
  "\<exists>u v. morton_element_offset \<lparr>morton_bits = [2, 2]\<rparr> [2, 3] [4, 4] = Ok u \<and>
    morton_element_offset \<lparr>morton_bits = [2, 2]\<rparr> [3, 2] [4, 4] = Ok v \<and> u \<noteq> v \<and>
    unat u < 2 ^ (2 * 2) \<and> unat v < 2 ^ (2 * 2)"
  using morton_offsets_distinct [OF sample_morton_supports, of "[2, 3]" "[3, 2]"]
  by (simp add: valid_index_def DYNAMIC_def word_less_nat_alt max_u32_def)

text \<open>
  With unequal bit counts an offset can exceed the buffer size of two to the sum of the bits: with
  1 and 3 bits the element \<open>(0, 4)\<close> of a 2 by 8 tensor has offset 32, where that size is 16.
\<close>

theorem morton_unequal_bits_offset:
  "\<exists>v. morton_element_offset \<lparr>morton_bits = [1, 3]\<rparr> [0, 4] [2, 8] = Ok v \<and>
     2 ^ sum_list (map unat [1, 3 :: u32]) < unat v"
proof -
  let ?l = "\<lparr>morton_bits = [1, 3]\<rparr>" and ?i = "[0, 4] :: u64 list" and ?sh = "[2, 8] :: u64 list"
  have fits: "morton_fits (morton_bits ?l)"
    by (auto simp: morton_fits_def less_Suc_eq)
  obtain v where v: "morton_element_offset ?l ?i ?sh = Ok v"
    "\<And>b k. k < length ?sh \<Longrightarrow> bit v (b * length ?sh + k) \<longleftrightarrow> b < unat (morton_bits ?l ! k) \<and> bit (?i ! k) b"
    by (rule morton_offset_bits [of ?i ?sh ?l])
      (use fits in \<open>simp_all add: valid_index_def DYNAMIC_def word_less_nat_alt\<close>)
  have "bit v (2 * length ?sh + 1)" using v(2) [of 1 2] by (simp add: bit_numeral_rec)
  then have "bit v 5" by simp
  then have "\<not> unat v < 2 ^ 5" using unat_bit_below [of v 5 5] by blast
  then show ?thesis using v(1) by auto
qed

end
