(* ===== verification/Hilbert_Curve.thy ===== *)
theory Hilbert_Curve
  imports Morton_Curve
begin

text \<open>
  Addressing along the Hilbert curve (\<open>hurray-core/src/layout/addressing/hilbert.rs\<close>): Skilling's
  transposition algorithm on the coordinate vector, and the packing of the transposed bits. Each
  phase of the algorithm is shown to be invertible, so that the index has no collisions.
\<close>

section \<open>Hilbert\<close>

text \<open>The body of the inner loop of the first phase, for coordinate \<open>i\<close>; the mask is \<open>q - 1\<close>.\<close>

definition hilbert_step :: "u64 \<Rightarrow> nat \<Rightarrow> u64 list \<Rightarrow> u64 list" where
  "hilbert_step q i x =
     (if x ! i AND q \<noteq> 0 then x[0 := x ! 0 XOR (q - 1)]
      else
        let t = (x ! 0 XOR x ! i) AND (q - 1);
            x = x[0 := x ! 0 XOR t]
        in x[i := x ! i XOR t])"

function hilbert_inner :: "u64 \<Rightarrow> nat \<Rightarrow> nat \<Rightarrow> u64 list \<Rightarrow> u64 list core_result" where
  "hilbert_inner q r i x =
     (if i < r then
        (if i < length x then hilbert_inner q r (i + 1) (hilbert_step q i x) else Panic)
      else Ok x)"
  by pat_completeness auto

termination
  by (relation "measure (\<lambda>(q, r, i, x). r - i)") auto

declare hilbert_inner.simps [simp del]

text \<open>The three \<open>while\<close> and \<open>for\<close> loops of \<open>CoordsToHilbert\<close>: undo excess work, Gray encode, and the
  correction \<open>t\<close> read off the last coordinate.\<close>

function hilbert_undo :: "u64 \<Rightarrow> nat \<Rightarrow> u64 list \<Rightarrow> u64 list core_result" where
  "hilbert_undo q r x =
     (if q > 1 then r_bind (hilbert_inner q r 0 x) (\<lambda>x. hilbert_undo (drop_bit 1 q) r x)
      else Ok x)"
  by pat_completeness auto

termination
proof (relation "measure (\<lambda>(q, r, x). unat q)")
  fix q :: u64 and r :: nat and x x' :: "u64 list"
  assume "q > 1"
  then have "unat q div 2 < unat q" by (intro div_less_dividend) (auto simp: word_less_nat_alt)
  then show "((drop_bit 1 q, r, x'), q, r, x) \<in> measure (\<lambda>(q, r, x). unat q)"
    by (simp add: drop_bit_eq_div unat_div)
qed simp

declare hilbert_undo.simps [simp del]

function hilbert_gray :: "nat \<Rightarrow> nat \<Rightarrow> u64 list \<Rightarrow> u64 list core_result" where
  "hilbert_gray i r x =
     (if i < r then
        (if i < length x then hilbert_gray (i + 1) r (x[i := x ! i XOR x ! (i - 1)]) else Panic)
      else Ok x)"
  by pat_completeness auto

termination
  by (relation "measure (\<lambda>(i, r, x). r - i)") auto

declare hilbert_gray.simps [simp del]

function hilbert_correction :: "u64 \<Rightarrow> nat \<Rightarrow> u64 list \<Rightarrow> u64 \<Rightarrow> u64 core_result" where
  "hilbert_correction q r x t =
     (if q > 1 then
        r_bind (if r = 0 then Panic else index_at x (r - 1)) (\<lambda>v.
        hilbert_correction (drop_bit 1 q) r x (if v AND q \<noteq> 0 then t XOR (q - 1) else t))
      else Ok t)"
  by pat_completeness auto

termination
proof (relation "measure (\<lambda>(q, r, x, t). unat q)")
  fix q t v :: u64 and r :: nat and x :: "u64 list"
  assume "q > 1"
  then have "unat q div 2 < unat q" by (intro div_less_dividend) (auto simp: word_less_nat_alt)
  then show "((drop_bit 1 q, r, x, if v AND q \<noteq> 0 then t XOR (q - 1) else t), q, r, x, t)
      \<in> measure (\<lambda>(q, r, x, t). unat q)"
    by (simp add: drop_bit_eq_div unat_div)
qed simp

declare hilbert_correction.simps [simp del]

text \<open>Bit packing: \<open>hilbert_pack_dims\<close> for one bit position \<open>b\<close>, over at most \<open>r\<close> coordinates.\<close>

fun hilbert_pack_dims :: "nat \<Rightarrow> nat \<Rightarrow> nat \<Rightarrow> u64 list \<Rightarrow> u64 \<Rightarrow> u64 core_result" where
  "hilbert_pack_dims b r d [] h = Ok h"
| "hilbert_pack_dims b r d (xd # xs) h =
     (if d < r then
        (let shift = b * r + (r - 1 - d) in
         r_bind (plain_shr xd (word_of_nat b)) (\<lambda>v.
         if shift \<ge> 64 then Err IndexArithmeticOverflow
         else hilbert_pack_dims b r (d + 1) xs (h OR push_bit shift (v AND 1))))
      else Ok h)"

function hilbert_pack :: "nat \<Rightarrow> nat \<Rightarrow> nat \<Rightarrow> u64 list \<Rightarrow> u64 \<Rightarrow> u64 core_result" where
  "hilbert_pack b p r x h =
     (if b < p then r_bind (hilbert_pack_dims b r 0 x h) (\<lambda>h. hilbert_pack (b + 1) p r x h)
      else Ok h)"
  by pat_completeness auto

termination
  by (relation "measure (\<lambda>(b, p, r, x, h). p - b)") auto

declare hilbert_pack.simps [simp del]

definition hilbert_element_offset :: "hilbert_layout \<Rightarrow> u64 list \<Rightarrow> shape \<Rightarrow> u64 core_result" where
  "hilbert_element_offset l idx sh =
     r_bind (validate_index idx sh) (\<lambda>_.
     let r = unat (hilbert_rank l); p = unat (hilbert_order l) in
     if r * p > 64 then Err IndexArithmeticOverflow
     else
       r_bind (if p = 0 then Panic else plain_shl 1 (word_of_nat (p - 1))) (\<lambda>m.
       r_bind (hilbert_undo m r idx) (\<lambda>x.
       r_bind (hilbert_gray 1 r x) (\<lambda>x.
       r_bind (hilbert_correction m r x 0) (\<lambda>t.
       let x = map (\<lambda>v. v XOR t) (take r x) @ drop r x in
       hilbert_pack 0 p r x 0)))))"

section \<open>Each phase is invertible\<close>

lemma mask_bit: "m < 64 \<Longrightarrow> bit ((2 :: u64) ^ m - 1) j \<longleftrightarrow> j < m"
proof -
  assume m: "m < 64"
  have "(2 :: u64) ^ m - 1 = mask m" by (simp add: mask_eq_exp_minus_1)
  then show ?thesis using m by (auto simp: bit_mask_iff)
qed

lemma and_pow2: "(v :: u64) AND 2 ^ m \<noteq> 0 \<longleftrightarrow> bit v m"
  by (simp add: and_exp_eq_0_iff_not_bit)

lemma length_hilbert_step [simp]: "length (hilbert_step q i x) = length x"
  by (simp add: hilbert_step_def Let_def)

lemma xor_cancel: "(a XOR b) XOR b = (a :: u64)"
  by (simp add: xor.assoc)

text \<open>A step is an involution: it does not touch bit \<open>q\<close> of coordinate \<open>i\<close>, and exchanging or flipping
  the low bits twice restores them.\<close>

lemma hilbert_step_involution:
  assumes m: "m < 64" and i: "i < length x"
  shows "hilbert_step (2 ^ m) i (hilbert_step (2 ^ m) i x) = x"
proof -
  let ?q = "(2 :: u64) ^ m"
  have keep: "bit (v XOR (w AND (?q - 1))) m \<longleftrightarrow> bit v m" "bit (v XOR (?q - 1)) m \<longleftrightarrow> bit v m" for v w :: u64
    using mask_bit [OF m] by (auto simp: bit_xor_iff bit_and_iff)
  have len: "0 < length x" using i by auto
  show ?thesis
  proof (cases "bit (x ! i) m")
    case True
    then have s: "hilbert_step ?q i x = x[0 := x ! 0 XOR (?q - 1)]"
      by (simp add: hilbert_step_def and_pow2)
    have "bit (x[0 := x ! 0 XOR (?q - 1)] ! i) m" using True keep(2) len by (cases "i = 0") auto
    then show ?thesis unfolding s using len by (simp add: hilbert_step_def and_pow2 xor_cancel)
  next
    case False
    let ?t = "(x ! 0 XOR x ! i) AND (?q - 1)"
    show ?thesis
    proof (cases "i = 0")
      case True
      then have "hilbert_step ?q i x = x" using False by (simp add: hilbert_step_def and_pow2 Let_def)
      then show ?thesis by simp
    next
      case ne: False
      have s: "hilbert_step ?q i x = x[0 := x ! 0 XOR ?t, i := x ! i XOR ?t]"
        using False ne by (simp add: hilbert_step_def and_pow2 Let_def)
      let ?y = "x[0 := x ! 0 XOR ?t, i := x ! i XOR ?t]"
      have y: "?y ! 0 = x ! 0 XOR ?t" "?y ! i = x ! i XOR ?t" using ne len i by simp_all
      have "\<not> bit (?y ! i) m" unfolding y(2) keep(1) using False .
      moreover have "(?y ! 0 XOR ?y ! i) AND (?q - 1) = ?t"
        unfolding y by (simp add: xor.assoc xor.left_commute xor.commute)
      ultimately have "hilbert_step ?q i ?y = ?y[0 := ?y ! 0 XOR ?t, i := ?y ! i XOR ?t]"
        using ne by (simp add: hilbert_step_def and_pow2 Let_def)
      also have "\<dots> = ?y[0 := x ! 0, i := x ! i]" unfolding y by (simp only: xor_cancel)
      also have "\<dots> = x" using ne len i by (intro nth_equalityI) (auto simp: nth_list_update)
      finally show ?thesis using s by simp
    qed
  qed
qed

definition low_bits :: "nat \<Rightarrow> u64 list \<Rightarrow> bool" where
  "low_bits p x \<longleftrightarrow> (\<forall>v \<in> set x. \<forall>b. bit v b \<longrightarrow> b < p)"

lemma low_bits_update:
  "low_bits p x \<Longrightarrow> (\<And>b. bit v b \<Longrightarrow> b < p) \<Longrightarrow> low_bits p (x[i := v])"
  unfolding low_bits_def by (metis insertE set_update_subset_insert subsetD)

lemma low_bits_nth: "low_bits p x \<Longrightarrow> i < length x \<Longrightarrow> bit (x ! i) b \<Longrightarrow> b < p"
  by (auto simp: low_bits_def)

lemma low_bits_step:
  assumes "low_bits p x" and "i < length x" and "m < p" and "p \<le> 64"
  shows "low_bits p (hilbert_step (2 ^ m) i x)"
proof -
  let ?q = "(2 :: u64) ^ m"
  have mk: "bit (?q - 1) b \<Longrightarrow> b < p" for b using mask_bit [of m b] assms(3,4) by simp
  have x: "bit (x ! 0) b \<Longrightarrow> b < p" "bit (x ! i) b \<Longrightarrow> b < p" for b
    using low_bits_nth [OF assms(1), of 0] low_bits_nth [OF assms(1,2)] assms(2) by fastforce+
  show ?thesis
  proof (cases "bit (x ! i) m")
    case True
    then have s: "hilbert_step ?q i x = x[0 := x ! 0 XOR (?q - 1)]"
      by (simp add: hilbert_step_def and_pow2)
    show ?thesis unfolding s
      by (rule low_bits_update [OF assms(1)]) (use mk x(1) in \<open>auto simp: bit_xor_iff\<close>)
  next
    case False
    let ?t = "(x ! 0 XOR x ! i) AND (?q - 1)"
    let ?y = "x[0 := x ! 0 XOR ?t]"
    have t: "bit ?t b \<Longrightarrow> b < p" for b using mk by (auto simp: bit_and_iff)
    have s: "hilbert_step ?q i x = ?y[i := ?y ! i XOR ?t]"
      using False by (simp add: hilbert_step_def and_pow2 Let_def)
    have y: "low_bits p ?y" by (rule low_bits_update [OF assms(1)]) (use t x(1) in \<open>auto simp: bit_xor_iff\<close>)
    have yi: "bit (?y ! i) b \<Longrightarrow> b < p" for b by (rule low_bits_nth [OF y, of i]) (use assms(2) in simp_all)
    show ?thesis unfolding s
      by (rule low_bits_update [OF y]) (use t yi in \<open>auto simp: bit_xor_iff\<close>)
  qed
qed

text \<open>A phase on coordinate vectors of length \<open>r\<close>: total, keeping the length and the low bits, and
  injective. Phases compose.\<close>

definition phase :: "nat \<Rightarrow> nat \<Rightarrow> (u64 list \<Rightarrow> u64 list core_result) \<Rightarrow> bool" where
  "phase r p f \<longleftrightarrow>
     (\<forall>x. length x = r \<longrightarrow> (\<exists>y. f x = Ok y \<and> length y = r \<and> (low_bits p x \<longrightarrow> low_bits p y))) \<and>
     (\<forall>x y z. length x = r \<longrightarrow> length y = r \<longrightarrow> f x = Ok z \<longrightarrow> f y = Ok z \<longrightarrow> x = y)"

lemma phase_Ok: "phase r p Ok"
  by (simp add: phase_def)

lemma phase_total:
  assumes "phase r p f" and "length x = r"
  obtains y where "f x = Ok y" "length y = r" "low_bits p x \<Longrightarrow> low_bits p y"
  using assms unfolding phase_def by blast

lemma phase_inj:
  "phase r p f \<Longrightarrow> length x = r \<Longrightarrow> length y = r \<Longrightarrow> f x = Ok z \<Longrightarrow> f y = Ok z \<Longrightarrow> x = y"
  unfolding phase_def by blast

lemma phase_length:
  assumes "phase r p f" and "length x = r" and "f x = Ok y"
  shows "length y = r"
  using phase_total [OF assms(1,2)] assms(3) by fastforce

lemma phase_comp:
  assumes "phase r p f" and "phase r p g"
  shows "phase r p (\<lambda>x. r_bind (f x) g)"
proof -
  have "\<exists>z. r_bind (f x) g = Ok z \<and> length z = r \<and> (low_bits p x \<longrightarrow> low_bits p z)" if "length x = r" for x
  proof -
    obtain y where y: "f x = Ok y" "length y = r" "low_bits p x \<longrightarrow> low_bits p y"
      using assms(1) \<open>length x = r\<close> unfolding phase_def by blast
    obtain z where "g y = Ok z" "length z = r" "low_bits p y \<longrightarrow> low_bits p z"
      using assms(2) y(2) unfolding phase_def by blast
    with y show ?thesis by auto
  qed
  moreover have "x = y"
    if h: "length x = r" "length y = r" "r_bind (f x) g = Ok z" "r_bind (f y) g = Ok z" for x y z
  proof -
    obtain x' y' where xy: "f x = Ok x'" "g x' = Ok z" "f y = Ok y'" "g y' = Ok z"
      using h(3,4) by (auto simp: r_bind_Ok_iff)
    have "length x' = r" "length y' = r" using phase_length [OF assms(1)] h(1,2) xy(1,3) by blast+
    then have "x' = y'" using assms(2) xy(2,4) unfolding phase_def by blast
    then show ?thesis using assms(1) h(1,2) xy(1,3) unfolding phase_def by blast
  qed
  ultimately show ?thesis unfolding phase_def by blast
qed

lemma phase_pure:
  assumes "phase r p f"
    and "\<And>x. length x = r \<Longrightarrow> length (g x) = r \<and> (low_bits p x \<longrightarrow> low_bits p (g x))"
    and "\<And>x y. length x = r \<Longrightarrow> length y = r \<Longrightarrow> g x = g y \<Longrightarrow> x = y"
  shows "phase r p (\<lambda>x. f (g x))"
proof -
  have "phase r p (\<lambda>x. Ok (g x))" unfolding phase_def using assms(2,3) by blast
  from phase_comp [OF this assms(1)] show ?thesis by simp
qed

lemma phase_cong: "(\<And>x. length x = r \<Longrightarrow> f x = g x) \<Longrightarrow> phase r p g \<Longrightarrow> phase r p f"
  unfolding phase_def by simp

lemma hilbert_step_inj:
  "m < 64 \<Longrightarrow> i < length x \<Longrightarrow> length y = length x \<Longrightarrow> hilbert_step (2 ^ m) i x = hilbert_step (2 ^ m) i y \<Longrightarrow> x = y"
  by (metis hilbert_step_involution)

lemma phase_inner:
  "m < p \<Longrightarrow> p \<le> 64 \<Longrightarrow> i \<le> r \<Longrightarrow> phase r p (hilbert_inner (2 ^ m) r i)"
proof (induction "r - i" arbitrary: i)
  case 0
  then show ?case by (intro phase_cong [OF _ phase_Ok]) (simp add: hilbert_inner.simps [of _ _ i])
next
  case (Suc n)
  then have "phase r p (hilbert_inner (2 ^ m) r (i + 1))" by simp
  then have "phase r p (\<lambda>x. hilbert_inner (2 ^ m) r (i + 1) (hilbert_step (2 ^ m) i x))"
  proof (rule phase_pure)
    fix x :: "u64 list" assume "length x = r"
    then show "length (hilbert_step (2 ^ m) i x) = r \<and> (low_bits p x \<longrightarrow> low_bits p (hilbert_step (2 ^ m) i x))"
      using Suc.hyps(2) Suc.prems low_bits_step [of p x i m] by simp
  next
    fix x y :: "u64 list"
    assume "length x = r" "length y = r" "hilbert_step (2 ^ m) i x = hilbert_step (2 ^ m) i y"
    then show "x = y" using Suc.hyps(2) Suc.prems by (intro hilbert_step_inj [of m i x y]) simp_all
  qed
  moreover have "i < r" using Suc.hyps(2) by simp
  ultimately show ?case
    by (elim phase_cong [rotated]) (simp add: hilbert_inner.simps [of _ _ i])
qed

lemma pow2_gt_1: "m < 64 \<Longrightarrow> (1 :: u64) < 2 ^ m \<longleftrightarrow> 0 < m"
proof (cases m)
  case (Suc n)
  assume "m < 64"
  then have "(2 :: nat) ^ m < 2 ^ 64" by (intro power_strict_increasing) simp_all
  then have "unat (word_of_nat (2 ^ m) :: u64) = 2 ^ m"
    by (subst unat_of_nat) (use \<open>2 ^ m < 2 ^ 64\<close> in \<open>intro mod_less; simp\<close>)
  then have "unat ((2 :: u64) ^ m) = 2 ^ m" by simp
  moreover have "(1 :: nat) < 2 ^ m" by (rule one_less_power) (use Suc in simp_all)
  ultimately show ?thesis using Suc by (simp add: word_less_nat_alt)
qed simp

lemma drop_pow2: "Suc m < 64 \<Longrightarrow> drop_bit 1 ((2 :: u64) ^ Suc m) = 2 ^ m"
  by (rule bit_word_eqI) (auto simp: bit_simps)

lemma phase_undo: "m < p \<Longrightarrow> p \<le> 64 \<Longrightarrow> phase r p (hilbert_undo (2 ^ m) r)"
proof (induction m)
  case 0
  then show ?case by (intro phase_cong [OF _ phase_Ok]) (simp add: hilbert_undo.simps [of 1])
next
  case (Suc m)
  then have "phase r p (\<lambda>x. r_bind (hilbert_inner (2 ^ Suc m) r 0 x) (hilbert_undo (2 ^ m) r))"
    by (intro phase_comp phase_inner) simp_all
  moreover have "hilbert_undo (2 ^ Suc m) r x = r_bind (hilbert_inner (2 ^ Suc m) r 0 x) (hilbert_undo (2 ^ m) r)" for x
    using Suc.prems pow2_gt_1 [of "Suc m"] drop_pow2 [of m]
    by (subst hilbert_undo.simps) (simp del: power_Suc)
  ultimately show ?case by (simp del: power_Suc)
qed

lemma phase_gray: "1 \<le> i \<Longrightarrow> phase r p (hilbert_gray i r)"
proof (induction "r - i" arbitrary: i)
  case 0
  then show ?case by (intro phase_cong [OF _ phase_Ok]) (simp add: hilbert_gray.simps [of i])
next
  case (Suc n)
  let ?g = "\<lambda>x :: u64 list. x[i := x ! i XOR x ! (i - 1)]"
  have inv: "?g (?g x) = x" if "length x = r" for x
    using Suc(2,3) that by (simp add: xor_cancel)
  have "phase r p (hilbert_gray (i + 1) r)" using Suc by simp
  then have "phase r p (\<lambda>x. hilbert_gray (i + 1) r (?g x))"
  proof (rule phase_pure)
    show "length (?g x) = r \<and> (low_bits p x \<longrightarrow> low_bits p (?g x))" if "length x = r" for x
      using that Suc(2) low_bits_nth [of p x i] low_bits_nth [of p x "i - 1"]
      by (auto intro!: low_bits_update simp: bit_xor_iff)
    show "x = y" if "length x = r" "length y = r" "?g x = ?g y" for x y
      using inv [OF that(1)] inv [OF that(2)] that(3) by metis
  qed
  moreover have "i < r" using Suc.hyps(2) by simp
  ultimately show ?case
    by (elim phase_cong [rotated]) (simp add: hilbert_gray.simps [of i])
qed

section \<open>The correction\<close>

text \<open>The correction of the last coordinate as a pure function, from bit \<open>m\<close> down.\<close>

fun correction_from :: "nat \<Rightarrow> u64 \<Rightarrow> u64 \<Rightarrow> u64" where
  "correction_from 0 v t = t"
| "correction_from (Suc m) v t = correction_from m v (if bit v (Suc m) then t XOR (2 ^ Suc m - 1) else t)"

lemma hilbert_correction_Ok:
  "m < 64 \<Longrightarrow> 0 < r \<Longrightarrow> length x = r \<Longrightarrow>
   hilbert_correction (2 ^ m) r x t = Ok (correction_from m (x ! (r - 1)) t)"
proof (induction m arbitrary: t)
  case 0
  then show ?case by (simp add: hilbert_correction.simps [of 1])
next
  case (Suc m)
  have "hilbert_correction (2 ^ Suc m) r x t =
      hilbert_correction (2 ^ m) r x (if bit (x ! (r - 1)) (Suc m) then t XOR (2 ^ Suc m - 1) else t)"
    using Suc.prems pow2_gt_1 [of "Suc m"] drop_pow2 [of m]
    by (subst hilbert_correction.simps) (simp add: and_pow2 del: power_Suc)
  then show ?case using Suc by simp
qed

text \<open>Bit \<open>j\<close> of the correction only depends on the bits above \<open>j\<close>.\<close>

lemma correction_bit:
  assumes "m < 64" and "\<And>k. j < k \<Longrightarrow> bit v k \<longleftrightarrow> bit w k" and "bit t j \<longleftrightarrow> bit s j"
  shows "bit (correction_from m v t) j \<longleftrightarrow> bit (correction_from m w s) j"
  using assms
proof (induction m arbitrary: t s)
  case (Suc m)
  have "bit (if bit v (Suc m) then t XOR (2 ^ Suc m - 1) else t) j \<longleftrightarrow>
      bit (if bit w (Suc m) then s XOR (2 ^ Suc m - 1) else s) j"
    using Suc.prems mask_bit [of "Suc m" j] by (cases "j < Suc m") (auto simp: bit_xor_iff simp del: power_Suc)
  then show ?case using Suc by simp
qed simp

lemma correction_low:
  "m < p \<Longrightarrow> p \<le> 64 \<Longrightarrow> (\<And>b. bit t b \<Longrightarrow> b < p) \<Longrightarrow> bit (correction_from m v t) b \<Longrightarrow> b < p"
proof (induction m arbitrary: t)
  case (Suc m)
  have "c < p" if "bit (if bit v (Suc m) then t XOR (2 ^ Suc m - 1) else t) c" for c
    using that Suc.prems(1-3) mask_bit [of "Suc m" c] by (auto simp: bit_xor_iff simp del: power_Suc split: if_splits)
  then show ?case using Suc.IH [of "if bit v (Suc m) then t XOR (2 ^ Suc m - 1) else t"] Suc.prems(1,2,4)
    by (simp del: power_Suc)
qed simp

lemma correction_inj:
  assumes "m < 64" and "v XOR correction_from m v 0 = w XOR correction_from m w 0"
  shows "v = w"
proof (rule bit_word_eqI)
  have all: "bit v (63 - k) \<longleftrightarrow> bit w (63 - k)" for k
  proof (induction k rule: less_induct)
    case (less k)
    have above: "bit v b \<longleftrightarrow> bit w b" if "63 - k < b" for b
    proof (cases "b < 64")
      case True
      then have "63 - b < k" "63 - (63 - b) = b" using that by auto
      then show ?thesis using less.IH [of "63 - b"] by simp
    next
      case False
      then show ?thesis using bit_imp_le_length [of v b] bit_imp_le_length [of w b] by auto
    qed
    have "bit (correction_from m v 0) (63 - k) \<longleftrightarrow> bit (correction_from m w 0) (63 - k)"
      by (rule correction_bit [OF assms(1) above]) simp_all
    moreover have "bit (v XOR correction_from m v 0) (63 - k) \<longleftrightarrow> bit (w XOR correction_from m w 0) (63 - k)"
      using assms(2) by simp
    ultimately show ?case by (auto simp: bit_xor_iff)
  qed
  show "bit v b \<longleftrightarrow> bit w b" if "b < LENGTH(64)" for b
    using all [of "63 - b"] that by simp
qed

lemma phase_correct:
  assumes "m < p" and "p \<le> 64" and "0 < r"
  shows "phase r p (\<lambda>x. r_bind (hilbert_correction (2 ^ m) r x 0) (\<lambda>t. Ok (map (\<lambda>v. v XOR t) (take r x) @ drop r x)))"
proof -
  let ?t = "\<lambda>x. correction_from m (x ! (r - 1)) 0"
  let ?g = "\<lambda>x :: u64 list. map (\<lambda>v. v XOR ?t x) x"
  have m: "m < 64" using assms by simp
  have eq: "r_bind (hilbert_correction (2 ^ m) r x 0) (\<lambda>t. Ok (map (\<lambda>v. v XOR t) (take r x) @ drop r x)) = Ok (?g x)"
    if "length x = r" for x
    using hilbert_correction_Ok [OF m assms(3) that] that by simp
  have "phase r p (\<lambda>x. Ok (?g x))"
  proof (rule phase_pure [OF phase_Ok])
    fix x :: "u64 list" assume "length x = r"
    have "bit (?t x) b \<Longrightarrow> b < p" for b
      by (rule correction_low [OF assms(1,2), of 0]) simp_all
    then show "length (?g x) = r \<and> (low_bits p x \<longrightarrow> low_bits p (?g x))"
      using \<open>length x = r\<close> by (auto simp: low_bits_def bit_xor_iff)
  next
    fix x y :: "u64 list" assume l: "length x = r" "length y = r" and e: "?g x = ?g y"
    have "x ! (r - 1) XOR ?t x = y ! (r - 1) XOR ?t y"
      using arg_cong [OF e, of "\<lambda>z. z ! (r - 1)"] l assms(3) by simp
    then have "?t x = ?t y" using correction_inj [OF m] by metis
    then have "?g x = map (\<lambda>v. v XOR ?t x) y" using e by simp
    moreover have "inj (\<lambda>v. v XOR ?t x)" by (rule injI) (metis xor_cancel)
    ultimately show "x = y" by (simp add: inj_map_eq_map)
  qed
  then show ?thesis using eq by (intro phase_cong [OF eq]) simp_all
qed

section \<open>Packing\<close>

lemma hilbert_pack_dims_spec:
  assumes "b < p" and "r * p \<le> 64" and "d + length xs = r" 
  shows "\<exists>h'. hilbert_pack_dims b r d xs h = Ok h' \<and>
    (\<forall>n. bit h' n \<longleftrightarrow> bit h n \<or> (\<exists>k < length xs. n = b * r + (r - 1 - (d + k)) \<and> bit (xs ! k) b))"
  using assms
proof (induction b r d xs h rule: hilbert_pack_dims.induct)
  case (2 b r d xd xs h)
  let ?s = "b * r + (r - 1 - d)"
  have dr: "d < r" using "2.prems"(3) by simp
  have "(b + 1) * r \<le> p * r" using "2.prems"(1) by (intro mult_le_mono1) simp
  then have br: "b * r + r \<le> 64" using "2.prems"(2) by (simp add: mult.commute)
  then have s: "?s < 64" using dr by simp
  have "b * 1 \<le> b * r" using dr by (intro mult_le_mono2) simp
  then have b: "b < 64" using br dr by linarith
  have ub: "unat (word_of_nat b :: u32) = b" using b by (simp add: unat_of_nat)
  have shr: "plain_shr xd (word_of_nat b) = Ok (drop_bit b xd)" using b by (simp add: plain_shr_def ub)
  define v where "v = push_bit ?s (drop_bit b xd AND 1)"
  have v: "bit v n \<longleftrightarrow> n = ?s \<and> bit xd b" for n using shifted_bit [OF s] by (simp only: v_def)
  have step: "hilbert_pack_dims b r d (xd # xs) h = hilbert_pack_dims b r (d + 1) xs (h OR v)"
    using dr s shr by (simp add: Let_def v_def)
  have "\<exists>h'. hilbert_pack_dims b r (d + 1) xs (h OR v) = Ok h' \<and>
      (\<forall>n. bit h' n \<longleftrightarrow> bit (h OR v) n \<or> (\<exists>k < length xs. n = b * r + (r - 1 - (d + 1 + k)) \<and> bit (xs ! k) b))"
    unfolding v_def by (rule "2.IH" [OF dr refl shr]) (use s "2.prems" in simp_all)
  then obtain h' where h': "hilbert_pack_dims b r (d + 1) xs (h OR v) = Ok h'"
    "\<And>n. bit h' n \<longleftrightarrow> bit (h OR v) n \<or> (\<exists>k < length xs. n = b * r + (r - 1 - (d + 1 + k)) \<and> bit (xs ! k) b)"
    by blast
  have "bit h' n \<longleftrightarrow> bit h n \<or> (\<exists>k < length (xd # xs). n = b * r + (r - 1 - (d + k)) \<and> bit ((xd # xs) ! k) b)" for n
    unfolding h'(2) list.size(4) One_nat_def add_Suc_right add_0_right ex_less_Suc nth_Cons_0 nth_Cons_Suc
    by (auto simp: bit_or_iff v)
  then show ?case using step h'(1) by simp
qed simp

lemma hilbert_pack_spec:
  assumes "r * p \<le> 64" and "length x = r"
  shows "\<exists>h'. hilbert_pack b p r x h = Ok h' \<and>
    (\<forall>n. bit h' n \<longleftrightarrow> bit h n \<or>
       (\<exists>b' k. b \<le> b' \<and> b' < p \<and> k < r \<and> n = b' * r + (r - 1 - k) \<and> bit (x ! k) b'))"
proof (induction "p - b" arbitrary: b h)
  case 0
  then have "hilbert_pack b p r x h = Ok h" by (simp add: hilbert_pack.simps [of b])
  then show ?case using 0 by auto
next
  case (Suc c)
  then have b: "b < p" by simp
  obtain g where g: "hilbert_pack_dims b r 0 x h = Ok g"
    "\<And>n. bit g n \<longleftrightarrow> bit h n \<or> (\<exists>k < r. n = b * r + (r - 1 - k) \<and> bit (x ! k) b)"
    using hilbert_pack_dims_spec [of b p r 0 x h] assms b by auto
  obtain h' where h': "hilbert_pack (b + 1) p r x g = Ok h'"
    "\<And>n. bit h' n \<longleftrightarrow> bit g n \<or>
       (\<exists>b' k. b + 1 \<le> b' \<and> b' < p \<and> k < r \<and> n = b' * r + (r - 1 - k) \<and> bit (x ! k) b')"
    using Suc.hyps(1) [of "b + 1" g] Suc.hyps(2) by fastforce
  have "hilbert_pack b p r x h = Ok h'" using b g(1) h'(1) by (simp add: hilbert_pack.simps [of b])
  moreover have "bit h' n \<longleftrightarrow> bit h n \<or>
      (\<exists>b' k. b \<le> b' \<and> b' < p \<and> k < r \<and> n = b' * r + (r - 1 - k) \<and> bit (x ! k) b')" for n
    unfolding h'(2) g(2) disj_assoc ex_from_step [OF b] ..
  ultimately show ?case by blast
qed

lemma hilbert_pack_bits:
  assumes "r * p \<le> 64" and "length x = r"
  obtains h where "hilbert_pack 0 p r x 0 = Ok h"
    "\<And>b k. b < p \<Longrightarrow> k < r \<Longrightarrow> bit h (b * r + (r - 1 - k)) \<longleftrightarrow> bit (x ! k) b"
    "\<And>n. bit h n \<Longrightarrow> n < r * p"
proof -
  obtain h where h: "hilbert_pack 0 p r x 0 = Ok h"
    "\<And>n. bit h n \<longleftrightarrow> (\<exists>b' k. b' < p \<and> k < r \<and> n = b' * r + (r - 1 - k) \<and> bit (x ! k) b')"
    using hilbert_pack_spec [OF assms, of 0 0] by auto
  show ?thesis
  proof (rule that [OF h(1)])
    fix b k assume bk: "b < p" "k < r"
    have "b = b' \<and> k = k'" if "b * r + (r - 1 - k) = b' * r + (r - 1 - k')" "k' < r" for b' k'
      using quot_rem_unique [OF that(1)] that(2) bk(2) by auto
    then show "bit h (b * r + (r - 1 - k)) \<longleftrightarrow> bit (x ! k) b" unfolding h(2) using bk by blast
  next
    fix n assume "bit h n"
    then obtain b k where bk: "b < p" "k < r" "n = b * r + (r - 1 - k)" unfolding h(2) by blast
    have "(b + 1) * r \<le> p * r" using bk(1) by (intro mult_le_mono1) simp
    then show "n < r * p" using bk(2,3) by (simp add: mult.commute)
  qed
qed

section \<open>Hilbert addressing\<close>

definition hilbert_supports :: "hilbert_layout \<Rightarrow> shape \<Rightarrow> bool" where
  "hilbert_supports l sh \<longleftrightarrow>
     length sh = unat (hilbert_rank l) \<and> 0 < unat (hilbert_rank l) \<and> 0 < unat (hilbert_order l) \<and>
     unat (hilbert_rank l) * unat (hilbert_order l) \<le> 64 \<and>
     (\<forall>d \<in> set sh. unat d \<le> 2 ^ unat (hilbert_order l))"

lemma hilbert_phases:
  assumes "0 < r" and "0 < p" and "r * p \<le> 64"
  shows "phase r p (\<lambda>x. r_bind (hilbert_undo (2 ^ (p - 1)) r x) (\<lambda>x. r_bind (hilbert_gray 1 r x) (\<lambda>x.
    r_bind (hilbert_correction (2 ^ (p - 1)) r x 0) (\<lambda>t. Ok (map (\<lambda>v. v XOR t) (take r x) @ drop r x)))))"
proof -
  have "1 * p \<le> r * p" using assms(1) by (intro mult_le_mono1) simp
  then have "p \<le> 64" using assms(3) by linarith
  then show ?thesis
    using assms(1,2) by (intro phase_comp phase_undo phase_gray phase_correct) simp_all
qed

lemma hilbert_offset_eq:
  assumes "hilbert_supports l sh" and "valid_index idx sh"
  obtains f where "phase (length sh) (unat (hilbert_order l)) f"
    "\<And>idx. valid_index idx sh \<Longrightarrow> hilbert_element_offset l idx sh =
       r_bind (f idx) (\<lambda>x. hilbert_pack 0 (unat (hilbert_order l)) (length sh) x 0)"
proof -
  let ?r = "unat (hilbert_rank l)" and ?p = "unat (hilbert_order l)"
  have s: "length sh = ?r" "0 < ?r" "0 < ?p" "?r * ?p \<le> 64" using assms(1) by (simp_all add: hilbert_supports_def)
  have "1 * ?p \<le> ?r * ?p" using s(2) by (intro mult_le_mono1) simp
  then have p: "?p \<le> 64" using s(4) by linarith
  then have "unat (word_of_nat (?p - 1) :: u32) = ?p - 1" by (simp add: unat_of_nat)
  then have m: "plain_shl (1 :: u64) (word_of_nat (?p - 1)) = (Ok (2 ^ (?p - 1)) :: u64 core_result)"
    using p s(3) by (simp add: plain_shl_def checked_shl_def)
  show ?thesis
    by (rule that [OF hilbert_phases [OF s(2-4), folded s(1)]])
      (use s m in \<open>simp add: hilbert_element_offset_def Let_def validate_index_Ok [THEN iffD2] r_bind_assoc\<close>)
qed

interpretation hilbert: element_address "hilbert_element_offset l" "hilbert_supports l"
  "\<lambda>sh. 2 ^ (length sh * unat (hilbert_order l))" for l
proof
  fix sh idx assume s: "hilbert_supports l sh" and v: "valid_index idx sh"
  let ?p = "unat (hilbert_order l)"
  have r: "length sh * ?p \<le> 64" using s by (simp add: hilbert_supports_def)
  obtain f where f: "phase (length sh) ?p f"
    "hilbert_element_offset l idx sh = r_bind (f idx) (\<lambda>x. hilbert_pack 0 ?p (length sh) x 0)"
    using hilbert_offset_eq [OF s v] v by metis
  obtain x where x: "f idx = Ok x" "length x = length sh"
    using phase_total [OF f(1) valid_index_length [OF v]] .
  obtain h where "hilbert_pack 0 ?p (length sh) x 0 = Ok h" "\<And>n. bit h n \<Longrightarrow> n < length sh * ?p"
    using hilbert_pack_bits [OF r x(2)] by metis
  then show "\<exists>v. hilbert_element_offset l idx sh = Ok v \<and> unat v < 2 ^ (length sh * ?p)"
    using f(2) x(1) bits_bound_unat by auto
next
  fix sh i j v
  let ?p = "unat (hilbert_order l)"
  assume s: "hilbert_supports l sh" and ij: "hilbert_element_offset l i sh = Ok v" "hilbert_element_offset l j sh = Ok v"
  have r: "length sh * ?p \<le> 64" using s by (simp add: hilbert_supports_def)
  have vi: "valid_index i sh" "valid_index j sh"
    using ij validate_index_Ok by (auto simp: hilbert_element_offset_def r_bind_Ok_iff)
  obtain f where f: "phase (length sh) ?p f"
    "\<And>idx. valid_index idx sh \<Longrightarrow> hilbert_element_offset l idx sh = r_bind (f idx) (\<lambda>x. hilbert_pack 0 ?p (length sh) x 0)"
    using hilbert_offset_eq [OF s vi(1)] by metis
  have low: "low_bits ?p idx" if "valid_index idx sh" for idx
    unfolding low_bits_def
  proof (intro ballI allI impI)
    fix w b assume "w \<in> set idx" "bit w b"
    then obtain k where k: "k < length idx" "w = idx ! k" by (auto simp: in_set_conv_nth)
    then have "w < sh ! k" "sh ! k \<in> set sh" using that by (auto simp: valid_index_def list_all2_conv_all_nth)
    then have "unat w < 2 ^ ?p" using s by (fastforce simp: hilbert_supports_def word_less_nat_alt)
    then show "b < ?p" using \<open>bit w b\<close> by (rule unat_bit_below)
  qed
  obtain x where x: "f i = Ok x" "length x = length sh" "low_bits ?p x"
    using phase_total [OF f(1) valid_index_length [OF vi(1)]] low [OF vi(1)] by metis
  obtain y where y: "f j = Ok y" "length y = length sh" "low_bits ?p y"
    using phase_total [OF f(1) valid_index_length [OF vi(2)]] low [OF vi(2)] by metis
  have bits: "bit v (b * length sh + (length sh - 1 - k)) \<longleftrightarrow> bit (z ! k) b"
    if "length z = length sh" "hilbert_pack 0 ?p (length sh) z 0 = Ok v" "b < ?p" "k < length sh" for z b k
    using hilbert_pack_bits [OF r that(1)] that(2-4) by (metis result.inject(1))
  have packs: "hilbert_pack 0 ?p (length sh) x 0 = Ok v" "hilbert_pack 0 ?p (length sh) y 0 = Ok v"
    using ij f(2) vi x(1) y(1) by simp_all
  have "x = y"
  proof (rule nth_equalityI)
    fix k assume "k < length x"
    then have k: "k < length sh" using x(2) by simp
    show "x ! k = y ! k"
    proof (rule bit_word_eqI)
      fix b
      show "bit (x ! k) b \<longleftrightarrow> bit (y ! k) b"
      proof (cases "b < ?p")
        case True
        then show ?thesis using bits [OF x(2) packs(1) _ k] bits [OF y(2) packs(2) _ k] by blast
      next
        case False
        then show ?thesis using low_bits_nth [OF x(3), of k b] low_bits_nth [OF y(3), of k b] k x(2) y(2) by auto
      qed
    qed
  qed (use x y in simp)
  then show "i = j"
    using phase_inj [OF f(1) valid_index_length [OF vi(1)] valid_index_length [OF vi(2)] x(1)] y(1) by simp
next
  fix idx sh v assume "hilbert_element_offset l idx sh = Ok v"
  then show "valid_index idx sh"
    using validate_index_Ok by (auto simp: hilbert_element_offset_def r_bind_Ok_iff)
qed

section \<open>Properties\<close>

text \<open>
  C17. The Hilbert index of a supported shape (rank as declared, every dimension at most two to the
  order, at most 64 bits in all): every valid index has an offset below two to the number of bits,
  and different indices have different offsets.
\<close>

theorem hilbert_offsets_distinct:
  assumes "hilbert_supports l sh" and "valid_index i sh" and "valid_index j sh" and "i \<noteq> j"
  shows "\<exists>u v. hilbert_element_offset l i sh = Ok u \<and> hilbert_element_offset l j sh = Ok v \<and> u \<noteq> v \<and>
    unat u < 2 ^ (length sh * unat (hilbert_order l)) \<and> unat v < 2 ^ (length sh * unat (hilbert_order l))"
  using hilbert.distinct_offsets [OF assms] hilbert.offset_bound [OF assms(1)] by blast

theorem hilbert_offsets_distinct_witness:
  "\<exists>u v. hilbert_element_offset \<lparr>hilbert_order = 2, hilbert_rank = 2\<rparr> [3, 0] [4, 4] = Ok u \<and>
    hilbert_element_offset \<lparr>hilbert_order = 2, hilbert_rank = 2\<rparr> [1, 2] [4, 4] = Ok v \<and> u \<noteq> v \<and>
    unat u < 2 ^ (2 * 2) \<and> unat v < 2 ^ (2 * 2)"
  using hilbert_offsets_distinct [of "\<lparr>hilbert_order = 2, hilbert_rank = 2\<rparr>" "[4, 4]" "[3, 0]" "[1, 2]"]
  by (simp add: hilbert_supports_def valid_index_def DYNAMIC_def word_less_nat_alt)

text \<open>
  The addressing code does not compare the declared Hilbert rank with the rank of the index: on a
  rank-1 index a layout of Hilbert rank 2, which \<open>HilbertLayout::new\<close> accepts, panics on an index out
  of range instead of returning a rank mismatch.
\<close>

theorem hilbert_rank_mismatch_panics:
  "hilbert_new 2 2 = Ok \<lparr>hilbert_order = 2, hilbert_rank = 2\<rparr> \<and>
   hilbert_element_offset \<lparr>hilbert_order = 2, hilbert_rank = 2\<rparr> [1] [4] = Panic"
proof -
  have "plain_shl (1 :: u64) (1 :: u32) = (Ok 2 :: u64 core_result)" by (simp add: plain_shl_def checked_shl_def)
  moreover have "hilbert_undo 2 2 [1] = Panic"
    by (simp add: hilbert_undo.simps [of 2] hilbert_inner.simps [of _ _ 0] hilbert_inner.simps [of _ _ "Suc 0"]
        word_less_nat_alt)
  ultimately show ?thesis
    by (simp add: hilbert_new_def hilbert_element_offset_def validate_index_def DYNAMIC_def word_less_nat_alt
        word_le_nat_alt)
qed

end
