(* ===== verification/Composites.thy ===== *)
theory Composites
  imports Descriptor Addressing
begin

text \<open>
  Composite tensors (\<open>hurray-core/src/composite.rs\<close>): the incremental \<open>CompositeValidator\<close>, a state
  machine that is fed one member descriptor at a time and closed with \<open>finish\<close>, and
  \<open>CompositeTensor::new\<close> on top of it.
\<close>

section \<open>CompositeValidator\<close>

definition MAX_COMPOSITE_DEPTH :: u8 where
  "MAX_COMPOSITE_DEPTH = 8"

type_synonym partition_box = "u64 list \<times> u64 list"

record composite_validator =
  cv_rule :: composition_rule
  declared_member_count :: u32
  head_shape_dims :: "u64 list"
  head_type_tag :: u8
  members_seen :: usize
  partition_boxes :: "partition_box list"

definition validator_new :: "tensor_descriptor \<Rightarrow> composite_validator core_result" where
  "validator_new head =
     (case layout head of
        Composite c \<Rightarrow>
          if comp_rule c \<noteq> Group \<and> has_dynamic (td_shape head)
          then Err (InvalidLayout ''dynamic composite head'')
          else Ok \<lparr>cv_rule = comp_rule c, declared_member_count = member_count c,
                   head_shape_dims = dims (td_shape head), head_type_tag = type_tag (element_ty head),
                   members_seen = 0, partition_boxes = []\<rparr>
      | _ \<Rightarrow> Err (InvalidLayout ''composite head tag''))"

subsection \<open>Checks on one member\<close>

definition shard_box :: "composite_validator \<Rightarrow> tensor_descriptor \<Rightarrow> usize \<Rightarrow> shard_descriptor core_result" where
  "shard_box v m i =
     r_bind (ok_or (shard m) (CompositeMemberMissingShard i)) (\<lambda>s.
     if parent_shape s \<noteq> head_shape_dims v then Err (CompositeMemberParentShapeMismatch i)
     else r_bind (shard_validate_against_shape s (td_shape m)) (\<lambda>_. Ok s))"

definition check_member_type :: "composite_validator \<Rightarrow> tensor_descriptor \<Rightarrow> usize \<Rightarrow> unit core_result" where
  "check_member_type v m i =
     (if quantization m \<noteq> None then Ok ()
      else if type_tag (element_ty m) \<noteq> head_type_tag v
      then Err (CompositeMemberTypeMismatch i (type_tag (element_ty m)) (head_type_tag v))
      else Ok ())"

definition check_overlay_member_role ::
  "composite_validator \<Rightarrow> tensor_descriptor \<Rightarrow> usize \<Rightarrow> unit core_result" where
  "check_overlay_member_role v m i =
     r_bind (ok_or (member_section m) (CompositeMemberFlagMismatch (rule_byte (cv_rule v)) False)) (\<lambda>cm.
     if i = 0 then
       (if composite_member.member_role cm \<noteq> Base then Err CompositeOverlayBaseNotFirst
        else
          r_bind (ok_or (shard m) (CompositeMemberMissingShard i)) (\<lambda>s.
          if \<not> ((\<forall>o' \<in> set (shard_offset s). o' = 0) \<and> dims (td_shape m) = head_shape_dims v)
          then Err CompositeOverlayBaseNotSpanning
          else Ok ()))
     else if composite_member.member_role cm \<noteq> Correction then Err CompositeOverlayBaseNotFirst
     else Ok ())"

definition reject_composite_member_flag :: "composite_validator \<Rightarrow> tensor_descriptor \<Rightarrow> unit core_result" where
  "reject_composite_member_flag v m =
     (if member_section m \<noteq> None then Err (CompositeMemberFlagMismatch (rule_byte (cv_rule v)) True)
      else Ok ())"

subsection \<open>Feeding members\<close>

definition push_member :: "composite_validator \<Rightarrow> tensor_descriptor \<Rightarrow> composite_validator core_result" where
  "push_member v m =
     (let i = members_seen v in
      r_bind
        (case cv_rule v of
           Partition \<Rightarrow>
             r_bind (shard_box v m i) (\<lambda>s.
             r_bind (check_member_type v m i) (\<lambda>_.
             r_bind (reject_composite_member_flag v m) (\<lambda>_.
             Ok (v\<lparr>partition_boxes := partition_boxes v @ [(shard_offset s, dims (td_shape m))]\<rparr>))))
         | Overlay _ \<Rightarrow>
             r_bind (shard_box v m i) (\<lambda>_.
             r_bind (check_member_type v m i) (\<lambda>_.
             r_bind (check_overlay_member_role v m i) (\<lambda>_. Ok v)))
         | Group \<Rightarrow> r_bind (reject_composite_member_flag v m) (\<lambda>_. Ok v))
        (\<lambda>v. Ok (v\<lparr>members_seen := members_seen v + 1\<rparr>)))"

subsection \<open>Closing\<close>

fun boxes_overlap_dims :: "u64 list \<Rightarrow> u64 list \<Rightarrow> u64 list \<Rightarrow> u64 list \<Rightarrow> bool" where
  "boxes_overlap_dims (ao # aos) (asz # aszs) (bo # bos) (bsz # bszs) =
     (ao < saturating_add bo bsz \<and> bo < saturating_add ao asz \<and> boxes_overlap_dims aos aszs bos bszs)"
| "boxes_overlap_dims _ _ _ _ = True"

definition boxes_overlap :: "partition_box \<Rightarrow> partition_box \<Rightarrow> bool" where
  "boxes_overlap a b = boxes_overlap_dims (fst a) (snd a) (fst b) (snd b)"

text \<open>The two nested loops that look for an overlapping pair.\<close>

fun check_against :: "nat \<Rightarrow> nat \<Rightarrow> partition_box \<Rightarrow> partition_box list \<Rightarrow> unit core_result" where
  "check_against i j a [] = Ok ()"
| "check_against i j a (b # bs) =
     (if boxes_overlap a b then Err (CompositePartitionOverlap i j) else check_against i (j + 1) a bs)"

fun check_overlaps :: "nat \<Rightarrow> partition_box list \<Rightarrow> unit core_result" where
  "check_overlaps i [] = Ok ()"
| "check_overlaps i (b # bs) = r_bind (check_against i (i + 1) b bs) (\<lambda>_. check_overlaps (i + 1) bs)"

text \<open>The checked product of dimensions, the \<open>try_fold\<close> of the coverage check, and the running sum of
  the member volumes.\<close>

definition checked_volume :: "u64 list \<Rightarrow> u64 option" where
  "checked_volume ds = element_count_from 1 ds"

fun covered_volume :: "u64 option \<Rightarrow> partition_box list \<Rightarrow> u64 option" where
  "covered_volume c [] = c"
| "covered_volume c ((off, ds) # bs) =
     covered_volume
       (case (c, checked_volume ds) of (Some x, Some v) \<Rightarrow> checked_add x v | _ \<Rightarrow> None) bs"

definition validate_partition_coverage :: "composite_validator \<Rightarrow> unit core_result" where
  "validate_partition_coverage v =
     r_bind (check_overlaps 0 (partition_boxes v)) (\<lambda>_.
     case checked_volume (head_shape_dims v) of
       None \<Rightarrow> Ok ()
     | Some tot \<Rightarrow>
         (case covered_volume (Some 0) (partition_boxes v) of
            None \<Rightarrow> Ok ()
          | Some covered \<Rightarrow> if covered \<noteq> tot then Err CompositePartitionGap else Ok ()))"

definition validator_finish :: "composite_validator \<Rightarrow> unit core_result" where
  "validator_finish v =
     (if word_of_nat (members_seen v) \<noteq> declared_member_count v
      then Err (CompositeMemberCountMismatch (declared_member_count v) (members_seen v))
      else case cv_rule v of
        Partition \<Rightarrow> validate_partition_coverage v
      | Overlay _ \<Rightarrow> if members_seen v = 0 then Err CompositeOverlayEmpty else Ok ()
      | Group \<Rightarrow> Ok ())"

section \<open>CompositeTensor\<close>

record composite_tensor =
  ct_head :: tensor_descriptor
  ct_members :: "tensor_descriptor list"

fun push_members :: "u8 \<Rightarrow> composite_validator \<Rightarrow> tensor_descriptor list \<Rightarrow> composite_validator core_result" where
  "push_members depth v [] = Ok v"
| "push_members depth v (m # ms) =
     r_bind (if is_virtual (layout m) then
               r_bind (plain_add depth 1) (\<lambda>d. if d \<ge> MAX_COMPOSITE_DEPTH then Err SubpavingNestingTooDeep else Ok ())
             else Ok ()) (\<lambda>_.
     r_bind (push_member v m) (\<lambda>v. push_members depth v ms))"

definition composite_tensor_new_at_depth ::
  "tensor_descriptor \<Rightarrow> tensor_descriptor list \<Rightarrow> u8 \<Rightarrow> composite_tensor core_result" where
  "composite_tensor_new_at_depth head ms depth =
     (if depth \<ge> MAX_COMPOSITE_DEPTH then Err SubpavingNestingTooDeep
      else
        r_bind (validator_new head) (\<lambda>v.
        r_bind (push_members depth v ms) (\<lambda>v.
        r_bind (validator_finish v) (\<lambda>_. Ok \<lparr>ct_head = head, ct_members = ms\<rparr>))))"

definition composite_tensor_new :: "tensor_descriptor \<Rightarrow> tensor_descriptor list \<Rightarrow> composite_tensor core_result" where
  "composite_tensor_new head ms = composite_tensor_new_at_depth head ms 0"

text \<open>The accessors panic on a head that is not composite; \<open>new\<close> rules that out.\<close>

definition composite_tensor_rule :: "composite_tensor \<Rightarrow> composition_rule core_result" where
  "composite_tensor_rule t = (case layout (ct_head t) of Composite c \<Rightarrow> Ok (comp_rule c) | _ \<Rightarrow> Panic)"

definition composite_tensor_member_count :: "composite_tensor \<Rightarrow> u32 core_result" where
  "composite_tensor_member_count t = (case layout (ct_head t) of Composite c \<Rightarrow> Ok (member_count c) | _ \<Rightarrow> Panic)"

lemma composite_accessors_total:
  "composite_tensor_new head ms = Ok t \<Longrightarrow>
   \<exists>c. layout head = Composite c \<and> composite_tensor_rule t = Ok (comp_rule c) \<and>
     composite_tensor_member_count t = Ok (member_count c)"
  by (auto simp: composite_tensor_new_def composite_tensor_new_at_depth_def composite_tensor_rule_def
      composite_tensor_member_count_def validator_new_def r_bind_Ok_iff split: if_splits layout_descriptor.splits)

section \<open>Boxes as sets of indices\<close>

fun in_box :: "u64 list \<Rightarrow> u64 list \<Rightarrow> u64 list \<Rightarrow> bool" where
  "in_box (i # is) (f # fs) (s # ss) \<longleftrightarrow> unat f \<le> unat i \<and> unat i < unat f + unat s \<and> in_box is fs ss"
| "in_box [] [] [] = True"
| "in_box _ _ _ = False"

text \<open>A box within the index space of the head.\<close>

fun box_ok :: "u64 list \<Rightarrow> u64 list \<Rightarrow> u64 list \<Rightarrow> bool" where
  "box_ok (d # ds) (f # fs) (s # ss) \<longleftrightarrow> unat f + unat s \<le> unat d \<and> box_ok ds fs ss"
| "box_ok [] [] [] = True"
| "box_ok _ _ _ = False"

definition points :: "partition_box \<Rightarrow> u64 list set" where
  "points b = {idx. in_box idx (fst b) (snd b)}"

lemma box_ok_nth:
  "box_ok ds fs ss \<longleftrightarrow> length fs = length ds \<and> length ss = length ds \<and>
     (\<forall>k < length ds. unat (fs ! k) + unat (ss ! k) \<le> unat (ds ! k))"
  by (induction ds fs ss rule: box_ok.induct) (auto simp: All_less_Suc2)

lemma in_box_subset: "box_ok ds fs ss \<Longrightarrow> in_box idx fs ss \<Longrightarrow> digits_ok (map unat idx) (map unat ds)"
  by (induction ds fs ss arbitrary: idx rule: box_ok.induct) (auto elim: in_box.elims)

lemma in_box_origin:
  "length fs = length ds \<Longrightarrow> set fs \<subseteq> {0} \<Longrightarrow> in_box idx fs ds \<longleftrightarrow> digits_ok (map unat idx) (map unat ds)"
  by (induction idx fs ds rule: in_box.induct) auto

lemma card_interval: "unat f + unat s \<le> 2 ^ 64 - 1 \<Longrightarrow>
  finite {i :: u64. unat f \<le> unat i \<and> unat i < unat f + unat s} \<and>
  card {i :: u64. unat f \<le> unat i \<and> unat i < unat f + unat s} = unat s" for f s :: u64
proof -
  assume b: "unat f + unat s \<le> 2 ^ 64 - 1"
  let ?S = "{i :: u64. unat f \<le> unat i \<and> unat i < unat f + unat s}"
  have img: "unat ` ?S = {unat f..<unat f + unat s}"
  proof (intro equalityI subsetI)
    fix n assume n: "n \<in> {unat f..<unat f + unat s}"
    then have "n < 2 ^ 64" using b by simp
    then have "unat (word_of_nat n :: u64) = n" by (simp add: unat_of_nat)
    with n show "n \<in> unat ` ?S" by (intro image_eqI [of _ _ "word_of_nat n"]) simp_all
  qed auto
  have "inj_on unat ?S" by (simp add: inj_on_def word_unat_eq_iff)
  then have "card ?S = card {unat f..<unat f + unat s}" using card_image [of unat ?S] by (simp only: img)
  then show ?thesis by simp
qed

lemma card_box:
  "box_ok ds fs ss \<Longrightarrow> finite {idx. in_box idx fs ss} \<and> card {idx. in_box idx fs ss} = volume ss"
proof (induction ds fs ss rule: box_ok.induct)
  case (1 d ds f fs s ss)
  let ?I = "{i :: u64. unat f \<le> unat i \<and> unat i < unat f + unat s}" and ?T = "{idx. in_box idx fs ss}"
  have "unat d \<le> 2 ^ 64 - 1" using unsigned_less [of d, where 'a = nat] by simp
  then have I: "finite ?I" "card ?I = unat s" using card_interval [of f s] 1 by simp_all
  have T: "finite ?T" "card ?T = volume ss" using 1 by simp_all
  have eq: "{idx. in_box idx (f # fs) (s # ss)} = (\<lambda>(i, is). i # is) ` (?I \<times> ?T)"
    by (auto elim: in_box.elims simp: image_iff)
  have inj: "inj_on (\<lambda>(i, is). i # is) (?I \<times> ?T)" by (auto simp: inj_on_def)
  show ?case unfolding eq using I T card_image [OF inj] by (simp add: card_cartesian_product)
next
  case 2
  have "{idx. in_box idx [] []} = {[]}" by (auto elim: in_box.elims)
  then show ?case by simp
qed simp_all

text \<open>Two boxes of one head overlap in the sense of the source whenever they share an index; for
  boxes with no empty dimension, exactly then.\<close>

lemma unat_box_end: "unat f + unat s \<le> unat d \<Longrightarrow> unat (saturating_add f s) = unat f + unat s" for f s d :: u64
  using unsigned_less [of d, where 'a = nat] by (simp add: unat_saturating_add)

lemma shared_index_overlaps:
  "box_ok ds fs ss \<Longrightarrow> box_ok ds gs ts \<Longrightarrow> in_box idx fs ss \<Longrightarrow> in_box idx gs ts \<Longrightarrow> boxes_overlap_dims fs ss gs ts"
proof (induction ds fs ss arbitrary: gs ts idx rule: box_ok.induct)
  case (1 d ds f fs s ss)
  from "1.prems"(2) obtain g gs' t ts' where gt: "gs = g # gs'" "ts = t # ts'" by (auto elim: box_ok.elims)
  from "1.prems"(3) obtain i is' where i: "idx = i # is'" by (auto elim: in_box.elims)
  show ?case using 1 gt i by (auto simp: word_less_nat_alt unat_box_end)
qed auto

lemma overlap_shared_index:
  "box_ok ds fs ss \<Longrightarrow> box_ok ds gs ts \<Longrightarrow> 0 \<notin> set ss \<Longrightarrow> 0 \<notin> set ts \<Longrightarrow> boxes_overlap_dims fs ss gs ts \<Longrightarrow>
   \<exists>idx. in_box idx fs ss \<and> in_box idx gs ts"
proof (induction ds fs ss arbitrary: gs ts rule: box_ok.induct)
  case (1 d ds f fs s ss)
  from "1.prems"(2) obtain g gs' t ts' where gt: "gs = g # gs'" "ts = t # ts'" by (auto elim: box_ok.elims)
  obtain idx where idx: "in_box idx fs ss" "in_box idx gs' ts'"
    using "1.IH" [of gs' ts'] "1.prems" gt by auto
  have "0 < unat s" "0 < unat t" using "1.prems"(3,4) gt by (auto simp: unat_gt_0)
  moreover have "unat f < unat g + unat t" "unat g < unat f + unat s"
    using "1.prems"(1,2,5) gt by (auto simp: word_less_nat_alt unat_box_end)
  ultimately have "in_box (max f g # idx) (f # fs) (s # ss) \<and> in_box (max f g # idx) (g # gs') (t # ts')"
    using idx by (auto simp: max_def word_le_nat_alt not_le)
  then show ?case using gt by blast
next
  case 2
  then have "in_box [] [] [] \<and> in_box [] gs ts" by (auto elim: box_ok.elims)
  then show ?case by blast
qed auto

section \<open>The coverage check\<close>

lemma check_against_Ok: "check_against i j a bs = Ok () \<longleftrightarrow> (\<forall>b \<in> set bs. \<not> boxes_overlap a b)"
  by (induction bs arbitrary: j) auto

lemma check_against_not_Panic [simp]: "check_against i j a bs \<noteq> Panic"
  by (induction bs arbitrary: j) auto

lemma check_overlaps_Ok: "check_overlaps i bs = Ok () \<longleftrightarrow> sorted_wrt (\<lambda>a b. \<not> boxes_overlap a b) bs"
  by (induction bs arbitrary: i) (auto simp: r_bind_Ok_iff check_against_Ok)

lemma check_overlaps_not_Panic [simp]: "check_overlaps i bs \<noteq> Panic"
  by (induction bs arbitrary: i) (auto simp: r_bind_Panic_iff)

lemma coverage_not_Panic [simp]: "validate_partition_coverage v \<noteq> Panic"
  by (auto simp: validate_partition_coverage_def r_bind_Panic_iff split: option.splits if_splits)

definition boxes_ok :: "u64 list \<Rightarrow> partition_box list \<Rightarrow> bool" where
  "boxes_ok ds bs \<longleftrightarrow> (\<forall>b \<in> set bs. box_ok ds (fst b) (snd b))"

lemma volume_Some:
  "box_ok ds fs ss \<Longrightarrow> element_count_from p ds = Some t \<Longrightarrow> unat q \<le> unat p \<Longrightarrow>
   \<exists>v. element_count_from q ss = Some v"
proof (induction ds fs ss arbitrary: p q rule: box_ok.induct)
  case (1 d ds f fs s ss)
  from "1.prems"(2) obtain p' where p': "d \<noteq> DYNAMIC" "checked_mul p d = Some p'" "element_count_from p' ds = Some t"
    by (auto split: if_splits option.splits)
  have sd: "unat s \<le> unat d" using "1.prems"(1) by simp
  have "unat d < unat DYNAMIC"
  proof -
    have "unat d < 2 ^ 64" using unsigned_less [of d, where 'a = nat] by simp
    moreover have "unat DYNAMIC = 2 ^ 64 - 1"
      by (simp add: DYNAMIC_def unsigned_minus_1_eq_mask mask_eq_exp_minus_1)
    moreover have "unat d \<noteq> unat DYNAMIC" using p'(1) by (simp add: word_unat_eq_iff)
    ultimately show ?thesis by linarith
  qed
  then have "s \<noteq> DYNAMIC" using sd by auto
  moreover have qs: "unat q * unat s \<le> unat p * unat d" using "1.prems"(3) sd by (rule mult_le_mono)
  moreover have "unat p' = unat p * unat d" using p'(2) by (simp add: checked_mul_Some)
  ultimately have "checked_mul q s = Some (q * s)" "unat (q * s) \<le> unat p'"
    using unsigned_less [of p', where 'a = nat] by (simp_all add: checked_mul_def unat_word_ariths)
  moreover from this obtain v where "element_count_from (q * s) ss = Some v"
    using "1.IH" [of p' "q * s"] "1.prems"(1) p'(3) by auto
  ultimately show ?case using \<open>s \<noteq> DYNAMIC\<close> by simp
qed simp_all

lemma checked_volume_box:
  assumes "box_ok ds fs ss" and "checked_volume ds = Some t"
  shows "checked_volume ss = Some (word_of_nat (volume ss)) \<and> volume ss < 2 ^ 64"
proof -
  obtain v where v: "element_count_from 1 ss = Some v"
    using volume_Some [OF assms(1), of 1 t 1] assms(2) by (auto simp: checked_volume_def)
  have "unat v = volume ss" using element_count_from_Some [OF v] by simp
  then show ?thesis
    using v unsigned_less [of v, where 'a = nat] by (auto simp: checked_volume_def word_unat_eq_iff unat_of_nat)
qed

lemma covered_volume_sum:
  assumes "boxes_ok ds bs" and "checked_volume ds = Some t"
  shows "covered_volume (Some c) bs =
    (if unat c + (\<Sum>b\<leftarrow>bs. volume (snd b)) < 2 ^ 64 then Some (c + word_of_nat (\<Sum>b\<leftarrow>bs. volume (snd b))) else None)"
  using assms(1)
proof (induction bs arbitrary: c)
  case Nil
  then show ?case using unsigned_less [of c, where 'a = nat] by simp
next
  case (Cons b bs)
  obtain fs ss where b: "b = (fs, ss)" by fastforce
  have none: "covered_volume None xs = None" for xs by (induction xs) auto
  have v: "checked_volume ss = Some (word_of_nat (volume ss))" "volume ss < 2 ^ 64"
    using checked_volume_box [OF _ assms(2), of fs ss] Cons.prems b by (simp_all add: boxes_ok_def)
  have u: "unat (word_of_nat (volume ss) :: u64) = volume ss" using v(2) by (simp add: unat_of_nat)
  show ?case
  proof (cases "unat c + volume ss < 2 ^ 64")
    case True
    then have "checked_add c (word_of_nat (volume ss)) = Some (c + word_of_nat (volume ss))"
      "unat (c + word_of_nat (volume ss)) = unat c + volume ss"
      using u by (simp_all add: checked_add_def unat_word_ariths)
    then show ?thesis using Cons b v(1) by (simp add: boxes_ok_def add.assoc)
  next
    case False
    then have "checked_add c (word_of_nat (volume ss)) = None" using u by (simp add: checked_add_def)
    then show ?thesis using False b v(1) none by simp
  qed
qed

text \<open>Pairwise disjoint boxes: their points are counted by the sum of the volumes.\<close>

lemma sum_volumes:
  assumes "boxes_ok ds bs" and "sorted_wrt (\<lambda>a b. points a \<inter> points b = {}) bs"
  shows "card (\<Union>b \<in> set bs. points b) = (\<Sum>b\<leftarrow>bs. volume (snd b)) \<and> finite (\<Union>b \<in> set bs. points b)"
  using assms
proof (induction bs)
  case (Cons b bs)
  have b: "finite (points b)" "card (points b) = volume (snd b)"
    using Cons.prems(1) card_box by (auto simp: boxes_ok_def points_def)
  have "points b \<inter> (\<Union>b \<in> set bs. points b) = {}" using Cons.prems(2) by auto
  with b Cons show ?case by (simp add: boxes_ok_def card_Un_disjoint)
qed simp

definition index_space :: "u64 list \<Rightarrow> u64 list set" where
  "index_space ds = {idx. digits_ok (map unat idx) (map unat ds)}"

lemma card_index_space: "finite (index_space ds) \<and> card (index_space ds) = volume ds"
proof -
  have "box_ok ds (replicate (length ds) 0) ds" by (simp add: box_ok_nth)
  moreover have "{idx. in_box idx (replicate (length ds) 0) ds} = index_space ds"
    using in_box_origin [of "replicate (length ds) 0" ds] by (simp add: index_space_def set_replicate_conv_if)
  ultimately show ?thesis using card_box by metis
qed

lemma points_subset: "boxes_ok ds bs \<Longrightarrow> (\<Union>b \<in> set bs. points b) \<subseteq> index_space ds"
  using in_box_subset by (fastforce simp: boxes_ok_def points_def index_space_def)

lemma sorted_wrt_impl: "sorted_wrt P xs \<Longrightarrow> (\<And>x y. x \<in> set xs \<Longrightarrow> y \<in> set xs \<Longrightarrow> P x y \<Longrightarrow> Q x y) \<Longrightarrow> sorted_wrt Q xs"
  by (induction xs) auto

lemma disjoint_boxes:
  assumes "boxes_ok ds bs" and "sorted_wrt (\<lambda>a b. \<not> boxes_overlap a b) bs"
  shows "sorted_wrt (\<lambda>a b. points a \<inter> points b = {}) bs"
proof (rule sorted_wrt_impl [OF assms(2)])
  fix a b assume ab: "a \<in> set bs" "b \<in> set bs" "\<not> boxes_overlap a b"
  then have "box_ok ds (fst a) (snd a)" "box_ok ds (fst b) (snd b)" using assms(1) by (auto simp: boxes_ok_def)
  then show "points a \<inter> points b = {}"
    using shared_index_overlaps ab(3) by (fastforce simp: points_def boxes_overlap_def)
qed

text \<open>A head whose volume fits: the check accepts exactly the pairwise separate boxes that cover the
  whole index space.\<close>

lemma coverage_iff:
  assumes "boxes_ok (head_shape_dims v) (partition_boxes v)" and "checked_volume (head_shape_dims v) = Some t"
  shows "validate_partition_coverage v = Ok () \<longleftrightarrow>
    sorted_wrt (\<lambda>a b. \<not> boxes_overlap a b) (partition_boxes v) \<and>
    (\<Union>b \<in> set (partition_boxes v). points b) = index_space (head_shape_dims v)"
proof (cases "sorted_wrt (\<lambda>a b. \<not> boxes_overlap a b) (partition_boxes v)")
  case False
  then show ?thesis by (auto simp: validate_partition_coverage_def r_bind_Ok_iff check_overlaps_Ok)
next
  case True
  let ?bs = "partition_boxes v" and ?ds = "head_shape_dims v"
  let ?sum = "\<Sum>b\<leftarrow>?bs. volume (snd b)"
  have t: "unat t = volume ?ds" using assms(2) element_count_from_Some [of 1 ?ds t] by (simp add: checked_volume_def)
  have U: "card (\<Union>b \<in> set ?bs. points b) = ?sum" "finite (\<Union>b \<in> set ?bs. points b)"
    using sum_volumes [OF assms(1) disjoint_boxes [OF assms(1) True]] by simp_all
  have H: "finite (index_space ?ds)" "card (index_space ?ds) = volume ?ds" using card_index_space by blast+
  have sub: "(\<Union>b \<in> set ?bs. points b) \<subseteq> index_space ?ds" using assms(1) by (rule points_subset)
  have le: "?sum \<le> volume ?ds" using card_mono [OF H(1) sub] U(1) H(2) by simp
  then have lt: "?sum < 2 ^ 64" using t unsigned_less [of t, where 'a = nat] by simp
  then have "covered_volume (Some 0) ?bs = Some (word_of_nat ?sum)"
    using covered_volume_sum [OF assms, of 0] by simp
  then have "validate_partition_coverage v = Ok () \<longleftrightarrow> word_of_nat ?sum = t"
    using True assms(2) check_overlaps_Ok [of 0 ?bs] by (auto simp: validate_partition_coverage_def)
  also have "\<dots> \<longleftrightarrow> ?sum = volume ?ds"
    using lt t by (auto simp: word_unat_eq_iff unat_of_nat)
  also have "\<dots> \<longleftrightarrow> (\<Union>b \<in> set ?bs. points b) = index_space ?ds"
    using card_subset_eq [OF H(1) sub] U(1) H(2) by auto
  finally show ?thesis using True by simp
qed

lemma sorted_disjoint_nth:
  "sorted_wrt (\<lambda>a b. points a \<inter> points b = {}) bs \<longleftrightarrow>
   (\<forall>m n. m < length bs \<longrightarrow> n < length bs \<longrightarrow> m \<noteq> n \<longrightarrow> points (bs ! m) \<inter> points (bs ! n) = {})"
proof -
  have "points (bs ! m) \<inter> points (bs ! n) = {}"
    if "\<forall>i j. i < j \<longrightarrow> j < length bs \<longrightarrow> points (bs ! i) \<inter> points (bs ! j) = {}"
      "m < length bs" "n < length bs" "m \<noteq> n" for m n
    using that by (cases "m < n") (auto simp: Int_commute not_less dest: le_neq_implies_less)
  moreover have "points (bs ! m) \<inter> points (bs ! n) = {}"
    if "\<forall>m n. m < length bs \<longrightarrow> n < length bs \<longrightarrow> m \<noteq> n \<longrightarrow> points (bs ! m) \<inter> points (bs ! n) = {}"
      "m < n" "n < length bs" for m n
    using that(1) [rule_format, of m n] that(2,3) by simp
  ultimately show ?thesis unfolding sorted_wrt_iff_nth_less by blast
qed

lemma exact_cover_iff:
  assumes "(\<Union>b \<in> set bs. points b) \<subseteq> H"
  shows "sorted_wrt (\<lambda>a b. points a \<inter> points b = {}) bs \<and> (\<Union>b \<in> set bs. points b) = H \<longleftrightarrow>
    (\<forall>idx \<in> H. \<exists>!n. n < length bs \<and> idx \<in> points (bs ! n))"
proof (intro iffI conjI ballI)
  fix idx assume *: "sorted_wrt (\<lambda>a b. points a \<inter> points b = {}) bs \<and> (\<Union>b \<in> set bs. points b) = H" "idx \<in> H"
  then obtain n where "n < length bs" "idx \<in> points (bs ! n)" by (auto simp: in_set_conv_nth)
  with * show "\<exists>!n. n < length bs \<and> idx \<in> points (bs ! n)"
    by (intro ex1I [of _ n]) (auto simp: sorted_disjoint_nth)
next
  assume *: "\<forall>idx \<in> H. \<exists>!n. n < length bs \<and> idx \<in> points (bs ! n)"
  show "(\<Union>b \<in> set bs. points b) = H" using * assms by (fastforce dest: nth_mem)
  show "sorted_wrt (\<lambda>a b. points a \<inter> points b = {}) bs"
    unfolding sorted_disjoint_nth
  proof (intro allI impI)
    fix m n assume mn: "m < length bs" "n < length bs" "m \<noteq> n"
    show "points (bs ! m) \<inter> points (bs ! n) = {}"
    proof (rule ccontr)
      assume "points (bs ! m) \<inter> points (bs ! n) \<noteq> {}"
      then obtain idx where i: "idx \<in> points (bs ! m)" "idx \<in> points (bs ! n)" by blast
      then have "idx \<in> H" using assms mn(1) by (auto dest: nth_mem)
      with * i mn show False by blast
    qed
  qed
qed

section \<open>The validator as a state machine\<close>

text \<open>The states a validator can reach for a head, with the members fed so far.\<close>

inductive reached :: "tensor_descriptor \<Rightarrow> tensor_descriptor list \<Rightarrow> composite_validator \<Rightarrow> bool" for head where
  start: "validator_new head = Ok v \<Longrightarrow> reached head [] v"
| push: "reached head ms v \<Longrightarrow> push_member v m = Ok v' \<Longrightarrow> reached head (ms @ [m]) v'"

inductive_cases reachedE: "reached head ms v"

lemma push_members_reached:
  "reached head ms v \<Longrightarrow> push_members depth v ns = Ok v' \<Longrightarrow> reached head (ms @ ns) v'"
proof (induction ns arbitrary: ms v)
  case (Cons m ns)
  then obtain v1 where "push_member v m = Ok v1" "push_members depth v1 ns = Ok v'"
    by (auto simp: r_bind_Ok_iff)
  moreover from Cons.prems(1) this(1) have "reached head (ms @ [m]) v1" by (rule reached.push)
  ultimately show ?case using Cons.IH [of "ms @ [m]" v1] by simp
qed simp

definition shard_sized :: "tensor_descriptor \<Rightarrow> bool" where
  "shard_sized m \<longleftrightarrow> (\<forall>s. shard m = Some s \<longrightarrow> shard_fits (length (td_shape m)) s)"

definition member_box :: "tensor_descriptor \<Rightarrow> partition_box" where
  "member_box m = (case shard m of None \<Rightarrow> ([], td_shape m) | Some s \<Rightarrow> (shard_offset s, td_shape m))"

lemma shard_box_Ok:
  assumes "shard_box v m i = Ok s" and "shard_sized m" and "DYNAMIC \<notin> set (head_shape_dims v)"
  shows "shard m = Some s \<and> box_ok (head_shape_dims v) (shard_offset s) (td_shape m)"
proof -
  have s: "shard m = Some s" "parent_shape s = head_shape_dims v" "shard_validate_against_shape s (td_shape m) = Ok ()"
    using assms(1) by (auto simp: shard_box_def r_bind_Ok_iff ok_or_Ok_iff split: if_splits)
  have fits: "shard_fits (length (td_shape m)) s" using assms(2) s(1) by (simp add: shard_sized_def)
  then have len: "length (head_shape_dims v) = length (td_shape m)" "length (shard_offset s) = length (td_shape m)"
    using s(2) by (simp_all add: shard_fits_def)
  have "shard_in_bounds s (td_shape m)" using shard_validate_spec [OF fits] s(3) by blast
  then have "unat (shard_offset s ! k) + unat (td_shape m ! k) \<le> unat (head_shape_dims v ! k)"
    if "k < length (td_shape m)" for k
    using that assms(3) s(2) len(1) by (metis DYNAMIC_def nth_mem shard_in_bounds_def)
  then show ?thesis using s(1) len by (simp add: box_ok_nth)
qed

text \<open>The invariant of the reachable states.\<close>

definition validator_inv :: "tensor_descriptor \<Rightarrow> tensor_descriptor list \<Rightarrow> composite_validator \<Rightarrow> bool" where
  "validator_inv head ms v \<longleftrightarrow>
     (\<exists>c. layout head = Composite c \<and> cv_rule v = comp_rule c \<and> declared_member_count v = member_count c) \<and>
     head_shape_dims v = td_shape head \<and> head_type_tag v = type_tag (element_ty head) \<and>
     members_seen v = length ms \<and> (cv_rule v \<noteq> Group \<longrightarrow> DYNAMIC \<notin> set (head_shape_dims v)) \<and>
     (cv_rule v = Partition \<longrightarrow>
        partition_boxes v = map member_box ms \<and> boxes_ok (head_shape_dims v) (partition_boxes v)) \<and>
     (cv_rule v \<noteq> Partition \<longrightarrow> partition_boxes v = [])"

lemma validator_new_inv: "validator_new head = Ok v \<Longrightarrow> validator_inv head [] v"
  by (auto simp: validator_new_def validator_inv_def boxes_ok_def has_dynamic_def
      split: layout_descriptor.splits if_splits)

lemma push_member_inv:
  assumes inv: "validator_inv head ms v" and "push_member v m = Ok v'" and "shard_sized m"
  shows "validator_inv head (ms @ [m]) v'"
proof (cases "cv_rule v")
  case Partition
  then obtain s where s: "shard_box v m (members_seen v) = Ok s"
    "v' = v\<lparr>partition_boxes := partition_boxes v @ [(shard_offset s, td_shape m)], members_seen := members_seen v + 1\<rparr>"
    using assms(2) by (auto simp: push_member_def Let_def r_bind_Ok_iff)
  have dyn: "DYNAMIC \<notin> set (head_shape_dims v)" using inv Partition by (auto simp: validator_inv_def)
  show ?thesis
    using inv s(2) shard_box_Ok [OF s(1) assms(3) dyn] Partition
    by (auto simp: validator_inv_def boxes_ok_def member_box_def)
next
  case (Overlay opr)
  then have "v' = v\<lparr>members_seen := members_seen v + 1\<rparr>"
    using assms(2) by (auto simp: push_member_def Let_def r_bind_Ok_iff)
  then show ?thesis using inv Overlay by (auto simp: validator_inv_def)
next
  case Group
  then have "v' = v\<lparr>members_seen := members_seen v + 1\<rparr>"
    using assms(2) by (auto simp: push_member_def Let_def r_bind_Ok_iff)
  then show ?thesis using inv Group by (auto simp: validator_inv_def)
qed

lemma reached_inv: "reached head ms v \<Longrightarrow> \<forall>m \<in> set ms. shard_sized m \<Longrightarrow> validator_inv head ms v"
  by (induction rule: reached.induct) (auto intro: validator_new_inv push_member_inv)

lemma composite_new_reached:
  assumes "composite_tensor_new_at_depth head ms depth = Ok t"
  obtains v where "reached head ms v" "validator_finish v = Ok ()" "t = \<lparr>ct_head = head, ct_members = ms\<rparr>"
proof -
  obtain v0 v where "validator_new head = Ok v0" "push_members depth v0 ms = Ok v" "validator_finish v = Ok ()"
    "t = \<lparr>ct_head = head, ct_members = ms\<rparr>"
    using assms by (auto simp: composite_tensor_new_at_depth_def r_bind_Ok_iff split: if_splits)
  then show ?thesis using that push_members_reached [of head "[]" v0 depth ms v] reached.start by fastforce
qed

section \<open>Properties\<close>

text \<open>
  C8. Reachable validator states: after feeding any sequence of members the validator has counted
  them, still holds the rule, shape and type of its head, and for a partition holds exactly the boxes
  of the members, each inside the index space of the head.
\<close>

theorem validator_reachable_invariant:
  assumes "reached head ms v" and "\<forall>m \<in> set ms. shard_sized m"
  shows "validator_inv head ms v"
  using assms by (rule reached_inv)

definition sample_head :: tensor_descriptor where
  "sample_head =
     \<lparr>version_major = 1, version_minor = 0, element_ty = Float32, td_shape = [4], byte_offset = 0,
      layout = Composite \<lparr>comp_rule = Partition, member_count = 2\<rparr>, buffers = [], quantization = None,
      shard = None, td_statistics = None, extension_type = None, member_section = None\<rparr>"

definition sample_part :: "u64 \<Rightarrow> u64 \<Rightarrow> tensor_descriptor" where
  "sample_part off n =
     \<lparr>version_major = 1, version_minor = 0, element_ty = Float32, td_shape = [n], byte_offset = 0,
      layout = RowMajor, buffers = [handle_empty Cpu], quantization = None,
      shard = Some \<lparr>parent_shape = [4], shard_offset = [off]\<rparr>, td_statistics = None,
      extension_type = None, member_section = None\<rparr>"

lemma sample_part_sized: "shard_sized (sample_part off n)"
  by (simp add: shard_sized_def sample_part_def shard_fits_def)

lemma sample_part_shard:
  "unat off + unat n \<le> 4 \<Longrightarrow> shard_validate_against_shape \<lparr>parent_shape = [4], shard_offset = [off]\<rparr> [n] = Ok ()"
  using shard_validate_spec [of "[n]" "\<lparr>parent_shape = [4], shard_offset = [off]\<rparr>"]
  by (simp add: shard_fits_def shard_in_bounds_def)

lemma sample_push:
  assumes "unat off + unat n \<le> 4" and "cv_rule v = Partition" and "head_shape_dims v = [4]"
    and "head_type_tag v = type_tag Float32"
  shows "push_member v (sample_part off n) =
    Ok (v\<lparr>partition_boxes := partition_boxes v @ [([off], [n])], members_seen := members_seen v + 1\<rparr>)"
  using assms sample_part_shard [OF assms(1)]
  by (simp add: push_member_def Let_def shard_box_def check_member_type_def reject_composite_member_flag_def
      sample_part_def)

definition sample_validator :: "partition_box list \<Rightarrow> composite_validator" where
  "sample_validator bs =
     \<lparr>cv_rule = Partition, declared_member_count = 2, head_shape_dims = [4], head_type_tag = type_tag Float32,
      members_seen = length bs, partition_boxes = bs\<rparr>"

lemma sample_head_new: "validator_new sample_head = Ok (sample_validator [])"
  by (simp add: validator_new_def sample_head_def sample_validator_def has_dynamic_def DYNAMIC_def)

lemma sample_validator_push:
  "unat off + unat n \<le> 4 \<Longrightarrow> push_member (sample_validator bs) (sample_part off n) = Ok (sample_validator (bs @ [([off], [n])]))"
  by (simp add: sample_push sample_validator_def)

theorem validator_reachable_invariant_witness:
  "reached sample_head [sample_part 0 1] (sample_validator [([0], [1])]) \<and>
   validator_inv sample_head [sample_part 0 1] (sample_validator [([0], [1])])"
proof -
  have r: "reached sample_head [sample_part 0 1] (sample_validator [([0], [1])])"
    using reached.push [OF reached.start [OF sample_head_new], of "sample_part 0 1"]
      sample_validator_push [of 0 1 "[]"] by simp
  then show ?thesis using validator_reachable_invariant [OF r] sample_part_sized by simp
qed

text \<open>
  The coverage check of a partition, on boxes inside a head whose volume fits in 64 bits and with
  no empty dimension: it never panics, and it accepts exactly when every index of the head lies in
  exactly one box.
\<close>

theorem partition_coverage_exact:
  assumes "boxes_ok (head_shape_dims v) (partition_boxes v)" and "checked_volume (head_shape_dims v) = Some t"
    and "\<forall>b \<in> set (partition_boxes v). 0 \<notin> set (snd b)"
  shows "validate_partition_coverage v \<noteq> Panic \<and>
    (validate_partition_coverage v = Ok () \<longleftrightarrow>
       (\<forall>idx \<in> index_space (head_shape_dims v).
          \<exists>!n. n < length (partition_boxes v) \<and> idx \<in> points (partition_boxes v ! n)))"
proof -
  let ?bs = "partition_boxes v"
  have "sorted_wrt (\<lambda>a b. \<not> boxes_overlap a b) ?bs \<longleftrightarrow> sorted_wrt (\<lambda>a b. points a \<inter> points b = {}) ?bs"
  proof
    assume "sorted_wrt (\<lambda>a b. points a \<inter> points b = {}) ?bs"
    then show "sorted_wrt (\<lambda>a b. \<not> boxes_overlap a b) ?bs"
    proof (rule sorted_wrt_impl)
      fix a b assume ab: "a \<in> set ?bs" "b \<in> set ?bs" "points a \<inter> points b = {}"
      then have ok: "box_ok (head_shape_dims v) (fst a) (snd a)" "box_ok (head_shape_dims v) (fst b) (snd b)"
        "0 \<notin> set (snd a)" "0 \<notin> set (snd b)"
        using assms(1,3) by (auto simp: boxes_ok_def)
      show "\<not> boxes_overlap a b"
        using overlap_shared_index [OF ok] ab(3) by (auto simp: points_def boxes_overlap_def)
    qed
  qed (rule disjoint_boxes [OF assms(1)])
  then show ?thesis
    using coverage_iff [OF assms(1,2)] exact_cover_iff [OF points_subset [OF assms(1)]] by simp
qed

theorem partition_coverage_exact_witness:
  "validate_partition_coverage (sample_validator [([0], [1]), ([1], [3])]) \<noteq> Panic \<and>
    (validate_partition_coverage (sample_validator [([0], [1]), ([1], [3])]) = Ok () \<longleftrightarrow>
       (\<forall>idx \<in> index_space [4]. \<exists>!n. n < 2 \<and> idx \<in> points ([([0], [1]), ([1], [3])] ! n)))"
proof -
  let ?v = "sample_validator [([0], [1]), ([1], [3])]"
  have "boxes_ok (head_shape_dims ?v) (partition_boxes ?v)" "checked_volume (head_shape_dims ?v) = Some 4"
    "\<forall>b \<in> set (partition_boxes ?v). 0 \<notin> set (snd b)"
    by (simp_all add: sample_validator_def boxes_ok_def checked_volume_def DYNAMIC_def checked_mul_def)
  from partition_coverage_exact [OF this] show ?thesis by (simp add: sample_validator_def numeral_2_eq_2)
qed

text \<open>
  C26. A partition composite accepted by \<open>CompositeTensor::new\<close>, over a head whose element count fits in
  64 bits and of members whose shard vectors have the rank of their shapes (as the descriptor constructor
  makes sure): the number of members is the declared one and every index of the head belongs to exactly
  one member. Beyond 64 bits the coverage check is skipped (\<open>partition_overflow_accepts_gap\<close>).
\<close>

theorem partition_composite_exact_cover:
  assumes "composite_tensor_new head ms = Ok t" and "layout head = Composite c" and "comp_rule c = Partition"
    and "\<forall>m \<in> set ms. shard_sized m" and "element_count (td_shape head) = Some n"
  shows "word_of_nat (length ms) = member_count c \<and>
    (\<forall>idx \<in> index_space (td_shape head). \<exists>!k. k < length ms \<and> idx \<in> points (member_box (ms ! k)))"
proof -
  obtain v where v: "reached head ms v" "validator_finish v = Ok ()"
    using composite_new_reached assms(1) unfolding composite_tensor_new_def by metis
  have inv: "validator_inv head ms v" using reached_inv [OF v(1) assms(4)] .
  then have i: "cv_rule v = Partition" "declared_member_count v = member_count c" "head_shape_dims v = td_shape head"
    "members_seen v = length ms" "partition_boxes v = map member_box ms" "boxes_ok (head_shape_dims v) (partition_boxes v)"
    using assms(2,3) by (auto simp: validator_inv_def)
  have fin: "word_of_nat (length ms) = member_count c" "validate_partition_coverage v = Ok ()"
    using v(2) i by (auto simp: validator_finish_def split: if_splits)
  have "checked_volume (head_shape_dims v) = Some n" using assms(5) i(3) by (simp add: checked_volume_def element_count_def)
  from coverage_iff [OF i(6) this] fin(2)
  have "sorted_wrt (\<lambda>a b. points a \<inter> points b = {}) (partition_boxes v) \<and>
      (\<Union>b \<in> set (partition_boxes v). points b) = index_space (head_shape_dims v)"
    using disjoint_boxes [OF i(6)] by blast
  then have "\<forall>idx \<in> index_space (td_shape head). \<exists>!k. k < length ms \<and> idx \<in> points (map member_box ms ! k)"
    using exact_cover_iff [OF points_subset [OF i(6)]] i(3,5) by simp
  moreover have "(k < length ms \<and> idx \<in> points (map member_box ms ! k)) \<longleftrightarrow>
      (k < length ms \<and> idx \<in> points (member_box (ms ! k)))" for k idx by auto
  ultimately show ?thesis using fin(1) by simp
qed

theorem partition_composite_exact_cover_witness:
  "composite_tensor_new sample_head [sample_part 0 1, sample_part 1 3] =
     Ok \<lparr>ct_head = sample_head, ct_members = [sample_part 0 1, sample_part 1 3]\<rparr> \<and>
   (\<exists>!k. k < length [sample_part 0 1, sample_part 1 3] \<and>
      [2] \<in> points (member_box ([sample_part 0 1, sample_part 1 3] ! k)))"
proof -
  let ?ms = "[sample_part 0 1, sample_part 1 3]"
  have lay: "\<not> is_virtual (layout (sample_part off k))" for off k by (simp add: sample_part_def is_virtual_def)
  have "push_members 0 (sample_validator []) ?ms = Ok (sample_validator [([0], [1]), ([1], [3])])"
    using lay by (simp add: sample_validator_push)
  moreover have "validator_finish (sample_validator [([0], [1]), ([1], [3])]) = Ok ()"
    by (simp add: validator_finish_def sample_validator_def validate_partition_coverage_def boxes_overlap_def
        checked_volume_def DYNAMIC_def checked_mul_def checked_add_def word_less_nat_alt unat_saturating_add)
  ultimately have new: "composite_tensor_new sample_head ?ms = Ok \<lparr>ct_head = sample_head, ct_members = ?ms\<rparr>"
    by (simp add: composite_tensor_new_def composite_tensor_new_at_depth_def sample_head_new MAX_COMPOSITE_DEPTH_def
        word_le_nat_alt)
  have head: "layout sample_head = Composite \<lparr>comp_rule = Partition, member_count = 2\<rparr>"
    "comp_rule \<lparr>comp_rule = Partition, member_count = 2\<rparr> = Partition" "td_shape sample_head = [4]"
    by (simp_all add: sample_head_def)
  have sized: "\<forall>m \<in> set ?ms. shard_sized m" using sample_part_sized by simp
  have cnt: "element_count (td_shape sample_head) = Some 4"
    by (simp add: head(3) element_count_def DYNAMIC_def checked_mul_def)
  have "[2] \<in> index_space [4]" by (simp add: index_space_def)
  then show ?thesis
    using new partition_composite_exact_cover [OF new head(1,2) sized cnt, unfolded head(3)] by blast
qed

text \<open>
  When the element count of the head does not fit in 64 bits the coverage check is skipped: a
  partition of a \<open>2^33\<close> by \<open>2^33\<close> head with no members at all is accepted.
\<close>

theorem partition_overflow_accepts_gap:
  "\<exists>head t. layout head = Composite \<lparr>comp_rule = Partition, member_count = 0\<rparr> \<and>
     index_space (td_shape head) \<noteq> {} \<and> composite_tensor_new head [] = Ok t"
proof -
  let ?h = "sample_head\<lparr>td_shape := [2 ^ 33, 2 ^ 33], layout := Composite \<lparr>comp_rule = Partition, member_count = 0\<rparr>\<rparr>"
  have "[0, 0] \<in> index_space [2 ^ 33, 2 ^ 33]" by (simp add: index_space_def)
  then have "index_space (td_shape ?h) \<noteq> {}" by auto
  moreover have "composite_tensor_new ?h [] = Ok \<lparr>ct_head = ?h, ct_members = []\<rparr>"
    by (simp add: composite_tensor_new_def composite_tensor_new_at_depth_def validator_new_def has_dynamic_def
        DYNAMIC_def validator_finish_def validate_partition_coverage_def checked_volume_def checked_mul_def
        MAX_COMPOSITE_DEPTH_def word_le_nat_alt)
  ultimately show ?thesis by (intro exI [of _ ?h]) simp
qed

text \<open>
  An empty box inside another box counts as an overlap although it contains no index.
\<close>

theorem empty_box_overlaps:
  "boxes_overlap ([1], [0]) ([0], [3]) \<and> points ([1], [0]) = {}"
proof
  show "boxes_overlap ([1], [0]) ([0], [3])"
    by (simp add: boxes_overlap_def word_less_nat_alt unat_saturating_add)
  show "points ([1], [0]) = {}" by (auto simp: points_def elim: in_box.elims)
qed

end
