(* ===== verification/Statistics_Mask.thy ===== *)
theory Statistics_Mask
  imports Sections
begin

unbundle bit_operations_syntax

text \<open>
  The bits of \<open>StatisticsMask\<close> (\<open>hurray-core/src/descriptor/statistics.rs\<close>) and their accessors. A mask that the decoder
  accepts says nothing besides what its six accessors say.
\<close>

definition NNZ_VALID :: u32 where
  "NNZ_VALID = push_bit 0 1"

definition SPARSITY_VALID :: u32 where
  "SPARSITY_VALID = push_bit 1 1"

definition VALUE_RANGE_VALID :: u32 where
  "VALUE_RANGE_VALID = push_bit 2 1"

definition VALUE_STATS_VALID :: u32 where
  "VALUE_STATS_VALID = push_bit 3 1"

definition NM_SPARSITY_VALID :: u32 where
  "NM_SPARSITY_VALID = push_bit 4 1"

definition NAN_INF_VALID :: u32 where
  "NAN_INF_VALID = push_bit 5 1"

definition nnz_valid :: "u32 \<Rightarrow> bool" where
  "nnz_valid m \<longleftrightarrow> m AND NNZ_VALID \<noteq> 0"

definition sparsity_valid :: "u32 \<Rightarrow> bool" where
  "sparsity_valid m \<longleftrightarrow> m AND SPARSITY_VALID \<noteq> 0"

definition value_range_valid :: "u32 \<Rightarrow> bool" where
  "value_range_valid m \<longleftrightarrow> m AND VALUE_RANGE_VALID \<noteq> 0"

definition value_stats_valid :: "u32 \<Rightarrow> bool" where
  "value_stats_valid m \<longleftrightarrow> m AND VALUE_STATS_VALID \<noteq> 0"

definition nm_sparsity_valid :: "u32 \<Rightarrow> bool" where
  "nm_sparsity_valid m \<longleftrightarrow> m AND NM_SPARSITY_VALID \<noteq> 0"

definition nan_inf_valid :: "u32 \<Rightarrow> bool" where
  "nan_inf_valid m \<longleftrightarrow> m AND NAN_INF_VALID \<noteq> 0"

lemma and_push_bit: "(m AND push_bit k 1 \<noteq> 0) = (k < 32 \<and> bit m k)" for m :: u32
  by (auto simp: bit_eq_iff [of _ "0 :: u32"] bit_simps)

lemmas mask_bits = nnz_valid_def sparsity_valid_def value_range_valid_def value_stats_valid_def nm_sparsity_valid_def
  nan_inf_valid_def NNZ_VALID_def SPARSITY_VALID_def VALUE_RANGE_VALID_def VALUE_STATS_VALID_def NM_SPARSITY_VALID_def
  NAN_INF_VALID_def and_push_bit

lemma unreserved_bit:
  assumes "m AND STATISTICS_RESERVED_MASK = 0" and "bit m i"
  shows "i < 6"
proof (rule ccontr)
  assume "\<not> i < 6"
  have i: "i < 32" using bit_imp_le_length [OF assms(2)] by simp
  have m: "(0x3F :: u32) = mask 6" by (simp add: mask_eq_exp_minus_1)
  have "bit STATISTICS_RESERVED_MASK i"
    using i \<open>\<not> i < 6\<close> unfolding STATISTICS_RESERVED_MASK_def m by (simp add: bit_simps)
  then have "bit (m AND STATISTICS_RESERVED_MASK) i" using assms(2) by (simp add: bit_simps)
  then show False using assms(1) by simp
qed

lemma statistics_mask_determined:
  assumes "m AND STATISTICS_RESERVED_MASK = 0" and "m' AND STATISTICS_RESERVED_MASK = 0"
    and "nnz_valid m = nnz_valid m'" and "sparsity_valid m = sparsity_valid m'"
    and "value_range_valid m = value_range_valid m'" and "value_stats_valid m = value_stats_valid m'"
    and "nm_sparsity_valid m = nm_sparsity_valid m'" and "nan_inf_valid m = nan_inf_valid m'"
  shows "m = m'"
proof (rule bit_eqI)
  fix i
  show "bit m i = bit m' i"
  proof (cases "i < 6")
    case True
    then have "i \<in> {0, 1, 2, 3, 4, 5}" by auto
    moreover note assms(3-8) [unfolded mask_bits]
    ultimately show ?thesis by auto
  next
    case False
    then show ?thesis using unreserved_bit assms(1,2) by blast
  qed
qed

end
