(* ===== verification/Io_Errors.thy ===== *)
theory Io_Errors
  imports Errors
begin

text \<open>
  The error type of the transport crate (\<open>hurray-io/src/error.rs\<close>) and the reasons a streaming core
  is retired for (\<open>stream/sans_io/mod.rs\<close>). The payload of \<open>Io\<close> is an operating system error and is
  left abstract as a code; message strings are short labels.
\<close>

datatype unusable = LostReadCount | LostWriteCount | IncompleteOutput

datatype (plugins only: code size) io_error =
    Io nat
  | Core error
  | UnexpectedEof
  | InvalidHeader string
  | MultiBufferLengthMismatch usize usize
  | BufferSizeMismatch usize u64 u64
  | FrameTooLarge string u64 u64
  | InvalidCrossMachineSyncMode usize u8
  | UnallocatableBuffer usize u64 u32
  | TornComposite u32 u32
  | CompositeNestingTooDeep usize
  | NotAComposite string
  | CoreUnusable unusable
  | CoreFailed
  | InvalidProgressReport usize usize
  | ZeroLengthWrite
  | SinkClosed
  | HeaderNotWritten
  | InvalidFileMagic
  | InvalidTrailerMagic
  | UnsupportedContainerVersion u8
  | TensorNotFound string
  | DuplicateTensorName string
  | TensorNameEmpty
  | TensorNameTooLong usize
  | IndexCrc32cMismatch u32 u32
  | DuplicateKvKey string
  | KvKeyEmpty
  | KvKeyTooLong usize
  | ReservedFileFlagBits u32
  | IndexOverrunsTrailer

type_synonym 'a io_result = "(io_error, 'a) result"

text \<open>\<open>from_core\<close> is the conversion of the \<open>?\<close> operator from the core crate's errors.\<close>

definition from_core :: "'a core_result \<Rightarrow> 'a io_result" where
  "from_core r = map_err Core r"

lemma from_core_simps [simp]:
  "from_core (Ok x) = Ok x" "from_core (Err e) = Err (Core e)" "from_core Panic = Panic"
  by (simp_all add: from_core_def)

end
