(* ===== verification/Stream_Write.thy ===== *)
theory Stream_Write
  imports Io_Errors Composites
begin

text \<open>
  The sans-io stream writer (\<open>hurray-io/src/stream/sans_io/write.rs\<close>): a core that validates an item, a
  tensor or a tree of composites, and hands out a write operation, a state machine that offers the bytes
  of the item piece by piece with \<open>step\<close> and \<open>output_src\<close> and is told how many were written with
  \<open>report_written\<close>.

  A write operation borrows the core mutably; here it holds it, and the core of the operation is the
  core once the operation is dropped. The stack of frames is a list with the top first.
\<close>

section \<open>The writer core\<close>

text \<open>\<open>CompositeNode\<close> of \<open>stream/types.rs\<close>.\<close>

datatype composite_node =
    TensorNode tensor_descriptor "bytes list"
  | CompositeNode tensor_descriptor "composite_node list"

fun node_descriptor :: "composite_node \<Rightarrow> tensor_descriptor" where
  "node_descriptor (TensorNode d bufs) = d"
| "node_descriptor (CompositeNode h ms) = h"

record stream_writer_core =
  sw_enforce_sync :: bool
  sw_unusable :: "unusable option"
  sw_torn :: bool

definition stream_writer_new :: stream_writer_core where
  "stream_writer_new = \<lparr>sw_enforce_sync = False, sw_unusable = None, sw_torn = False\<rparr>"

definition writer_cross_machine :: stream_writer_core where
  "writer_cross_machine = \<lparr>sw_enforce_sync = True, sw_unusable = None, sw_torn = False\<rparr>"

definition retired :: "stream_writer_core \<Rightarrow> unusable option" where
  "retired w =
     (case sw_unusable w of
        Some r \<Rightarrow> Some r
      | None \<Rightarrow> if sw_torn w then Some IncompleteOutput else None)"

definition writer_is_unusable :: "stream_writer_core \<Rightarrow> bool" where
  "writer_is_unusable w = (retired w \<noteq> None)"

fun validate_buffers :: "bool \<Rightarrow> nat \<Rightarrow> buffer_handle list \<Rightarrow> bytes list \<Rightarrow> unit io_result" where
  "validate_buffers sync i (h # hs) (b # bs) =
     (if byte_size h \<noteq> word_of_nat (length b)
      then Err (BufferSizeMismatch i (byte_size h) (word_of_nat (length b)))
      else if sync \<and> sync_mode h \<noteq> ProducerSynced
      then Err (InvalidCrossMachineSyncMode i (sync_mode_to_byte (sync_mode h)))
      else validate_buffers sync (i + 1) hs bs)"
| "validate_buffers sync i _ _ = Ok ()"

definition validate_tensor :: "stream_writer_core \<Rightarrow> tensor_descriptor \<Rightarrow> bytes list \<Rightarrow> unit io_result" where
  "validate_tensor w d bufs =
     (if length bufs \<noteq> length (buffers d)
      then Err (MultiBufferLengthMismatch (length (buffers d)) (length bufs))
      else validate_buffers (sw_enforce_sync w) 0 (buffers d) bufs)"

fun push_all :: "composite_validator \<Rightarrow> tensor_descriptor list \<Rightarrow> composite_validator core_result" where
  "push_all v [] = Ok v"
| "push_all v (m # ms) = r_bind (push_member v m) (\<lambda>v. push_all v ms)"

text \<open>The validator part of \<open>validate_composite\<close>, and the loop over the members that recurses into it.\<close>

definition validate_members :: "tensor_descriptor \<Rightarrow> tensor_descriptor list \<Rightarrow> unit io_result" where
  "validate_members head ms =
     from_core (r_bind (validator_new head) (\<lambda>v. r_bind (push_all v ms) validator_finish))"

fun validate_node :: "stream_writer_core \<Rightarrow> composite_node \<Rightarrow> unit io_result"
  and validate_nodes :: "stream_writer_core \<Rightarrow> composite_node list \<Rightarrow> unit io_result" where
  "validate_node w (TensorNode d bufs) = validate_tensor w d bufs"
| "validate_node w (CompositeNode head ms) =
     r_bind (validate_members head (map node_descriptor ms)) (\<lambda>_. validate_nodes w ms)"
| "validate_nodes w [] = Ok ()"
| "validate_nodes w (m # ms) = r_bind (validate_node w m) (\<lambda>_. validate_nodes w ms)"

definition validate_composite ::
  "stream_writer_core \<Rightarrow> tensor_descriptor \<Rightarrow> composite_node list \<Rightarrow> unit io_result" where
  "validate_composite w head ms =
     r_bind (validate_members head (map node_descriptor ms)) (\<lambda>_. validate_nodes w ms)"

section \<open>Write operations\<close>

datatype write_step = WriteOutput usize | ItemWritten

datatype op_state = OpDescriptor | OpPayload usize | OpDone | OpFailed

text \<open>\<open>Frame\<close>: the members of an open composite and the position of the next one.\<close>

type_synonym frame = "composite_node list \<times> usize"

record write_op =
  op_core :: stream_writer_core
  op_staging :: bytes
  op_payloads :: "bytes list"
  op_state :: op_state
  op_written :: usize
  emitted_bytes :: u64
  op_stack :: "frame list"

definition writer_tensor ::
  "stream_writer_core \<Rightarrow> tensor_descriptor \<Rightarrow> bytes list \<Rightarrow> write_op io_result" where
  "writer_tensor w d bufs =
     (case retired w of
        Some r \<Rightarrow> Err (CoreUnusable r)
      | None \<Rightarrow>
          r_bind (validate_tensor w d bufs) (\<lambda>_.
          r_bind (from_core (encode d)) (\<lambda>st.
          Ok \<lparr>op_core = w, op_staging = st, op_payloads = bufs, op_state = OpDescriptor, op_written = 0,
              emitted_bytes = 0, op_stack = []\<rparr>)))"

definition writer_composite ::
  "stream_writer_core \<Rightarrow> tensor_descriptor \<Rightarrow> composite_node list \<Rightarrow> write_op io_result" where
  "writer_composite w head ms =
     (case retired w of
        Some r \<Rightarrow> Err (CoreUnusable r)
      | None \<Rightarrow>
          r_bind (validate_composite w head ms) (\<lambda>_.
          r_bind (from_core (encode head)) (\<lambda>st.
          Ok \<lparr>op_core = w, op_staging = st, op_payloads = [], op_state = OpDescriptor, op_written = 0,
              emitted_bytes = 0, op_stack = [(ms, 0)]\<rparr>)))"

definition op_remaining :: "write_op \<Rightarrow> usize" where
  "op_remaining op =
     (case op_state op of
        OpDescriptor \<Rightarrow> length (op_staging op) - op_written op
      | OpPayload i \<Rightarrow> if i < length (op_payloads op) then length (op_payloads op ! i) - op_written op else 0
      | _ \<Rightarrow> 0)"

definition output_src :: "write_op \<Rightarrow> bytes" where
  "output_src op =
     (case op_state op of
        OpDescriptor \<Rightarrow> drop (min (op_written op) (length (op_staging op))) (op_staging op)
      | OpPayload i \<Rightarrow>
          if i < length (op_payloads op)
          then drop (min (op_written op) (length (op_payloads op ! i))) (op_payloads op ! i) else []
      | _ \<Rightarrow> [])"

text \<open>The two halves of a branch of \<open>next_node\<close>: the next node's descriptor is encoded, or the operation
  fails.\<close>

definition open_node :: "write_op \<Rightarrow> tensor_descriptor \<Rightarrow> bytes list \<Rightarrow> frame list \<Rightarrow> write_op \<times> unit io_result" where
  "open_node op d bufs pushed =
     (case encode d of
        Ok st \<Rightarrow>
          (op\<lparr>op_staging := st, op_payloads := bufs, op_stack := pushed @ op_stack op, op_written := 0,
              op_state := OpDescriptor\<rparr>, Ok ())
      | Err e \<Rightarrow> (op\<lparr>op_state := OpFailed\<rparr>, Err (Core e))
      | Panic \<Rightarrow> (op, Panic))"

fun next_node :: "write_op \<Rightarrow> frame list \<Rightarrow> write_op \<times> unit io_result" where
  "next_node op [] = (op\<lparr>op_stack := [], op_state := OpDone, op_payloads := []\<rparr>, Ok ())"
| "next_node op ((ms, k) # fs) =
     (if k < length ms then
        let op = op\<lparr>op_stack := (ms, k + 1) # fs\<rparr> in
        (case ms ! k of
           TensorNode d bufs \<Rightarrow> open_node op d bufs []
         | CompositeNode h ms' \<Rightarrow> open_node op h [] [(ms', 0)])
      else next_node op fs)"

definition begin_payload :: "write_op \<Rightarrow> usize \<Rightarrow> write_op \<times> unit io_result" where
  "begin_payload op i =
     (let op = op\<lparr>op_written := 0\<rparr> in
      if i < length (op_payloads op) then (op\<lparr>op_state := OpPayload i\<rparr>, Ok ())
      else next_node op (op_stack op))"

text \<open>One round of the loop of \<open>step\<close>, entered when nothing remains of the current piece.\<close>

definition op_advance :: "write_op \<Rightarrow> write_op \<times> unit io_result" where
  "op_advance op =
     (case op_state op of
        OpDescriptor \<Rightarrow> begin_payload op 0
      | OpPayload i \<Rightarrow> begin_payload op (i + 1)
      | _ \<Rightarrow> (op, Ok ()))"

subsection \<open>The loop ends\<close>

text \<open>Nodes still to be opened, then the phase, then the payloads still to be written.\<close>

fun node_count :: "composite_node \<Rightarrow> nat" where
  "node_count (TensorNode d bufs) = 1"
| "node_count (CompositeNode h ms) = 1 + sum_list (map node_count ms)"

definition nodes_left :: "frame list \<Rightarrow> nat" where
  "nodes_left fs = sum_list (map (\<lambda>(ms, k). sum_list (map node_count (drop k ms))) fs)"

definition op_phase :: "write_op \<Rightarrow> nat" where
  "op_phase op = (case op_state op of OpDescriptor \<Rightarrow> 2 | OpPayload _ \<Rightarrow> 1 | _ \<Rightarrow> 0)"

definition payloads_left :: "write_op \<Rightarrow> nat" where
  "payloads_left op = (case op_state op of OpPayload i \<Rightarrow> length (op_payloads op) - i | _ \<Rightarrow> 0)"

lemma nodes_left_simps:
  "nodes_left [] = 0" "nodes_left ((ms, k) # fs) = sum_list (map node_count (drop k ms)) + nodes_left fs"
  by (simp_all add: nodes_left_def)

lemma nodes_left_nth:
  "k < length ms \<Longrightarrow> nodes_left ((ms, k) # fs) = node_count (ms ! k) + nodes_left ((ms, k + 1) # fs)"
  by (simp add: nodes_left_simps flip: Cons_nth_drop_Suc)

lemma next_node_progress:
  "next_node op fs = (op', Ok ()) \<Longrightarrow>
   nodes_left (op_stack op') < nodes_left fs \<or> nodes_left (op_stack op') = nodes_left fs \<and> op_state op' = OpDone"
proof (induction op fs rule: next_node.induct)
  case (1 op)
  then show ?case by (auto simp: nodes_left_simps)
next
  case (2 op ms k fs)
  show ?case
  proof (cases "k < length ms")
    case True
    then show ?thesis
      using 2(2) nodes_left_nth [OF True, of fs]
      by (cases "ms ! k") (auto simp: open_node_def Let_def nodes_left_simps split: result.splits)
  next
    case False
    then show ?thesis using 2 by (simp add: nodes_left_simps)
  qed
qed

lemma op_advance_progress:
  assumes "op_advance op = (op', Ok ())" and "op_state op = OpDescriptor \<or> op_state op = OpPayload i"
  shows "(op', op) \<in> measures [nodes_left \<circ> op_stack, op_phase, payloads_left]"
  using assms next_node_progress [of "op\<lparr>op_written := 0\<rparr>" "op_stack op" op']
  by (auto simp: op_advance_def begin_payload_def Let_def op_phase_def payloads_left_def split: if_splits)

function op_step_loop :: "write_op \<Rightarrow> write_op \<times> write_step io_result" where
  "op_step_loop op =
     (case op_state op of
        OpFailed \<Rightarrow> (op, Err CoreFailed)
      | OpDone \<Rightarrow> (op\<lparr>op_core := (op_core op)\<lparr>sw_torn := False\<rparr>\<rparr>, Ok ItemWritten)
      | _ \<Rightarrow>
          if op_remaining op > 0 then (op, Ok (WriteOutput (op_remaining op)))
          else
            (case op_advance op of
               (op', Ok _) \<Rightarrow> op_step_loop op'
             | (op', Err e) \<Rightarrow> (op', Err e)
             | (op', Panic) \<Rightarrow> (op', Panic)))"
  by pat_completeness auto

termination
  by (relation "measures [nodes_left \<circ> op_stack, op_phase, payloads_left]")
    (auto dest!: op_advance_progress [OF sym])

declare op_step_loop.simps [simp del]

definition op_step :: "write_op \<Rightarrow> write_op \<times> write_step io_result" where
  "op_step op =
     (case sw_unusable (op_core op) of
        Some r \<Rightarrow> (op, Err (CoreUnusable r))
      | None \<Rightarrow> op_step_loop op)"

definition report_written :: "write_op \<Rightarrow> usize \<Rightarrow> write_op \<times> unit io_result" where
  "report_written op n =
     (case sw_unusable (op_core op) of
        Some r \<Rightarrow> (op, Err (CoreUnusable r))
      | None \<Rightarrow>
          if op_state op = OpFailed then (op, Err CoreFailed)
          else if n = 0 then (op, Err ZeroLengthWrite)
          else if n > op_remaining op then
            (op\<lparr>op_core := (op_core op)\<lparr>sw_unusable := Some LostWriteCount\<rparr>, op_state := OpFailed\<rparr>,
             Err (InvalidProgressReport n (op_remaining op)))
          else
            (let op = (if emitted_bytes op = 0 then op\<lparr>op_core := (op_core op)\<lparr>sw_torn := True\<rparr>\<rparr> else op) in
             (op\<lparr>emitted_bytes := emitted_bytes op + word_of_nat n, op_written := op_written op + n\<rparr>, Ok ())))"

definition report_sink_closed :: "write_op \<Rightarrow> write_op \<times> io_error" where
  "report_sink_closed op =
     (op\<lparr>op_core := (op_core op)\<lparr>sw_unusable := Some IncompleteOutput\<rparr>, op_state := OpFailed\<rparr>, SinkClosed)"

definition mark_op_unusable :: "write_op \<Rightarrow> write_op" where
  "mark_op_unusable op =
     op\<lparr>op_core := (op_core op)\<lparr>sw_unusable := Some LostWriteCount\<rparr>, op_state := OpFailed\<rparr>"

end
