(* ===== verification/Stream_Output.thy ===== *)
theory Stream_Output
  imports Stream_Write
begin

text \<open>
  What a sink gets from a write operation. The interface of a state machine that offers bytes piece by piece is
  a locale, whose abstraction is the queue of the bytes still to come: \<open>step\<close> keeps the queue and \<open>report\<close>
  takes the reported number of bytes off its front. The write operation of the stream writer is an
  instance; its queue is the preorder walk of the tree of nodes.
\<close>

section \<open>Machines that offer bytes\<close>

inductive emits ::
  "('s \<Rightarrow> 's \<times> write_step io_result) \<Rightarrow> ('s \<Rightarrow> bytes) \<Rightarrow> ('s \<Rightarrow> nat \<Rightarrow> 's \<times> unit io_result) \<Rightarrow>
   's \<times> bytes \<Rightarrow> 's \<times> bytes \<Rightarrow> bool"
  for stp src rep where
  accept: "stp s = (s', Ok (WriteOutput len)) \<Longrightarrow> 0 < n \<Longrightarrow> n \<le> len \<Longrightarrow> n \<le> length (src s') \<Longrightarrow>
    rep s' n = (s'', Ok ()) \<Longrightarrow> emits stp src rep (s, out) (s'', out @ take n (src s'))"

inductive_cases emitsE: "emits stp src rep (s, out) x"

locale byte_queue =
  fixes stp :: "'s \<Rightarrow> 's \<times> write_step io_result"
    and src :: "'s \<Rightarrow> bytes"
    and rep :: "'s \<Rightarrow> nat \<Rightarrow> 's \<times> unit io_result"
    and queue :: "'s \<Rightarrow> bytes"
    and ok :: "'s \<Rightarrow> bool"
  assumes step_done: "ok s \<Longrightarrow> queue s = [] \<Longrightarrow> \<exists>s'. stp s = (s', Ok ItemWritten)"
    and step_offer: "ok s \<Longrightarrow> queue s \<noteq> [] \<Longrightarrow>
      \<exists>s'. stp s = (s', Ok (WriteOutput (length (src s')))) \<and> ok s' \<and> queue s' = queue s \<and>
        src s' \<noteq> [] \<and> (\<exists>later. queue s' = src s' @ later)"
    and report_pops: "ok s \<Longrightarrow> queue s = src s @ later \<Longrightarrow> 0 < n \<Longrightarrow> n \<le> length (src s) \<Longrightarrow>
      \<exists>s'. rep s n = (s', Ok ()) \<and> ok s' \<and> queue s' = drop n (queue s)"
begin

lemma emits_step:
  assumes "emits stp src rep (s, out) (s2, out2)" and s: "ok s"
  shows "ok s2 \<and> (\<exists>w. w \<noteq> [] \<and> out2 = out @ w \<and> queue s = w @ queue s2)"
proof -
  from assms(1) obtain s1 len n where e: "stp s = (s1, Ok (WriteOutput len))" "0 < n" "n \<le> len" "n \<le> length (src s1)"
    "rep s1 n = (s2, Ok ())" "out2 = out @ take n (src s1)"
    by (auto elim: emitsE)
  have ne: "queue s \<noteq> []" using step_done [OF s] e(1) by auto
  from step_offer [OF s ne] obtain later where o: "ok s1" "queue s1 = queue s" "queue s1 = src s1 @ later"
    using e(1) by auto
  from report_pops [OF o(1,3) e(2,4)] have r: "ok s2" "queue s2 = drop n (queue s)" using e(5) o(2) by auto
  moreover have "queue s = take n (src s1) @ drop n (queue s)"
    using o(2,3) e(4) by (metis append_assoc append_take_drop_id drop_append diff_is_0_eq' drop0)
  ultimately show ?thesis using e by (intro conjI exI [of _ "take n (src s1)"]) auto
qed

lemma emits_run:
  assumes "(emits stp src rep)\<^sup>*\<^sup>* (s, out) (s2, out2)" and "ok s"
  shows "ok s2 \<and> out2 @ queue s2 = out @ queue s"
  using assms
proof (induction rule: rtranclp_induct2)
  case (step s1 out1 s2 out2)
  then show ?case using emits_step [OF step.hyps(2)] by auto
qed simp

lemma emits_outcome:
  assumes "(emits stp src rep)\<^sup>*\<^sup>* (s, []) (s2, out)" and "ok s"
  shows "(\<exists>s3. stp s2 = (s3, Ok ItemWritten) \<and> out = queue s) \<or>
    (\<exists>s3 later. stp s2 = (s3, Ok (WriteOutput (length (src s3)))) \<and> src s3 \<noteq> [] \<and> queue s = out @ src s3 @ later)"
proof -
  have r: "ok s2" "out @ queue s2 = queue s" using emits_run [OF assms] by auto
  show ?thesis
  proof (cases "queue s2 = []")
    case True
    then show ?thesis using step_done [OF r(1)] r(2) by auto
  next
    case False
    from step_offer [OF r(1) this] r(2) show ?thesis by metis
  qed
qed

lemma emits_continue:
  "ok s \<Longrightarrow> \<exists>s2 s3. (emits stp src rep)\<^sup>*\<^sup>* (s, out) (s2, out @ queue s) \<and> stp s2 = (s3, Ok ItemWritten)"
proof (induction "length (queue s)" arbitrary: s out rule: less_induct)
  case less
  show ?case
  proof (cases "queue s = []")
    case True
    then show ?thesis using step_done [OF less.prems] by auto
  next
    case False
    from step_offer [OF less.prems False] obtain s1 later where s1: "stp s = (s1, Ok (WriteOutput (length (src s1))))"
      "ok s1" "queue s1 = queue s" "src s1 \<noteq> []" "queue s1 = src s1 @ later" by auto
    from report_pops [OF s1(2,5), of "length (src s1)"] s1(4) obtain s2 where
      s2: "rep s1 (length (src s1)) = (s2, Ok ())" "ok s2" "queue s2 = drop (length (src s1)) (queue s1)" by auto
    have e: "emits stp src rep (s, out) (s2, out @ take (length (src s1)) (src s1))"
      using s1(1) _ _ _ s2(1) by (rule emits.accept) (use s1(4) in auto)
    have q2: "queue s = src s1 @ later" using s1(3,5) by simp
    have "drop (length (src s1)) (queue s1) = later" unfolding s1(5) by simp
    with q2 s2(3) have q: "queue s2 = later" "queue s = src s1 @ later" by simp_all
    then have "length (queue s2) < length (queue s)" using s1(4) by simp
    from less.hyps [OF this s2(2), of "out @ src s1"] q e show ?thesis
      by (auto intro: converse_rtranclp_into_rtranclp)
  qed
qed

end

section \<open>The queue of a write operation\<close>

fun node_bytes :: "composite_node \<Rightarrow> bytes" where
  "node_bytes (TensorNode d bufs) = descriptor_bytes d @ concat bufs"
| "node_bytes (CompositeNode h ms) = descriptor_bytes h @ concat (map node_bytes ms)"

definition stack_bytes :: "frame list \<Rightarrow> bytes" where
  "stack_bytes fs = concat (map (\<lambda>(ms, k). concat (map node_bytes (drop k ms))) fs)"

definition op_queue :: "write_op \<Rightarrow> bytes" where
  "op_queue op =
     (case op_state op of
        OpDescriptor \<Rightarrow> drop (op_written op) (op_staging op) @ concat (op_payloads op) @ stack_bytes (op_stack op)
      | OpPayload i \<Rightarrow>
          drop (op_written op) (op_payloads op ! i) @ concat (drop (i + 1) (op_payloads op)) @ stack_bytes (op_stack op)
      | _ \<Rightarrow> [])"

definition encodable :: "tensor_descriptor \<Rightarrow> bool" where
  "encodable d \<longleftrightarrow> descriptor_ok d \<and> length (descriptor_bytes d) < 2 ^ 32"

fun node_encodable :: "composite_node \<Rightarrow> bool" where
  "node_encodable (TensorNode d bufs) = encodable d"
| "node_encodable (CompositeNode h ms) = (encodable h \<and> list_all node_encodable ms)"

definition stack_encodable :: "frame list \<Rightarrow> bool" where
  "stack_encodable fs \<longleftrightarrow> (\<forall>(ms, k) \<in> set fs. list_all node_encodable ms)"

definition op_ok :: "write_op \<Rightarrow> bool" where
  "op_ok op \<longleftrightarrow>
     sw_unusable (op_core op) = None \<and> stack_encodable (op_stack op) \<and>
     (case op_state op of
        OpDescriptor \<Rightarrow> op_written op \<le> length (op_staging op)
      | OpPayload i \<Rightarrow> i < length (op_payloads op) \<and> op_written op \<le> length (op_payloads op ! i)
      | OpDone \<Rightarrow> True
      | OpFailed \<Rightarrow> False)"

lemma encode_encodable: "encodable d \<Longrightarrow> encode d = Ok (descriptor_bytes d)"
  by (simp add: encodable_def encode_eq)

lemma stack_bytes_simps:
  "stack_bytes [] = []" "stack_bytes ((ms, k) # fs) = concat (map node_bytes (drop k ms)) @ stack_bytes fs"
  by (simp_all add: stack_bytes_def)

lemma stack_encodable_simps:
  "stack_encodable []" "stack_encodable ((ms, k) # fs) \<longleftrightarrow> list_all node_encodable ms \<and> stack_encodable fs"
  by (simp_all add: stack_encodable_def)

lemma next_node_ok:
  "stack_encodable fs \<Longrightarrow> sw_unusable (op_core op) = None \<Longrightarrow>
   \<exists>op'. next_node op fs = (op', Ok ()) \<and> op_ok op' \<and> op_core op' = op_core op \<and> emitted_bytes op' = emitted_bytes op \<and>
     op_queue op' = stack_bytes fs"
proof (induction op fs rule: next_node.induct)
  case (1 op)
  then show ?case by (simp add: op_ok_def op_queue_def stack_bytes_simps)
next
  case (2 op ms k fs)
  show ?case
  proof (cases "k < length ms")
    case True
    then have "node_encodable (ms ! k)" "drop k ms = ms ! k # drop (k + 1) ms"
      using 2(2) by (simp_all add: stack_encodable_simps list_all_length Cons_nth_drop_Suc)
    then show ?thesis
      using True 2(2,3)
      by (cases "ms ! k")
        (simp_all add: open_node_def encode_encodable op_ok_def op_queue_def stack_bytes_simps stack_encodable_simps)
  next
    case False
    then show ?thesis using 2 by (simp add: stack_bytes_simps stack_encodable_simps)
  qed
qed

text \<open>A round of the loop changes neither the queue nor the core.\<close>

lemma op_advance_ok:
  assumes "op_ok op" and "op_remaining op = 0" and "op_state op = OpDescriptor \<or> op_state op = OpPayload i"
  shows "\<exists>op'. op_advance op = (op', Ok ()) \<and> op_ok op' \<and> op_core op' = op_core op \<and>
    emitted_bytes op' = emitted_bytes op \<and> op_queue op' = op_queue op"
proof -
  let ?op = "op\<lparr>op_written := 0\<rparr>"
  have n: "\<exists>op'. next_node ?op (op_stack op) = (op', Ok ()) \<and> op_ok op' \<and> op_core op' = op_core op \<and>
      emitted_bytes op' = emitted_bytes op \<and> op_queue op' = stack_bytes (op_stack op)"
    using next_node_ok [of "op_stack op" ?op] assms(1) by (simp add: op_ok_def)
  from assms(3) consider "op_state op = OpDescriptor" | "op_state op = OpPayload i" by blast
  then show ?thesis
  proof cases
    case 1
    have q: "op_queue op = concat (op_payloads op) @ stack_bytes (op_stack op)"
      using 1 assms(1,2) by (simp add: op_queue_def op_remaining_def)
    show ?thesis
    proof (cases "op_payloads op = []")
      case True
      then show ?thesis using 1 n q by (simp add: op_advance_def begin_payload_def)
    next
      case False
      then have "op_payloads op = op_payloads op ! 0 # drop 1 (op_payloads op)" by (cases "op_payloads op") simp_all
      then have "concat (op_payloads op) = op_payloads op ! 0 @ concat (drop 1 (op_payloads op))"
        by (metis concat.simps(2))
      then show ?thesis
        using 1 False assms(1) q by (simp add: op_advance_def begin_payload_def op_ok_def op_queue_def)
    qed
  next
    case 2
    then have q: "op_queue op = concat (drop (i + 1) (op_payloads op)) @ stack_bytes (op_stack op)"
      using assms(1,2) by (simp add: op_queue_def op_remaining_def op_ok_def)
    show ?thesis
    proof (cases "i + 1 < length (op_payloads op)")
      case True
      then have "drop (i + 1) (op_payloads op) = op_payloads op ! (i + 1) # drop (i + 2) (op_payloads op)"
        by (metis Cons_nth_drop_Suc Suc_eq_plus1 add_Suc_right one_add_one)
      then show ?thesis
        using 2 True assms(1) q by (simp add: op_advance_def begin_payload_def op_ok_def op_queue_def)
    next
      case False
      then show ?thesis using 2 n q by (simp add: op_advance_def begin_payload_def)
    qed
  qed
qed

lemma output_src_queue:
  "op_ok op \<Longrightarrow> length (output_src op) = op_remaining op \<and> (\<exists>later. op_queue op = output_src op @ later)"
  by (auto simp: op_ok_def output_src_def op_remaining_def op_queue_def split: op_state.splits)

lemma op_step_loop_ok:
  "op_ok op \<Longrightarrow>
   \<exists>op'. op_ok op' \<and> op_queue op' = op_queue op \<and> emitted_bytes op' = emitted_bytes op \<and>
     (op_step_loop op = (op', Ok (WriteOutput (op_remaining op'))) \<and> 0 < op_remaining op' \<and> op_core op' = op_core op \<or>
      op_step_loop op = (op', Ok ItemWritten) \<and> op_queue op = [] \<and> op_core op' = (op_core op)\<lparr>sw_torn := False\<rparr>)"
proof (induction op rule: op_step_loop.induct)
  case (1 op)
  show ?case
  proof (cases "(\<exists>i. op_state op = OpDescriptor \<or> op_state op = OpPayload i) \<and> op_remaining op = 0")
    case False
    then show ?thesis
      using 1(3)
      by (subst (1 2) op_step_loop.simps)
        (auto simp: op_ok_def op_queue_def op_remaining_def split: op_state.splits)
  next
    case True
    then obtain i where act: "op_state op = OpDescriptor \<or> op_state op = OpPayload i" and z: "op_remaining op = 0" by blast
    from op_advance_ok [OF 1(3) z act] obtain op1 where
      a: "op_advance op = (op1, Ok ())" "op_ok op1" "op_core op1 = op_core op" "emitted_bytes op1 = emitted_bytes op"
        "op_queue op1 = op_queue op" by blast
    have eq: "op_step_loop op = op_step_loop op1"
      using act z a(1) by (subst op_step_loop.simps) auto
    show ?thesis using act 1(1) [OF _ _ a(1) [symmetric]] 1(2) [OF _ _ a(1) [symmetric]] z a(2-5) eq by auto
  qed
qed

lemma op_step_ok:
  assumes "op_ok op"
  obtains (offer) op' where "op_step op = (op', Ok (WriteOutput (length (output_src op'))))" "op_ok op'" "output_src op' \<noteq> []"
      "op_queue op' = op_queue op" "op_core op' = op_core op" "emitted_bytes op' = emitted_bytes op" "op_queue op \<noteq> []"
    | (finished) op' where "op_step op = (op', Ok ItemWritten)" "op_queue op = []" "op_core op' = (op_core op)\<lparr>sw_torn := False\<rparr>"
proof -
  have s: "op_step op = op_step_loop op" using assms by (simp add: op_step_def op_ok_def)
  obtain op' where o: "op_ok op'" "op_queue op' = op_queue op" "emitted_bytes op' = emitted_bytes op"
    "op_step_loop op = (op', Ok (WriteOutput (op_remaining op'))) \<and> 0 < op_remaining op' \<and> op_core op' = op_core op \<or>
     op_step_loop op = (op', Ok ItemWritten) \<and> op_queue op = [] \<and> op_core op' = (op_core op)\<lparr>sw_torn := False\<rparr>"
    using op_step_loop_ok [OF assms] by blast
  from o(4) show thesis
  proof
    assume a: "op_step_loop op = (op', Ok (WriteOutput (op_remaining op'))) \<and> 0 < op_remaining op' \<and> op_core op' = op_core op"
    have src: "length (output_src op') = op_remaining op'" "output_src op' \<noteq> []" "op_queue op \<noteq> []"
      using output_src_queue [OF o(1)] a o(2) by auto
    show thesis using a src o by (intro offer [of op']) (simp_all add: s)
  next
    assume "op_step_loop op = (op', Ok ItemWritten) \<and> op_queue op = [] \<and> op_core op' = (op_core op)\<lparr>sw_torn := False\<rparr>"
    then show thesis using finished s by simp
  qed
qed

lemma report_written_ok:
  assumes "op_ok op" and "0 < n" and "n \<le> length (output_src op)"
  shows "\<exists>op'. report_written op n = (op', Ok ()) \<and> op_ok op' \<and> op_queue op' = drop n (op_queue op) \<and>
    op_core op' = (if emitted_bytes op = 0 then (op_core op)\<lparr>sw_torn := True\<rparr> else op_core op)"
  using assms output_src_queue [OF assms(1)]
  by (auto simp: report_written_def Let_def op_ok_def op_remaining_def op_queue_def output_src_def add.commute
      split: op_state.splits)

interpretation stream_op: byte_queue op_step output_src report_written op_queue op_ok
proof
  fix op assume op: "op_ok op"
  show "op_queue op = [] \<Longrightarrow> \<exists>op'. op_step op = (op', Ok ItemWritten)"
    by (rule op_step_ok [OF op]) auto
  show "op_queue op \<noteq> [] \<Longrightarrow>
      \<exists>op'. op_step op = (op', Ok (WriteOutput (length (output_src op')))) \<and> op_ok op' \<and> op_queue op' = op_queue op \<and>
        output_src op' \<noteq> [] \<and> (\<exists>later. op_queue op' = output_src op' @ later)"
    by (rule op_step_ok [OF op]) (use output_src_queue in blast)+
  show "\<exists>op'. report_written op n = (op', Ok ()) \<and> op_ok op' \<and> op_queue op' = drop n (op_queue op)"
    if "0 < n" "n \<le> length (output_src op)" for n
    using report_written_ok [OF op that] by blast
qed

section \<open>Items\<close>

text \<open>Submitting a tensor or a composite.\<close>

fun submit :: "stream_writer_core \<Rightarrow> composite_node \<Rightarrow> write_op io_result" where
  "submit w (TensorNode d bufs) = writer_tensor w d bufs"
| "submit w (CompositeNode head ms) = writer_composite w head ms"

lemma submit_Ok:
  assumes "submit w n = Ok op" and "node_encodable n"
  shows "op_ok op" "op_queue op = node_bytes n" "op_core op = w" "emitted_bytes op = 0"
    "sw_unusable w = None" "sw_torn w = False" "validate_node w n = Ok ()"
proof -
  have r: "retired w = None" using assms(1) by (cases n) (auto simp: writer_tensor_def writer_composite_def split: option.splits)
  then show w: "sw_unusable w = None" "sw_torn w = False" by (auto simp: retired_def split: option.splits if_splits)
  show "op_ok op" "op_queue op = node_bytes n" "op_core op = w" "emitted_bytes op = 0" "validate_node w n = Ok ()"
    using assms r w
    by (cases n; auto simp: writer_tensor_def writer_composite_def validate_composite_def r_bind_Ok_iff encode_encodable op_ok_def
        op_queue_def stack_encodable_simps stack_bytes_simps)+
qed

text \<open>The core is torn exactly while some but not all bytes of the item are out.\<close>

definition op_tracks :: "stream_writer_core \<Rightarrow> write_op \<Rightarrow> bytes \<Rightarrow> bool" where
  "op_tracks w op out \<longleftrightarrow> op_core op = w\<lparr>sw_torn := (out \<noteq> [])\<rparr> \<and> (out = [] \<longrightarrow> emitted_bytes op = 0)"

lemma emits_tracks:
  assumes "emits op_step output_src report_written (op, out) (op2, out2)" and "op_ok op" and "op_tracks w op out"
  shows "op_tracks w op2 out2"
proof -
  from assms(1) obtain op1 len n where e: "op_step op = (op1, Ok (WriteOutput len))" "0 < n" "n \<le> length (output_src op1)"
    "report_written op1 n = (op2, Ok ())" "out2 = out @ take n (output_src op1)"
    by (auto elim: emitsE)
  have o: "op_ok op1" "op_core op1 = op_core op" "emitted_bytes op1 = emitted_bytes op"
    by (rule op_step_ok [OF assms(2)]; use e(1) in auto)+
  have "op_core op2 = (if emitted_bytes op1 = 0 then (op_core op1)\<lparr>sw_torn := True\<rparr> else op_core op1)"
    using report_written_ok [OF o(1) e(2,3)] e(4) by auto
  moreover have "out2 \<noteq> []" using e(2,3,5) by auto
  ultimately show ?thesis using assms(3) o by (auto simp: op_tracks_def)
qed

lemma emits_run_tracks:
  assumes "(emits op_step output_src report_written)\<^sup>*\<^sup>* (op, out) (op2, out2)" and "op_ok op" and "op_tracks w op out"
  shows "op_tracks w op2 out2"
  using assms
proof (induction rule: rtranclp_induct2)
  case (step op1 out1 op2 out2)
  then show ?case using emits_tracks [OF step.hyps(2)] stream_op.emits_run [OF step.hyps(1)] by blast
qed simp

lemma submit_tracks:
  "submit w n = Ok op \<Longrightarrow> node_encodable n \<Longrightarrow> op_tracks w op []"
  using submit_Ok [of w n op] by (cases w) (simp add: op_tracks_def)

lemma emits_length:
  "((emits op_step output_src report_written) ^^ k) (op, out) (op2, out2) \<Longrightarrow> op_ok op \<Longrightarrow> length out + k \<le> length out2"
proof (induction k arbitrary: op2 out2)
  case (Suc k)
  then obtain op1 out1 where s: "((emits op_step output_src report_written) ^^ k) (op, out) (op1, out1)"
    "emits op_step output_src report_written (op1, out1) (op2, out2)" by auto
  have "op_ok op1" using stream_op.emits_run [OF _ Suc.prems(2)] s(1) by (meson relpowp_imp_rtranclp)
  from stream_op.emits_step [OF s(2) this] obtain w where "w \<noteq> []" "out2 = out1 @ w" by blast
  then show ?case using Suc.IH [OF s(1) Suc.prems(2)] by (cases w) auto
qed simp

text \<open>A partition of two members.\<close>

definition sample_node :: composite_node where
  "sample_node = CompositeNode sample_head [TensorNode (sample_part 0 1) [[]], TensorNode (sample_part 1 3) [[]]]"

lemma sample_part_encodable: "unat off + unat n \<le> 4 \<Longrightarrow> encodable (sample_part off n)"
  by (simp add: encodable_def sample_part_def descriptor_ok_def fields_ok_def finish_ok_def MAX_RANK_def
      descriptor_body_def section_bytes_def opt_bytes_def handle_bytes_def handle_empty_ok device_tag_ok_def is_virtual_def
      shard_fits_def shard_in_bounds_def shard_bytes_def is_block_paged_def is_csf_def)

lemma sample_head_encodable: "encodable sample_head"
  by (simp add: encodable_def sample_head_def descriptor_ok_def fields_ok_def finish_ok_def MAX_RANK_def
      descriptor_body_def section_bytes_def opt_bytes_def is_virtual_def OPEN_COMPOSITE_SENTINEL_def)

lemma sample_node_encodable: "node_encodable sample_node"
  by (simp add: sample_node_def sample_head_encodable sample_part_encodable)

lemma sample_members_valid: "validate_members sample_head [sample_part 0 1, sample_part 1 3] = Ok ()"
proof -
  have "push_all (sample_validator []) [sample_part 0 1, sample_part 1 3] = Ok (sample_validator [([0], [1]), ([1], [3])])"
    by (simp add: sample_validator_push)
  moreover have "validator_finish (sample_validator [([0], [1]), ([1], [3])]) = Ok ()"
    by (simp add: validator_finish_def sample_validator_def validate_partition_coverage_def boxes_overlap_def
        checked_volume_def DYNAMIC_def checked_mul_def checked_add_def word_less_nat_alt unat_saturating_add)
  ultimately show ?thesis by (simp only: validate_members_def sample_head_new r_bind.simps from_core_simps)
qed

lemma sample_part_valid: "validate_tensor stream_writer_new (sample_part off n) [[]] = Ok ()"
  by (simp add: validate_tensor_def sample_part_def handle_empty_def)

lemma sample_node_valid: "validate_node stream_writer_new sample_node = Ok ()"
  by (simp add: sample_node_def sample_members_valid sample_part_valid)

lemma sample_node_submit: "\<exists>op. submit stream_writer_new sample_node = Ok op"
proof -
  have "retired stream_writer_new = None" by (simp add: retired_def stream_writer_new_def)
  then show ?thesis
    by (simp add: sample_node_def writer_composite_def validate_composite_def sample_members_valid sample_part_valid
        encode_encodable [OF sample_head_encodable])
qed

section \<open>Properties\<close>

text \<open>
  C4. The write operation of an item, a tensor or a tree of composites, refines the queue of the
  item's bytes in preorder. After any sequence of partial writes, either the whole item is out, the
  operation says so and the core is as it was when the item was submitted, or the operation offers
  a non-empty piece of exactly the bytes that come next. It does not fail on the way.
\<close>

theorem writer_emits_item:
  assumes "submit w n = Ok op" and "node_encodable n"
    and "(emits op_step output_src report_written)\<^sup>*\<^sup>* (op, []) (op2, out)"
  shows "(\<exists>op3. op_step op2 = (op3, Ok ItemWritten) \<and> out = node_bytes n \<and> op_core op3 = w) \<or>
    (\<exists>op3 later. op_step op2 = (op3, Ok (WriteOutput (length (output_src op3)))) \<and> output_src op3 \<noteq> [] \<and>
       node_bytes n = out @ output_src op3 @ later)"
proof -
  note op = submit_Ok [OF assms(1,2)]
  have ok2: "op_ok op2" using stream_op.emits_run [OF assms(3) op(1)] by simp
  have "op_core op2 = w\<lparr>sw_torn := (out \<noteq> [])\<rparr>"
    using emits_run_tracks [OF assms(3) op(1) submit_tracks [OF assms(1,2)]] by (simp add: op_tracks_def)
  then have w: "(op_core op2)\<lparr>sw_torn := False\<rparr> = w" using op(6) by (cases w) simp
  have "op_core op3 = w" if "op_step op2 = (op3, Ok ItemWritten)" for op3
    by (rule op_step_ok [OF ok2]) (use that w in auto)
  then show ?thesis
    using stream_op.emits_outcome [OF assms(3) op(1)] unfolding op(2) by blast
qed

theorem writer_emits_item_witness:
  "\<exists>op. submit stream_writer_new sample_node = Ok op \<and>
    ((\<exists>op3. op_step op = (op3, Ok ItemWritten) \<and> [] = node_bytes sample_node \<and> op_core op3 = stream_writer_new) \<or>
     (\<exists>op3 later. op_step op = (op3, Ok (WriteOutput (length (output_src op3)))) \<and> output_src op3 \<noteq> [] \<and>
        node_bytes sample_node = [] @ output_src op3 @ later))"
  using sample_node_submit writer_emits_item [OF _ sample_node_encodable rtranclp.rtrancl_refl] by blast

text \<open>
  C28. Liveness of the writer. Every accepted write makes progress, there are at most as many of them
  as the item has bytes, and from every moment the sink gets the whole item by accepting the pieces
  that are offered.
\<close>

theorem writer_completes:
  assumes "submit w n = Ok op" and "node_encodable n"
    and "((emits op_step output_src report_written) ^^ k) (op, []) (op2, out)"
  shows "k \<le> length (node_bytes n) \<and>
    (\<exists>op3 op4. (emits op_step output_src report_written)\<^sup>*\<^sup>* (op2, out) (op3, node_bytes n) \<and>
       op_step op3 = (op4, Ok ItemWritten))"
proof -
  note op = submit_Ok [OF assms(1,2)]
  have r: "op_ok op2" "out @ op_queue op2 = node_bytes n"
    using stream_op.emits_run [OF relpowp_imp_rtranclp [OF assms(3)] op(1)] op(2) by simp_all
  have "k \<le> length out" using emits_length [OF assms(3) op(1)] by simp
  then show ?thesis using stream_op.emits_continue [OF r(1), of out] r(2) by (metis length_append trans_le_add1)
qed

theorem writer_completes_witness:
  "\<exists>op op3 op4. submit stream_writer_new sample_node = Ok op \<and>
     (emits op_step output_src report_written)\<^sup>*\<^sup>* (op, []) (op3, node_bytes sample_node) \<and>
     op_step op3 = (op4, Ok ItemWritten)"
  using sample_node_submit writer_completes [OF _ sample_node_encodable, of stream_writer_new _ 0] by fastforce

text \<open>
  No torn stream goes unnoticed. If the operation is dropped after some bytes of the item but before
  the operation has said that it is written, the core refuses every later item; if no byte has left,
  the core is as it was.
\<close>

theorem torn_output_retires_core:
  assumes "submit w n = Ok op" and "node_encodable n"
    and "(emits op_step output_src report_written)\<^sup>*\<^sup>* (op, []) (op2, out)"
  shows "if out = [] then op_core op2 = w else submit (op_core op2) n' = Err (CoreUnusable IncompleteOutput)"
proof -
  note op = submit_Ok [OF assms(1,2)]
  have "op_core op2 = w\<lparr>sw_torn := (out \<noteq> [])\<rparr>"
    using emits_run_tracks [OF assms(3) op(1) submit_tracks [OF assms(1,2)]] by (simp add: op_tracks_def)
  then show ?thesis
    using op(5,6) by (cases w; cases n') (auto simp: writer_tensor_def writer_composite_def retired_def)
qed

theorem torn_output_retires_core_witness:
  "\<exists>op op2. submit stream_writer_new sample_node = Ok op \<and>
     (emits op_step output_src report_written)\<^sup>*\<^sup>* (op, []) (op2, node_bytes sample_node) \<and>
     submit (op_core op2) sample_node = Err (CoreUnusable IncompleteOutput)"
proof -
  obtain op where op: "submit stream_writer_new sample_node = Ok op" using sample_node_submit by blast
  note ok = submit_Ok [OF op sample_node_encodable]
  obtain op2 where r: "(emits op_step output_src report_written)\<^sup>*\<^sup>* (op, []) (op2, node_bytes sample_node)"
    using stream_op.emits_continue [OF ok(1), of "[]"] ok(2) by auto
  have "node_bytes sample_node \<noteq> []" by (simp add: sample_node_def descriptor_bytes_def MAGIC_def)
  then show ?thesis using op r torn_output_retires_core [OF op sample_node_encodable r, of sample_node] by auto
qed

end
