(* ===== verification/Sink_Driver.thy ===== *)
theory Sink_Driver
  imports Stream_Output
begin

text \<open>
  The write drivers' loop: \<open>drain\<close> of \<open>hurray-io/src/stream/writer.rs\<close> and of \<open>file/writer.rs\<close>, the same code
  over two kinds of operation. The sink is a tokio \<open>AsyncWrite\<close>, outside the sources. What it does is a
  list of events, one per call of \<open>write\<close>: it takes some front of the slice, is interrupted, or fails
  without taking anything; when the list is used up the future is suspended, and may be dropped there.
  Every event list is a behaviour that the trait allows and every behaviour is one.
\<close>

section \<open>The sink\<close>

datatype write_event = Accepts nat | WriteInterrupted | WriteFails nat

datatype 'a poll = Suspended | Returned "'a io_result"

text \<open>The inner loop, which calls \<open>write\<close> until it is not interrupted. The result is the count of bytes taken.\<close>

fun sink_write :: "bytes \<Rightarrow> bytes \<Rightarrow> write_event list \<Rightarrow> (bytes \<times> write_event list) \<times> nat poll" where
  "sink_write src out [] = ((out, []), Suspended)"
| "sink_write src out (WriteInterrupted # evs) = sink_write src out evs"
| "sink_write src out (WriteFails e # evs) = ((out, evs), Returned (Err (Io e)))"
| "sink_write src out (Accepts n # evs) =
     ((out @ take n src, evs), Returned (Ok (min n (length src))))"

lemma sink_write_shrinks: "sink_write src out evs = ((out', evs'), Returned r) \<Longrightarrow> length evs' < length evs"
  by (induction src out evs rule: sink_write.induct) auto

lemma sink_write_not_Panic: "sink_write src out evs \<noteq> (x, Returned Panic)"
  by (induction src out evs rule: sink_write.induct) auto

lemma sink_write_cases:
  obtains (suspended) "sink_write src out evs = ((out, []), Suspended)"
    | (failed) evs' e where "sink_write src out evs = ((out, evs'), Returned (Err (Io e)))" "length evs' < length evs"
    | (taken) evs' n where "sink_write src out evs = ((out @ take n src, evs'), Returned (Ok n))" "n \<le> length src"
        "length evs' < length evs"
proof -
  have "sink_write src out evs = ((out, []), Suspended) \<or>
    (\<exists>evs' e. sink_write src out evs = ((out, evs'), Returned (Err (Io e))) \<and> length evs' < length evs) \<or>
    (\<exists>evs' n. sink_write src out evs = ((out @ take n src, evs'), Returned (Ok n)) \<and> n \<le> length src \<and>
        length evs' < length evs)"
  proof (induction src out evs rule: sink_write.induct)
    case (4 src out n evs)
    have "take n src = take (min n (length src)) src" by (simp add: min_def)
    then show ?case by auto
  qed auto
  then show ?thesis using that by blast
qed

text \<open>A sink that goes on taking bytes, and the number of its calls that take some.\<close>

definition willing :: "write_event list \<Rightarrow> bool" where
  "willing evs \<longleftrightarrow> list_all (\<lambda>e. e = WriteInterrupted \<or> (\<exists>n. e = Accepts (Suc n))) evs"

definition takings :: "write_event list \<Rightarrow> nat" where
  "takings evs = length (filter (\<lambda>e. e \<noteq> WriteInterrupted) evs)"

lemma willing_takes:
  assumes "willing evs" and "src \<noteq> []" and "0 < takings evs"
  obtains n evs' where "sink_write src out evs = ((out @ take n src, evs'), Returned (Ok n))" "0 < n" "n \<le> length src"
    "length evs' < length evs" "willing evs'" "takings evs = Suc (takings evs')"
  using assms
proof (induction evs arbitrary: thesis)
  case Nil
  then show ?case by (simp add: takings_def)
next
  case (Cons e evs)
  show ?case
  proof (cases "e = WriteInterrupted")
    case True
    have "willing evs" "0 < takings evs" using Cons.prems(2,4) True by (simp_all add: willing_def takings_def)
    from Cons.IH [OF _ this(1) Cons.prems(3) this(2)] obtain n evs' where
      "sink_write src out evs = ((out @ take n src, evs'), Returned (Ok n))" "0 < n" "n \<le> length src"
      "length evs' < length evs" "willing evs'" "takings evs = Suc (takings evs')" by metis
    then show ?thesis using True by (intro Cons.prems(1) [of n evs']) (simp_all add: takings_def)
  next
    case False
    then obtain m where m: "e = Accepts (Suc m)" using Cons.prems(2) by (auto simp: willing_def)
    have "take (Suc m) src = take (min (Suc m) (length src)) src" by (simp add: min_def)
    then show ?thesis
      using m Cons.prems(2,3) by (intro Cons.prems(1) [of "min (Suc m) (length src)" evs]) (auto simp: willing_def takings_def)
  qed
qed

section \<open>The loop\<close>

function drain_loop ::
  "('s \<Rightarrow> 's \<times> write_step io_result) \<Rightarrow> ('s \<Rightarrow> bytes) \<Rightarrow> ('s \<Rightarrow> nat \<Rightarrow> 's \<times> unit io_result) \<Rightarrow>
   ('s \<Rightarrow> 's \<times> io_error) \<Rightarrow> 's \<Rightarrow> bytes \<Rightarrow> write_event list \<Rightarrow> ('s \<times> bytes \<times> write_event list) \<times> unit poll" where
  "drain_loop stp src rep closed s out evs =
     (case stp s of
        (s, Err e) \<Rightarrow> ((s, out, evs), Returned (Err e))
      | (s, Panic) \<Rightarrow> ((s, out, evs), Returned Panic)
      | (s, Ok ItemWritten) \<Rightarrow> ((s, out, evs), Returned (Ok ()))
      | (s, Ok (WriteOutput _)) \<Rightarrow>
          (case sink_write (src s) out evs of
             ((out, evs'), Suspended) \<Rightarrow> ((s, out, evs'), Suspended)
           | ((out, evs'), Returned (Err e)) \<Rightarrow> ((s, out, evs'), Returned (Err e))
           | ((out, evs'), Returned Panic) \<Rightarrow> ((s, out, evs'), Returned Panic)
           | ((out, evs'), Returned (Ok n)) \<Rightarrow>
               if n = 0 then (case closed s of (s, e) \<Rightarrow> ((s, out, evs'), Returned (Err e)))
               else
                 (case rep s n of
                    (s, Ok _) \<Rightarrow> drain_loop stp src rep closed s out evs'
                  | (s, Err e) \<Rightarrow> ((s, out, evs'), Returned (Err e))
                  | (s, Panic) \<Rightarrow> ((s, out, evs'), Returned Panic))))"
  by pat_completeness auto

termination
  by (relation "measure (\<lambda>(stp, src, rep, closed, s, out, evs). length evs)") (auto dest: sink_write_shrinks [OF sym])

declare drain_loop.simps [simp del]

text \<open>How a call of the loop ends, from the core's point of view.\<close>

definition drained ::
  "('s \<Rightarrow> 's \<times> write_step io_result) \<Rightarrow> ('s \<Rightarrow> bytes) \<Rightarrow> ('s \<Rightarrow> 's \<times> io_error) \<Rightarrow> 's \<Rightarrow> 's \<Rightarrow> unit poll \<Rightarrow> bool" where
  "drained stp src closed s1 s' r \<longleftrightarrow>
     r = Returned (Ok ()) \<and> stp s1 = (s', Ok ItemWritten) \<or>
     (r = Suspended \<or> (\<exists>e. r = Returned (Err (Io e)))) \<and> stp s1 = (s', Ok (WriteOutput (length (src s')))) \<or>
     (\<exists>s2 e. r = Returned (Err e) \<and> stp s1 = (s2, Ok (WriteOutput (length (src s2)))) \<and> closed s2 = (s', e))"

text \<open>What was on the sink before stays in front.\<close>

lemma emits_shift:
  "(emits stp src rep)\<^sup>*\<^sup>* (s, inner) (s2, inner2) \<Longrightarrow>
   \<exists>sent. inner2 = inner @ sent \<and> (emits stp src rep)\<^sup>*\<^sup>* (s, []) (s2, sent)"
proof (induction rule: rtranclp_induct2)
  case (step a x b y)
  then obtain sent where sent: "x = inner @ sent" "(emits stp src rep)\<^sup>*\<^sup>* (s, []) (a, sent)" by blast
  from step.hyps(2) obtain s' len m where m: "stp a = (s', Ok (WriteOutput len))" "0 < m" "m \<le> len"
    "m \<le> length (src s')" "rep s' m = (b, Ok ())" "y = x @ take m (src s')"
    by (auto elim: emitsE)
  have "emits stp src rep (a, sent) (b, sent @ take m (src s'))" using m(1-5) by (rule emits.accept)
  then show ?case using sent m(6) by (intro exI [of _ "sent @ take m (src s')"]) auto
qed auto

context byte_queue
begin

lemma drain_emits:
  assumes "drain_loop stp src rep closed s out evs = ((s', out', evs'), r)" and "ok s"
  shows "\<exists>s1. (emits stp src rep)\<^sup>*\<^sup>* (s, out) (s1, out') \<and> drained stp src closed s1 s' r"
  using assms
proof (induction "length evs" arbitrary: s out evs rule: less_induct)
  case less
  show ?case
  proof (cases "queue s = []")
    case True
    then obtain s1 where "stp s = (s1, Ok ItemWritten)" using step_done less.prems(2) by blast
    then show ?thesis using less.prems(1) by (subst (asm) drain_loop.simps) (auto simp: drained_def)
  next
    case False
    then obtain s1 later where s1: "stp s = (s1, Ok (WriteOutput (length (src s1))))" "ok s1" "queue s1 = queue s"
      "src s1 \<noteq> []" "queue s1 = src s1 @ later"
      using step_offer [OF less.prems(2)] by blast
    show ?thesis
    proof (cases rule: sink_write_cases [of "src s1" out evs])
      case suspended
      then show ?thesis using less.prems(1) s1(1) by (subst (asm) drain_loop.simps) (auto simp: drained_def)
    next
      case (failed evs2 e)
      then show ?thesis using less.prems(1) s1(1) by (subst (asm) drain_loop.simps) (auto simp: drained_def)
    next
      case (taken evs2 n)
      show ?thesis
      proof (cases "n = 0")
        case True
        then show ?thesis using less.prems(1) s1(1) taken
          by (subst (asm) drain_loop.simps) (auto simp: drained_def split: prod.splits)
      next
        case False
        then obtain s2 where s2: "rep s1 n = (s2, Ok ())" "ok s2"
          using report_pops [OF s1(2,5), of n] taken(2) by auto
        have "drain_loop stp src rep closed s2 (out @ take n (src s1)) evs2 = ((s', out', evs'), r)"
          using less.prems(1) s1(1) taken(1) s2(1) False by (subst (asm) drain_loop.simps) simp
        from less.hyps [OF taken(3) this s2(2)] obtain s3 where
          s3: "(emits stp src rep)\<^sup>*\<^sup>* (s2, out @ take n (src s1)) (s3, out')" "drained stp src closed s3 s' r" by blast
        have "emits stp src rep (s, out) (s2, out @ take n (src s1))"
          using s1(1) _ taken(2) taken(2) s2(1) by (rule emits.accept) (use False in simp)
        then show ?thesis using s3 by (meson converse_rtranclp_into_rtranclp)
      qed
    qed
  qed
qed

text \<open>A sink that goes on taking bytes gets the whole queue.\<close>

lemma drain_completes:
  assumes "ok s" and "willing evs" and "length (queue s) \<le> takings evs"
  shows "\<exists>s' evs'. drain_loop stp src rep closed s out evs = ((s', out @ queue s, evs'), Returned (Ok ()))"
  using assms
proof (induction "length evs" arbitrary: s out evs rule: less_induct)
  case less
  show ?case
  proof (cases "queue s = []")
    case True
    then obtain s1 where "stp s = (s1, Ok ItemWritten)" using step_done less.prems(1) by blast
    then show ?thesis using True by (subst drain_loop.simps) simp
  next
    case False
    then obtain s1 later where s1: "stp s = (s1, Ok (WriteOutput (length (src s1))))" "ok s1" "queue s1 = queue s"
      "src s1 \<noteq> []" "queue s1 = src s1 @ later"
      using step_offer [OF less.prems(1)] by blast
    have "0 < takings evs" using less.prems(3) False by (cases "queue s") auto
    from willing_takes [OF less.prems(2) s1(4) this] obtain n evs2 where
      n: "sink_write (src s1) out evs = ((out @ take n (src s1), evs2), Returned (Ok n))" "0 < n" "n \<le> length (src s1)"
      "length evs2 < length evs" "willing evs2" "takings evs = Suc (takings evs2)" by metis
    from report_pops [OF s1(2,5) n(2,3)] obtain s2 where s2: "rep s1 n = (s2, Ok ())" "ok s2" "queue s2 = drop n (queue s1)"
      by blast
    have "take n (queue s1) = take n (src s1)" unfolding s1(5) using n(3) by simp
    then have q: "queue s = take n (src s1) @ queue s2" using s1(3) s2(3) by (metis append_take_drop_id)
    then have "length (queue s2) \<le> takings evs2" using less.prems(3) n(2,3,6) by simp
    from less.hyps [OF n(4) s2(2) n(5) this] obtain s' evs' where
      "drain_loop stp src rep closed s2 (out @ take n (src s1)) evs2 = ((s', (out @ take n (src s1)) @ queue s2, evs'), Returned (Ok ()))"
      by blast
    then show ?thesis using s1(1) n(1,2) s2(1) q by (subst drain_loop.simps) simp
  qed
qed

lemma drain_bytewise:
  "ok s \<Longrightarrow> k = length (queue s) \<Longrightarrow>
   \<exists>s'. drain_loop stp src rep closed s out (replicate k (Accepts 1) @ evs) = ((s', out @ queue s, evs), Returned (Ok ()))"
proof (induction k arbitrary: s out)
  case 0
  then obtain s1 where "stp s = (s1, Ok ItemWritten)" using step_done by fastforce
  then show ?case using 0 by (subst drain_loop.simps) simp
next
  case (Suc k)
  then have "queue s \<noteq> []" by auto
  then obtain s1 later where s1: "stp s = (s1, Ok (WriteOutput (length (src s1))))" "ok s1" "queue s1 = queue s"
    "src s1 \<noteq> []" "queue s1 = src s1 @ later"
    using step_offer [OF Suc.prems(1)] by blast
  from report_pops [OF s1(2,5), of 1] s1(4) obtain s2 where s2: "rep s1 1 = (s2, Ok ())" "ok s2" "queue s2 = drop 1 (queue s1)"
    by (auto simp: Suc_le_eq)
  have "take 1 (src s1) = take 1 (queue s)" unfolding s1(3) [symmetric] s1(5) using s1(4) by (cases "src s1") simp_all
  then have q: "queue s = take 1 (src s1) @ queue s2" using s1(3) s2(3) by (metis append_take_drop_id)
  have "k = length (queue s2)" using Suc.prems(2) s1(3) s2(3) by simp
  from Suc.IH [OF s2(2) this] obtain s' where
    "drain_loop stp src rep closed s2 (out @ take 1 (src s1)) (replicate k (Accepts 1) @ evs) =
      ((s', (out @ take 1 (src s1)) @ queue s2, evs), Returned (Ok ()))" by blast
  then show ?case using s1(1,4) s2(1) q by (subst drain_loop.simps) (simp add: Suc_le_eq)
qed

end

end
