(* ===== verification/Stream_Writer.thy ===== *)
theory Stream_Writer
  imports Sink_Driver
begin

text \<open>
  The tokio driver of the stream writer (\<open>hurray-io/src/stream/writer.rs\<close>): the writer core and its sink, one
  call per item. A call that is suspended may be dropped; what is then left of the core is what the next
  call works with. The flush at the end of \<open>finish\<close> is not modelled.
\<close>

section \<open>The writer\<close>

record stream_writer =
  sd_inner :: bytes
  sd_core :: stream_writer_core

definition stream_writer_on :: "bytes \<Rightarrow> stream_writer" where
  "stream_writer_on inner = \<lparr>sd_inner = inner, sd_core = stream_writer_new\<rparr>"

definition stream_writer_cross_machine :: "bytes \<Rightarrow> stream_writer" where
  "stream_writer_cross_machine inner = \<lparr>sd_inner = inner, sd_core = writer_cross_machine\<rparr>"

definition stream_drain ::
  "write_op \<Rightarrow> bytes \<Rightarrow> write_event list \<Rightarrow> (write_op \<times> bytes \<times> write_event list) \<times> unit poll" where
  "stream_drain = drain_loop op_step output_src report_written report_sink_closed"

text \<open>An operation borrows the core and gives it back, with what it did to it, when it is dropped.\<close>

definition stream_call ::
  "stream_writer \<Rightarrow> write_op io_result \<Rightarrow> write_event list \<Rightarrow> (stream_writer \<times> write_event list) \<times> unit poll" where
  "stream_call w submitted evs =
     (case submitted of
        Ok op \<Rightarrow>
          (case stream_drain op (sd_inner w) evs of
             ((op, inner, evs), r) \<Rightarrow> ((\<lparr>sd_inner = inner, sd_core = op_core op\<rparr>, evs), r))
      | Err e \<Rightarrow> ((w, evs), Returned (Err e))
      | Panic \<Rightarrow> ((w, evs), Returned Panic))"

definition stream_write_tensor ::
  "stream_writer \<Rightarrow> tensor_descriptor \<Rightarrow> bytes list \<Rightarrow> write_event list \<Rightarrow> (stream_writer \<times> write_event list) \<times> unit poll" where
  "stream_write_tensor w d bufs evs = stream_call w (writer_tensor (sd_core w) d bufs) evs"

definition stream_write_composite ::
  "stream_writer \<Rightarrow> tensor_descriptor \<Rightarrow> composite_node list \<Rightarrow> write_event list \<Rightarrow>
   (stream_writer \<times> write_event list) \<times> unit poll" where
  "stream_write_composite w head ms evs = stream_call w (writer_composite (sd_core w) head ms) evs"

fun write_node :: "stream_writer \<Rightarrow> composite_node \<Rightarrow> write_event list \<Rightarrow> (stream_writer \<times> write_event list) \<times> unit poll" where
  "write_node w (TensorNode d bufs) evs = stream_write_tensor w d bufs evs"
| "write_node w (CompositeNode head ms) evs = stream_write_composite w head ms evs"

lemma write_node_call: "write_node w n evs = stream_call w (submit (sd_core w) n) evs"
  by (cases n) (simp_all add: stream_write_tensor_def stream_write_composite_def)

text \<open>A session: one call after the other, whatever the earlier ones came to.\<close>

fun write_nodes :: "stream_writer \<Rightarrow> (composite_node \<times> write_event list) list \<Rightarrow> stream_writer \<times> unit poll list" where
  "write_nodes w [] = (w, [])"
| "write_nodes w ((n, evs) # calls) =
     (case write_node w n evs of ((w, _), r) \<Rightarrow> (case write_nodes w calls of (w, rs) \<Rightarrow> (w, r # rs)))"

section \<open>One call\<close>

definition refusing :: "stream_writer_core \<Rightarrow> bool" where
  "refusing c \<longleftrightarrow> retired c = Some IncompleteOutput"

lemma refusing_submit: "refusing c \<Longrightarrow> submit c n = Err (CoreUnusable IncompleteOutput)"
  by (cases n) (simp_all add: refusing_def writer_tensor_def writer_composite_def)

lemma validate_node_not_Panic_submit:
  "submit c n = Ok op \<Longrightarrow> retired c = None"
  by (cases n) (auto simp: writer_tensor_def writer_composite_def split: option.splits)

text \<open>How a call ends: with the item; with nothing sent and the core as before; or with a part of the item on
  the sink and a core that refuses everything.\<close>

lemma stream_drain_outcome:
  assumes op: "submit c n = Ok op" and enc: "node_encodable n"
    and d: "stream_drain op inner evs = ((op', inner', evs'), r)"
  obtains (written) "r = Returned (Ok ())" "inner' = inner @ node_bytes n" "op_core op' = c"
    | (untouched) "r \<noteq> Returned (Ok ())" "r \<noteq> Returned Panic" "inner' = inner" "op_core op' = c"
    | (torn) sent later where "r \<noteq> Returned (Ok ())" "r \<noteq> Returned Panic" "inner' = inner @ sent"
        "node_bytes n = sent @ later" "later \<noteq> []" "refusing (op_core op')"
proof -
  note o = submit_Ok [OF op enc]
  let ?emits = "emits op_step output_src report_written"
  from stream_op.drain_emits [OF d [unfolded stream_drain_def] o(1)] obtain op1 where
    e: "?emits\<^sup>*\<^sup>* (op, inner) (op1, inner')" "drained op_step output_src report_sink_closed op1 op' r" by blast
  have r1: "op_ok op1" "inner' @ op_queue op1 = inner @ node_bytes n" using stream_op.emits_run [OF e(1) o(1)] o(2) by simp_all
  from emits_shift [OF e(1)] obtain sent where sent: "inner' = inner @ sent" "?emits\<^sup>*\<^sup>* (op, []) (op1, sent)" by blast
  have q: "node_bytes n = sent @ op_queue op1" using r1(2) sent(1) by simp
  have core: "op_core op1 = c\<lparr>sw_torn := (sent \<noteq> [])\<rparr>"
    using emits_run_tracks [OF sent(2) o(1) submit_tracks [OF op enc]] by (simp add: op_tracks_def)
  have c0: "c\<lparr>sw_torn := False\<rparr> = c" using o(6) by (cases c) simp
  consider (ok) "r = Returned (Ok ())" "op_step op1 = (op', Ok ItemWritten)"
    | (stop) "r = Suspended \<or> (\<exists>x. r = Returned (Err (Io x)))" "op_step op1 = (op', Ok (WriteOutput (length (output_src op'))))"
    | (closed) op2 x where "r = Returned (Err x)" "op_step op1 = (op2, Ok (WriteOutput (length (output_src op2))))"
        "report_sink_closed op2 = (op', x)"
    using e(2) unfolding drained_def by blast
  then show thesis
  proof cases
    case ok
    have "op_queue op1 = []" using stream_op.step_offer [OF r1(1)] ok(2) by auto
    moreover have "op_core op' = (op_core op1)\<lparr>sw_torn := False\<rparr>"
      by (rule op_step_ok [OF r1(1)]; use ok(2) in auto)
    ultimately show ?thesis using written ok(1) q sent(1) core c0 by simp
  next
    case stop
    have k: "op_core op' = op_core op1" by (rule op_step_ok [OF r1(1)]; use stop(2) in auto)
    have ne: "op_queue op1 \<noteq> []" using stream_op.step_done [OF r1(1)] stop(2) by auto
    have nr: "r \<noteq> Returned (Ok ())" "r \<noteq> Returned Panic" using stop(1) by auto
    show ?thesis
    proof (cases "sent = []")
      case True
      then show ?thesis using untouched nr sent(1) k core c0 by simp
    next
      case False
      then have "refusing (op_core op')" using k core o(5) by (simp add: refusing_def retired_def)
      then show ?thesis using torn nr sent(1) q ne by blast
    qed
  next
    case closed
    have ne: "op_queue op1 \<noteq> []" using stream_op.step_done [OF r1(1)] closed(2) by auto
    have "refusing (op_core op')" using closed(3) by (auto simp: report_sink_closed_def refusing_def retired_def)
    then show ?thesis using torn closed(1) sent(1) q ne by blast
  qed
qed


lemma write_node_outcome:
  assumes enc: "node_encodable n" and w: "write_node w n evs = ((w', evs'), r)"
  obtains (written) "r = Returned (Ok ())" "sd_inner w' = sd_inner w @ node_bytes n" "sd_core w' = sd_core w"
    | (untouched) "r \<noteq> Returned (Ok ())" "w' = w"
    | (torn) sent later where "r \<noteq> Returned (Ok ())" "sd_inner w' = sd_inner w @ sent" "node_bytes n = sent @ later"
        "later \<noteq> []" "refusing (sd_core w')"
proof (cases "submit (sd_core w) n")
  case (Ok op)
  obtain op' inner' evs2 r' where d: "stream_drain op (sd_inner w) evs = ((op', inner', evs2), r')"
    by (metis prod.collapse)
  have w': "w' = \<lparr>sd_inner = inner', sd_core = op_core op'\<rparr>" "r = r'"
    using w d by (simp_all add: write_node_call stream_call_def Ok)
  from Ok enc d show ?thesis
  proof (cases rule: stream_drain_outcome)
    case untouched
    then show ?thesis using that(2) w' by simp
  next
    case (torn sent later)
    then show ?thesis using that(3) w' by simp
  qed (use that(1) w' in simp)
next
  case (Err e)
  then show ?thesis using w by (intro that(2)) (auto simp: write_node_call stream_call_def)
next
  case Panic
  then show ?thesis using w by (intro that(2)) (auto simp: write_node_call stream_call_def)
qed

lemma refusing_writes:
  "refusing (sd_core w) \<Longrightarrow>
   write_nodes w calls = (w, replicate (length calls) (Returned (Err (CoreUnusable IncompleteOutput))))"
  by (induction w calls rule: write_nodes.induct) (simp_all add: write_node_call stream_call_def refusing_submit)

section \<open>A session\<close>

text \<open>The bytes of the items whose call returned successfully.\<close>

definition written_bytes :: "(composite_node \<times> write_event list) list \<Rightarrow> unit poll list \<Rightarrow> bytes" where
  "written_bytes calls rs = concat (map (\<lambda>((n, _), r). if r = Returned (Ok ()) then node_bytes n else []) (zip calls rs))"

lemma written_bytes_simps [simp]:
  "written_bytes [] rs = []"
  "written_bytes ((n, evs) # calls) (r # rs) = (if r = Returned (Ok ()) then node_bytes n else []) @ written_bytes calls rs"
  by (simp_all add: written_bytes_def)

lemma written_bytes_none [simp]: "r \<noteq> Returned (Ok ()) \<Longrightarrow> written_bytes calls (replicate k r) = []"
  by (auto simp: written_bytes_def dest: set_zip_rightD)

lemma session_framed:
  assumes "list_all (node_encodable \<circ> fst) calls" and "write_nodes w calls = (w', rs)"
  shows "\<exists>sent. sd_inner w' = sd_inner w @ written_bytes calls rs @ sent \<and>
    (sent = [] \<or> refusing (sd_core w') \<and> (\<exists>n later. n \<in> fst ` set calls \<and> node_bytes n = sent @ later \<and> later \<noteq> []))"
  using assms
proof (induction calls arbitrary: w rs)
  case (Cons call calls)
  obtain n evs where call: "call = (n, evs)" by (cases call)
  obtain w1 evs1 r where w1: "write_node w n evs = ((w1, evs1), r)" by (metis prod.collapse)
  obtain rs1 where rs: "write_nodes w1 calls = (w', rs1)" "rs = r # rs1"
    using Cons.prems(2) w1 by (auto simp: call split: prod.splits)
  have enc: "node_encodable n" using Cons.prems(1) by (simp add: call)
  from Cons.IH [OF _ rs(1)] Cons.prems(1) obtain sent where
    IH: "sd_inner w' = sd_inner w1 @ written_bytes calls rs1 @ sent"
    "sent = [] \<or> refusing (sd_core w') \<and> (\<exists>n later. n \<in> fst ` set calls \<and> node_bytes n = sent @ later \<and> later \<noteq> [])" by auto
  from enc w1 show ?case
  proof (cases rule: write_node_outcome)
    case (torn part later)
    then have "w' = w1" "written_bytes calls rs1 = []" using rs(1) refusing_writes by auto
    then show ?thesis using torn rs(2) by (intro exI [of _ part]) (auto simp: call)
  qed (use IH rs(2) in \<open>auto simp: call\<close>)
qed auto

section \<open>Properties\<close>

text \<open>
  C9. A session with the tokio writer, with a sink that accepts, interrupts, fails or never answers, and futures dropped
  wherever they are suspended. The sink holds the items whose calls returned successfully, in order, byte
  for byte, and after them at most a part of one item; when there is such a part the writer refuses
  every later call.
\<close>

theorem stream_session_framed:
  assumes "list_all (node_encodable \<circ> fst) calls" and "write_nodes (stream_writer_on []) calls = (w, rs)"
  shows "\<exists>sent. sd_inner w = written_bytes calls rs @ sent \<and>
    (sent = [] \<or>
     (\<exists>n later. n \<in> fst ` set calls \<and> node_bytes n = sent @ later \<and> later \<noteq> []) \<and>
     (\<forall>n evs. write_node w n evs = ((w, evs), Returned (Err (CoreUnusable IncompleteOutput)))))"
  using session_framed [OF assms] by (auto simp: stream_writer_on_def write_node_call stream_call_def refusing_submit)

theorem stream_session_framed_witness:
  "\<exists>w rs. write_nodes (stream_writer_on []) [(sample_node, [Accepts 3])] = (w, rs) \<and>
     (\<exists>sent. sd_inner w = written_bytes [(sample_node, [Accepts 3])] rs @ sent)"
proof -
  obtain w rs where w: "write_nodes (stream_writer_on []) [(sample_node, [Accepts 3])] = (w, rs)" by (metis prod.collapse)
  show ?thesis using stream_session_framed [OF _ w] w sample_node_encodable by auto
qed

text \<open>
  A call of the tokio writer on a sink that goes on taking bytes, with interruptions in between, returns successfully with the
  whole item on the sink and the core as it was.
\<close>

theorem stream_call_completes:
  assumes "submit (sd_core w) n = Ok op" and "node_encodable n" and "willing evs" and "length (node_bytes n) \<le> takings evs"
  shows "\<exists>evs'. write_node w n evs =
    ((\<lparr>sd_inner = sd_inner w @ node_bytes n, sd_core = sd_core w\<rparr>, evs'), Returned (Ok ()))"
proof -
  note ok = submit_Ok [OF assms(1,2)]
  from stream_op.drain_completes [OF ok(1) assms(3), of report_sink_closed "sd_inner w"] assms(4) ok(2) obtain op' evs' where
    d: "stream_drain op (sd_inner w) evs = ((op', sd_inner w @ node_bytes n, evs'), Returned (Ok ()))"
    by (auto simp: stream_drain_def)
  from assms(1,2) d have "op_core op' = sd_core w" by (cases rule: stream_drain_outcome) auto
  then show ?thesis using d by (simp add: write_node_call stream_call_def assms(1))
qed

theorem stream_call_completes_witness:
  "\<exists>evs'. write_node (stream_writer_on []) sample_node (replicate (length (node_bytes sample_node)) (Accepts 1)) =
     ((\<lparr>sd_inner = node_bytes sample_node, sd_core = stream_writer_new\<rparr>, evs'), Returned (Ok ()))"
proof -
  obtain op where op: "submit stream_writer_new sample_node = Ok op" using sample_node_submit by blast
  then show ?thesis
    using stream_call_completes [of "stream_writer_on []" sample_node op "replicate (length (node_bytes sample_node)) (Accepts 1)"]
      sample_node_encodable by (simp add: stream_writer_on_def willing_def takings_def list_all_iff)
qed

end
