(* ===== verification/Stream_Read.thy ===== *)
theory Stream_Read
  imports Io_Errors Descriptor
begin

text \<open>
  The sans-io stream reader (\<open>hurray-io/src/stream/sans_io/read.rs\<close>, \<open>dest.rs\<close>, options and tensors of
  \<open>stream/types.rs\<close>): a state machine that asks for bytes with \<open>step\<close>, is told how many arrived with
  \<open>report_filled\<close>, and hands over whole tensors with \<open>take_tensor\<close>.

  The destination allocator (the trait \<open>DestinationAlloc\<close>) is a parameter: a function from a request to
  the bytes of a fresh destination. A method that takes \<open>&mut self\<close> returns the new core with its result.
\<close>

section \<open>Options, tensors, destinations\<close>

definition DEFAULT_MAX_DESCRIPTOR_BYTES :: u64 where
  "DEFAULT_MAX_DESCRIPTOR_BYTES = 16 * 1024 * 1024"

definition DEFAULT_MAX_COMPOSITE_DEPTH :: usize where
  "DEFAULT_MAX_COMPOSITE_DEPTH = 64"

record stream_reader_options =
  max_descriptor_bytes :: u64
  max_buffer_bytes :: u64
  ro_enforce_sync :: bool
  max_composite_depth :: usize

definition default_reader_options :: stream_reader_options where
  "default_reader_options =
     \<lparr>max_descriptor_bytes = DEFAULT_MAX_DESCRIPTOR_BYTES, max_buffer_bytes = - 1,
      ro_enforce_sync = False, max_composite_depth = DEFAULT_MAX_COMPOSITE_DEPTH\<rparr>"

record stream_tensor =
  st_descriptor :: tensor_descriptor
  st_buffers :: "bytes list"

record destination_request =
  dr_index :: usize
  dr_byte_size :: u64
  dr_alignment :: u32

type_synonym destination_alloc = "destination_request \<Rightarrow> bytes io_result"

text \<open>\<open>AlignedBuf::zeroed\<close> behind \<open>SystemDestinations\<close>: an empty buffer needs no layout, any other needs a
  power of two as alignment and a size that does not exceed \<open>isize::MAX\<close> when rounded up to it.\<close>

definition aligned_buf_zeroed :: "u64 \<Rightarrow> u32 \<Rightarrow> bytes option" where
  "aligned_buf_zeroed sz al =
     (if sz = 0 then Some []
      else if is_power_of_two al \<and> unat sz \<le> 2 ^ 63 - unat al
      then Some (replicate (unat sz) 0)
      else None)"

definition system_allocate :: destination_alloc where
  "system_allocate r =
     ok_or (aligned_buf_zeroed (dr_byte_size r) (dr_alignment r))
       (UnallocatableBuffer (dr_index r) (dr_byte_size r) (dr_alignment r))"

section \<open>The reader core\<close>

definition PREFIX_LEN :: usize where
  "PREFIX_LEN = 10"

datatype read_step = StepInput usize | StepTensor | StepFinished

record pending =
  pd_descriptor :: tensor_descriptor
  pd_buffers :: "bytes list"
  pd_dest :: "bytes option"

datatype read_state =
    Prefix
  | AtDescriptor
  | AtBuffer usize
  | TensorReady
  | Finished
  | ReadFailed
  | ReadUnusable unusable

record stream_reader_core =
  rc_options :: stream_reader_options
  rc_state :: read_state
  rc_staging :: bytes
  rc_target :: usize
  rc_filled :: usize
  rc_pending :: "pending option"
  rc_tensor :: "stream_tensor option"

definition reader_with_options :: "stream_reader_options \<Rightarrow> stream_reader_core" where
  "reader_with_options opts =
     \<lparr>rc_options = opts, rc_state = Prefix, rc_staging = replicate PREFIX_LEN 0, rc_target = PREFIX_LEN,
      rc_filled = 0, rc_pending = None, rc_tensor = None\<rparr>"

definition rc_remaining :: "stream_reader_core \<Rightarrow> usize" where
  "rc_remaining c =
     (case rc_state c of
        Prefix \<Rightarrow> rc_target c - rc_filled c
      | AtDescriptor \<Rightarrow> rc_target c - rc_filled c
      | AtBuffer i \<Rightarrow> rc_target c - rc_filled c
      | _ \<Rightarrow> 0)"

definition rc_fail :: "stream_reader_core \<Rightarrow> io_error \<Rightarrow> stream_reader_core \<times> 'a io_result" where
  "rc_fail c e = (c\<lparr>rc_state := ReadFailed\<rparr>, Err e)"

text \<open>\<open>Vec::resize(n, 0)\<close>.\<close>

definition resize0 :: "nat \<Rightarrow> bytes \<Rightarrow> bytes" where
  "resize0 n xs = take n xs @ replicate (n - length xs) 0"

definition begin_descriptor :: "stream_reader_core \<Rightarrow> stream_reader_core \<times> unit io_result" where
  "begin_descriptor c =
     (case (get_le (rc_staging c) 6 :: u32 io_result) of
        Ok dl \<Rightarrow>
          let descriptor_length = ucast dl :: u64; limit = max_descriptor_bytes (rc_options c) in
          if descriptor_length < word_of_nat PREFIX_LEN then rc_fail c (InvalidHeader ''descriptor_length'')
          else if descriptor_length \<le> limit then
            (c\<lparr>rc_staging := resize0 (unat descriptor_length) (rc_staging c),
               rc_target := unat descriptor_length, rc_state := AtDescriptor\<rparr>, Ok ())
          else rc_fail c (FrameTooLarge ''descriptor'' descriptor_length limit)
      | Err e \<Rightarrow> (c, Err e)
      | Panic \<Rightarrow> (c, Panic))"

definition complete_tensor :: "stream_reader_core \<Rightarrow> stream_reader_core \<times> unit io_result" where
  "complete_tensor c =
     (case rc_pending c of
        None \<Rightarrow> rc_fail c CoreFailed
      | Some p \<Rightarrow>
          (c\<lparr>rc_pending := None,
             rc_tensor := Some \<lparr>st_descriptor = pd_descriptor p, st_buffers = pd_buffers p\<rparr>,
             rc_state := TensorReady\<rparr>, Ok ()))"

definition rc_buffer_handle :: "stream_reader_core \<Rightarrow> usize \<Rightarrow> buffer_handle option" where
  "rc_buffer_handle c i =
     (case rc_pending c of
        None \<Rightarrow> None
      | Some p \<Rightarrow>
          if i < length (buffers (pd_descriptor p)) then Some (buffers (pd_descriptor p) ! i) else None)"

definition begin_buffer ::
  "destination_alloc \<Rightarrow> stream_reader_core \<Rightarrow> usize \<Rightarrow> stream_reader_core \<times> unit io_result" where
  "begin_buffer alloc c i =
     (case rc_buffer_handle c i of
        None \<Rightarrow> rc_fail c CoreFailed
      | Some h \<Rightarrow>
          if ro_enforce_sync (rc_options c) \<and> sync_mode h \<noteq> ProducerSynced
          then rc_fail c (InvalidCrossMachineSyncMode i (sync_mode_to_byte (sync_mode h)))
          else if byte_size h > max_buffer_bytes (rc_options c)
          then rc_fail c (FrameTooLarge ''buffer'' (byte_size h) (max_buffer_bytes (rc_options c)))
          else
            (case alloc \<lparr>dr_index = i, dr_byte_size = byte_size h, dr_alignment = alignment h\<rparr> of
               Ok dest \<Rightarrow>
                 (case rc_pending c of
                    None \<Rightarrow> rc_fail c CoreFailed
                  | Some p \<Rightarrow>
                      (c\<lparr>rc_pending := Some (p\<lparr>pd_dest := Some dest\<rparr>), rc_target := unat (byte_size h),
                         rc_filled := 0, rc_state := AtBuffer i\<rparr>, Ok ()))
             | Err e \<Rightarrow> rc_fail c e
             | Panic \<Rightarrow> (c, Panic)))"

definition finish_buffer ::
  "destination_alloc \<Rightarrow> stream_reader_core \<Rightarrow> usize \<Rightarrow> stream_reader_core \<times> unit io_result" where
  "finish_buffer alloc c i =
     (case rc_pending c of
        None \<Rightarrow> rc_fail c CoreFailed
      | Some p \<Rightarrow>
          (case pd_dest p of
             None \<Rightarrow> rc_fail c CoreFailed
           | Some dest \<Rightarrow>
               let c = c\<lparr>rc_pending := Some (p\<lparr>pd_dest := None, pd_buffers := pd_buffers p @ [dest]\<rparr>)\<rparr> in
               if i + 1 < length (buffers (pd_descriptor p)) then begin_buffer alloc c (i + 1)
               else complete_tensor c))"

definition decode_descriptor ::
  "destination_alloc \<Rightarrow> stream_reader_core \<Rightarrow> stream_reader_core \<times> unit io_result" where
  "decode_descriptor alloc c =
     (case decode (rc_staging c) of
        Ok d \<Rightarrow>
          let c = c\<lparr>rc_pending := Some \<lparr>pd_descriptor = d, pd_buffers = [], pd_dest = None\<rparr>\<rparr> in
          if length (buffers d) = 0 then complete_tensor c else begin_buffer alloc c 0
      | Err e \<Rightarrow> rc_fail c (Core e)
      | Panic \<Rightarrow> (c, Panic))"

text \<open>One round of the loop of \<open>step\<close>: either the loop goes on with a new core or it returns.\<close>

definition advance :: "destination_alloc \<Rightarrow> stream_reader_core \<Rightarrow> stream_reader_core \<times> unit io_result" where
  "advance alloc c =
     (case rc_state c of
        Prefix \<Rightarrow> begin_descriptor c
      | AtDescriptor \<Rightarrow> decode_descriptor alloc c
      | AtBuffer i \<Rightarrow> finish_buffer alloc c i
      | _ \<Rightarrow> (c, Ok ()))"

definition loop_rank :: "stream_reader_core \<Rightarrow> nat" where
  "loop_rank c =
     (case rc_state c of Prefix \<Rightarrow> 3 | AtDescriptor \<Rightarrow> 2 | AtBuffer _ \<Rightarrow> 1 | _ \<Rightarrow> 0)"

definition buffers_left :: "stream_reader_core \<Rightarrow> nat" where
  "buffers_left c =
     (case (rc_state c, rc_pending c) of
        (AtBuffer i, Some p) \<Rightarrow> length (buffers (pd_descriptor p)) - i
      | _ \<Rightarrow> 0)"

text \<open>Progress of the loop: a round moves to a later state, or to the next buffer of the table.\<close>

lemma begin_buffer_Ok:
  "begin_buffer alloc c i = (c', Ok ()) \<Longrightarrow>
   \<exists>p dest h. rc_pending c = Some p \<and> i < length (buffers (pd_descriptor p)) \<and> h = buffers (pd_descriptor p) ! i \<and>
     c' = c\<lparr>rc_pending := Some (p\<lparr>pd_dest := Some dest\<rparr>), rc_target := unat (byte_size h), rc_filled := 0,
            rc_state := AtBuffer i\<rparr>"
  by (auto simp: begin_buffer_def rc_buffer_handle_def rc_fail_def split: option.splits if_splits result.splits)

lemma complete_tensor_Ok:
  "complete_tensor c = (c', Ok ()) \<Longrightarrow> rc_state c' = TensorReady"
  by (auto simp: complete_tensor_def rc_fail_def split: option.splits)

lemma begin_descriptor_Ok: "begin_descriptor c = (c', Ok ()) \<Longrightarrow> rc_state c' = AtDescriptor"
  by (auto simp: begin_descriptor_def rc_fail_def Let_def split: result.splits if_splits)

lemma advance_progress:
  assumes "advance alloc c = (c', Ok ())" and "rc_state c \<in> {Prefix, AtDescriptor} \<union> range AtBuffer"
  shows "(c', c) \<in> measures [loop_rank, buffers_left]"
proof (cases "rc_state c")
  case Prefix
  then show ?thesis using assms(1) begin_descriptor_Ok [of c c'] by (auto simp: advance_def loop_rank_def)
next
  case AtDescriptor
  then have "rc_state c' = TensorReady \<or> rc_state c' = AtBuffer 0"
    using assms(1) complete_tensor_Ok begin_buffer_Ok
    by (fastforce simp: advance_def decode_descriptor_def rc_fail_def Let_def split: result.splits if_splits)
  then show ?thesis using AtDescriptor by (auto simp: loop_rank_def)
next
  case (AtBuffer i)
  then have f: "finish_buffer alloc c i = (c', Ok ())" using assms(1) by (simp add: advance_def)
  then obtain p dest where p: "rc_pending c = Some p" "pd_dest p = Some dest"
    by (auto simp: finish_buffer_def rc_fail_def split: option.splits)
  let ?c = "c\<lparr>rc_pending := Some (p\<lparr>pd_dest := None, pd_buffers := pd_buffers p @ [dest]\<rparr>)\<rparr>"
  show ?thesis
  proof (cases "i + 1 < length (buffers (pd_descriptor p))")
    case True
    then have "begin_buffer alloc ?c (i + 1) = (c', Ok ())" using f p by (simp add: finish_buffer_def Let_def)
    from begin_buffer_Ok [OF this] show ?thesis
      using AtBuffer p True by (auto simp: loop_rank_def buffers_left_def)
  next
    case False
    then have "complete_tensor ?c = (c', Ok ())" using f p by (simp add: finish_buffer_def Let_def)
    then show ?thesis using AtBuffer complete_tensor_Ok by (auto simp: loop_rank_def)
  qed
qed (use assms(2) in auto)

function step :: "destination_alloc \<Rightarrow> stream_reader_core \<Rightarrow> stream_reader_core \<times> read_step io_result" where
  "step alloc c =
     (case rc_state c of
        ReadUnusable r \<Rightarrow> (c, Err (CoreUnusable r))
      | ReadFailed \<Rightarrow> (c, Err CoreFailed)
      | Finished \<Rightarrow> (c, Ok StepFinished)
      | TensorReady \<Rightarrow> (c, Ok StepTensor)
      | _ \<Rightarrow>
          if rc_remaining c \<noteq> 0 then (c, Ok (StepInput (rc_remaining c)))
          else
            (case advance alloc c of
               (c', Ok _) \<Rightarrow> step alloc c'
             | (c', Err e) \<Rightarrow> (c', Err e)
             | (c', Panic) \<Rightarrow> (c', Panic)))"
  by pat_completeness auto

termination
proof (relation "inv_image (measures [loop_rank, buffers_left]) snd")
  show "wf (inv_image (measures [loop_rank, buffers_left]) snd)" by (rule wf_inv_image) simp
qed (auto dest!: advance_progress [OF sym])

declare step.simps [simp del]

text \<open>\<open>input_dst\<close> hands out the unfilled part of the destination; \<open>fill_dst\<close> is what a driver does to the
  core through that mutable slice, storing bytes at its start.\<close>

definition input_dst :: "stream_reader_core \<Rightarrow> bytes io_result" where
  "input_dst c =
     (let staged = (if rc_filled c \<le> rc_target c \<and> rc_target c \<le> length (rc_staging c)
                    then Ok (drop (rc_filled c) (take (rc_target c) (rc_staging c))) else Panic) in
      case rc_state c of
        Prefix \<Rightarrow> staged
      | AtDescriptor \<Rightarrow> staged
      | AtBuffer _ \<Rightarrow>
          (case rc_pending c of
             None \<Rightarrow> Ok []
           | Some p \<Rightarrow>
               (case pd_dest p of
                  None \<Rightarrow> Ok []
                | Some dest \<Rightarrow> if rc_filled c \<le> length dest then Ok (drop (rc_filled c) dest) else Panic))
      | _ \<Rightarrow> Ok [])"

definition store_at :: "nat \<Rightarrow> bytes \<Rightarrow> bytes \<Rightarrow> bytes" where
  "store_at k bs xs = take k xs @ bs @ drop (k + length bs) xs"

definition fill_dst :: "stream_reader_core \<Rightarrow> bytes \<Rightarrow> stream_reader_core" where
  "fill_dst c bs =
     (case rc_state c of
        Prefix \<Rightarrow> c\<lparr>rc_staging := store_at (rc_filled c) bs (rc_staging c)\<rparr>
      | AtDescriptor \<Rightarrow> c\<lparr>rc_staging := store_at (rc_filled c) bs (rc_staging c)\<rparr>
      | AtBuffer _ \<Rightarrow>
          c\<lparr>rc_pending := map_option (\<lambda>p. p\<lparr>pd_dest := map_option (store_at (rc_filled c) bs) (pd_dest p)\<rparr>)
             (rc_pending c)\<rparr>
      | _ \<Rightarrow> c)"

definition report_filled :: "stream_reader_core \<Rightarrow> usize \<Rightarrow> stream_reader_core \<times> unit io_result" where
  "report_filled c n =
     (case rc_state c of
        ReadUnusable r \<Rightarrow> (c, Err (CoreUnusable r))
      | ReadFailed \<Rightarrow> (c, Err CoreFailed)
      | Finished \<Rightarrow> (c, Err (InvalidProgressReport n 0))
      | TensorReady \<Rightarrow> (c, Err (InvalidProgressReport n 0))
      | _ \<Rightarrow>
          if n = 0 then
            (if rc_state c = Prefix \<and> rc_filled c = 0 then (c\<lparr>rc_state := Finished\<rparr>, Ok ())
             else rc_fail c UnexpectedEof)
          else if n > rc_remaining c then
            (c\<lparr>rc_state := ReadUnusable LostReadCount\<rparr>, Err (InvalidProgressReport n (rc_remaining c)))
          else (c\<lparr>rc_filled := rc_filled c + n\<rparr>, Ok ()))"

definition reset_to_prefix :: "stream_reader_core \<Rightarrow> stream_reader_core" where
  "reset_to_prefix c =
     c\<lparr>rc_filled := 0, rc_staging := resize0 PREFIX_LEN [], rc_target := PREFIX_LEN, rc_state := Prefix\<rparr>"

definition take_tensor :: "stream_reader_core \<Rightarrow> stream_reader_core \<times> stream_tensor option" where
  "take_tensor c =
     (if rc_state c \<noteq> TensorReady then (c, None)
      else (reset_to_prefix (c\<lparr>rc_tensor := None\<rparr>), rc_tensor c))"

definition mark_read_unusable :: "stream_reader_core \<Rightarrow> stream_reader_core" where
  "mark_read_unusable c = c\<lparr>rc_state := ReadUnusable LostReadCount\<rparr>"

definition reader_is_unusable :: "stream_reader_core \<Rightarrow> bool" where
  "reader_is_unusable c = (case rc_state c of ReadUnusable _ \<Rightarrow> True | _ \<Rightarrow> False)"

section \<open>Driving the core\<close>

text \<open>A driver owns the unread input. It asks for a step, and while the core wants input it stores
  some of the next bytes, as many as it likes up to the requested number, and reports the count.\<close>

inductive drives :: "destination_alloc \<Rightarrow> stream_reader_core \<times> bytes \<Rightarrow> stream_reader_core \<times> bytes \<Rightarrow> bool"
  for alloc where
  chunk: "step alloc c = (c', Ok (StepInput len)) \<Longrightarrow> 0 < n \<Longrightarrow> n \<le> len \<Longrightarrow> n \<le> length inp \<Longrightarrow>
    report_filled (fill_dst c' (take n inp)) n = (c'', Ok ()) \<Longrightarrow>
    drives alloc (c, inp) (c'', drop n inp)"

inductive_cases drivesE: "drives alloc (c, inp) x"

section \<open>Reading one tensor\<close>

text \<open>The tensors a reader with options \<open>opts\<close> and allocator \<open>alloc\<close> accepts: a valid descriptor within the
  limits, one buffer of the declared size per handle, and a destination for each.\<close>

definition readable :: "destination_alloc \<Rightarrow> stream_reader_options \<Rightarrow> tensor_descriptor \<Rightarrow> bytes list \<Rightarrow> bool" where
  "readable alloc opts d bufs \<longleftrightarrow>
     descriptor_ok d \<and> length (descriptor_bytes d) < 2 ^ 32 \<and>
     length (descriptor_bytes d) \<le> unat (max_descriptor_bytes opts) \<and> length bufs = length (buffers d) \<and>
     (\<forall>i < length bufs.
        let h = buffers d ! i in
        length (bufs ! i) = unat (byte_size h) \<and> byte_size h \<le> max_buffer_bytes opts \<and>
        (ro_enforce_sync opts \<longrightarrow> sync_mode h = ProducerSynced) \<and>
        (\<exists>dest. alloc \<lparr>dr_index = i, dr_byte_size = byte_size h, dr_alignment = alignment h\<rparr> = Ok dest \<and>
           length dest = unat (byte_size h)))"

definition tensor_bytes :: "tensor_descriptor \<Rightarrow> bytes list \<Rightarrow> bytes" where
  "tensor_bytes d bufs = descriptor_bytes d @ concat bufs"

text \<open>The states of a core that reads the tensor \<open>(d, bufs)\<close>, with the unread input up to \<open>rest\<close>.\<close>

definition reading ::
  "stream_reader_options \<Rightarrow> tensor_descriptor \<Rightarrow> bytes list \<Rightarrow> bytes \<Rightarrow> stream_reader_core \<Rightarrow> bytes \<Rightarrow> bool" where
  "reading opts d bufs rest c inp \<longleftrightarrow>
     rc_options c = opts \<and>
     (case rc_state c of
        Prefix \<Rightarrow>
          rc_target c = 10 \<and> length (rc_staging c) = 10 \<and> rc_filled c \<le> 10 \<and> rc_pending c = None \<and>
          rc_tensor c = None \<and> take (rc_filled c) (rc_staging c) = take (rc_filled c) (descriptor_bytes d) \<and>
          inp = drop (rc_filled c) (descriptor_bytes d) @ concat bufs @ rest
      | AtDescriptor \<Rightarrow>
          rc_target c = length (descriptor_bytes d) \<and> length (rc_staging c) = rc_target c \<and>
          rc_filled c \<le> rc_target c \<and> rc_pending c = None \<and> rc_tensor c = None \<and>
          take (rc_filled c) (rc_staging c) = take (rc_filled c) (descriptor_bytes d) \<and>
          inp = drop (rc_filled c) (descriptor_bytes d) @ concat bufs @ rest
      | AtBuffer i \<Rightarrow>
          i < length bufs \<and> rc_target c = length (bufs ! i) \<and> rc_filled c \<le> rc_target c \<and> rc_tensor c = None \<and>
          (\<exists>dest. rc_pending c = Some \<lparr>pd_descriptor = d, pd_buffers = take i bufs, pd_dest = Some dest\<rparr> \<and>
             length dest = length (bufs ! i) \<and> take (rc_filled c) dest = take (rc_filled c) (bufs ! i)) \<and>
          inp = drop (rc_filled c) (bufs ! i) @ concat (drop (i + 1) bufs) @ rest
      | TensorReady \<Rightarrow>
          rc_pending c = None \<and> rc_tensor c = Some \<lparr>st_descriptor = d, st_buffers = bufs\<rparr> \<and> inp = rest
      | _ \<Rightarrow> False)"

lemma reading_start: "reading opts d bufs rest (reader_with_options opts) (tensor_bytes d bufs @ rest)"
  by (simp add: reading_def reader_with_options_def PREFIX_LEN_def tensor_bytes_def)

lemma take_store_at:
  "length bs \<le> length xs - k \<Longrightarrow> k \<le> length xs \<Longrightarrow> take (k + length bs) (store_at k bs xs) = take k xs @ bs"
  by (simp add: store_at_def)

lemma length_store_at: "k + length bs \<le> length xs \<Longrightarrow> length (store_at k bs xs) = length xs"
  by (simp add: store_at_def)

lemma store_chunk:
  assumes "take k xs = take k src" and "k + n \<le> length xs" and "length xs \<le> length src" and "bs = take n (drop k src)"
  shows "take (k + n) (store_at k bs xs) = take (k + n) src" "length (store_at k bs xs) = length xs"
proof -
  have l: "length bs = n" using assms by simp
  then show "length (store_at k bs xs) = length xs" using assms(2) by (simp add: length_store_at)
  have "take (k + n) (store_at k bs xs) = take k src @ bs"
    using take_store_at [of bs xs k] assms(1,2) l by simp
  then show "take (k + n) (store_at k bs xs) = take (k + n) src" using assms(4) by (simp add: take_add)
qed

text \<open>Storing and reporting a chunk keeps the relation.\<close>

lemma reading_chunk:
  assumes "reading opts d bufs rest c inp" and "0 < n" and "n \<le> rc_remaining c" and "20 \<le> length (descriptor_bytes d)"
  shows "\<exists>c'. report_filled (fill_dst c (take n inp)) n = (c', Ok ()) \<and> reading opts d bufs rest c' (drop n inp)"
proof (cases "rc_state c")
  case Prefix
  let ?D = "descriptor_bytes d"
  have c: "rc_target c = 10" "length (rc_staging c) = 10" "rc_filled c + n \<le> 10"
    "take (rc_filled c) (rc_staging c) = take (rc_filled c) ?D" "inp = drop (rc_filled c) ?D @ concat bufs @ rest"
    using assms(1,3) Prefix by (auto simp: reading_def rc_remaining_def)
  have bs: "take n inp = take n (drop (rc_filled c) ?D)" using c assms(4) by simp
  have "drop n inp = drop (rc_filled c + n) ?D @ concat bufs @ rest"
    using c assms(4) by (simp add: add.commute)
  then show ?thesis
    using assms(1,2) Prefix c store_chunk [of "rc_filled c" "rc_staging c" ?D n] assms(4) bs
    by (auto simp: reading_def report_filled_def fill_dst_def rc_remaining_def)
next
  case AtDescriptor
  let ?D = "descriptor_bytes d"
  have c: "rc_target c = length ?D" "length (rc_staging c) = length ?D" "rc_filled c + n \<le> length ?D"
    "take (rc_filled c) (rc_staging c) = take (rc_filled c) ?D" "inp = drop (rc_filled c) ?D @ concat bufs @ rest"
    using assms(1,3) AtDescriptor by (auto simp: reading_def rc_remaining_def)
  have bs: "take n inp = take n (drop (rc_filled c) ?D)" using c by (simp del: length_descriptor_bytes)
  have "drop n inp = drop (rc_filled c + n) ?D @ concat bufs @ rest"
    using c by (simp add: add.commute del: length_descriptor_bytes)
  then show ?thesis
    using assms(1,2) AtDescriptor c store_chunk [of "rc_filled c" "rc_staging c" ?D n] bs
    by (auto simp: reading_def report_filled_def fill_dst_def rc_remaining_def simp del: length_descriptor_bytes)
next
  case (AtBuffer i)
  let ?B = "bufs ! i"
  obtain dest where c: "i < length bufs" "rc_target c = length ?B" "length dest = length ?B" "rc_filled c + n \<le> length ?B"
    "rc_pending c = Some \<lparr>pd_descriptor = d, pd_buffers = take i bufs, pd_dest = Some dest\<rparr>"
    "take (rc_filled c) dest = take (rc_filled c) ?B" "inp = drop (rc_filled c) ?B @ concat (drop (i + 1) bufs) @ rest"
    using assms(1,3) AtBuffer by (auto simp: reading_def rc_remaining_def)
  have bs: "take n inp = take n (drop (rc_filled c) ?B)" using c by simp
  have "drop n inp = drop (rc_filled c + n) ?B @ concat (drop (i + 1) bufs) @ rest"
    using c by (simp add: add.commute)
  then show ?thesis
    using assms(1,2) AtBuffer c store_chunk [of "rc_filled c" dest ?B n] bs
    by (auto simp: reading_def report_filled_def fill_dst_def rc_remaining_def)
qed (use assms in \<open>auto simp: rc_remaining_def reading_def\<close>)

lemma descriptor_bytes_long: "20 \<le> length (descriptor_bytes d)"
  by (simp add: descriptor_body_def)

lemma descriptor_length_field:
  "get_le (take 10 (descriptor_bytes d)) 6 = (Ok (word_of_nat (length (descriptor_bytes d))) :: u32 io_result)"
proof -
  let ?l = "word_of_nat (length (descriptor_bytes d)) :: u32"
  obtain l0 l1 l2 l3 where w: "to_le_bytes ?l = [l0, l1, l2, l3]" "from_le_bytes [l0, l1, l2, l3] = ?l"
    by (rule u32_bytes)
  have "descriptor_bytes d = 0x48 # 0x52 # 0x52 # 0x59 # version_major d # version_minor d # l0 # l1 # l2 # l3 #
      descriptor_body d"
    using w(1) by (simp add: descriptor_bytes_def MAGIC_def)
  then have b: "take 10 (descriptor_bytes d) = [0x48, 0x52, 0x52, 0x59, version_major d, version_minor d, l0, l1, l2, l3]"
    by simp
  show ?thesis unfolding b using w(2) by (simp add: get_le_Ok)
qed

lemma resize0_grow: "length xs \<le> n \<Longrightarrow> resize0 n xs = xs @ replicate (n - length xs) 0"
  by (simp add: resize0_def)

lemma begin_buffer_reading:
  assumes r: "readable alloc opts d bufs" and "rc_options c = opts" and "i < length bufs"
    and "rc_pending c = Some \<lparr>pd_descriptor = d, pd_buffers = take i bufs, pd_dest = x\<rparr>" and "rc_tensor c = None"
  shows "\<exists>c'. begin_buffer alloc c i = (c', Ok ()) \<and> reading opts d bufs rest c' (concat (drop i bufs) @ rest)"
proof -
  let ?h = "buffers d ! i"
  obtain dest where h: "i < length (buffers d)" "length (bufs ! i) = unat (byte_size ?h)"
    "byte_size ?h \<le> max_buffer_bytes opts" "ro_enforce_sync opts \<longrightarrow> sync_mode ?h = ProducerSynced"
    "alloc \<lparr>dr_index = i, dr_byte_size = byte_size ?h, dr_alignment = alignment ?h\<rparr> = Ok dest"
    "length dest = unat (byte_size ?h)"
    using r assms(3) unfolding readable_def Let_def by auto
  have "drop i bufs = bufs ! i # drop (i + 1) bufs" using assms(3) by (simp add: Cons_nth_drop_Suc)
  then show ?thesis
    using assms h by (auto simp: begin_buffer_def rc_buffer_handle_def reading_def)
qed

lemma advance_reading:
  assumes r: "readable alloc opts d bufs" and c: "reading opts d bufs rest c inp"
    and "rc_state c \<in> {Prefix, AtDescriptor} \<union> range AtBuffer" and z: "rc_remaining c = 0"
  shows "\<exists>c'. advance alloc c = (c', Ok ()) \<and> reading opts d bufs rest c' inp"
proof (cases "rc_state c")
  case Prefix
  let ?D = "descriptor_bytes d"
  have s: "rc_filled c = 10" "rc_staging c = take 10 ?D" "rc_pending c = None" "rc_tensor c = None" "rc_options c = opts"
    "inp = drop 10 ?D @ concat bufs @ rest"
    using c z Prefix by (auto simp: reading_def rc_remaining_def)
  have l: "length ?D < 2 ^ 32" "length ?D \<le> unat (max_descriptor_bytes opts)" using r by (simp_all add: readable_def)
  let ?w = "ucast (word_of_nat (length ?D) :: u32) :: u64"
  have uw: "unat ?w = length ?D" using l(1) by (simp only: unat_ucast_u32_u64 unat_of_nat_u32)
  then have "\<not> ?w < word_of_nat PREFIX_LEN" "?w \<le> max_descriptor_bytes opts"
    using descriptor_bytes_long [of d] l(2) by (simp_all only: word_less_nat_alt word_le_nat_alt PREFIX_LEN_def) simp_all
  then have "begin_descriptor c =
      (c\<lparr>rc_staging := resize0 (length ?D) (take 10 ?D), rc_target := length ?D, rc_state := AtDescriptor\<rparr>, Ok ())"
    unfolding begin_descriptor_def s descriptor_length_field result.case Let_def by (simp only: if_True if_False uw)
  then show ?thesis
    using Prefix s descriptor_bytes_long [of d]
    by (auto simp: advance_def reading_def resize0_grow simp del: length_descriptor_bytes)
next
  case AtDescriptor
  let ?D = "descriptor_bytes d"
  have s: "rc_staging c = ?D" "rc_pending c = None" "rc_tensor c = None" "rc_options c = opts" "inp = concat bufs @ rest"
    using c z AtDescriptor by (auto simp: reading_def rc_remaining_def simp del: length_descriptor_bytes)
  have dec: "decode ?D = Ok d" and len: "length bufs = length (buffers d)"
    using r decode_bytes [of d "[]"] by (simp_all add: readable_def)
  let ?c = "c\<lparr>rc_pending := Some \<lparr>pd_descriptor = d, pd_buffers = [], pd_dest = None\<rparr>\<rparr>"
  show ?thesis
  proof (cases "buffers d = []")
    case True
    then have "bufs = []" using len by simp
    with True AtDescriptor s dec show ?thesis
      by (auto simp: advance_def decode_descriptor_def complete_tensor_def reading_def Let_def)
  next
    case False
    then have "0 < length bufs" using len by simp
    then obtain c' where "begin_buffer alloc ?c 0 = (c', Ok ())" "reading opts d bufs rest c' (concat bufs @ rest)"
      using begin_buffer_reading [OF r, of ?c 0 None rest] s by auto
    then show ?thesis using False AtDescriptor s dec by (simp add: advance_def decode_descriptor_def Let_def)
  qed
next
  case (AtBuffer i)
  obtain dest where s: "i < length bufs" "rc_tensor c = None" "rc_options c = opts"
    "rc_pending c = Some \<lparr>pd_descriptor = d, pd_buffers = take i bufs, pd_dest = Some dest\<rparr>" "dest = bufs ! i"
    "inp = concat (drop (i + 1) bufs) @ rest"
    using c z AtBuffer by (auto simp: reading_def rc_remaining_def)
  have len: "length bufs = length (buffers d)" using r by (simp add: readable_def)
  have t: "take i bufs @ [bufs ! i] = take (i + 1) bufs" using s(1) by (simp add: take_Suc_conv_app_nth)
  let ?c = "c\<lparr>rc_pending := Some \<lparr>pd_descriptor = d, pd_buffers = take (i + 1) bufs, pd_dest = None\<rparr>\<rparr>"
  show ?thesis
  proof (cases "i + 1 < length bufs")
    case True
    then obtain c' where "begin_buffer alloc ?c (i + 1) = (c', Ok ())"
      "reading opts d bufs rest c' (concat (drop (i + 1) bufs) @ rest)"
      using begin_buffer_reading [OF r, of ?c "i + 1" None rest] s by auto
    then show ?thesis using True AtBuffer s len t by (auto simp: advance_def finish_buffer_def Let_def)
  next
    case False
    then have "take (i + 1) bufs = bufs" "drop (i + 1) bufs = []" by simp_all
    then show ?thesis using False AtBuffer s len t
      by (auto simp: advance_def finish_buffer_def complete_tensor_def reading_def Let_def)
  qed
qed (use assms(3) in auto)

lemma step_induct:
  assumes "\<And>alloc c. (\<And>c'. rc_state c \<in> {Prefix, AtDescriptor} \<union> range AtBuffer \<Longrightarrow> rc_remaining c = 0 \<Longrightarrow>
      advance alloc c = (c', Ok ()) \<Longrightarrow> P alloc c') \<Longrightarrow> P alloc c"
  shows "P alloc c"
proof (induction c rule: wf_induct_rule [OF wf_measures [of "[loop_rank, buffers_left]"]])
  case (1 c)
  show ?case
  proof (rule assms)
    fix c' assume "rc_state c \<in> {Prefix, AtDescriptor} \<union> range AtBuffer" "advance alloc c = (c', Ok ())"
    then show "P alloc c'" using 1 advance_progress by blast
  qed
qed

lemma step_advance:
  assumes "rc_state c \<in> {Prefix, AtDescriptor} \<union> range AtBuffer" and "rc_remaining c = 0"
    and "advance alloc c = (c', Ok ())"
  shows "step alloc c = step alloc c'"
proof -
  from assms(1) consider "rc_state c = Prefix" | "rc_state c = AtDescriptor" | i where "rc_state c = AtBuffer i" by auto
  then show ?thesis
    by cases (simp_all add: step.simps [of alloc c] assms(2,3))
qed

text \<open>While a tensor is being read, \<open>step\<close> succeeds: it either has the tensor or asks for a positive
  number of bytes, never beyond the tensor.\<close>

lemma step_reading:
  assumes "readable alloc opts d bufs" and "reading opts d bufs rest c inp"
  shows "\<exists>c'. reading opts d bufs rest c' inp \<and>
    (step alloc c = (c', Ok StepTensor) \<and> rc_state c' = TensorReady \<or>
     step alloc c = (c', Ok (StepInput (rc_remaining c'))) \<and> 0 < rc_remaining c')"
  using assms
proof (induction alloc c rule: step_induct)
  case (1 alloc c)
  note IH = "1.IH"
  show ?case
  proof (cases "rc_state c \<in> {Prefix, AtDescriptor} \<union> range AtBuffer")
    case False
    then have "rc_state c = TensorReady"
      using "1.prems"(2) by (auto simp: reading_def split: read_state.splits)
    then show ?thesis using "1.prems"(2) by (intro exI [of _ c]) (simp add: step.simps)
  next
    case active: True
    show ?thesis
    proof (cases "rc_remaining c = 0")
      case False
      then show ?thesis using "1.prems"(2) active by (intro exI [of _ c]) (auto simp: step.simps)
    next
      case True
      obtain c1 where c1: "advance alloc c = (c1, Ok ())" "reading opts d bufs rest c1 inp"
        using advance_reading [OF "1.prems" active True] by blast
      have eq: "step alloc c = step alloc c1"
        using active True c1(1) by (rule step_advance)
      have "\<exists>c'. reading opts d bufs rest c' inp \<and>
          (step alloc c1 = (c', Ok StepTensor) \<and> rc_state c' = TensorReady \<or>
           step alloc c1 = (c', Ok (StepInput (rc_remaining c'))) \<and> 0 < rc_remaining c')"
        using IH [OF active True c1(1)] c1(2) "1.prems"(1) by blast
      then show ?thesis unfolding eq .
    qed
  qed
qed

end
