(* ===== verification/Stream_Delivery.thy ===== *)
theory Stream_Delivery
  imports Stream_Read
begin

text \<open>
  What a driver gets from the sans-io stream reader. On the bytes of a tensor: the same tensor whatever the
  chunks the input arrives in, and always after finitely many of them. On arbitrary bytes and arbitrary
  sequences of calls: no panic, and only tensors that are valid. The contract of the destination
  allocator is a locale, interpreted on \<open>SystemDestinations\<close>.
\<close>

section \<open>Delivery of one tensor\<close>

lemma drives_reading:
  assumes r: "readable alloc opts d bufs" and "reading opts d bufs rest c inp" and "drives alloc (c, inp) (c2, inp2)"
  shows "reading opts d bufs rest c2 inp2"
proof -
  from assms(3) obtain c1 len n where s: "step alloc c = (c1, Ok (StepInput len))" "0 < n" "n \<le> len"
    "report_filled (fill_dst c1 (take n inp)) n = (c2, Ok ())" "inp2 = drop n inp"
    by (auto elim: drivesE)
  with step_reading [OF r assms(2)] have "reading opts d bufs rest c1 inp" "n \<le> rc_remaining c1" by auto
  from reading_chunk [OF this(1) s(2) this(2) descriptor_bytes_long] s(4,5) show ?thesis by auto
qed

lemma drives_star_reading:
  assumes "readable alloc opts d bufs" and "(drives alloc)\<^sup>*\<^sup>* (c, inp) (c2, inp2)" and "reading opts d bufs rest c inp"
  shows "reading opts d bufs rest c2 inp2"
  using assms(2,3) by (induction rule: rtranclp_induct2) (auto intro: drives_reading [OF assms(1)])

text \<open>What is left of the tensor in the input bounds what the core asks for.\<close>

lemma reading_remaining:
  "reading opts d bufs rest c inp \<Longrightarrow> rc_remaining c + length rest \<le> length inp"
  using descriptor_bytes_long [of d]
  by (auto simp: reading_def rc_remaining_def split: read_state.splits)

lemma reading_take:
  "reading opts d bufs rest c inp \<Longrightarrow> rc_state c = TensorReady \<Longrightarrow>
   inp = rest \<and> take_tensor c = (reader_with_options opts, Some \<lparr>st_descriptor = d, st_buffers = bufs\<rparr>)"
  by (cases c) (simp add: reading_def take_tensor_def reset_to_prefix_def reader_with_options_def resize0_def)

lemma reading_outcome:
  assumes "readable alloc opts d bufs" and "reading opts d bufs rest c inp"
  obtains (tensor) c' where "step alloc c = (c', Ok StepTensor)" "inp = rest"
      "take_tensor c' = (reader_with_options opts, Some \<lparr>st_descriptor = d, st_buffers = bufs\<rparr>)"
    | (input) c' len where "step alloc c = (c', Ok (StepInput len))" "0 < len" "len + length rest \<le> length inp"
      "len = rc_remaining c'" "reading opts d bufs rest c' inp"
proof -
  obtain c' where c': "reading opts d bufs rest c' inp"
    "step alloc c = (c', Ok StepTensor) \<and> rc_state c' = TensorReady \<or>
     step alloc c = (c', Ok (StepInput (rc_remaining c'))) \<and> 0 < rc_remaining c'"
    using step_reading [OF assms] by blast
  from c'(2) show thesis
  proof
    assume "step alloc c = (c', Ok StepTensor) \<and> rc_state c' = TensorReady"
    then show thesis using tensor reading_take [OF c'(1)] by simp
  next
    assume "step alloc c = (c', Ok (StepInput (rc_remaining c'))) \<and> 0 < rc_remaining c'"
    then show thesis using input c'(1) reading_remaining [OF c'(1)] by blast
  qed
qed

text \<open>Every run can be carried on to the tensor, the input of it shrinking with each chunk.\<close>

lemma drives_to_tensor:
  assumes r: "readable alloc opts d bufs"
  shows "reading opts d bufs rest c inp \<Longrightarrow>
    \<exists>c1 c2. (drives alloc)\<^sup>*\<^sup>* (c, inp) (c1, rest) \<and> step alloc c1 = (c2, Ok StepTensor) \<and>
      take_tensor c2 = (reader_with_options opts, Some \<lparr>st_descriptor = d, st_buffers = bufs\<rparr>)"
proof (induction "length inp" arbitrary: c inp rule: less_induct)
  case less
  from r less.prems show ?case
  proof (cases rule: reading_outcome)
    case (tensor c')
    then show ?thesis by blast
  next
    case (input c' len)
    obtain c1 where c1: "report_filled (fill_dst c' (take len inp)) len = (c1, Ok ())"
      "reading opts d bufs rest c1 (drop len inp)"
      using reading_chunk [OF input(5,2) _ descriptor_bytes_long] input(4) by blast
    have d: "drives alloc (c, inp) (c1, drop len inp)"
      using input c1(1) by (intro drives.chunk) auto
    have "length (drop len inp) < length inp" using input(2,3) by simp
    from less.hyps [OF this c1(2)] show ?thesis by (meson converse_rtranclp_into_rtranclp d)
  qed
qed

lemma drives_wf: "wf {(y, x). drives alloc x y}"
  by (rule wf_subset [of "measure (length \<circ> snd)"]) (auto elim!: drives.cases)

text \<open>A tensor of one 4-byte buffer.\<close>

definition sample_tensor :: tensor_descriptor where
  "sample_tensor = sample_descriptor
     \<lparr>td_shape := [1],
      buffers := [\<lparr>byte_size = 4, alignment = 64, device_tag = Cpu, sync_mode = ProducerSynced,
        memory_class = Standard\<rparr>]\<rparr>"

lemma sample_tensor_readable:
  "readable system_allocate default_reader_options sample_tensor [[1, 2, 3, 4]]"
  by (simp add: readable_def sample_tensor_def sample_descriptor_def default_reader_options_def
      descriptor_ok_def fields_ok_def finish_ok_def MAX_RANK_def DEFAULT_MAX_DESCRIPTOR_BYTES_def
      descriptor_body_def section_bytes_def opt_bytes_def handle_bytes_def handle_ok_def memory_class_ok_def
      device_tag_ok_def is_virtual_def system_allocate_def aligned_buf_zeroed_def is_power_of_two_def
      pow2_nat.simps MIN_BUFFER_ALIGNMENT_def)

section \<open>Arbitrary input, arbitrary calls\<close>

text \<open>The cores a caller can get: any method in any order, any bytes stored through \<open>input_dst\<close>, any
  count reported.\<close>

inductive reader_reachable :: "destination_alloc \<Rightarrow> stream_reader_options \<Rightarrow> stream_reader_core \<Rightarrow> bool"
  for alloc opts where
  new: "reader_reachable alloc opts (reader_with_options opts)"
| step: "reader_reachable alloc opts c \<Longrightarrow> reader_reachable alloc opts (fst (step alloc c))"
| fill: "reader_reachable alloc opts c \<Longrightarrow> input_dst c = Ok dst \<Longrightarrow> length bs \<le> length dst \<Longrightarrow>
    reader_reachable alloc opts (fill_dst c bs)"
| report: "reader_reachable alloc opts c \<Longrightarrow> reader_reachable alloc opts (fst (report_filled c n))"
| take: "reader_reachable alloc opts c \<Longrightarrow> reader_reachable alloc opts (fst (take_tensor c))"
| mark: "reader_reachable alloc opts c \<Longrightarrow> reader_reachable alloc opts (mark_read_unusable c)"

definition accepted_handle :: "stream_reader_options \<Rightarrow> buffer_handle \<Rightarrow> bytes \<Rightarrow> bool" where
  "accepted_handle opts h b \<longleftrightarrow>
     length b = unat (byte_size h) \<and> byte_size h \<le> max_buffer_bytes opts \<and>
     (ro_enforce_sync opts \<longrightarrow> sync_mode h = ProducerSynced)"

definition stream_tensor_ok :: "stream_reader_options \<Rightarrow> stream_tensor \<Rightarrow> bool" where
  "stream_tensor_ok opts t \<longleftrightarrow>
     descriptor_ok (st_descriptor t) \<and> list_all2 (accepted_handle opts) (buffers (st_descriptor t)) (st_buffers t)"

definition reader_inv :: "stream_reader_options \<Rightarrow> stream_reader_core \<Rightarrow> bool" where
  "reader_inv opts c \<longleftrightarrow>
     rc_options c = opts \<and>
     (case rc_state c of
        Prefix \<Rightarrow> rc_target c = 10 \<and> length (rc_staging c) = 10 \<and> rc_filled c \<le> 10
      | AtDescriptor \<Rightarrow> rc_target c = length (rc_staging c) \<and> rc_filled c \<le> rc_target c
      | AtBuffer i \<Rightarrow>
          (\<exists>p dest. rc_pending c = Some p \<and> pd_dest p = Some dest \<and> descriptor_ok (pd_descriptor p) \<and>
             i < length (buffers (pd_descriptor p)) \<and> accepted_handle opts (buffers (pd_descriptor p) ! i) dest \<and>
             list_all2 (accepted_handle opts) (take i (buffers (pd_descriptor p))) (pd_buffers p) \<and>
             rc_target c = length dest \<and> rc_filled c \<le> rc_target c)
      | TensorReady \<Rightarrow> (\<exists>t. rc_tensor c = Some t \<and> stream_tensor_ok opts t)
      | _ \<Rightarrow> True)"

text \<open>A pending tensor whose first \<open>i\<close> buffers have arrived.\<close>

definition pending_ok :: "stream_reader_options \<Rightarrow> nat \<Rightarrow> pending \<Rightarrow> bool" where
  "pending_ok opts i p \<longleftrightarrow>
     descriptor_ok (pd_descriptor p) \<and>
     list_all2 (accepted_handle opts) (take i (buffers (pd_descriptor p))) (pd_buffers p)"

text \<open>A call that moves to a new core: it does not panic and keeps the invariant.\<close>

definition keeps_inv :: "stream_reader_options \<Rightarrow> stream_reader_core \<times> 'a io_result \<Rightarrow> bool" where
  "keeps_inv opts r \<longleftrightarrow> reader_inv opts (fst r) \<and> snd r \<noteq> Panic"

lemma rc_fail_inv: "rc_options c = opts \<Longrightarrow> keeps_inv opts (rc_fail c e)"
  by (simp add: keeps_inv_def rc_fail_def reader_inv_def)

lemma complete_tensor_inv:
  "rc_options c = opts \<Longrightarrow> rc_pending c = Some p \<Longrightarrow> pending_ok opts (length (buffers (pd_descriptor p))) p \<Longrightarrow>
   keeps_inv opts (complete_tensor c)"
  by (simp add: complete_tensor_def keeps_inv_def reader_inv_def pending_ok_def stream_tensor_ok_def)

lemma begin_descriptor_inv:
  assumes "rc_options c = opts" and "length (rc_staging c) = 10" and "rc_filled c = 10"
  shows "keeps_inv opts (begin_descriptor c)"
proof -
  obtain dl :: u32 where "get_le (rc_staging c) 6 = (Ok dl :: u32 io_result)" using assms(2) by (simp add: get_le_Ok)
  moreover have "PREFIX_LEN \<le> unat (ucast dl :: u64)" if "\<not> (ucast dl :: u64) < word_of_nat PREFIX_LEN"
    using that by (simp add: word_less_nat_alt PREFIX_LEN_def)
  ultimately show ?thesis
    using assms rc_fail_inv
    by (auto simp: begin_descriptor_def Let_def keeps_inv_def reader_inv_def resize0_def PREFIX_LEN_def rc_fail_def)
qed

locale destinations =
  fixes alloc :: destination_alloc
  assumes alloc_size: "alloc r = Ok dest \<Longrightarrow> length dest = unat (dr_byte_size r)"
    and alloc_no_panic: "alloc r \<noteq> Panic"
begin

lemma begin_buffer_inv:
  assumes "rc_options c = opts" and "rc_pending c = Some p" and "pending_ok opts i p"
    and "i < length (buffers (pd_descriptor p))"
  shows "keeps_inv opts (begin_buffer alloc c i)"
proof -
  let ?h = "buffers (pd_descriptor p) ! i"
  let ?r = "\<lparr>dr_index = i, dr_byte_size = byte_size ?h, dr_alignment = alignment ?h\<rparr>"
  have "alloc ?r \<noteq> Panic" by (rule alloc_no_panic)
  moreover have "length dest = unat (byte_size ?h)" if "alloc ?r = Ok dest" for dest using alloc_size [OF that] by simp
  ultimately show ?thesis
    using assms
    by (cases "alloc ?r")
      (auto simp: begin_buffer_def rc_buffer_handle_def keeps_inv_def reader_inv_def rc_fail_def pending_ok_def
        accepted_handle_def)
qed

lemma finish_buffer_inv:
  assumes c: "reader_inv opts c" and i: "rc_state c = AtBuffer i"
  shows "keeps_inv opts (finish_buffer alloc c i)"
proof -
  obtain p dest where p: "rc_options c = opts" "rc_pending c = Some p" "pd_dest p = Some dest"
    "descriptor_ok (pd_descriptor p)" "i < length (buffers (pd_descriptor p))"
    "accepted_handle opts (buffers (pd_descriptor p) ! i) dest"
    "list_all2 (accepted_handle opts) (take i (buffers (pd_descriptor p))) (pd_buffers p)"
    using c i by (auto simp: reader_inv_def)
  let ?p = "p\<lparr>pd_dest := None, pd_buffers := pd_buffers p @ [dest]\<rparr>"
  have q: "pending_ok opts (i + 1) ?p"
    using p(4-7) by (simp add: pending_ok_def take_Suc_conv_app_nth list_all2_appendI)
  show ?thesis
  proof (cases "i + 1 < length (buffers (pd_descriptor p))")
    case True
    then have "finish_buffer alloc c i = begin_buffer alloc (c\<lparr>rc_pending := Some ?p\<rparr>) (i + 1)"
      using p by (simp add: finish_buffer_def Let_def)
    then show ?thesis using begin_buffer_inv [of "c\<lparr>rc_pending := Some ?p\<rparr>" opts ?p "i + 1"] p(1) q True by simp
  next
    case False
    then have "finish_buffer alloc c i = complete_tensor (c\<lparr>rc_pending := Some ?p\<rparr>)" "i + 1 = length (buffers (pd_descriptor p))"
      using p by (simp_all add: finish_buffer_def Let_def)
    then show ?thesis using complete_tensor_inv [of "c\<lparr>rc_pending := Some ?p\<rparr>" opts ?p] p(1) q by simp
  qed
qed

lemma decode_descriptor_inv:
  assumes "rc_options c = opts"
  shows "keeps_inv opts (decode_descriptor alloc c)"
proof (cases "decode (rc_staging c)")
  case (Ok d)
  let ?p = "\<lparr>pd_descriptor = d, pd_buffers = [], pd_dest = None\<rparr>"
  have "descriptor_ok d" using decode_sound Ok by blast
  then have q: "pending_ok opts 0 ?p" by (simp add: pending_ok_def)
  show ?thesis
    using Ok assms begin_buffer_inv [of "c\<lparr>rc_pending := Some ?p\<rparr>" opts ?p 0]
      complete_tensor_inv [of "c\<lparr>rc_pending := Some ?p\<rparr>" opts ?p] q
    by (cases "buffers d = []") (simp_all add: decode_descriptor_def Let_def)
next
  case (Err e)
  then show ?thesis using rc_fail_inv [OF assms] by (simp add: decode_descriptor_def)
next
  case Panic
  then show ?thesis using decode_sound by blast
qed

lemma advance_inv:
  assumes "reader_inv opts c" and "rc_remaining c = 0"
  shows "keeps_inv opts (advance alloc c)"
proof (cases "rc_state c")
  case Prefix
  then show ?thesis using assms begin_descriptor_inv [of c opts] by (simp add: advance_def reader_inv_def rc_remaining_def)
next
  case AtDescriptor
  then show ?thesis using assms decode_descriptor_inv [of c opts] by (simp add: advance_def reader_inv_def)
next
  case (AtBuffer i)
  then show ?thesis using finish_buffer_inv [OF assms(1)] by (simp add: advance_def)
qed (use assms in \<open>simp_all add: advance_def keeps_inv_def\<close>)

lemma step_inv: "reader_inv opts c \<Longrightarrow> keeps_inv opts (step alloc c)"
proof (induction c rule: wf_induct_rule [OF wf_measures [of "[loop_rank, buffers_left]"]])
  case (1 c)
  show ?case
  proof (cases "rc_state c \<in> {Prefix, AtDescriptor} \<union> range AtBuffer \<and> rc_remaining c = 0")
    case False
    then show ?thesis
      using 1(2) by (subst step.simps) (auto simp: keeps_inv_def split: read_state.splits)
  next
    case True
    then have k: "keeps_inv opts (advance alloc c)" using advance_inv [OF 1(2)] by simp
    obtain c' r where a: "advance alloc c = (c', r)" by fastforce
    show ?thesis
    proof (cases r)
      case (Ok u)
      then have a': "advance alloc c = (c', Ok ())" using a by simp
      then show ?thesis
        using 1(1) [of c'] True k advance_progress [OF a'] step_advance [OF _ _ a'] by (simp add: keeps_inv_def)
    next
      case (Err e)
      then show ?thesis
        using a True k by (subst step.simps) (auto simp: keeps_inv_def split: read_state.splits)
    next
      case Panic
      then show ?thesis using k a by (simp add: keeps_inv_def)
    qed
  qed
qed

lemma reachable_inv: "reader_reachable alloc opts c \<Longrightarrow> reader_inv opts c"
proof (induction rule: reader_reachable.induct)
  case new
  then show ?case by (simp add: reader_inv_def reader_with_options_def PREFIX_LEN_def)
next
  case (step c)
  then show ?case using step_inv [of opts c] by (simp add: keeps_inv_def)
next
  case (fill c dst bs)
  then show ?case
    by (auto simp: reader_inv_def fill_dst_def input_dst_def store_at_def accepted_handle_def
        split: read_state.splits if_splits)
next
  case (report c n)
  then show ?case
    by (auto simp: reader_inv_def report_filled_def rc_fail_def rc_remaining_def split: read_state.splits)
next
  case (take c)
  then show ?case
    by (auto simp: reader_inv_def take_tensor_def reset_to_prefix_def resize0_def PREFIX_LEN_def split: read_state.splits)
next
  case (mark c)
  then show ?case by (simp add: reader_inv_def mark_read_unusable_def)
qed

text \<open>The bytes a driver may store are at least as many as the step asks for, so that storing them is
  in bounds.\<close>

lemma reachable_safe:
  assumes "reader_reachable alloc opts c"
  shows "snd (step alloc c) \<noteq> Panic" "\<exists>dst. input_dst c = Ok dst \<and> length dst = rc_remaining c"
    "take_tensor c = (c', Some t) \<Longrightarrow> stream_tensor_ok opts t"
proof -
  have inv: "reader_inv opts c" using assms by (rule reachable_inv)
  show "snd (step alloc c) \<noteq> Panic" using step_inv [OF inv] by (simp add: keeps_inv_def)
  show "\<exists>dst. input_dst c = Ok dst \<and> length dst = rc_remaining c"
    using inv by (auto simp: reader_inv_def input_dst_def rc_remaining_def split: read_state.splits)
  show "take_tensor c = (c', Some t) \<Longrightarrow> stream_tensor_ok opts t"
    using inv by (auto simp: reader_inv_def take_tensor_def split: if_splits)
qed

end

interpretation system: destinations system_allocate
proof
  fix r dest
  show "system_allocate r = Ok dest \<Longrightarrow> length dest = unat (dr_byte_size r)"
    by (auto simp: system_allocate_def aligned_buf_zeroed_def ok_or_def split: if_splits)
  show "system_allocate r \<noteq> Panic"
    by (simp add: system_allocate_def ok_or_def split: option.split)
qed

section \<open>Properties\<close>

text \<open>
  C2. Chunking independence. Whatever the sizes of the chunks in which the bytes of an acceptable tensor
  arrive, at every moment of the run the reader either has exactly that tensor, has consumed
  exactly its bytes and is as new for what follows, or asks for a positive number of bytes that
  does not reach beyond the tensor. It never fails, and nothing depends on the chunks.
\<close>

theorem reader_chunking_independent:
  assumes "readable alloc opts d bufs"
    and "(drives alloc)\<^sup>*\<^sup>* (reader_with_options opts, tensor_bytes d bufs @ rest) (c, inp)"
  shows "\<exists>c'. (step alloc c = (c', Ok StepTensor) \<and> inp = rest \<and>
       take_tensor c' = (reader_with_options opts, Some \<lparr>st_descriptor = d, st_buffers = bufs\<rparr>)) \<or>
     (\<exists>len. step alloc c = (c', Ok (StepInput len)) \<and> 0 < len \<and> len + length rest \<le> length inp)"
  by (rule reading_outcome [OF assms(1) drives_star_reading [OF assms reading_start]]) blast+

theorem reader_chunking_independent_witness:
  "\<exists>c'. (step system_allocate (reader_with_options default_reader_options) = (c', Ok StepTensor) \<and>
       tensor_bytes sample_tensor [[1, 2, 3, 4]] @ [7] = [7] \<and>
       take_tensor c' = (reader_with_options default_reader_options,
         Some \<lparr>st_descriptor = sample_tensor, st_buffers = [[1, 2, 3, 4]]\<rparr>)) \<or>
     (\<exists>len. step system_allocate (reader_with_options default_reader_options) = (c', Ok (StepInput len)) \<and> 0 < len \<and>
        len + length [7 :: u8] \<le> length (tensor_bytes sample_tensor [[1, 2, 3, 4]] @ [7]))"
  by (rule reader_chunking_independent [OF sample_tensor_readable rtranclp.rtrancl_refl])

text \<open>
  C27. Liveness. Chunks cannot be delivered forever, and from every moment of the reading of an
  acceptable tensor the driver gets the tensor by delivering the input that is left of it.
\<close>

theorem reader_delivers:
  assumes "readable alloc opts d bufs"
  shows "wf {(y, x). drives alloc x y} \<and>
    (\<forall>x. (drives alloc)\<^sup>*\<^sup>* (reader_with_options opts, tensor_bytes d bufs @ rest) x \<longrightarrow>
       (\<exists>c1 c2. (drives alloc)\<^sup>*\<^sup>* x (c1, rest) \<and> step alloc c1 = (c2, Ok StepTensor) \<and>
          take_tensor c2 = (reader_with_options opts, Some \<lparr>st_descriptor = d, st_buffers = bufs\<rparr>)))"
proof (intro conjI allI impI drives_wf)
  fix x assume "(drives alloc)\<^sup>*\<^sup>* (reader_with_options opts, tensor_bytes d bufs @ rest) x"
  then show "\<exists>c1 c2. (drives alloc)\<^sup>*\<^sup>* x (c1, rest) \<and> step alloc c1 = (c2, Ok StepTensor) \<and>
      take_tensor c2 = (reader_with_options opts, Some \<lparr>st_descriptor = d, st_buffers = bufs\<rparr>)"
    using drives_to_tensor [OF assms drives_star_reading [OF assms _ reading_start]] by (cases x) simp
qed

theorem reader_delivers_witness:
  "\<exists>c1 c2. (drives system_allocate)\<^sup>*\<^sup>*
       (reader_with_options default_reader_options, tensor_bytes sample_tensor [[1, 2, 3, 4]] @ [7]) (c1, [7]) \<and>
     step system_allocate c1 = (c2, Ok StepTensor) \<and>
     take_tensor c2 = (reader_with_options default_reader_options,
       Some \<lparr>st_descriptor = sample_tensor, st_buffers = [[1, 2, 3, 4]]\<rparr>)"
  using reader_delivers [OF sample_tensor_readable, of "[7]"] by blast

text \<open>
  C3. Safety on arbitrary input. Whatever bytes arrive and whatever methods are called in whatever order
  and with whatever counts, \<open>step\<close> does not panic, the slice of \<open>input_dst\<close> is in bounds and as long as
  the step asks for, and a tensor handed over has a valid descriptor and for every handle a buffer
  of the declared size within the configured limits.
\<close>

theorem reader_never_panics:
  assumes "reader_reachable system_allocate opts c"
  shows "snd (step system_allocate c) \<noteq> Panic \<and> (\<exists>dst. input_dst c = Ok dst \<and> length dst = rc_remaining c) \<and>
    (\<forall>c' t. take_tensor c = (c', Some t) \<longrightarrow> stream_tensor_ok opts t)"
  using system.reachable_safe [OF assms] by blast

theorem reader_never_panics_witness:
  "snd (step system_allocate (reader_with_options default_reader_options)) \<noteq> Panic \<and>
   (\<exists>dst. input_dst (reader_with_options default_reader_options) = Ok dst \<and> length dst = 10)"
  using reader_never_panics [OF reader_reachable.new, of default_reader_options]
  by (simp add: reader_with_options_def rc_remaining_def PREFIX_LEN_def)

definition reader_dead :: "stream_reader_core \<Rightarrow> bool" where
  "reader_dead c \<longleftrightarrow> rc_state c = ReadFailed \<or> (\<exists>r. rc_state c = ReadUnusable r)"

lemma rc_fail_dead: "rc_fail c x = (c', Err e) \<Longrightarrow> reader_dead c'"
  by (auto simp: rc_fail_def reader_dead_def)

lemma get_le_not_Err: "get_le bs off \<noteq> Err e"
  by (simp add: get_le_def slice_at_def)

lemma begin_descriptor_Err: "begin_descriptor c = (c', Err e) \<Longrightarrow> reader_dead c'"
  by (auto simp: begin_descriptor_def get_le_not_Err Let_def dest: rc_fail_dead split: result.splits if_splits)

lemma complete_tensor_Err: "complete_tensor c = (c', Err e) \<Longrightarrow> reader_dead c'"
  by (auto simp: complete_tensor_def dest: rc_fail_dead split: option.splits)

lemma begin_buffer_Err: "begin_buffer alloc c i = (c', Err e) \<Longrightarrow> reader_dead c'"
  by (auto simp: begin_buffer_def dest: rc_fail_dead split: option.splits if_splits result.splits)

lemma finish_buffer_Err: "finish_buffer alloc c i = (c', Err e) \<Longrightarrow> reader_dead c'"
  by (auto simp: finish_buffer_def Let_def dest: rc_fail_dead begin_buffer_Err complete_tensor_Err
      split: option.splits if_splits)

lemma decode_descriptor_Err: "decode_descriptor alloc c = (c', Err e) \<Longrightarrow> reader_dead c'"
  by (auto simp: decode_descriptor_def Let_def dest: rc_fail_dead begin_buffer_Err complete_tensor_Err
      split: result.splits if_splits)

lemma advance_Err: "advance alloc c = (c', Err e) \<Longrightarrow> reader_dead c'"
  by (auto simp: advance_def dest: begin_descriptor_Err decode_descriptor_Err finish_buffer_Err
      split: read_state.splits)

lemma step_Err: "step alloc c = (c', Err e) \<Longrightarrow> reader_dead c'"
proof (induction alloc c rule: step_induct)
  case (1 alloc c)
  show ?case
  proof (cases "rc_state c \<in> {Prefix, AtDescriptor} \<union> range AtBuffer \<and> rc_remaining c = 0")
    case False
    then show ?thesis
      using 1(2) by (subst (asm) step.simps) (auto simp: reader_dead_def split: read_state.splits if_splits)
  next
    case True
    obtain c1 r where a: "advance alloc c = (c1, r)" by fastforce
    show ?thesis
    proof (cases r)
      case (Ok u)
      then show ?thesis using 1 True a step_advance [of c alloc c1] by simp
    next
      case (Err e')
      then show ?thesis
        using 1(2) a True advance_Err [of alloc c c1 e'] by (subst (asm) step.simps) (auto split: read_state.splits)
    next
      case Panic
      then show ?thesis
        using 1(2) a True by (subst (asm) step.simps) (auto split: read_state.splits)
    qed
  qed
qed

lemma report_filled_Err:
  "report_filled c n = (c', Err e) \<Longrightarrow> rc_state c \<noteq> Finished \<Longrightarrow> rc_state c \<noteq> TensorReady \<Longrightarrow> reader_dead c'"
  by (auto simp: report_filled_def reader_dead_def rc_fail_def split: read_state.splits if_splits)

lemma reader_dead_final:
  "reader_dead c \<Longrightarrow>
   (\<exists>e. step alloc c = (c, Err e)) \<and> (\<exists>e. report_filled c n = (c, Err e)) \<and> take_tensor c = (c, None)"
  by (auto simp: reader_dead_def step.simps report_filled_def take_tensor_def)

text \<open>
  A report made where the reader asks for nothing, at the end of the stream or with a tensor waiting to be
  taken, is an error too, but it leaves the reader as it is: the waiting tensor can still be taken.
\<close>

theorem report_outside_item_keeps_core:
  "rc_state c = Finished \<or> rc_state c = TensorReady \<Longrightarrow>
   report_filled c n = (c, Err (InvalidProgressReport n 0))"
  by (auto simp: report_filled_def)

text \<open>
  C29. Failure inside an item is final. After an error of \<open>step\<close>, or of a report made while the reader asks for
  bytes, that is, neither at the end of the stream nor with a tensor waiting to be taken (the end of the input
  inside an item, more bytes than were offered), every later \<open>step\<close> and \<open>report_filled\<close> is an error that leaves
  the reader as it is, and no tensor is handed over.
\<close>

theorem reader_failure_final:
  assumes "step alloc c = (c', Err e) \<or>
    report_filled c n = (c', Err e) \<and> rc_state c \<noteq> Finished \<and> rc_state c \<noteq> TensorReady"
  shows "(\<exists>e. step alloc' c' = (c', Err e)) \<and> (\<exists>e. report_filled c' k = (c', Err e)) \<and> take_tensor c' = (c', None)"
  using assms step_Err report_filled_Err reader_dead_final by blast

theorem reader_failure_final_witness:
  "\<exists>c'. report_filled (reader_with_options default_reader_options) 11 = (c', Err (InvalidProgressReport 11 10)) \<and>
    (\<exists>e. step system_allocate c' = (c', Err e)) \<and> take_tensor c' = (c', None)"
proof -
  let ?c = "reader_with_options default_reader_options"
  have r: "report_filled ?c 11 = (?c\<lparr>rc_state := ReadUnusable LostReadCount\<rparr>, Err (InvalidProgressReport 11 10))"
    by (simp add: report_filled_def reader_with_options_def rc_remaining_def PREFIX_LEN_def)
  moreover have "rc_state ?c = Prefix" by (simp add: reader_with_options_def)
  ultimately show ?thesis
    using reader_failure_final [of system_allocate ?c "?c\<lparr>rc_state := ReadUnusable LostReadCount\<rparr>"
        "InvalidProgressReport 11 10" 11 system_allocate 0]
    by auto
qed

end
