(* ===== verification/Stream_Items.thy ===== *)
theory Stream_Items
  imports Stream_Delivery Stream_Output
begin

text \<open>
  Reassembly of composites from the flat sequence of stream tensors
  (\<open>hurray-io/src/stream/sans_io/composite.rs\<close>, the item types of \<open>stream/types.rs\<close>), and the whole way of an
  item: written by the stream writer, read by the stream reader in whatever chunks, reassembled into
  the tree it was. The stack of open composites is a list with the innermost first.
\<close>

section \<open>CompositeAssembler\<close>

datatype stream_item =
    ItemTensor stream_tensor
  | ItemComposite tensor_descriptor "stream_item list"

fun item_descriptor :: "stream_item \<Rightarrow> tensor_descriptor" where
  "item_descriptor (ItemTensor t) = st_descriptor t"
| "item_descriptor (ItemComposite h ms) = h"

record open_composite =
  oc_head :: tensor_descriptor
  oc_member_count :: u32
  oc_members :: "stream_item list"
  oc_validator :: composite_validator

record composite_assembler =
  ca_max_depth :: usize
  ca_stack :: "open_composite list"

definition assembler_new :: "usize \<Rightarrow> composite_assembler" where
  "assembler_new n = \<lparr>ca_max_depth = n, ca_stack = []\<rparr>"

fun deliver ::
  "open_composite list \<Rightarrow> stream_item \<Rightarrow> open_composite list \<times> stream_item option io_result" where
  "deliver [] item = ([], Ok (Some item))"
| "deliver (tp # st) item =
     (case push_member (oc_validator tp) (item_descriptor item) of
        Ok v \<Rightarrow>
          let ms = oc_members tp @ [item] in
          if (word_of_nat (length ms) :: u32) < oc_member_count tp
          then (tp\<lparr>oc_members := ms, oc_validator := v\<rparr> # st, Ok None)
          else
            (case validator_finish v of
               Ok _ \<Rightarrow> deliver st (ItemComposite (oc_head tp) ms)
             | Err e \<Rightarrow> (st, Err (Core e))
             | Panic \<Rightarrow> (st, Panic))
      | Err e \<Rightarrow> (st, Err (Core e))
      | Panic \<Rightarrow> (st, Panic))"

definition assembler_push ::
  "composite_assembler \<Rightarrow> stream_tensor \<Rightarrow> composite_assembler \<times> stream_item option io_result" where
  "assembler_push a t =
     (case layout (st_descriptor t) of
        Composite l \<Rightarrow>
          if length (ca_stack a) \<ge> ca_max_depth a then (a, Err (CompositeNestingTooDeep (ca_max_depth a)))
          else
            (case validator_new (st_descriptor t) of
               Ok v \<Rightarrow>
                 (a\<lparr>ca_stack := \<lparr>oc_head = st_descriptor t, oc_member_count = member_count l, oc_members = [],
                    oc_validator = v\<rparr> # ca_stack a\<rparr>, Ok None)
             | Err e \<Rightarrow> (a, Err (Core e))
             | Panic \<Rightarrow> (a, Panic))
      | _ \<Rightarrow> (case deliver (ca_stack a) (ItemTensor t) of (st, r) \<Rightarrow> (a\<lparr>ca_stack := st\<rparr>, r)))"

definition assembler_finish :: "composite_assembler \<Rightarrow> unit io_result" where
  "assembler_finish a =
     (case ca_stack a of
        [] \<Rightarrow> Ok ()
      | tp # _ \<Rightarrow> Err (TornComposite (oc_member_count tp) (word_of_nat (length (oc_members tp)))))"

definition assembler_depth :: "composite_assembler \<Rightarrow> usize" where
  "assembler_depth a = length (ca_stack a)"

section \<open>The item loop\<close>

text \<open>\<open>StreamReader::next_item\<close>: one round of its loop over the reader core and the assembler. What the
  transport reads is left to the relation below.\<close>

datatype item_event = NeedInput usize | ItemAgain | ItemReady stream_item | EndOfItems

definition next_item_round ::
  "destination_alloc \<Rightarrow> stream_reader_core \<times> composite_assembler \<Rightarrow>
   (stream_reader_core \<times> composite_assembler) \<times> item_event io_result" where
  "next_item_round alloc s =
     (case s of (c, a) \<Rightarrow>
      case step alloc c of
        (c', Ok (StepInput len)) \<Rightarrow> ((c', a), Ok (NeedInput len))
      | (c', Ok StepTensor) \<Rightarrow>
          (case take_tensor c' of
             (c'', None) \<Rightarrow> ((c'', a), Err CoreFailed)
           | (c'', Some t) \<Rightarrow>
               (case assembler_push a t of
                  (a', Ok (Some i)) \<Rightarrow> ((c'', a'), Ok (ItemReady i))
                | (a', Ok None) \<Rightarrow> ((c'', a'), Ok ItemAgain)
                | (a', Err e) \<Rightarrow> ((c'', a'), Err e)
                | (a', Panic) \<Rightarrow> ((c'', a'), Panic)))
      | (c', Ok StepFinished) \<Rightarrow>
          (case assembler_finish a of
             Ok _ \<Rightarrow> ((c', a), Ok EndOfItems)
           | Err e \<Rightarrow> ((c', a), Err e)
           | Panic \<Rightarrow> ((c', a), Panic))
      | (c', Err e) \<Rightarrow> ((c', a), Err e)
      | (c', Panic) \<Rightarrow> ((c', a), Panic))"

text \<open>The rounds that go on: after \<open>fill\<close> has read some bytes, or none at the end of the input, and after
  a tensor that does not complete an item.\<close>

inductive reads ::
  "destination_alloc \<Rightarrow> (stream_reader_core \<times> composite_assembler) \<times> bytes \<Rightarrow>
   (stream_reader_core \<times> composite_assembler) \<times> bytes \<Rightarrow> bool"
  for alloc where
  fill: "next_item_round alloc s = ((c, a), Ok (NeedInput len)) \<Longrightarrow> 0 < n \<Longrightarrow> n \<le> len \<Longrightarrow> n \<le> length inp \<Longrightarrow>
    report_filled (fill_dst c (take n inp)) n = (c', Ok ()) \<Longrightarrow> reads alloc (s, inp) ((c', a), drop n inp)"
| eof: "next_item_round alloc s = ((c, a), Ok (NeedInput len)) \<Longrightarrow> report_filled c 0 = (c', Ok ()) \<Longrightarrow>
    reads alloc (s, []) ((c', a), [])"
| again: "next_item_round alloc s = (s', Ok ItemAgain) \<Longrightarrow> reads alloc (s, inp) (s', inp)"

inductive_cases readsE: "reads alloc (s, inp) x"

section \<open>Trees as sequences of tensors\<close>

fun node_tensors :: "composite_node \<Rightarrow> stream_tensor list" where
  "node_tensors (TensorNode d bufs) = [\<lparr>st_descriptor = d, st_buffers = bufs\<rparr>]"
| "node_tensors (CompositeNode h ms) = \<lparr>st_descriptor = h, st_buffers = []\<rparr> # concat (map node_tensors ms)"

fun item_of :: "composite_node \<Rightarrow> stream_item" where
  "item_of (TensorNode d bufs) = ItemTensor \<lparr>st_descriptor = d, st_buffers = bufs\<rparr>"
| "item_of (CompositeNode h ms) = ItemComposite h (map item_of ms)"

text \<open>Leaves are not composite heads, composites have members, and not more than can be counted.\<close>

fun tree_shaped :: "composite_node \<Rightarrow> bool" where
  "tree_shaped (TensorNode d bufs) = (\<not> is_virtual (layout d))"
| "tree_shaped (CompositeNode h ms) = (ms \<noteq> [] \<and> length ms < 2 ^ 32 \<and> list_all tree_shaped ms)"

fun node_level :: "composite_node \<Rightarrow> nat" where
  "node_level (TensorNode d bufs) = 0"
| "node_level (CompositeNode h ms) = 1 + foldr max (map node_level ms) 0"

text \<open>The items a sequence of tensors assembles to.\<close>

fun push_tensors ::
  "composite_assembler \<Rightarrow> stream_tensor list \<Rightarrow> composite_assembler \<times> stream_item list io_result" where
  "push_tensors a [] = (a, Ok [])"
| "push_tensors a (t # ts) =
     (case assembler_push a t of
        (a', Ok r) \<Rightarrow>
          (case push_tensors a' ts of
             (a'', Ok is) \<Rightarrow> (a'', Ok ((case r of None \<Rightarrow> [] | Some i \<Rightarrow> [i]) @ is))
           | (a'', Err e) \<Rightarrow> (a'', Err e)
           | (a'', Panic) \<Rightarrow> (a'', Panic))
      | (a', Err e) \<Rightarrow> (a', Err e)
      | (a', Panic) \<Rightarrow> (a', Panic))"

text \<open>Going on with the rest of a sequence after a delivery.\<close>

fun resume ::
  "composite_assembler \<Rightarrow> open_composite list \<times> stream_item option io_result \<Rightarrow> stream_tensor list \<Rightarrow>
   composite_assembler \<times> stream_item list io_result" where
  "resume a (st, Ok r) ts =
     (case push_tensors (a\<lparr>ca_stack := st\<rparr>) ts of
        (a'', Ok is) \<Rightarrow> (a'', Ok ((case r of None \<Rightarrow> [] | Some i \<Rightarrow> [i]) @ is))
      | (a'', Err e) \<Rightarrow> (a'', Err e)
      | (a'', Panic) \<Rightarrow> (a'', Panic))"
| "resume a (st, Err e) ts = (a\<lparr>ca_stack := st\<rparr>, Err e)"
| "resume a (st, Panic) ts = (a\<lparr>ca_stack := st\<rparr>, Panic)"

lemma push_tensors_leaf:
  "\<not> is_virtual (layout (st_descriptor t)) \<Longrightarrow> push_tensors a (t # ts) = resume a (deliver (ca_stack a) (ItemTensor t)) ts"
  by (cases "deliver (ca_stack a) (ItemTensor t)"; cases "snd (deliver (ca_stack a) (ItemTensor t))")
    (auto simp: assembler_push_def is_virtual_def split: layout_descriptor.splits)

lemma resume_None: "resume a (st, Ok None) ts = push_tensors (a\<lparr>ca_stack := st\<rparr>) ts"
  by (auto split: prod.splits result.splits)

lemma resume_stack [simp]: "resume (a\<lparr>ca_stack := s\<rparr>) p ts = resume a p ts"
  by (cases "(a, p, ts)" rule: resume.cases) simp_all

lemma item_descriptor_item_of [simp]: "item_descriptor (item_of n) = node_descriptor n"
  by (cases n) simp_all

lemma member_level: "m \<in> set ms \<Longrightarrow> node_level m \<le> foldr max (map node_level ms) 0"
  by (induction ms) auto

lemma validate_members_Ok:
  "validate_members h ms = Ok () \<longleftrightarrow>
   (\<exists>v v'. validator_new h = Ok v \<and> push_all v ms = Ok v' \<and> validator_finish v' = Ok ())"
  by (cases "validator_new h"; simp add: validate_members_def)
    (auto simp: from_core_def map_err_def r_bind_Ok_iff split: result.splits)

text \<open>The members of a composite, given one after the other, close it.\<close>

lemma push_tensors_members:
  assumes "\<And>m a ts. m \<in> set ms \<Longrightarrow> ca_max_depth a = dep \<Longrightarrow> length (ca_stack a) = Suc (length st) \<Longrightarrow>
      push_tensors a (node_tensors m @ ts) = resume a (deliver (ca_stack a) (item_of m)) ts"
    and "ms \<noteq> []" and "push_all (oc_validator tp) (map node_descriptor ms) = Ok v'" and "validator_finish v' = Ok ()"
    and "oc_member_count tp = word_of_nat (length (oc_members tp) + length ms)"
    and "length (oc_members tp) + length ms < 2 ^ 32"
    and "ca_max_depth a = dep" and "ca_stack a = tp # st"
  shows "push_tensors a (concat (map node_tensors ms) @ ts) =
    resume a (deliver st (ItemComposite (oc_head tp) (oc_members tp @ map item_of ms))) ts"
  using assms
proof (induction ms arbitrary: tp a)
  case (Cons m ms)
  obtain v where v: "push_member (oc_validator tp) (node_descriptor m) = Ok v" "push_all v (map node_descriptor ms) = Ok v'"
    using Cons.prems(3) by (auto simp: r_bind_Ok_iff)
  let ?n = "length (oc_members tp)"
  have n: "?n + length (m # ms) < 2 ^ 32" using Cons.prems(6) by simp
  have "Suc ?n < 2 ^ 32" using n by simp
  then have ul: "unat (word_of_nat (Suc ?n) :: u32) = Suc ?n" "unat (oc_member_count tp) = ?n + length (m # ms)"
    unfolding Cons.prems(5) using unat_of_nat_u32 n by blast+
  have one: "push_tensors a (concat (map node_tensors (m # ms)) @ ts) =
      resume a (deliver (ca_stack a) (item_of m)) (concat (map node_tensors ms) @ ts)"
    using Cons.prems(1) [of m a "concat (map node_tensors ms) @ ts"] Cons.prems(7,8) by simp
  show ?case
  proof (cases "ms = []")
    case True
    then have "\<not> (word_of_nat (Suc ?n) :: u32) < oc_member_count tp"
      using ul by (simp add: word_less_nat_alt del: of_nat_Suc)
    then show ?thesis using one True v Cons.prems(4,8) by (simp del: of_nat_Suc)
  next
    case False
    then have lt: "(word_of_nat (Suc ?n) :: u32) < oc_member_count tp"
      using ul by (simp add: word_less_nat_alt del: of_nat_Suc)
    let ?tp = "tp\<lparr>oc_members := oc_members tp @ [item_of m], oc_validator := v\<rparr>"
    have "deliver (ca_stack a) (item_of m) = (?tp # st, Ok None)"
      using Cons.prems(8) v(1) lt by (simp del: of_nat_Suc)
    with one have "push_tensors a (concat (map node_tensors (m # ms)) @ ts) =
        push_tensors (a\<lparr>ca_stack := ?tp # st\<rparr>) (concat (map node_tensors ms) @ ts)"
      by (simp only: resume_None)
    also have "\<dots> = resume (a\<lparr>ca_stack := ?tp # st\<rparr>)
        (deliver st (ItemComposite (oc_head ?tp) (oc_members ?tp @ map item_of ms))) ts"
      using Cons.prems v(2) False by (intro Cons.IH) (simp_all add: add.assoc)
    finally show ?thesis by simp
  qed
qed simp

lemma push_member_count:
  "push_member v m = Ok v' \<Longrightarrow>
   members_seen v' = members_seen v + 1 \<and> declared_member_count v' = declared_member_count v"
  by (auto simp: push_member_def Let_def r_bind_Ok_iff split: composition_rule.splits)

lemma push_all_count:
  "push_all v ms = Ok v' \<Longrightarrow>
   members_seen v' = members_seen v + length ms \<and> declared_member_count v' = declared_member_count v"
proof (induction ms arbitrary: v)
  case (Cons m ms)
  then obtain v1 where "push_member v m = Ok v1" "push_all v1 ms = Ok v'" by (auto simp: r_bind_Ok_iff)
  then show ?case using Cons.IH push_member_count by fastforce
qed simp

lemma validated_head:
  assumes "validate_members h ms = Ok ()"
  obtains v v' l where "validator_new h = Ok v" "push_all v ms = Ok v'" "validator_finish v' = Ok ()"
    "layout h = Composite l" "member_count l = word_of_nat (length ms)"
proof -
  obtain v v' where v: "validator_new h = Ok v" "push_all v ms = Ok v'" "validator_finish v' = Ok ()"
    using assms by (auto simp: validate_members_Ok)
  from v(1) obtain l where l: "layout h = Composite l" "declared_member_count v = member_count l" "members_seen v = 0"
    by (auto simp: validator_new_def split: layout_descriptor.splits if_splits)
  have "word_of_nat (members_seen v') = declared_member_count v'"
    using v(3) by (auto simp: validator_finish_def split: if_splits)
  then have "member_count l = word_of_nat (length ms)" using push_all_count [OF v(2)] l by simp
  with v l(1) show thesis by (rule that)
qed

lemma validate_nodes_Ok: "validate_nodes w ms = Ok () \<longleftrightarrow> (\<forall>m \<in> set ms. validate_node w m = Ok ())"
  by (induction ms) (auto simp: r_bind_Ok_iff)

lemma push_tensors_node:
  "tree_shaped n \<Longrightarrow> validate_node w n = Ok () \<Longrightarrow> length (ca_stack a) + node_level n \<le> ca_max_depth a \<Longrightarrow>
   push_tensors a (node_tensors n @ ts) = resume a (deliver (ca_stack a) (item_of n)) ts"
proof (induction n arbitrary: a ts)
  case (TensorNode d bufs)
  then show ?case using push_tensors_leaf [of "\<lparr>st_descriptor = d, st_buffers = bufs\<rparr>" a ts] by simp
next
  case (CompositeNode h ms)
  have val: "validate_members h (map node_descriptor ms) = Ok ()" "\<forall>m \<in> set ms. validate_node w m = Ok ()"
    using CompositeNode.prems(2) by (auto simp: r_bind_Ok_iff validate_nodes_Ok)
  from val(1) obtain v v' l where v: "validator_new h = Ok v" "push_all v (map node_descriptor ms) = Ok v'"
    "validator_finish v' = Ok ()" "layout h = Composite l" "member_count l = word_of_nat (length ms)"
    by (rule validated_head) simp
  let ?tp = "\<lparr>oc_head = h, oc_member_count = member_count l, oc_members = [], oc_validator = v\<rparr>"
  let ?a = "a\<lparr>ca_stack := ?tp # ca_stack a\<rparr>"
  have shape: "ms \<noteq> []" "length ms < 2 ^ 32" "\<forall>m \<in> set ms. tree_shaped m"
    using CompositeNode.prems(1) by (auto simp: list_all_iff)
  have depth: "length (ca_stack a) < ca_max_depth a"
    "length (ca_stack a) + Suc (foldr max (map node_level ms) 0) \<le> ca_max_depth a"
    using CompositeNode.prems(3) by simp_all
  have head: "assembler_push a \<lparr>st_descriptor = h, st_buffers = []\<rparr> = (?a, Ok None)"
    using v(1,4) depth(1) by (simp add: assembler_push_def)
  have "push_tensors a (node_tensors (CompositeNode h ms) @ ts) = push_tensors ?a (concat (map node_tensors ms) @ ts)"
    by (simp add: head split: prod.splits result.splits)
  also have "\<dots> = resume ?a (deliver (ca_stack a) (ItemComposite (oc_head ?tp) (oc_members ?tp @ map item_of ms))) ts"
  proof (rule push_tensors_members [of ms "ca_max_depth a" "ca_stack a" ?tp v'])
    fix m and a' :: composite_assembler and ts' assume m: "m \<in> set ms" "ca_max_depth a' = ca_max_depth a" "length (ca_stack a') = Suc (length (ca_stack a))"
    have "length (ca_stack a') + node_level m \<le> ca_max_depth a'"
      using member_level [OF m(1)] m(2,3) depth(2) by linarith
    then show "push_tensors a' (node_tensors m @ ts') = resume a' (deliver (ca_stack a') (item_of m)) ts'"
      using CompositeNode.IH [OF m(1)] m(1) shape(3) val(2) by blast
  qed (use v shape in simp_all)
  finally show ?case by simp
qed

text \<open>A tree is what its sequence of tensors assembles to.\<close>

lemma assemble_node:
  assumes "tree_shaped n" and "validate_node w n = Ok ()" and "node_level n \<le> k"
  shows "push_tensors (assembler_new k) (node_tensors n) = (assembler_new k, Ok [item_of n])"
  using push_tensors_node [OF assms(1,2), of "assembler_new k" "[]"] assms(3) by (simp add: assembler_new_def)

section \<open>The way of an item\<close>

definition fresh_reader :: "stream_reader_options \<Rightarrow> stream_reader_core \<times> composite_assembler" where
  "fresh_reader opts = (reader_with_options opts, assembler_new (max_composite_depth opts))"

definition tensors_bytes :: "stream_tensor list \<Rightarrow> bytes" where
  "tensors_bytes ts = concat (map (\<lambda>t. tensor_bytes (st_descriptor t) (st_buffers t)) ts)"

lemma tensors_bytes_simps [simp]:
  "tensors_bytes [] = []" "tensors_bytes (t # ts) = tensor_bytes (st_descriptor t) (st_buffers t) @ tensors_bytes ts"
  "tensors_bytes (ts @ us) = tensors_bytes ts @ tensors_bytes us"
  by (simp_all add: tensors_bytes_def)

lemma node_bytes_tensors: "node_bytes n = tensors_bytes (node_tensors n)"
proof (induction n)
  case (CompositeNode h ms)
  then have "concat (map node_bytes ms) = tensors_bytes (concat (map node_tensors ms))" by (induction ms) simp_all
  then show ?case by (simp add: tensor_bytes_def)
qed (simp add: tensor_bytes_def)

definition all_readable :: "destination_alloc \<Rightarrow> stream_reader_options \<Rightarrow> stream_tensor list \<Rightarrow> bool" where
  "all_readable alloc opts = list_all (\<lambda>t. readable alloc opts (st_descriptor t) (st_buffers t))"

text \<open>The reader is in the middle of the tensor \<open>t\<close>, and the tensors still to come assemble to the item.\<close>

definition on_item ::
  "destination_alloc \<Rightarrow> stream_reader_options \<Rightarrow> stream_item \<Rightarrow> bytes \<Rightarrow> nat \<Rightarrow>
   stream_reader_core \<times> composite_assembler \<Rightarrow> bytes \<Rightarrow> bool" where
  "on_item alloc opts item rest k s inp \<longleftrightarrow>
     (\<exists>t ts. length ts = k \<and> all_readable alloc opts (t # ts) \<and>
        reading opts (st_descriptor t) (st_buffers t) (tensors_bytes ts @ rest) (fst s) inp \<and>
        push_tensors (snd s) (t # ts) = (snd (fresh_reader opts), Ok [item]))"

lemma deliver_pending: "deliver st i = (st', Ok None) \<Longrightarrow> st' \<noteq> []"
  by (induction st arbitrary: i) (auto simp: Let_def split: result.splits if_splits)

lemma assembler_push_pending: "assembler_push a t = (a', Ok None) \<Longrightarrow> ca_stack a' \<noteq> []"
  by (auto simp: assembler_push_def dest: deliver_pending split: layout_descriptor.splits if_splits result.splits prod.splits)

lemma push_tensors_nothing: "push_tensors a ts = (a', Ok []) \<Longrightarrow> ca_stack a' = [] \<Longrightarrow> ts = []"
proof (induction ts arbitrary: a)
  case (Cons t ts)
  from Cons.prems(1) obtain a1 where a1: "assembler_push a t = (a1, Ok None)" "push_tensors a1 ts = (a', Ok [])"
    by (auto split: prod.splits result.splits option.splits)
  then have "ts = []" using Cons.IH Cons.prems(2) by blast
  then show ?case using a1 assembler_push_pending [OF a1(1)] Cons.prems(2) by simp
qed simp

lemma push_tensors_Cons_Ok:
  assumes "push_tensors a (t # ts) = (a', Ok items)"
  obtains a1 where "assembler_push a t = (a1, Ok None)" "push_tensors a1 ts = (a', Ok items)"
    | a1 i items' where "assembler_push a t = (a1, Ok (Some i))" "items = i # items'" "push_tensors a1 ts = (a', Ok items')"
  using assms by (auto split: prod.splits result.splits option.splits)

lemma on_item_round:
  assumes "on_item alloc opts item rest k s inp"
  obtains (need) c len where "next_item_round alloc s = ((c, snd s), Ok (NeedInput len))" "0 < len"
      "len + length rest \<le> length inp" "len = rc_remaining c" "on_item alloc opts item rest k (c, snd s) inp"
    | (again) s' k' where "next_item_round alloc s = (s', Ok ItemAgain)" "k = Suc k'" "on_item alloc opts item rest k' s' inp"
    | (ready) "next_item_round alloc s = (fresh_reader opts, Ok (ItemReady item))" "inp = rest"
proof -
  obtain c a where s: "s = (c, a)" by fastforce
  from assms obtain t ts where t: "length ts = k" "all_readable alloc opts (t # ts)"
    "reading opts (st_descriptor t) (st_buffers t) (tensors_bytes ts @ rest) c inp"
    "push_tensors a (t # ts) = (snd (fresh_reader opts), Ok [item])"
    unfolding on_item_def s by auto
  have r: "readable alloc opts (st_descriptor t) (st_buffers t)" using t(2) by (simp add: all_readable_def)
  from r t(3) show thesis
  proof (cases rule: reading_outcome)
    case (input c' len)
    then show thesis using t s by (intro need [of c' len]) (auto simp: next_item_round_def on_item_def)
  next
    case (tensor c')
    have take: "take_tensor c' = (reader_with_options opts, Some t)" using tensor(3) by simp
    from t(4) show thesis
    proof (cases rule: push_tensors_Cons_Ok)
      case (1 a1)
      have "ts \<noteq> []" using 1(2) by auto
      then obtain t' ts' where ts: "ts = t' # ts'" by (cases ts) auto
      have "on_item alloc opts item rest (length ts') (reader_with_options opts, a1) inp"
        using 1(2) t(2) ts tensor(2) reading_start [of opts "st_descriptor t'" "st_buffers t'" "tensors_bytes ts' @ rest"]
        by (auto simp: on_item_def all_readable_def)
      then show thesis
        using 1(1) tensor(1) take s ts t(1) by (intro again) (auto simp: next_item_round_def)
    next
      case (2 a1 i items')
      have "ca_stack (snd (fresh_reader opts)) = []" by (simp add: fresh_reader_def assembler_new_def)
      then have "ts = []" using 2 push_tensors_nothing by auto
      then show thesis
        using 2 tensor take s by (intro ready) (auto simp: next_item_round_def fresh_reader_def)
    qed
  qed
qed

lemma on_item_chunk:
  assumes "on_item alloc opts item rest k (c, a) inp" and "0 < n" and "n \<le> rc_remaining c"
  obtains c' where "report_filled (fill_dst c (take n inp)) n = (c', Ok ())"
    "on_item alloc opts item rest k (c', a) (drop n inp)"
proof -
  from assms(1) obtain t ts where t: "length ts = k" "all_readable alloc opts (t # ts)"
    "reading opts (st_descriptor t) (st_buffers t) (tensors_bytes ts @ rest) c inp"
    "push_tensors a (t # ts) = (snd (fresh_reader opts), Ok [item])"
    unfolding on_item_def by auto
  from reading_chunk [OF t(3) assms(2,3) descriptor_bytes_long] obtain c' where
    c': "report_filled (fill_dst c (take n inp)) n = (c', Ok ())"
    "reading opts (st_descriptor t) (st_buffers t) (tensors_bytes ts @ rest) c' (drop n inp)" by blast
  have o: "on_item alloc opts item rest k (c', a) (drop n inp)"
    unfolding on_item_def fst_conv snd_conv using t(1,2,4) c'(2) by blast
  show thesis by (rule that [OF c'(1) o])
qed

lemma reads_on_item:
  assumes "reads alloc (s, inp) (s2, inp2)" and i: "on_item alloc opts item rest k s inp"
  shows "\<exists>k2. on_item alloc opts item rest k2 s2 inp2"
  using assms(1)
proof (cases rule: reads.cases)
  case (fill c a len n c')
  from i show ?thesis
  proof (cases rule: on_item_round)
    case (need c1 len1)
    then have "c1 = c" "snd s = a" "n \<le> rc_remaining c" using fill by auto
    with need(5) obtain c2 where "report_filled (fill_dst c (take n inp)) n = (c2, Ok ())"
      "on_item alloc opts item rest k (c2, a) (drop n inp)"
      using on_item_chunk [of alloc opts item rest k c a inp n] fill(4) by auto
    then show ?thesis using fill by auto
  qed (use fill in auto)
next
  case (eof c a len c')
  from i show ?thesis by (cases rule: on_item_round) (use eof in auto)
next
  case again
  from i show ?thesis by (cases rule: on_item_round) (use again in auto)
qed

lemma reads_star_on_item:
  assumes "(reads alloc)\<^sup>*\<^sup>* (s, inp) (s2, inp2)" and "on_item alloc opts item rest k s inp"
  shows "\<exists>k2. on_item alloc opts item rest k2 s2 inp2"
  using assms by (induction rule: rtranclp_induct2) (auto intro: reads_on_item)

text \<open>The item arrives: each round takes bytes of the input or a tensor of the sequence.\<close>

lemma on_item_arrives:
  "on_item alloc opts item rest k s inp \<Longrightarrow>
   \<exists>s2. (reads alloc)\<^sup>*\<^sup>* (s, inp) (s2, rest) \<and> next_item_round alloc s2 = (fresh_reader opts, Ok (ItemReady item))"
proof (induction "length inp + k" arbitrary: s inp k rule: less_induct)
  case less
  from less.prems show ?case
  proof (cases rule: on_item_round)
    case (need c len)
    from need(4) obtain c2 where c2: "report_filled (fill_dst c (take len inp)) len = (c2, Ok ())"
      "on_item alloc opts item rest k (c2, snd s) (drop len inp)"
      using on_item_chunk [OF need(5,2)] by auto
    have "reads alloc (s, inp) ((c2, snd s), drop len inp)"
      using need(3) by (intro reads.fill [OF need(1,2) _ _ c2(1)]) simp_all
    moreover have "length (drop len inp) + k < length inp + k" using need(2,3) by simp
    ultimately show ?thesis using less.hyps [OF _ c2(2)] by (meson converse_rtranclp_into_rtranclp)
  next
    case (again s' k')
    have "reads alloc (s, inp) (s', inp)" by (rule reads.again [OF again(1)])
    moreover have "length inp + k' < length inp + k" using again(2) by simp
    ultimately show ?thesis using less.hyps [OF _ again(3)] by (meson converse_rtranclp_into_rtranclp)
  next
    case ready
    then show ?thesis by blast
  qed
qed

lemma node_on_item:
  assumes "tree_shaped n" and "validate_node w n = Ok ()" and "node_level n \<le> max_composite_depth opts"
    and "all_readable alloc opts (node_tensors n)"
  shows "\<exists>k. on_item alloc opts (item_of n) rest k (fresh_reader opts) (node_bytes n @ rest)"
proof -
  have "node_tensors n \<noteq> []" by (cases n) simp_all
  then obtain t ts where ts: "node_tensors n = t # ts" by (cases "node_tensors n") auto
  have p: "push_tensors (snd (fresh_reader opts)) (t # ts) = (snd (fresh_reader opts), Ok [item_of n])"
    using assemble_node [OF assms(1-3)] ts by (simp add: fresh_reader_def)
  have r: "reading opts (st_descriptor t) (st_buffers t) (tensors_bytes ts @ rest) (fst (fresh_reader opts)) (node_bytes n @ rest)"
    using reading_start [of opts "st_descriptor t" "st_buffers t" "tensors_bytes ts @ rest"]
    by (simp add: fresh_reader_def node_bytes_tensors ts)
  show ?thesis
    unfolding on_item_def using p r assms(4) ts by (intro exI [of _ "length ts"] exI [of _ t] exI [of _ ts]) simp
qed

lemma all_readable_encodable: "all_readable alloc opts (node_tensors n) \<Longrightarrow> node_encodable n"
proof (induction n)
  case (TensorNode d bufs)
  then show ?case by (simp add: all_readable_def readable_def encodable_def)
next
  case (CompositeNode h ms)
  have "encodable h" using CompositeNode.prems by (simp add: all_readable_def readable_def encodable_def)
  moreover have "\<forall>m \<in> set ms. all_readable alloc opts (node_tensors m)"
    using CompositeNode.prems by (auto simp: all_readable_def list_all_iff)
  ultimately show ?case using CompositeNode.IH by (simp add: list_all_iff)
qed

section \<open>Samples\<close>

lemma sample_node_tree: "tree_shaped sample_node" "node_level sample_node = 1"
  by (simp_all add: sample_node_def sample_part_def is_virtual_def)

lemma sample_part_readable:
  "unat off + unat n \<le> 4 \<Longrightarrow> readable system_allocate default_reader_options (sample_part off n) [[]]"
  using sample_part_encodable [of off n]
  by (simp add: readable_def encodable_def sample_part_def default_reader_options_def DEFAULT_MAX_DESCRIPTOR_BYTES_def
      descriptor_body_def section_bytes_def opt_bytes_def handle_bytes_def handle_empty_def shard_bytes_def
      system_allocate_def aligned_buf_zeroed_def)

lemma sample_head_readable: "readable system_allocate default_reader_options sample_head []"
  using sample_head_encodable
  by (simp add: readable_def encodable_def sample_head_def default_reader_options_def DEFAULT_MAX_DESCRIPTOR_BYTES_def
      descriptor_body_def section_bytes_def opt_bytes_def)

lemma sample_node_readable: "all_readable system_allocate default_reader_options (node_tensors sample_node)"
  by (simp add: all_readable_def sample_node_def sample_head_readable sample_part_readable)

lemma sample_depth: "node_level sample_node \<le> max_composite_depth default_reader_options"
  by (simp add: sample_node_tree default_reader_options_def DEFAULT_MAX_COMPOSITE_DEPTH_def)

text \<open>A group without members.\<close>

definition zero_head :: tensor_descriptor where
  "zero_head = sample_head\<lparr>layout := Composite \<lparr>comp_rule = Group, member_count = 0\<rparr>\<rparr>"

section \<open>Properties\<close>

text \<open>
  Reassembly inverts flattening. The preorder sequence of the tensors of a validated tree, whose
  composites are not empty and nest no deeper than the limit, assembles to exactly that tree, with
  the assembler empty again afterwards.
\<close>

theorem composite_reassembled:
  assumes "tree_shaped n" and "validate_node w n = Ok ()" and "node_level n \<le> k"
  shows "push_tensors (assembler_new k) (node_tensors n) = (assembler_new k, Ok [item_of n])"
  using assms by (rule assemble_node)

theorem composite_reassembled_witness:
  "push_tensors (assembler_new 1) (node_tensors sample_node) = (assembler_new 1, Ok [item_of sample_node])"
  using composite_reassembled [OF sample_node_tree(1) sample_node_valid, of 1] by (simp add: sample_node_tree)



text \<open>
  A group head that declares no members is accepted by the writer, but the assembler, given it,
  neither returns the composite nor closes it: the end of the stream is a torn composite, and any
  tensor that follows is an error.
\<close>

theorem empty_group_never_closes:
  "\<exists>op a. submit stream_writer_new (CompositeNode zero_head []) = Ok op \<and>
     assembler_push (assembler_new 64) \<lparr>st_descriptor = zero_head, st_buffers = []\<rparr> = (a, Ok None) \<and>
     assembler_finish a = Err (TornComposite 0 0) \<and>
     snd (assembler_push a \<lparr>st_descriptor = sample_descriptor, st_buffers = [[]]\<rparr>) =
       Err (Core (CompositeMemberCountMismatch 0 1))"
proof -
  have enc: "encodable zero_head"
    by (simp add: zero_head_def encodable_def sample_head_def descriptor_ok_def fields_ok_def finish_ok_def MAX_RANK_def
        descriptor_body_def section_bytes_def opt_bytes_def is_virtual_def OPEN_COMPOSITE_SENTINEL_def)
  let ?v = "\<lparr>cv_rule = Group, declared_member_count = 0, head_shape_dims = [4], head_type_tag = type_tag Float32,
    members_seen = 0, partition_boxes = []\<rparr>"
  have v: "validator_new zero_head = Ok ?v"
    by (simp add: validator_new_def zero_head_def sample_head_def)
  have l: "layout zero_head = Composite \<lparr>comp_rule = Group, member_count = 0\<rparr>" by (simp add: zero_head_def)
  have "validate_members zero_head [] = Ok ()" by (simp add: validate_members_def v validator_finish_def)
  moreover have "retired stream_writer_new = None" by (simp add: retired_def stream_writer_new_def)
  ultimately have "\<exists>op. submit stream_writer_new (CompositeNode zero_head []) = Ok op"
    by (simp add: writer_composite_def validate_composite_def encode_encodable [OF enc])
  moreover have m: "layout sample_descriptor = RowMajor" "member_section sample_descriptor = None"
    by (simp_all add: sample_descriptor_def)
  have p: "push_member ?v sample_descriptor = Ok (?v\<lparr>members_seen := 1\<rparr>)"
    by (simp add: push_member_def reject_composite_member_flag_def m)
  ultimately show ?thesis
    by (auto simp: assembler_push_def assembler_new_def l v assembler_finish_def m p validator_finish_def)
qed

end
