(* ===== verification/Source_Driver.thy ===== *)
theory Source_Driver
  imports Sink_Driver
begin

text \<open>
  The source of the read drivers, a tokio \<open>AsyncRead\<close> outside the sources. As with the sink, a list of events says
  what it does, one event per call of \<open>read\<close>. Reading takes bytes off the front of what is still to
  be read; a read of no bytes is the end of it.
\<close>

datatype read_event = Reads nat | ReadInterrupted | ReadFails nat

text \<open>The inner loop of \<open>fill\<close>, with a destination of \<open>len\<close> bytes.\<close>

fun source_read :: "nat \<Rightarrow> bytes \<Rightarrow> read_event list \<Rightarrow> (bytes \<times> read_event list) \<times> bytes poll" where
  "source_read len inp [] = ((inp, []), Suspended)"
| "source_read len inp (ReadInterrupted # evs) = source_read len inp evs"
| "source_read len inp (ReadFails e # evs) = ((inp, evs), Returned (Err (Io e)))"
| "source_read len inp (Reads k # evs) =
     (let n = min len (max 1 k) in ((drop n inp, evs), Returned (Ok (take n inp))))"

text \<open>The calls that are not interrupted, and sources that do not fail.\<close>

fun readings :: "read_event list \<Rightarrow> nat" where
  "readings [] = 0"
| "readings (ReadInterrupted # evs) = readings evs"
| "readings (_ # evs) = Suc (readings evs)"

fun steady :: "read_event list \<Rightarrow> bool" where
  "steady [] = True"
| "steady (ReadFails _ # evs) = False"
| "steady (_ # evs) = steady evs"

lemma source_read_shrinks: "source_read len inp evs = ((inp', evs'), Returned r) \<Longrightarrow> length evs' < length evs"
  by (induction len inp evs rule: source_read.induct) (auto simp: Let_def)

lemma source_read_cases:
  obtains (suspended) "source_read len inp evs = ((inp, []), Suspended)" "readings evs = 0"
    | (failed) evs' e where "source_read len inp evs = ((inp, evs'), Returned (Err (Io e)))" "\<not> steady evs"
    | (bytes) evs' n where "source_read len inp evs = ((drop n inp, evs'), Returned (Ok (take n inp)))" "n \<le> len"
        "0 < len \<longrightarrow> 0 < n" "readings evs = Suc (readings evs')" "steady evs \<longrightarrow> steady evs'"
proof -
  have "source_read len inp evs = ((inp, []), Suspended) \<and> readings evs = 0 \<or>
    (\<exists>evs' e. source_read len inp evs = ((inp, evs'), Returned (Err (Io e))) \<and> \<not> steady evs) \<or>
    (\<exists>evs' n. source_read len inp evs = ((drop n inp, evs'), Returned (Ok (take n inp))) \<and> n \<le> len \<and>
        (0 < len \<longrightarrow> 0 < n) \<and> readings evs = Suc (readings evs') \<and> (steady evs \<longrightarrow> steady evs'))"
  proof (induction len inp evs rule: source_read.induct)
    case (4 len inp k evs)
    let ?n = "min len (max 1 k)"
    have "source_read len inp (Reads k # evs) = ((drop ?n inp, evs), Returned (Ok (take ?n inp)))" by (simp add: Let_def)
    moreover have "?n \<le> len" "0 < len \<longrightarrow> 0 < ?n" by auto
    ultimately show ?case by (intro disjI2 exI [of _ evs] exI [of _ ?n]) simp
  qed simp_all
  then show ?thesis using that by blast
qed

end
