(* ===== verification/Stream_Reader.thy ===== *)
theory Stream_Reader
  imports Stream_Items Source_Driver
begin

text \<open>
  The tokio driver of the stream reader (\<open>hurray-io/src/stream/reader.rs\<close>): the source, the reader core and the
  assembler of composites, which keep what they have between calls.
\<close>

section \<open>The reader\<close>

record stream_reader =
  sr_inner :: bytes
  sr_core :: stream_reader_core
  sr_assembler :: composite_assembler

definition stream_reader_with_options :: "bytes \<Rightarrow> stream_reader_options \<Rightarrow> stream_reader" where
  "stream_reader_with_options inner opts =
     \<lparr>sr_inner = inner, sr_core = reader_with_options opts, sr_assembler = assembler_new (max_composite_depth opts)\<rparr>"

definition stream_reader_on :: "bytes \<Rightarrow> stream_reader" where
  "stream_reader_on inner = stream_reader_with_options inner default_reader_options"

definition stream_reader_cross_machine :: "bytes \<Rightarrow> stream_reader" where
  "stream_reader_cross_machine inner = stream_reader_with_options inner (default_reader_options\<lparr>ro_enforce_sync := True\<rparr>)"

definition stream_fill :: "stream_reader \<Rightarrow> read_event list \<Rightarrow> (stream_reader \<times> read_event list) \<times> unit poll" where
  "stream_fill r evs =
     (case input_dst (sr_core r) of
        Ok dst \<Rightarrow>
          (case source_read (length dst) (sr_inner r) evs of
             ((inner, evs), Returned (Ok bs)) \<Rightarrow>
               (case report_filled (fill_dst (sr_core r) bs) (length bs) of
                  (c, res) \<Rightarrow> ((r\<lparr>sr_inner := inner, sr_core := c\<rparr>, evs), Returned res))
           | ((inner, evs), Returned (Err e)) \<Rightarrow> ((r\<lparr>sr_inner := inner\<rparr>, evs), Returned (Err e))
           | ((inner, evs), Returned Panic) \<Rightarrow> ((r\<lparr>sr_inner := inner\<rparr>, evs), Returned Panic)
           | ((inner, evs), Suspended) \<Rightarrow> ((r\<lparr>sr_inner := inner\<rparr>, evs), Suspended))
      | Err e \<Rightarrow> ((r, evs), Returned (Err e))
      | Panic \<Rightarrow> ((r, evs), Returned Panic))"

lemma stream_fill_shrinks: "stream_fill r evs = ((r', evs'), Returned (Ok u)) \<Longrightarrow> length evs' < length evs"
  by (auto simp: stream_fill_def dest: source_read_shrinks split: result.splits prod.splits poll.splits)

text \<open>\<open>next_tensor\<close>, the flat loop.\<close>

function next_tensor ::
  "destination_alloc \<Rightarrow> stream_reader \<Rightarrow> read_event list \<Rightarrow> (stream_reader \<times> read_event list) \<times> stream_tensor option poll" where
  "next_tensor alloc r evs =
     (case step alloc (sr_core r) of
        (c, Ok (StepInput _)) \<Rightarrow>
          (case stream_fill (r\<lparr>sr_core := c\<rparr>) evs of
             ((r, evs'), Returned (Ok _)) \<Rightarrow> next_tensor alloc r evs'
           | ((r, evs'), Returned (Err e)) \<Rightarrow> ((r, evs'), Returned (Err e))
           | ((r, evs'), Returned Panic) \<Rightarrow> ((r, evs'), Returned Panic)
           | ((r, evs'), Suspended) \<Rightarrow> ((r, evs'), Suspended))
      | (c, Ok StepTensor) \<Rightarrow>
          (case take_tensor c of
             (c, Some t) \<Rightarrow> ((r\<lparr>sr_core := c\<rparr>, evs), Returned (Ok (Some t)))
           | (c, None) \<Rightarrow> ((r\<lparr>sr_core := c\<rparr>, evs), Returned (Err CoreFailed)))
      | (c, Ok StepFinished) \<Rightarrow> ((r\<lparr>sr_core := c\<rparr>, evs), Returned (Ok None))
      | (c, Err e) \<Rightarrow> ((r\<lparr>sr_core := c\<rparr>, evs), Returned (Err e))
      | (c, Panic) \<Rightarrow> ((r\<lparr>sr_core := c\<rparr>, evs), Returned Panic))"
  by pat_completeness auto

termination
  by (relation "measure (\<lambda>(alloc, r, evs). length evs)") (auto dest: stream_fill_shrinks [OF sym])

declare next_tensor.simps [simp del]

text \<open>\<open>next_item\<close>, the loop with the assembler. A round that takes a tensor leaves a core that wants input.\<close>

definition sr_set :: "stream_reader \<Rightarrow> stream_reader_core \<times> composite_assembler \<Rightarrow> stream_reader" where
  "sr_set r s = r\<lparr>sr_core := fst s, sr_assembler := snd s\<rparr>"

lemma again_wants_input:
  assumes "next_item_round alloc (c, a) = ((c', a'), Ok ItemAgain)"
  shows "snd (step alloc c) = Ok StepTensor \<and> snd (step alloc c') \<noteq> Ok StepTensor"
proof -
  from assms obtain c1 t where c1: "step alloc c = (c1, Ok StepTensor)" "take_tensor c1 = (c', Some t)"
    by (auto simp: next_item_round_def split: prod.splits result.splits read_step.splits option.splits)
  then have "rc_state c' = Prefix" "rc_remaining c' = 10"
    by (auto simp: take_tensor_def reset_to_prefix_def rc_remaining_def PREFIX_LEN_def split: if_splits)
  then show ?thesis using c1(1) by (simp add: step.simps)
qed

function next_item ::
  "destination_alloc \<Rightarrow> stream_reader \<Rightarrow> read_event list \<Rightarrow> (stream_reader \<times> read_event list) \<times> stream_item option poll" where
  "next_item alloc r evs =
     (case next_item_round alloc (sr_core r, sr_assembler r) of
        (s, Ok (NeedInput _)) \<Rightarrow>
          (case stream_fill (sr_set r s) evs of
             ((r', evs'), Returned (Ok _)) \<Rightarrow> next_item alloc r' evs'
           | ((r', evs'), Returned (Err e)) \<Rightarrow> ((r', evs'), Returned (Err e))
           | ((r', evs'), Returned Panic) \<Rightarrow> ((r', evs'), Returned Panic)
           | ((r', evs'), Suspended) \<Rightarrow> ((r', evs'), Suspended))
      | (s, Ok ItemAgain) \<Rightarrow> next_item alloc (sr_set r s) evs
      | (s, Ok (ItemReady i)) \<Rightarrow> ((sr_set r s, evs), Returned (Ok (Some i)))
      | (s, Ok EndOfItems) \<Rightarrow> ((sr_set r s, evs), Returned (Ok None))
      | (s, Err e) \<Rightarrow> ((sr_set r s, evs), Returned (Err e))
      | (s, Panic) \<Rightarrow> ((sr_set r s, evs), Returned Panic))"
  by pat_completeness auto

termination
  by (relation "measures [\<lambda>(alloc, r, evs). length evs,
      \<lambda>(alloc, r, evs). if snd (step alloc (sr_core r)) = Ok StepTensor then 1 else 0]")
    (auto simp: sr_set_def dest!: stream_fill_shrinks [OF sym] again_wants_input [OF sym])

declare next_item.simps [simp del]

section \<open>One call\<close>

text \<open>What a driver is about to read: items, the first perhaps begun, and then the end of the source.\<close>

definition at_end :: "stream_reader_options \<Rightarrow> stream_reader \<Rightarrow> bool" where
  "at_end opts r \<longleftrightarrow>
     sr_inner r = [] \<and> ca_stack (sr_assembler r) = [] \<and>
     (sr_core r = reader_with_options opts \<or> sr_core r = (reader_with_options opts)\<lparr>rc_state := Finished\<rparr>)"

definition stream_item_ok :: "destination_alloc \<Rightarrow> stream_reader_options \<Rightarrow> composite_node \<Rightarrow> bool" where
  "stream_item_ok alloc opts n \<longleftrightarrow>
     tree_shaped n \<and> (\<exists>w. validate_node w n = Ok ()) \<and> node_level n \<le> max_composite_depth opts \<and>
     all_readable alloc opts (node_tensors n)"

fun expecting ::
  "destination_alloc \<Rightarrow> stream_reader_options \<Rightarrow> composite_node list \<Rightarrow> stream_reader \<Rightarrow> bool" where
  "expecting alloc opts [] r = at_end opts r"
| "expecting alloc opts (n # ns) r =
     (list_all (stream_item_ok alloc opts) ns \<and>
      (\<exists>k. on_item alloc opts (item_of n) (concat (map node_bytes ns)) k (sr_core r, sr_assembler r) (sr_inner r)))"

lemma expecting_start:
  "list_all (stream_item_ok alloc opts) ns \<Longrightarrow>
   expecting alloc opts ns \<lparr>sr_inner = concat (map node_bytes ns), sr_core = fst (fresh_reader opts), sr_assembler = snd (fresh_reader opts)\<rparr>"
proof (cases ns)
  case Nil
  then show ?thesis by (simp add: at_end_def fresh_reader_def assembler_new_def)
next
  case (Cons n ns')
  assume "list_all (stream_item_ok alloc opts) ns"
  then have ok: "stream_item_ok alloc opts n" "list_all (stream_item_ok alloc opts) ns'" using Cons by simp_all
  then have "\<exists>k. on_item alloc opts (item_of n) (concat (map node_bytes ns')) k (fresh_reader opts)
      (node_bytes n @ concat (map node_bytes ns'))"
    using node_on_item unfolding stream_item_ok_def by blast
  then show ?thesis using ok(2) by (simp add: Cons)
qed

lemma reading_dst:
  "reading opts d bufs rest c inp \<Longrightarrow> \<exists>dst. input_dst c = Ok dst \<and> length dst = rc_remaining c"
  by (auto simp: reading_def input_dst_def rc_remaining_def split: read_state.splits)

lemma on_item_dst:
  "on_item alloc opts item rest k (c, a) inp \<Longrightarrow> \<exists>dst. input_dst c = Ok dst \<and> length dst = rc_remaining c"
  unfolding on_item_def by (auto intro: reading_dst)

lemma sr_set_simps [simp]:
  "sr_inner (sr_set r s) = sr_inner r" "sr_core (sr_set r s) = fst s" "sr_assembler (sr_set r s) = snd s"
  by (simp_all add: sr_set_def)

text \<open>\<open>fill\<close> in the middle of an item: suspended or failed with nothing changed, or some of its bytes are in.\<close>

lemma stream_fill_on_item:
  assumes i: "on_item alloc opts item rest k (sr_core r, sr_assembler r) (sr_inner r)" and n: "0 < rc_remaining (sr_core r)"
    "rc_remaining (sr_core r) + length rest \<le> length (sr_inner r)"
  obtains (suspended) "stream_fill r evs = ((r, []), Suspended)" "readings evs = 0"
    | (failed) evs' e where "stream_fill r evs = ((r, evs'), Returned (Err (Io e)))" "\<not> steady evs"
    | (filled) r' evs' where "stream_fill r evs = ((r', evs'), Returned (Ok ()))"
        "on_item alloc opts item rest k (sr_core r', sr_assembler r') (sr_inner r')"
        "length (sr_inner r') < length (sr_inner r)" "readings evs = Suc (readings evs')" "steady evs \<longrightarrow> steady evs'"
proof -
  obtain dst where dst: "input_dst (sr_core r) = Ok dst" "length dst = rc_remaining (sr_core r)" using on_item_dst [OF i] by blast
  show thesis
  proof (cases rule: source_read_cases [of "rc_remaining (sr_core r)" "sr_inner r" evs])
    case suspended
    then show ?thesis using dst by (intro that(1)) (simp_all add: stream_fill_def)
  next
    case (failed evs' e)
    then show ?thesis using dst by (intro that(2)) (simp_all add: stream_fill_def)
  next
    case (bytes evs' m)
    have m: "0 < m" "m \<le> length (sr_inner r)" using bytes(2,3) n by simp_all
    then have l: "length (take m (sr_inner r)) = m" by simp
    from on_item_chunk [OF i m(1) bytes(2)] obtain c' where c':
      "report_filled (fill_dst (sr_core r) (take m (sr_inner r))) m = (c', Ok ())"
      "on_item alloc opts item rest k (c', sr_assembler r) (drop m (sr_inner r))" by blast
    have "stream_fill r evs = ((r\<lparr>sr_inner := drop m (sr_inner r), sr_core := c'\<rparr>, evs'), Returned (Ok ()))"
      using dst bytes(1) c'(1) l by (simp add: stream_fill_def del: length_take take_all take_all_iff)
    then show ?thesis using that(3) c'(2) m bytes(4,5) by auto
  qed
qed

text \<open>The answers of a call.\<close>

definition answers ::
  "destination_alloc \<Rightarrow> stream_reader_options \<Rightarrow> composite_node list \<Rightarrow> stream_reader \<Rightarrow> stream_item option poll \<Rightarrow> bool" where
  "answers alloc opts ns r res \<longleftrightarrow>
     (case res of
        Returned (Ok (Some i)) \<Rightarrow> (\<exists>n ns'. ns = n # ns' \<and> i = item_of n \<and> expecting alloc opts ns' r)
      | Returned (Ok None) \<Rightarrow> ns = [] \<and> expecting alloc opts [] r
      | Returned (Err (Io _)) \<Rightarrow> expecting alloc opts ns r
      | Suspended \<Rightarrow> expecting alloc opts ns r
      | _ \<Rightarrow> False)"

lemma next_item_in_item:
  assumes "expecting alloc opts (n # ns) r" and "next_item alloc r evs = ((r', evs'), res)"
  shows "answers alloc opts (n # ns) r' res \<and> (steady evs \<and> length (sr_inner r) < readings evs \<longrightarrow> (\<exists>i. res = Returned (Ok (Some i))))"
  using assms
proof (induction alloc r evs rule: next_item.induct)
  case (1 alloc r evs)
  let ?rest = "concat (map node_bytes ns)"
  from 1(3) obtain k where ok: "list_all (stream_item_ok alloc opts) ns" and
    i: "on_item alloc opts (item_of n) ?rest k (sr_core r, sr_assembler r) (sr_inner r)" by auto
  from i show ?case
  proof (cases rule: on_item_round)
    case (need c len)
    let ?r = "sr_set r (c, sr_assembler r)"
    have j: "on_item alloc opts (item_of n) ?rest k (sr_core ?r, sr_assembler ?r) (sr_inner ?r)" using need(5) by simp
    have m: "0 < rc_remaining (sr_core ?r)" "rc_remaining (sr_core ?r) + length ?rest \<le> length (sr_inner ?r)"
      using need(2-4) by simp_all
    have ex: "expecting alloc opts (n # ns) ?r" using j ok by auto
    from j m show ?thesis
    proof (cases rule: stream_fill_on_item [of alloc opts "item_of n" ?rest k ?r evs])
      case suspended
      then show ?thesis using 1(4) need(1) ex by (subst (asm) next_item.simps) (auto simp: answers_def)
    next
      case (failed evs2 e)
      then show ?thesis using 1(4) need(1) ex by (subst (asm) next_item.simps) (auto simp: answers_def)
    next
      case (filled r2 evs2)
      have nx: "next_item alloc r2 evs2 = ((r', evs'), res)"
        using 1(4) need(1) filled(1) by (subst (asm) next_item.simps) simp
      have "expecting alloc opts (n # ns) r2" using filled(2) ok by auto
      moreover have "next_item_round alloc (sr_core r, sr_assembler r) = ((c, sr_assembler r), Ok (NeedInput len))"
        using need(1) by simp
      ultimately have "answers alloc opts (n # ns) r' res \<and>
          (steady evs2 \<and> length (sr_inner r2) < readings evs2 \<longrightarrow> (\<exists>i. res = Returned (Ok (Some i))))"
        using 1(1) filled(1) nx by simp
      then show ?thesis using filled(3-5) by auto
    qed
  next
    case (again s' k')
    have nx: "next_item alloc (sr_set r s') evs = ((r', evs'), res)"
      using 1(4) again(1) by (subst (asm) next_item.simps) simp
    have "expecting alloc opts (n # ns) (sr_set r s')" using again(3) ok by auto
    with 1(2) [OF again(1) [symmetric] refl refl this nx] show ?thesis by simp
  next
    case ready
    have r': "r' = sr_set r (fresh_reader opts)" "res = Returned (Ok (Some (item_of n)))"
      using 1(4) ready(1) by (subst (asm) next_item.simps; simp)+
    have "r' = \<lparr>sr_inner = ?rest, sr_core = fst (fresh_reader opts), sr_assembler = snd (fresh_reader opts)\<rparr>"
      using r'(1) ready(2) by (simp add: sr_set_def)
    then show ?thesis using r'(2) expecting_start [OF ok] by (simp add: answers_def)
  qed
qed

lemma next_item_at_end:
  assumes "at_end opts r" and "next_item alloc r evs = ((r', evs'), res)"
  shows "answers alloc opts [] r' res \<and> (steady evs \<and> 0 < readings evs \<longrightarrow> res = Returned (Ok None))"
proof -
  let ?c = "reader_with_options opts"
  have asm: "assembler_finish (sr_assembler r) = Ok ()" using assms(1) by (simp add: at_end_def assembler_finish_def)
  have fin: "next_item_round alloc (?c\<lparr>rc_state := Finished\<rparr>, sr_assembler r) = ((?c\<lparr>rc_state := Finished\<rparr>, sr_assembler r), Ok EndOfItems)"
    using asm by (simp add: next_item_round_def step.simps)
  have eoi: "next_item alloc q e = ((q, e), Returned (Ok None))" if "q = r\<lparr>sr_core := ?c\<lparr>rc_state := Finished\<rparr>\<rparr>" for q e
    unfolding that by (subst next_item.simps) (simp add: fin sr_set_def)
  have fin_ok: "answers alloc opts [] (r\<lparr>sr_core := ?c\<lparr>rc_state := Finished\<rparr>\<rparr>) (Returned (Ok None))"
    using assms(1) by (simp add: answers_def at_end_def)
  consider (fresh) "sr_core r = ?c" | (finished) "r = r\<lparr>sr_core := ?c\<lparr>rc_state := Finished\<rparr>\<rparr>"
    using assms(1) by (cases r) (auto simp: at_end_def)
  then show ?thesis
  proof cases
    case finished
    then show ?thesis using eoi [OF finished, of evs] assms(2) fin_ok by simp
  next
    case fresh
    have st: "next_item_round alloc (sr_core r, sr_assembler r) = ((?c, sr_assembler r), Ok (NeedInput 10))"
      using fresh by (simp add: next_item_round_def step.simps reader_with_options_def rc_remaining_def PREFIX_LEN_def)
    have same: "sr_set r (?c, sr_assembler r) = r" using fresh by (cases r) (simp add: sr_set_def)
    obtain dst where dst: "input_dst ?c = Ok dst" "length dst = 10"
      by (simp add: input_dst_def reader_with_options_def PREFIX_LEN_def)
    have inner: "sr_inner r = []" using assms(1) by (simp add: at_end_def)
    show ?thesis
    proof (cases rule: source_read_cases [of 10 "[]" evs])
      case (bytes evs2 m)
      have "fill_dst ?c [] = ?c" by (simp add: fill_dst_def reader_with_options_def store_at_def)
      then have "report_filled (fill_dst ?c []) 0 = (?c\<lparr>rc_state := Finished\<rparr>, Ok ())"
        by (simp add: report_filled_def reader_with_options_def)
      then have "stream_fill r evs = ((r\<lparr>sr_core := ?c\<lparr>rc_state := Finished\<rparr>\<rparr>, evs2), Returned (Ok ()))"
        using bytes(1) dst fresh inner by (cases r) (simp add: stream_fill_def)
      then have "next_item alloc r evs = ((r\<lparr>sr_core := ?c\<lparr>rc_state := Finished\<rparr>\<rparr>, evs2), Returned (Ok None))"
        by (subst next_item.simps) (simp add: st same eoi)
      then show ?thesis using assms(2) fin_ok by simp
    next
      case suspended
      then have "stream_fill r evs = ((r, []), Suspended)" using dst fresh inner by (simp add: stream_fill_def)
      then have "next_item alloc r evs = ((r, []), Suspended)" by (subst next_item.simps) (simp add: st same)
      then show ?thesis using assms suspended(2) by (simp add: answers_def)
    next
      case (failed evs2 e)
      then have "stream_fill r evs = ((r, evs2), Returned (Err (Io e)))" using dst fresh inner by (simp add: stream_fill_def)
      then have "next_item alloc r evs = ((r, evs2), Returned (Err (Io e)))" by (subst next_item.simps) (simp add: st same)
      then show ?thesis using assms failed(2) by (simp add: answers_def)
    qed
  qed
qed

lemma next_item_answers:
  assumes "expecting alloc opts ns r" and "next_item alloc r evs = ((r', evs'), res)"
  shows "answers alloc opts ns r' res"
    "steady evs \<and> length (sr_inner r) < readings evs \<Longrightarrow> \<exists>i. res = Returned (Ok i)"
  using assms next_item_in_item [of alloc opts _ _ r evs r' evs' res] next_item_at_end [of opts r alloc evs r' evs' res]
  by (cases ns; auto simp: at_end_def)+

section \<open>A session\<close>

fun next_items ::
  "destination_alloc \<Rightarrow> stream_reader \<Rightarrow> read_event list list \<Rightarrow> stream_reader \<times> stream_item option poll list" where
  "next_items alloc r [] = (r, [])"
| "next_items alloc r (evs # calls) =
     (case next_item alloc r evs of ((r, _), res) \<Rightarrow> (case next_items alloc r calls of (r, rs) \<Rightarrow> (r, res # rs)))"

definition delivered :: "stream_item option poll list \<Rightarrow> stream_item list" where
  "delivered rs = concat (map (\<lambda>res. case res of Returned (Ok (Some i)) \<Rightarrow> [i] | _ \<Rightarrow> []) rs)"

lemma delivered_Cons [simp]:
  "delivered [] = []"
  "delivered (res # rs) = (case res of Returned (Ok (Some i)) \<Rightarrow> [i] | _ \<Rightarrow> []) @ delivered rs"
  by (simp_all add: delivered_def)

text \<open>The results that are no items: the call was suspended, the source failed, or it was at its end.\<close>

definition no_item :: "stream_item option poll \<Rightarrow> bool" where
  "no_item res \<longleftrightarrow> res = Suspended \<or> (\<exists>e. res = Returned (Err (Io e))) \<or> res = Returned (Ok None)"

lemma next_items_session:
  assumes "expecting alloc opts ns r" and "next_items alloc r calls = (r', rs)"
  shows "\<exists>k. k \<le> length ns \<and> delivered rs = map item_of (take k ns) \<and> expecting alloc opts (drop k ns) r' \<and>
    (\<forall>res \<in> set rs. no_item res \<or> (\<exists>i. res = Returned (Ok (Some i)))) \<and>
    (Returned (Ok None) \<in> set rs \<longrightarrow> k = length ns)"
  using assms
proof (induction calls arbitrary: ns r rs)
  case (Cons evs calls)
  obtain r1 evs1 res where r1: "next_item alloc r evs = ((r1, evs1), res)" by (metis prod.collapse)
  obtain rs1 where rs: "next_items alloc r1 calls = (r', rs1)" "rs = res # rs1"
    using Cons.prems(2) r1 by (auto split: prod.splits)
  have a: "answers alloc opts ns r1 res" using next_item_answers(1) [OF Cons.prems(1) r1] .
  then consider (item) n ns' where "ns = n # ns'" "res = Returned (Ok (Some (item_of n)))" "expecting alloc opts ns' r1"
    | (ended) "res = Returned (Ok None)" "ns = []" "expecting alloc opts ns r1"
    | (waits) "res = Suspended \<or> (\<exists>e. res = Returned (Err (Io e)))" "expecting alloc opts ns r1"
    by (auto simp: answers_def split: poll.splits result.splits option.splits io_error.splits)
  then show ?case
  proof cases
    case item
    from Cons.IH [OF item(3) rs(1)] obtain k where "k \<le> length ns'" "delivered rs1 = map item_of (take k ns')"
      "expecting alloc opts (drop k ns') r'" "\<forall>res \<in> set rs1. no_item res \<or> (\<exists>i. res = Returned (Ok (Some i)))"
      "Returned (Ok None) \<in> set rs1 \<longrightarrow> k = length ns'" by blast
    then show ?thesis using item(1,2) rs(2) by (intro exI [of _ "Suc k"]) auto
  next
    case ended
    from Cons.IH [OF ended(3) rs(1)] show ?thesis using ended(1,2) rs(2) by (auto simp: no_item_def)
  next
    case waits
    from Cons.IH [OF waits(2) rs(1)] show ?thesis using waits(1) rs(2) by (auto simp: no_item_def)
  qed
qed auto

section \<open>Properties\<close>

text \<open>
  C10. A session with the tokio reader on a source that holds valid items, whatever it does: reads in any chunks, interruptions,
  failures, calls that are suspended and dropped. The calls that return an item return the items of the
  source, all of them so far, in order, and no other; every other call was suspended, reports the failure of
  the source, or comes after the last item. Nothing is lost by a failure or a dropped call: from every
  moment a call returns successfully when the source answers more often than it has bytes left.
\<close>

theorem stream_reader_session:
  assumes "list_all (stream_item_ok alloc opts) ns"
    and "next_items alloc (stream_reader_with_options (concat (map node_bytes ns)) opts) calls = (r, rs)"
  shows "(\<exists>k. delivered rs = map item_of (take k ns) \<and> (Returned (Ok None) \<in> set rs \<longrightarrow> delivered rs = map item_of ns)) \<and>
    (\<forall>res \<in> set rs. no_item res \<or> (\<exists>i. res = Returned (Ok (Some i)))) \<and>
    (\<forall>evs. steady evs \<and> length (sr_inner r) < readings evs \<longrightarrow>
       (\<exists>i r' evs'. next_item alloc r evs = ((r', evs'), Returned (Ok i))))"
proof -
  have "expecting alloc opts ns (stream_reader_with_options (concat (map node_bytes ns)) opts)"
    using expecting_start [OF assms(1)] by (simp add: stream_reader_with_options_def fresh_reader_def)
  from next_items_session [OF this assms(2)] obtain k where k: "k \<le> length ns" "delivered rs = map item_of (take k ns)"
    "expecting alloc opts (drop k ns) r" "\<forall>res \<in> set rs. no_item res \<or> (\<exists>i. res = Returned (Ok (Some i)))"
    "Returned (Ok None) \<in> set rs \<longrightarrow> k = length ns" by blast
  have "\<exists>i r' evs'. next_item alloc r evs = ((r', evs'), Returned (Ok i))"
    if "steady evs \<and> length (sr_inner r) < readings evs" for evs
    using next_item_answers(2) [OF k(3) _ that] by (metis prod.collapse)
  then show ?thesis using k(2,4,5) by auto
qed

lemma sample_item_ok: "stream_item_ok system_allocate default_reader_options sample_node"
  using sample_node_tree sample_node_valid sample_depth sample_node_readable by (auto simp: stream_item_ok_def)

theorem stream_reader_session_witness:
  "\<exists>i r' evs'. next_item system_allocate (stream_reader_on (node_bytes sample_node))
     (ReadInterrupted # replicate (Suc (length (node_bytes sample_node))) (Reads 1)) = ((r', evs'), Returned (Ok i))"
proof -
  let ?r = "stream_reader_with_options (concat (map node_bytes [sample_node])) default_reader_options"
  have s: "next_items system_allocate ?r [] = (?r, [])" by simp
  have "steady (replicate n (Reads 1))" "readings (replicate n (Reads 1)) = n" for n by (induction n) simp_all
  then have "steady (ReadInterrupted # replicate (Suc (length (node_bytes sample_node))) (Reads 1)) \<and>
      length (sr_inner ?r) < readings (ReadInterrupted # replicate (Suc (length (node_bytes sample_node))) (Reads 1))"
    by (simp add: stream_reader_with_options_def del: replicate_Suc)
  moreover have "list_all (stream_item_ok system_allocate default_reader_options) [sample_node]" using sample_item_ok by simp
  ultimately show ?thesis using stream_reader_session [OF _ s] unfolding stream_reader_on_def by auto
qed

end
