(* ===== verification/Stream_Tensors.thy ===== *)
theory Stream_Tensors
  imports Stream_Reader
begin

text \<open>
  The flat loop \<open>next_tensor\<close> of the tokio reader (\<open>hurray-io/src/stream/reader.rs\<close>): on the bytes of a tensor it returns the
  tensor, with the reader as new, or waits with the position kept.
\<close>

lemma stream_fill_reading:
  assumes i: "reading opts d bufs rest (sr_core r) (sr_inner r)" and n: "0 < rc_remaining (sr_core r)"
  obtains (waiting) evs' p where "stream_fill r evs = ((r, evs'), p)" "p = Suspended \<or> (\<exists>e. p = Returned (Err (Io e)))"
    | (filled) r' evs' where "stream_fill r evs = ((r', evs'), Returned (Ok ()))" "length evs' < length evs"
        "reading opts d bufs rest (sr_core r') (sr_inner r')"
proof -
  obtain dst where dst: "input_dst (sr_core r) = Ok dst" "length dst = rc_remaining (sr_core r)" using reading_dst [OF i] by blast
  show thesis
  proof (cases rule: source_read_cases [of "rc_remaining (sr_core r)" "sr_inner r" evs])
    case suspended
    then show ?thesis using dst by (intro that(1) [of "[]" Suspended]) (simp_all add: stream_fill_def)
  next
    case (failed evs' e)
    then show ?thesis using dst by (intro that(1) [of evs' "Returned (Err (Io e))"]) (simp_all add: stream_fill_def)
  next
    case (bytes evs' m)
    have m: "0 < m" "m \<le> length (sr_inner r)" using bytes(2,3) n reading_remaining [OF i] by simp_all
    then have l: "length (take m (sr_inner r)) = m" by simp
    from reading_chunk [OF i m(1) bytes(2) descriptor_bytes_long] obtain c' where c':
      "report_filled (fill_dst (sr_core r) (take m (sr_inner r))) m = (c', Ok ())" "reading opts d bufs rest c' (drop m (sr_inner r))"
      by blast
    have f: "stream_fill r evs = ((r\<lparr>sr_inner := drop m (sr_inner r), sr_core := c'\<rparr>, evs'), Returned (Ok ()))"
      using dst bytes(1) c'(1) l by (simp add: stream_fill_def del: length_take take_all take_all_iff)
    then show ?thesis using that(2) [OF f] c'(2) stream_fill_shrinks [OF f] by simp
  qed
qed

lemma next_tensor_answers:
  assumes "readable alloc opts d bufs" and "reading opts d bufs rest (sr_core r) (sr_inner r)"
    and "next_tensor alloc r evs = ((r', evs'), res)"
  shows "res = Returned (Ok (Some \<lparr>st_descriptor = d, st_buffers = bufs\<rparr>)) \<and> sr_core r' = reader_with_options opts \<and> sr_inner r' = rest \<or>
    (res = Suspended \<or> (\<exists>e. res = Returned (Err (Io e)))) \<and> reading opts d bufs rest (sr_core r') (sr_inner r')"
  using assms(2,3)
proof (induction "length evs" arbitrary: r evs rule: less_induct)
  case less
  from assms(1) less.prems(1) show ?case
  proof (cases rule: reading_outcome)
    case (tensor c)
    then show ?thesis using less.prems(2) by (subst (asm) next_tensor.simps) auto
  next
    case (input c len)
    let ?r = "r\<lparr>sr_core := c\<rparr>"
    have i: "reading opts d bufs rest (sr_core ?r) (sr_inner ?r)" "0 < rc_remaining (sr_core ?r)" using input by simp_all
    then show ?thesis
    proof (cases rule: stream_fill_reading [of opts d bufs rest ?r evs])
      case (waiting evs2 p)
      then show ?thesis using less.prems(2) input(1) i(1) by (subst (asm) next_tensor.simps) auto
    next
      case (filled r2 evs2)
      have "next_tensor alloc r2 evs2 = ((r', evs'), res)"
        using less.prems(2) input(1) filled(1) by (subst (asm) next_tensor.simps) simp
      then show ?thesis using less.hyps [OF filled(2,3)] by blast
    qed
  qed
qed

end
