(* ===== verification/File_Sections.thy ===== *)
theory File_Sections
  imports Io_Errors
begin

text \<open>
  The footer sections of the container file (\<open>hurray-io/src/file/sans_io/sections.rs\<close>, the value and index
  types of \<open>file/types.rs\<close>): offset alignment, and the encoders and parsers of the index and of the
  key-value section. A parser takes the bytes and a position, the \<open>&mut usize\<close> of the code, and returns
  the value with the new position.

  Two contracts carry the proofs: \<open>parses\<close>, what a parser returns on the bytes an encoder wrote, and
  \<open>accepts\<close>, what holds of whatever it returns on arbitrary bytes.
\<close>

section \<open>Offsets\<close>

text \<open>The alignment is a positive divisor; the sum is a plain addition.\<close>

definition align_up :: "u64 \<Rightarrow> u64 \<Rightarrow> u64 io_result" where
  "align_up offset al =
     (if al = 0 then Panic
      else let rem = offset mod al in
        if rem = 0 then Ok offset else plain_add offset (al - rem))"

definition pad_to :: "u64 \<Rightarrow> u64 \<Rightarrow> u64 io_result" where
  "pad_to offset al = r_bind (align_up offset al) (\<lambda>x. Ok (x - offset))"

section \<open>Values and entries\<close>

text \<open>A \<open>String\<close> is its bytes, which are valid UTF-8.\<close>

datatype kv_value =
    KvString bytes
  | KvInt64 i64
  | KvUint64 u64
  | KvFloat64 f64
  | KvBool bool
  | KvBytes bytes
  | KvArray "kv_value list"

record index_entry =
  ie_name :: bytes
  ie_descriptor_offset :: u64
  ie_descriptor_length :: u32
  ie_data_offset :: u64
  ie_data_length :: u64

text \<open>What \<open>str::from_utf8\<close> accepts: the well-formed byte sequences of the Unicode standard.\<close>

definition utf8_cont :: "u8 \<Rightarrow> bool" where
  "utf8_cont b \<longleftrightarrow> 0x80 \<le> b \<and> b \<le> 0xBF"

fun utf8_valid :: "bytes \<Rightarrow> bool" where
  "utf8_valid [] = True"
| "utf8_valid (b # bs) =
     (if b < 0x80 then utf8_valid bs
      else if 0xC2 \<le> b \<and> b \<le> 0xDF then
        (case bs of c # r \<Rightarrow> utf8_cont c \<and> utf8_valid r | _ \<Rightarrow> False)
      else if 0xE0 \<le> b \<and> b \<le> 0xEF then
        (case bs of
           c # d # r \<Rightarrow>
             (if b = 0xE0 then 0xA0 else 0x80) \<le> c \<and> c \<le> (if b = 0xED then 0x9F else 0xBF) \<and>
             utf8_cont d \<and> utf8_valid r
         | _ \<Rightarrow> False)
      else if 0xF0 \<le> b \<and> b \<le> 0xF4 then
        (case bs of
           c # d # e # r \<Rightarrow>
             (if b = 0xF0 then 0x90 else 0x80) \<le> c \<and> c \<le> (if b = 0xF4 then 0x8F else 0xBF) \<and>
             utf8_cont d \<and> utf8_cont e \<and> utf8_valid r
         | _ \<Rightarrow> False)
      else False)"

definition from_utf8 :: "string \<Rightarrow> bytes \<Rightarrow> bytes io_result" where
  "from_utf8 what b = (if utf8_valid b then Ok b else Err (InvalidHeader what))"

section \<open>Parsers\<close>

type_synonym 'a section_parser = "bytes \<Rightarrow> usize \<Rightarrow> ('a \<times> usize) io_result"

definition sp_bind :: "'a section_parser \<Rightarrow> ('a \<Rightarrow> 'b section_parser) \<Rightarrow> 'b section_parser" where
  "sp_bind p f b pos = r_bind (p b pos) (\<lambda>(x, pos'). f x b pos')"

definition sp_ret :: "'a \<Rightarrow> 'a section_parser" where
  "sp_ret x b pos = Ok (x, pos)"

definition sp_lift :: "'a io_result \<Rightarrow> 'a section_parser" where
  "sp_lift r b pos = r_bind r (\<lambda>x. Ok (x, pos))"

definition read_u16 :: "u16 section_parser" where
  "read_u16 b pos =
     (if pos + 2 > length b then Err (InvalidHeader ''truncated field (u16)'')
      else Ok (from_le_bytes (take 2 (drop pos b)), pos + 2))"

definition read_u32 :: "u32 section_parser" where
  "read_u32 b pos =
     (if pos + 4 > length b then Err (InvalidHeader ''truncated field (u32)'')
      else Ok (from_le_bytes (take 4 (drop pos b)), pos + 4))"

definition read_u64 :: "u64 section_parser" where
  "read_u64 b pos =
     (if pos + 8 > length b then Err (InvalidHeader ''truncated field (u64)'')
      else Ok (from_le_bytes (take 8 (drop pos b)), pos + 8))"

definition read_bytes_slice :: "usize \<Rightarrow> bytes section_parser" where
  "read_bytes_slice n b pos =
     (if pos + n > length b then Err (InvalidHeader ''truncated byte slice'')
      else Ok (take n (drop pos b), pos + n))"

definition read_byte :: "u8 section_parser" where
  "read_byte = sp_bind (read_bytes_slice 1) (\<lambda>s. sp_lift (index_at s 0))"

fun sp_many :: "nat \<Rightarrow> 'a section_parser \<Rightarrow> 'a list section_parser" where
  "sp_many 0 p = sp_ret []"
| "sp_many (Suc n) p = sp_bind p (\<lambda>x. sp_bind (sp_many n p) (\<lambda>xs. sp_ret (x # xs)))"

subsection \<open>Index\<close>

definition parse_index_entry :: "bytes set \<Rightarrow> index_entry section_parser" where
  "parse_index_entry seen =
     sp_bind read_u16 (\<lambda>name_len.
     if name_len = 0 then sp_lift (Err TensorNameEmpty)
     else
       sp_bind (read_bytes_slice (unat name_len)) (\<lambda>nb.
       sp_bind (sp_lift (from_utf8 ''tensor name is not valid UTF-8'' nb)) (\<lambda>nm.
       if nm \<in> seen then sp_lift (Err (DuplicateTensorName (map (char_of \<circ> unat) nm)))
       else
         sp_bind read_u64 (\<lambda>desc_off.
         sp_bind read_u32 (\<lambda>desc_len.
         sp_bind read_u64 (\<lambda>data_off.
         sp_bind read_u64 (\<lambda>data_len.
         sp_bind read_u32 (\<lambda>flags.
         sp_ret \<lparr>ie_name = nm, ie_descriptor_offset = desc_off, ie_descriptor_length = desc_len,
                 ie_data_offset = data_off, ie_data_length = data_len\<rparr>))))))))"

fun parse_index_loop :: "nat \<Rightarrow> bytes set \<Rightarrow> index_entry list section_parser" where
  "parse_index_loop 0 seen = sp_ret []"
| "parse_index_loop (Suc n) seen =
     sp_bind (parse_index_entry seen) (\<lambda>e.
     sp_bind (parse_index_loop n (insert (ie_name e) seen)) (\<lambda>es. sp_ret (e # es)))"

definition parse_index :: "bytes \<Rightarrow> index_entry list io_result" where
  "parse_index b =
     r_bind (sp_bind read_u64 (\<lambda>cnt. parse_index_loop (unat cnt) {}) b 0) (\<lambda>(es, pos). Ok es)"

subsection \<open>Key-value section\<close>

text \<open>\<open>parse_kv_value\<close> calls itself only on the elements of an array, whose tag is never that of an array;
  the branches for the other tags are \<open>parse_kv_scalar\<close>.\<close>

definition parse_kv_scalar :: "u8 \<Rightarrow> kv_value section_parser" where
  "parse_kv_scalar tag =
     (if tag = 0x01 then
        sp_bind read_u32 (\<lambda>len. sp_bind (read_bytes_slice (unat len)) (\<lambda>s.
        sp_bind (sp_lift (from_utf8 ''KV string is not valid UTF-8'' s)) (\<lambda>s. sp_ret (KvString s))))
      else if tag = 0x02 then sp_bind read_u64 (\<lambda>v. sp_ret (KvInt64 v))
      else if tag = 0x03 then sp_bind read_u64 (\<lambda>v. sp_ret (KvUint64 v))
      else if tag = 0x04 then sp_bind read_u64 (\<lambda>raw. sp_ret (KvFloat64 (from_le_bytes (to_le_bytes raw))))
      else if tag = 0x05 then
        sp_bind read_byte (\<lambda>b.
        if b = 0x00 then sp_ret (KvBool False)
        else if b = 0x01 then sp_ret (KvBool True)
        else sp_lift (Err (InvalidHeader ''invalid KV bool byte'')))
      else if tag = 0x06 then
        sp_bind read_u32 (\<lambda>len. sp_bind (read_bytes_slice (unat len)) (\<lambda>v. sp_ret (KvBytes v)))
      else sp_lift (Err (InvalidHeader ''unknown KV value tag'')))"

definition parse_kv_value :: "u8 \<Rightarrow> kv_value section_parser" where
  "parse_kv_value tag =
     (if tag = 0x07 then
        sp_bind read_byte (\<lambda>elem_tag.
        if elem_tag = 0x07 \<or> elem_tag > 0x06 then sp_lift (Err (InvalidHeader ''invalid KV array element tag''))
        else
          sp_bind read_u32 (\<lambda>cnt.
          sp_bind (sp_many (unat cnt) (parse_kv_scalar elem_tag)) (\<lambda>elements. sp_ret (KvArray elements))))
      else parse_kv_scalar tag)"

definition parse_kv_entry :: "bytes set \<Rightarrow> (bytes \<times> kv_value) section_parser" where
  "parse_kv_entry seen =
     sp_bind read_u16 (\<lambda>key_len.
     if key_len = 0 then sp_lift (Err KvKeyEmpty)
     else
       sp_bind (read_bytes_slice (unat key_len)) (\<lambda>kb.
       sp_bind (sp_lift (from_utf8 ''KV key is not valid UTF-8'' kb)) (\<lambda>key.
       if key \<in> seen then sp_lift (Err (DuplicateKvKey (map (char_of \<circ> unat) key)))
       else
         sp_bind read_byte (\<lambda>tag.
         sp_bind (parse_kv_value tag) (\<lambda>v. sp_ret (key, v))))))"

fun parse_kv_loop :: "nat \<Rightarrow> bytes set \<Rightarrow> (bytes \<times> kv_value) list section_parser" where
  "parse_kv_loop 0 seen = sp_ret []"
| "parse_kv_loop (Suc n) seen =
     sp_bind (parse_kv_entry seen) (\<lambda>e.
     sp_bind (parse_kv_loop n (insert (fst e) seen)) (\<lambda>es. sp_ret (e # es)))"

definition parse_kv :: "bytes \<Rightarrow> (bytes \<times> kv_value) list io_result" where
  "parse_kv b = r_bind (sp_bind read_u32 (\<lambda>cnt. parse_kv_loop (unat cnt) {}) b 0) (\<lambda>(es, pos). Ok es)"

section \<open>Encoders\<close>

fun validate_kv_keys_from :: "bytes set \<Rightarrow> (bytes \<times> kv_value) list \<Rightarrow> unit io_result" where
  "validate_kv_keys_from seen [] = Ok ()"
| "validate_kv_keys_from seen ((key, v) # kvs) =
     (if key = [] then Err KvKeyEmpty
      else if length key > 65535 then Err (KvKeyTooLong (length key))
      else if key \<in> seen then Err (DuplicateKvKey (map (char_of \<circ> unat) key))
      else validate_kv_keys_from (insert key seen) kvs)"

definition validate_kv_keys :: "(bytes \<times> kv_value) list \<Rightarrow> unit io_result" where
  "validate_kv_keys kvs = validate_kv_keys_from {} kvs"

fun kv_wire_tag :: "kv_value \<Rightarrow> u8" where
  "kv_wire_tag (KvString _) = 0x01"
| "kv_wire_tag (KvInt64 _) = 0x02"
| "kv_wire_tag (KvUint64 _) = 0x03"
| "kv_wire_tag (KvFloat64 _) = 0x04"
| "kv_wire_tag (KvBool _) = 0x05"
| "kv_wire_tag (KvBytes _) = 0x06"
| "kv_wire_tag (KvArray _) = 0x07"

text \<open>The encoders append to a vector; on an error the vector is dropped by the caller.\<close>

fun encode_kv_payload :: "bytes \<Rightarrow> kv_value \<Rightarrow> bytes io_result"
  and encode_kv_payloads :: "bytes \<Rightarrow> kv_value list \<Rightarrow> bytes io_result" where
  "encode_kv_payload buf (KvString s) = Ok (buf @ to_le_bytes (word_of_nat (length s) :: u32) @ s)"
| "encode_kv_payload buf (KvInt64 v) = Ok (buf @ to_le_bytes v)"
| "encode_kv_payload buf (KvUint64 v) = Ok (buf @ to_le_bytes v)"
| "encode_kv_payload buf (KvFloat64 v) = Ok (buf @ to_le_bytes v)"
| "encode_kv_payload buf (KvBool v) = Ok (buf @ [if v then 1 else 0])"
| "encode_kv_payload buf (KvBytes v) = Ok (buf @ to_le_bytes (word_of_nat (length v) :: u32) @ v)"
| "encode_kv_payload buf (KvArray []) = Err (InvalidHeader ''KV array must not be empty'')"
| "encode_kv_payload buf (KvArray (e # es)) =
     (if kv_wire_tag e = 0x07 then Err (InvalidHeader ''KV array elements must not be arrays'')
      else if \<exists>x \<in> set (e # es). kv_wire_tag x \<noteq> kv_wire_tag e
      then Err (InvalidHeader ''KV array elements must all have the same type'')
      else encode_kv_payloads
        (buf @ [kv_wire_tag e] @ to_le_bytes (word_of_nat (length (e # es)) :: u32)) (e # es))"
| "encode_kv_payloads buf [] = Ok buf"
| "encode_kv_payloads buf (x # xs) = r_bind (encode_kv_payload buf x) (\<lambda>buf. encode_kv_payloads buf xs)"

definition encode_kv_value :: "bytes \<Rightarrow> kv_value \<Rightarrow> bytes io_result" where
  "encode_kv_value buf v = encode_kv_payload (buf @ [kv_wire_tag v]) v"

fun encode_kv_entries :: "bytes \<Rightarrow> (bytes \<times> kv_value) list \<Rightarrow> bytes io_result" where
  "encode_kv_entries buf [] = Ok buf"
| "encode_kv_entries buf ((key, v) # kvs) =
     r_bind (encode_kv_value (buf @ to_le_bytes (word_of_nat (length key) :: u16) @ key) v)
       (\<lambda>buf. encode_kv_entries buf kvs)"

definition encode_kv_section :: "(bytes \<times> kv_value) list \<Rightarrow> bytes io_result" where
  "encode_kv_section kvs = encode_kv_entries (to_le_bytes (word_of_nat (length kvs) :: u32)) kvs"

definition encode_index_entry :: "index_entry \<Rightarrow> bytes" where
  "encode_index_entry e =
     to_le_bytes (word_of_nat (length (ie_name e)) :: u16) @ ie_name e @ to_le_bytes (ie_descriptor_offset e) @
     to_le_bytes (ie_descriptor_length e) @ to_le_bytes (ie_data_offset e) @ to_le_bytes (ie_data_length e) @
     to_le_bytes (0 :: u32)"

definition encode_index_section :: "index_entry list \<Rightarrow> bytes" where
  "encode_index_section es =
     to_le_bytes (word_of_nat (length es) :: u64) @ concat (map encode_index_entry es)"

section \<open>What a parser returns on given bytes\<close>

definition parses :: "'a section_parser \<Rightarrow> bytes \<Rightarrow> 'a \<Rightarrow> bool" where
  "parses p bs x \<longleftrightarrow> (\<forall>pre suf. p (pre @ bs @ suf) (length pre) = Ok (x, length pre + length bs))"

named_theorems parses_intros \<open>introduction rules for parses\<close>

lemma parses_ret [parses_intros]: "parses (sp_ret x) [] x"
  by (simp add: parses_def sp_ret_def)

lemma parses_lift [parses_intros]: "r = Ok x \<Longrightarrow> parses (sp_lift r) [] x"
  by (simp add: parses_def sp_lift_def)

lemma parses_bind:
  assumes "parses p bs x" and "parses (f x) cs y"
  shows "parses (sp_bind p f) (bs @ cs) y"
  unfolding parses_def
proof (intro allI)
  fix pre suf
  have "p (pre @ (bs @ cs) @ suf) (length pre) = Ok (x, length pre + length bs)"
    using assms(1) [unfolded parses_def, rule_format, of pre "cs @ suf"] by simp
  moreover have "f x (pre @ (bs @ cs) @ suf) (length pre + length bs) = Ok (y, length pre + length bs + length cs)"
    using assms(2) [unfolded parses_def, rule_format, of "pre @ bs" suf] by simp
  ultimately show "sp_bind p f (pre @ (bs @ cs) @ suf) (length pre) = Ok (y, length pre + length (bs @ cs))"
    by (simp add: sp_bind_def)
qed

lemma parses_bind_last: "parses p bs x \<Longrightarrow> parses (f x) [] y \<Longrightarrow> parses (sp_bind p f) bs y"
  using parses_bind [of p bs x f "[]" y] by simp

lemma parses_words [parses_intros]:
  "parses read_u16 (to_le_bytes (v :: u16)) v"
  "parses read_u32 (to_le_bytes (w :: u32)) w"
  "parses read_u64 (to_le_bytes (z :: u64)) z"
  by (simp_all add: parses_def read_u16_def read_u32_def read_u64_def)

lemma parses_slice [parses_intros]: "n = length s \<Longrightarrow> parses (read_bytes_slice n) s s"
  by (simp add: parses_def read_bytes_slice_def)

lemma parses_byte [parses_intros]: "parses read_byte [b] b"
  unfolding read_byte_def by (rule parses_bind_last [OF parses_slice [of 1 "[b]"] parses_lift]) simp_all

lemma parses_bind_lift: "r = Ok x \<Longrightarrow> parses (f x) bs y \<Longrightarrow> parses (sp_bind (sp_lift r) f) bs y"
  using parses_bind [OF parses_lift, of r x f bs y] by simp

lemma parses_if_not: "\<not> P \<Longrightarrow> parses q bs x \<Longrightarrow> parses (if P then p else q) bs x"
  by simp

lemma parses_many:
  "(\<And>x. x \<in> set xs \<Longrightarrow> parses p (enc x) x) \<Longrightarrow> parses (sp_many (length xs) p) (concat (map enc xs)) xs"
proof (induction xs)
  case (Cons x xs)
  then have "parses (sp_bind p (\<lambda>y. sp_bind (sp_many (length xs) p) (\<lambda>ys. sp_ret (y # ys))))
      (enc x @ concat (map enc xs)) (x # xs)"
    by (intro parses_bind [where x = x] parses_bind_last [where x = xs] parses_ret) simp_all
  then show ?case by simp
qed (simp add: parses_intros)

lemma parses_whole: "parses p bs x \<Longrightarrow> p (bs @ rest) 0 = Ok (x, length bs)"
  unfolding parses_def by (metis append_Nil list.size(3) plus_nat.add_0)

section \<open>What a parser accepts\<close>

definition accepts :: "'a section_parser \<Rightarrow> ('a \<Rightarrow> nat \<Rightarrow> bool) \<Rightarrow> bool" where
  "accepts p Q \<longleftrightarrow>
     (\<forall>b pos. pos \<le> length b \<longrightarrow>
        p b pos \<noteq> Panic \<and>
        (\<forall>x pos'. p b pos = Ok (x, pos') \<longrightarrow> pos \<le> pos' \<and> pos' \<le> length b \<and> Q x (pos' - pos)))"

named_theorems accepts_intros \<open>introduction rules for accepts\<close>

lemma accepts_mono: "accepts p Q \<Longrightarrow> (\<And>x n. Q x n \<Longrightarrow> R x n) \<Longrightarrow> accepts p R"
  unfolding accepts_def by blast

lemma accepts_ret: "Q x 0 \<Longrightarrow> accepts (sp_ret x) Q"
  by (simp add: accepts_def sp_ret_def)

lemma accepts_lift: "r \<noteq> Panic \<Longrightarrow> (\<And>x. r = Ok x \<Longrightarrow> Q x 0) \<Longrightarrow> accepts (sp_lift r) Q"
  by (cases r) (auto simp: accepts_def sp_lift_def)

lemma accepts_bind:
  assumes "accepts p Q" and "\<And>x n. Q x n \<Longrightarrow> accepts (f x) (\<lambda>y m. R y (n + m))"
  shows "accepts (sp_bind p f) R"
  unfolding accepts_def
proof (intro allI impI)
  fix b :: bytes and pos assume pos: "pos \<le> length b"
  note P = assms(1) [unfolded accepts_def, rule_format, OF pos]
  show "sp_bind p f b pos \<noteq> Panic \<and>
      (\<forall>y k'. sp_bind p f b pos = Ok (y, k') \<longrightarrow> pos \<le> k' \<and> k' \<le> length b \<and> R y (k' - pos))"
  proof (cases "p b pos")
    case (Ok r)
    obtain x k where r: "r = (x, k)" by fastforce
    then have k: "pos \<le> k" "k \<le> length b" "Q x (k - pos)" using P Ok by simp_all
    have eq: "sp_bind p f b pos = f x b k" using Ok r by (simp add: sp_bind_def)
    from assms(2) [OF k(3), unfolded accepts_def, rule_format, OF k(2)]
    have F: "f x b k \<noteq> Panic" "\<And>y k'. f x b k = Ok (y, k') \<Longrightarrow> k \<le> k' \<and> k' \<le> length b \<and> R y (k - pos + (k' - k))"
      by blast+
    have "pos \<le> k' \<and> k' \<le> length b \<and> R y (k' - pos)" if "f x b k = Ok (y, k')" for y k'
    proof -
      have "k - pos + (k' - k) = k' - pos" using F(2) [OF that] k(1) by simp
      then have "R y (k' - pos)" using F(2) [OF that] by metis
      then show ?thesis using F(2) [OF that] k(1) by simp
    qed
    then show ?thesis unfolding eq using F(1) by blast
  qed (use P in \<open>simp_all add: sp_bind_def\<close>)
qed

lemma accepts_words:
  "accepts read_u16 (\<lambda>v n. n = 2)" "accepts read_u32 (\<lambda>v n. n = 4)" "accepts read_u64 (\<lambda>v n. n = 8)"
  by (simp_all add: accepts_def read_u16_def read_u32_def read_u64_def)

lemma accepts_slice: "accepts (read_bytes_slice k) (\<lambda>s n. n = k \<and> length s = k)"
  by (simp add: accepts_def read_bytes_slice_def)

lemma accepts_byte: "accepts read_byte (\<lambda>v n. n = 1)"
  unfolding read_byte_def
  by (rule accepts_bind [OF accepts_slice]) (rule accepts_lift; simp add: index_at_def)

lemma accepts_if: "(P \<Longrightarrow> accepts p Q) \<Longrightarrow> (\<not> P \<Longrightarrow> accepts q Q) \<Longrightarrow> accepts (if P then p else q) Q"
  by simp

lemma accepts_Err: "accepts (sp_lift (Err e)) Q"
  by (simp add: accepts_def sp_lift_def)

lemma accepts_utf8: "accepts (sp_lift (from_utf8 what b)) (\<lambda>s n. n = 0 \<and> s = b \<and> utf8_valid b)"
  by (rule accepts_lift) (auto simp: from_utf8_def split: if_splits)

lemma accepts_many:
  assumes "accepts p (\<lambda>x n. n = size_of x \<and> ok x)"
  shows "accepts (sp_many k p) (\<lambda>xs n. n = sum_list (map size_of xs) \<and> length xs = k \<and> (\<forall>x \<in> set xs. ok x))"
proof (induction k)
  case 0
  then show ?case by (simp add: accepts_ret)
next
  case (Suc k)
  show ?case
    unfolding sp_many.simps
    by (rule accepts_bind [OF assms], rule accepts_bind [OF Suc], rule accepts_ret) auto
qed

lemmas accepts_steps =
  accepts_bind [OF accepts_words(1)] accepts_bind [OF accepts_words(2)] accepts_bind [OF accepts_words(3)]
  accepts_bind [OF accepts_slice] accepts_bind [OF accepts_byte] accepts_bind [OF accepts_utf8]

lemma accepts_whole:
  assumes "accepts p Q"
  shows "p b 0 \<noteq> Panic" "p b 0 = Ok (x, n) \<Longrightarrow> n \<le> length b \<and> Q x n"
  using assms [unfolded accepts_def, rule_format, of 0 b] by auto

section \<open>The index\<close>

definition index_ok :: "index_entry list \<Rightarrow> bool" where
  "index_ok es \<longleftrightarrow>
     (\<forall>e \<in> set es. ie_name e \<noteq> [] \<and> length (ie_name e) \<le> 65535 \<and> utf8_valid (ie_name e)) \<and> distinct (map ie_name es)"

lemma length_index_entry: "length (encode_index_entry e) = length (ie_name e) + 34"
  by (simp add: encode_index_entry_def)

lemma parses_index_entry:
  assumes "ie_name e \<noteq> []" "length (ie_name e) \<le> 65535" "utf8_valid (ie_name e)" "ie_name e \<notin> seen"
  shows "parses (parse_index_entry seen) (encode_index_entry e) e"
proof -
  let ?n = "word_of_nat (length (ie_name e)) :: u16"
  have n: "unat ?n = length (ie_name e)" using assms(2) by (simp add: unat_of_nat take_bit_eq_mod)
  have eta: "\<lparr>ie_name = ie_name e, ie_descriptor_offset = ie_descriptor_offset e,
      ie_descriptor_length = ie_descriptor_length e, ie_data_offset = ie_data_offset e,
      ie_data_length = ie_data_length e\<rparr> = e" by simp
  have nz: "?n \<noteq> 0" using n assms(1) by auto
  show ?thesis
    unfolding parse_index_entry_def encode_index_entry_def
    by (rule parses_bind [OF parses_words(1)] parses_if_not parses_bind [OF parses_slice] parses_bind_lift
        parses_bind [OF parses_words(3)] parses_bind [OF parses_words(2)] parses_bind_last [OF parses_words(2)] |
        simp add: n nz assms from_utf8_def parses_ret eta)+
qed

lemma parses_index_loop:
  "index_ok es \<Longrightarrow> set (map ie_name es) \<inter> seen = {} \<Longrightarrow>
   parses (parse_index_loop (length es) seen) (concat (map encode_index_entry es)) es"
proof (induction es arbitrary: seen)
  case (Cons e es)
  have e: "parses (parse_index_entry seen) (encode_index_entry e) e"
    using Cons.prems by (intro parses_index_entry) (auto simp: index_ok_def)
  have "parses (parse_index_loop (length es) (insert (ie_name e) seen)) (concat (map encode_index_entry es)) es"
    using Cons.prems by (intro Cons.IH) (auto simp: index_ok_def)
  then have "parses (sp_bind (parse_index_entry seen) (\<lambda>e. sp_bind (parse_index_loop (length es) (insert (ie_name e) seen))
      (\<lambda>es. sp_ret (e # es)))) (encode_index_entry e @ concat (map encode_index_entry es)) (e # es)"
    by (rule parses_bind [OF e parses_bind_last [OF _ parses_ret]])
  then show ?case by simp
qed (simp add: parses_ret)

lemma index_roundtrip:
  assumes "index_ok es" and "length es < 2 ^ 64"
  shows "parse_index (encode_index_section es @ rest) = Ok es"
proof -
  have "unat (word_of_nat (length es) :: u64) = length es"
    using assms(2) by (simp add: unat_of_nat take_bit_eq_mod)
  then have "parses (sp_bind read_u64 (\<lambda>cnt. parse_index_loop (unat cnt) {})) (encode_index_section es) es"
    unfolding encode_index_section_def
    using parses_index_loop [OF assms(1), of "{}"] by (intro parses_bind [OF parses_words(3)]) simp
  from parses_whole [OF this, of rest] show ?thesis by (simp add: parse_index_def)
qed

lemma accepts_index_entry:
  "accepts (parse_index_entry seen) (\<lambda>e n. n = length (encode_index_entry e) \<and> ie_name e \<noteq> [] \<and>
     length (ie_name e) \<le> 65535 \<and> utf8_valid (ie_name e) \<and> ie_name e \<notin> seen)"
proof -
  have b: "unat n \<le> 65535" for n :: u16 using unsigned_less [of n, where 'a = nat] by simp
  have z: "unat n \<noteq> 0" if "n \<noteq> 0" for n :: u16 using that by (simp add: unat_eq_zero)
  show ?thesis
    unfolding parse_index_entry_def
    by (intro accepts_steps accepts_if accepts_Err accepts_ret) (auto simp: length_index_entry b dest: z)
qed

lemma accepts_index_loop:
  "accepts (parse_index_loop k seen) (\<lambda>es n. index_ok es \<and> length es = k \<and> set (map ie_name es) \<inter> seen = {} \<and>
     n = length (concat (map encode_index_entry es)))"
proof (induction k arbitrary: seen)
  case 0
  then show ?case by (simp add: accepts_ret index_ok_def)
next
  case (Suc k)
  show ?case
    unfolding parse_index_loop.simps
    by (rule accepts_bind [OF accepts_index_entry], rule accepts_bind [OF Suc], rule accepts_ret) (auto simp: index_ok_def)
qed

lemma parse_index_sound:
  "parse_index b \<noteq> Panic \<and>
   (parse_index b = Ok es \<longrightarrow> index_ok es \<and> length (encode_index_section es) \<le> length b)"
proof -
  have a: "accepts (sp_bind read_u64 (\<lambda>cnt. parse_index_loop (unat cnt) {}))
      (\<lambda>es n. index_ok es \<and> n = length (encode_index_section es))"
    by (intro accepts_steps accepts_mono [OF accepts_index_loop]) (simp add: encode_index_section_def)
  let ?r = "sp_bind read_u64 (\<lambda>cnt. parse_index_loop (unat cnt) {}) b 0"
  show ?thesis
    using accepts_whole [OF a, of b] by (cases ?r) (auto simp: parse_index_def)
qed

section \<open>Key-value pairs\<close>

fun kv_scalar_ok :: "kv_value \<Rightarrow> bool" where
  "kv_scalar_ok (KvString s) \<longleftrightarrow> utf8_valid s \<and> length s < 2 ^ 32"
| "kv_scalar_ok (KvBytes v) \<longleftrightarrow> length v < 2 ^ 32"
| "kv_scalar_ok (KvArray es) \<longleftrightarrow> False"
| "kv_scalar_ok _ \<longleftrightarrow> True"

text \<open>Arrays are flat, of one type and not empty.\<close>

fun kv_value_ok :: "kv_value \<Rightarrow> bool" where
  "kv_value_ok (KvArray es) \<longleftrightarrow>
     es \<noteq> [] \<and> length es < 2 ^ 32 \<and> (\<forall>x \<in> set es. kv_scalar_ok x \<and> kv_wire_tag x = kv_wire_tag (hd es))"
| "kv_value_ok v \<longleftrightarrow> kv_scalar_ok v"

definition kv_ok :: "(bytes \<times> kv_value) list \<Rightarrow> bool" where
  "kv_ok kvs \<longleftrightarrow>
     (\<forall>(key, v) \<in> set kvs. key \<noteq> [] \<and> length key \<le> 65535 \<and> utf8_valid key \<and> kv_value_ok v) \<and>
     distinct (map fst kvs) \<and> length kvs < 2 ^ 32"

fun kv_scalar_bytes :: "kv_value \<Rightarrow> bytes" where
  "kv_scalar_bytes (KvString s) = to_le_bytes (word_of_nat (length s) :: u32) @ s"
| "kv_scalar_bytes (KvInt64 v) = to_le_bytes v"
| "kv_scalar_bytes (KvUint64 v) = to_le_bytes v"
| "kv_scalar_bytes (KvFloat64 v) = to_le_bytes v"
| "kv_scalar_bytes (KvBool v) = [if v then 1 else 0]"
| "kv_scalar_bytes (KvBytes v) = to_le_bytes (word_of_nat (length v) :: u32) @ v"
| "kv_scalar_bytes (KvArray es) = []"

fun kv_payload_bytes :: "kv_value \<Rightarrow> bytes" where
  "kv_payload_bytes (KvArray es) =
     kv_wire_tag (hd es) # to_le_bytes (word_of_nat (length es) :: u32) @ concat (map kv_scalar_bytes es)"
| "kv_payload_bytes v = kv_scalar_bytes v"

definition kv_entry_bytes :: "bytes \<times> kv_value \<Rightarrow> bytes" where
  "kv_entry_bytes e =
     to_le_bytes (word_of_nat (length (fst e)) :: u16) @ fst e @ kv_wire_tag (snd e) # kv_payload_bytes (snd e)"

definition kv_bytes :: "(bytes \<times> kv_value) list \<Rightarrow> bytes" where
  "kv_bytes kvs = to_le_bytes (word_of_nat (length kvs) :: u32) @ concat (map kv_entry_bytes kvs)"

lemma kv_scalar_tag: "kv_scalar_ok v \<Longrightarrow> kv_wire_tag v \<noteq> 0x07 \<and> kv_wire_tag v \<le> 0x06"
  by (cases v) simp_all

lemma encode_scalar: "kv_scalar_ok v \<Longrightarrow> encode_kv_payload buf v = Ok (buf @ kv_scalar_bytes v)"
  by (cases v) simp_all

lemma encode_scalars:
  "(\<And>x. x \<in> set xs \<Longrightarrow> kv_scalar_ok x) \<Longrightarrow> encode_kv_payloads buf xs = Ok (buf @ concat (map kv_scalar_bytes xs))"
  by (induction xs arbitrary: buf) (simp_all add: encode_scalar)

lemma encode_payload: "kv_value_ok v \<Longrightarrow> encode_kv_payload buf v = Ok (buf @ kv_payload_bytes v)"
proof (cases v)
  case (KvArray es)
  assume ok: "kv_value_ok v"
  then obtain e es' where es: "es = e # es'" using KvArray by (cases es) auto
  have a: "kv_wire_tag e \<noteq> 0x07" "\<not> (\<exists>x \<in> set es. kv_wire_tag x \<noteq> kv_wire_tag e)" "\<And>x. x \<in> set es \<Longrightarrow> kv_scalar_ok x"
    using ok KvArray es kv_scalar_tag by auto
  show ?thesis
    using a unfolding KvArray es encode_kv_payload.simps
    by (simp only: if_not_P if_False encode_scalars) (simp add: es)
qed (simp_all add: encode_scalar)

lemma encode_entries:
  "(\<And>e. e \<in> set kvs \<Longrightarrow> kv_value_ok (snd e)) \<Longrightarrow> encode_kv_entries buf kvs = Ok (buf @ concat (map kv_entry_bytes kvs))"
proof (induction kvs arbitrary: buf)
  case (Cons e kvs)
  then have "encode_kv_value (buf @ to_le_bytes (word_of_nat (length (fst e)) :: u16) @ fst e) (snd e) = Ok (buf @ kv_entry_bytes e)"
    by (simp add: encode_kv_value_def encode_payload kv_entry_bytes_def)
  then show ?case using Cons by (cases e) simp
qed simp

lemma encode_kv_section_bytes: "kv_ok kvs \<Longrightarrow> encode_kv_section kvs = Ok (kv_bytes kvs)"
  by (subst encode_kv_section_def, subst encode_entries) (auto simp: kv_ok_def kv_bytes_def)

lemma parses_scalar:
  assumes "kv_scalar_ok v"
  shows "parses (parse_kv_scalar (kv_wire_tag v)) (kv_scalar_bytes v) v"
proof -
  have n: "unat (word_of_nat k :: u32) = k" if "k < 2 ^ 32" for k using that by (simp add: unat_of_nat take_bit_eq_mod)
  show ?thesis
  proof (cases v)
    case (KvString s)
    then show ?thesis using assms n [of "length s"]
      by (auto simp: parse_kv_scalar_def from_utf8_def
          intro!: parses_bind [OF parses_words(2)] parses_bind_last [OF parses_slice] parses_bind_lift parses_ret)
  next
    case (KvBytes s)
    then show ?thesis using assms n [of "length s"]
      by (auto simp: parse_kv_scalar_def intro!: parses_bind [OF parses_words(2)] parses_bind_last [OF parses_slice] parses_ret)
  next
    case (KvBool x)
    then show ?thesis
      by (auto simp: parse_kv_scalar_def intro!: parses_bind_last [OF parses_byte]) (simp_all add: parses_ret)
  qed (use assms in \<open>auto simp: parse_kv_scalar_def intro!: parses_bind_last [OF parses_words(3)] parses_ret\<close>)
qed

lemma parses_value:
  assumes "kv_value_ok v"
  shows "parses (parse_kv_value (kv_wire_tag v)) (kv_payload_bytes v) v"
proof (cases v)
  case (KvArray es)
  let ?t = "kv_wire_tag (hd es)"
  have ok: "es \<noteq> []" "length es < 2 ^ 32" "\<And>x. x \<in> set es \<Longrightarrow> kv_scalar_ok x \<and> kv_wire_tag x = ?t"
    using assms unfolding KvArray kv_value_ok.simps by blast+
  have t: "\<not> (?t = 0x07 \<or> ?t > 0x06)" using ok(1) ok(3) [of "hd es"] kv_scalar_tag [of "hd es"] by (auto simp: not_less)
  have n: "unat (word_of_nat (length es) :: u32) = length es" using ok(2) by (simp add: unat_of_nat take_bit_eq_mod)
  have many: "parses (sp_many (length es) (parse_kv_scalar ?t)) (concat (map kv_scalar_bytes es)) es"
  proof (rule parses_many)
    fix x assume "x \<in> set es"
    then show "parses (parse_kv_scalar ?t) (kv_scalar_bytes x) x" using ok(3) [of x] parses_scalar [of x] by simp
  qed
  have "parses (parse_kv_value 7) ([?t] @ to_le_bytes (word_of_nat (length es) :: u32) @ concat (map kv_scalar_bytes es)) (KvArray es)"
    unfolding parse_kv_value_def
    by (simp only: refl if_True, rule parses_bind [OF parses_byte], rule parses_if_not [OF t],
        rule parses_bind [OF parses_words(2)], unfold n, rule parses_bind_last [OF many], rule parses_ret)
  then show ?thesis by (simp add: KvArray)
qed (use assms parses_scalar [of v] in \<open>simp_all add: parse_kv_value_def\<close>)

lemma parses_kv_entry:
  assumes "fst e \<noteq> []" "length (fst e) \<le> 65535" "utf8_valid (fst e)" "kv_value_ok (snd e)" "fst e \<notin> seen"
  shows "parses (parse_kv_entry seen) (kv_entry_bytes e) e"
proof -
  let ?n = "word_of_nat (length (fst e)) :: u16"
  have n: "unat ?n = length (fst e)" using assms(2) by (simp add: unat_of_nat take_bit_eq_mod)
  have nz: "?n \<noteq> 0" using n assms(1) by auto
  have u: "from_utf8 w (fst e) = Ok (fst e)" for w using assms(3) by (simp add: from_utf8_def)
  have "parses (parse_kv_entry seen)
      (to_le_bytes ?n @ fst e @ [kv_wire_tag (snd e)] @ kv_payload_bytes (snd e)) (fst e, snd e)"
    unfolding parse_kv_entry_def
    by (rule parses_bind [OF parses_words(1)], rule parses_if_not [OF nz], unfold n, rule parses_bind [OF parses_slice],
        rule refl, rule parses_bind_lift [OF u], rule parses_if_not [OF assms(5)], rule parses_bind [OF parses_byte],
        rule parses_bind_last [OF parses_value [OF assms(4)]], rule parses_ret)
  then show ?thesis by (simp add: kv_entry_bytes_def)
qed

lemma parses_kv_loop:
  "(\<And>e. e \<in> set kvs \<Longrightarrow> fst e \<noteq> [] \<and> length (fst e) \<le> 65535 \<and> utf8_valid (fst e) \<and> kv_value_ok (snd e)) \<Longrightarrow>
   distinct (map fst kvs) \<Longrightarrow> set (map fst kvs) \<inter> seen = {} \<Longrightarrow>
   parses (parse_kv_loop (length kvs) seen) (concat (map kv_entry_bytes kvs)) kvs"
proof (induction kvs arbitrary: seen)
  case (Cons e kvs)
  have e: "parses (parse_kv_entry seen) (kv_entry_bytes e) e"
    using Cons.prems by (intro parses_kv_entry) auto
  have "parses (parse_kv_loop (length kvs) (insert (fst e) seen)) (concat (map kv_entry_bytes kvs)) kvs"
    using Cons.prems by (intro Cons.IH) auto
  then have "parses (sp_bind (parse_kv_entry seen) (\<lambda>e. sp_bind (parse_kv_loop (length kvs) (insert (fst e) seen))
      (\<lambda>es. sp_ret (e # es)))) (kv_entry_bytes e @ concat (map kv_entry_bytes kvs)) (e # kvs)"
    by (rule parses_bind [OF e parses_bind_last [OF _ parses_ret]])
  then show ?case by simp
qed (simp add: parses_ret)

lemma kv_roundtrip:
  assumes "kv_ok kvs"
  shows "parse_kv (kv_bytes kvs @ rest) = Ok kvs"
proof -
  have n: "unat (word_of_nat (length kvs) :: u32) = length kvs"
    using assms by (simp add: kv_ok_def unat_of_nat take_bit_eq_mod)
  have l: "parses (parse_kv_loop (length kvs) {}) (concat (map kv_entry_bytes kvs)) kvs"
    using assms by (intro parses_kv_loop) (auto simp: kv_ok_def)
  have "parses (sp_bind read_u32 (\<lambda>cnt. parse_kv_loop (unat cnt) {})) (kv_bytes kvs) kvs"
    unfolding kv_bytes_def by (rule parses_bind [OF parses_words(2)]) (simp add: n l)
  from parses_whole [OF this, of rest] show ?thesis by (simp add: parse_kv_def)
qed

text \<open>What the parser accepts on arbitrary bytes: an array may also be empty.\<close>

definition kv_accepted :: "kv_value \<Rightarrow> bool" where
  "kv_accepted v \<longleftrightarrow> v = KvArray [] \<or> kv_value_ok v"

lemma length_kv_scalar:
  "length (kv_scalar_bytes (KvString s)) = 4 + length s" "length (kv_scalar_bytes (KvBytes s)) = 4 + length s"
  "length (kv_scalar_bytes (KvBool x)) = 1" "length (kv_scalar_bytes (KvInt64 v)) = 8"
  "length (kv_scalar_bytes (KvUint64 v)) = 8" "length (kv_scalar_bytes (KvFloat64 v)) = 8"
  by simp_all

lemma unat_u32_bound: "unat (n :: u32) < 2 ^ 32"
  using unsigned_less [of n, where 'a = nat] by simp

lemma accepts_scalar:
  "accepts (parse_kv_scalar t) (\<lambda>v n. n = length (kv_scalar_bytes v) \<and> kv_scalar_ok v \<and> kv_wire_tag v = t)"
  unfolding parse_kv_scalar_def
  by (intro accepts_if accepts_steps accepts_Err accepts_ret) (use unat_u32_bound in auto)

lemma accepts_value:
  "accepts (parse_kv_value t) (\<lambda>v n. n = length (kv_payload_bytes v) \<and> kv_accepted v \<and> kv_wire_tag v = t)"
proof -
  have a: "accepts (sp_bind (sp_many (unat cnt) (parse_kv_scalar et)) (\<lambda>es. sp_ret (KvArray es)))
      (\<lambda>v m. 5 + m = length (kv_payload_bytes v) \<and> kv_accepted v \<and> kv_wire_tag v = 7)" for cnt :: u32 and et
  proof (rule accepts_bind [OF accepts_many [where size_of = "length \<circ> kv_scalar_bytes"
        and ok = "\<lambda>v. kv_scalar_ok v \<and> kv_wire_tag v = et"]])
    show "accepts (parse_kv_scalar et) (\<lambda>x n. n = (length \<circ> kv_scalar_bytes) x \<and> kv_scalar_ok x \<and> kv_wire_tag x = et)"
      by (rule accepts_mono [OF accepts_scalar]) simp
  next
    fix es n assume es: "n = sum_list (map (length \<circ> kv_scalar_bytes) es) \<and> length es = unat cnt \<and>
        (\<forall>x \<in> set es. kv_scalar_ok x \<and> kv_wire_tag x = et)"
    have "kv_accepted (KvArray es)"
    proof (cases "es = []")
      case False
      then have "kv_wire_tag (hd es) = et" using es hd_in_set by blast
      then show ?thesis using es False unat_u32_bound [of cnt] by (simp add: kv_accepted_def)
    qed (simp add: kv_accepted_def)
    then show "accepts (sp_ret (KvArray es))
        (\<lambda>y m. 5 + (n + m) = length (kv_payload_bytes y) \<and> kv_accepted y \<and> kv_wire_tag y = 7)"
      using es by (intro accepts_ret) (simp add: length_concat)
  qed
  have arr: "accepts (sp_bind read_byte (\<lambda>et. if et = 0x07 \<or> et > 0x06
        then sp_lift (Err (InvalidHeader ''invalid KV array element tag''))
        else sp_bind read_u32 (\<lambda>cnt. sp_bind (sp_many (unat cnt) (parse_kv_scalar et)) (\<lambda>es. sp_ret (KvArray es)))))
      (\<lambda>v n. n = length (kv_payload_bytes v) \<and> kv_accepted v \<and> kv_wire_tag v = 7)"
    by (rule accepts_bind [OF accepts_byte], intro accepts_if accepts_Err, rule accepts_bind [OF accepts_words(2)],
        rule accepts_mono [OF a]) auto
  have sc: "accepts (parse_kv_scalar t) (\<lambda>v n. n = length (kv_payload_bytes v) \<and> kv_accepted v \<and> kv_wire_tag v = t)"
  proof (rule accepts_mono [OF accepts_scalar])
    fix v n assume "n = length (kv_scalar_bytes v) \<and> kv_scalar_ok v \<and> kv_wire_tag v = t"
    then show "n = length (kv_payload_bytes v) \<and> kv_accepted v \<and> kv_wire_tag v = t"
      by (cases v) (simp_all add: kv_accepted_def)
  qed
  show ?thesis
    unfolding parse_kv_value_def using arr sc by (cases "t = 7") simp_all
qed

lemma accepts_kv_entry:
  "accepts (parse_kv_entry seen) (\<lambda>e n. n = length (kv_entry_bytes e) \<and> fst e \<noteq> [] \<and> length (fst e) \<le> 65535 \<and>
     utf8_valid (fst e) \<and> kv_accepted (snd e) \<and> fst e \<notin> seen)"
proof -
  have b: "unat n \<le> 65535" for n :: u16 using unsigned_less [of n, where 'a = nat] by simp
  have z: "unat n \<noteq> 0" if "n \<noteq> 0" for n :: u16 using that by (simp add: unat_eq_zero)
  show ?thesis
    unfolding parse_kv_entry_def
    by (intro accepts_steps accepts_if accepts_Err accepts_bind [OF accepts_value] accepts_ret)
      (auto simp: kv_entry_bytes_def b dest: z)
qed

lemma accepts_kv_loop:
  "accepts (parse_kv_loop k seen) (\<lambda>es n. (\<forall>e \<in> set es. fst e \<noteq> [] \<and> utf8_valid (fst e) \<and> kv_accepted (snd e)) \<and>
     distinct (map fst es) \<and> length es = k \<and> set (map fst es) \<inter> seen = {} \<and> n = length (concat (map kv_entry_bytes es)))"
proof (induction k arbitrary: seen)
  case 0
  then show ?case by (simp add: accepts_ret)
next
  case (Suc k)
  show ?case
    unfolding parse_kv_loop.simps
    by (rule accepts_bind [OF accepts_kv_entry], rule accepts_bind [OF Suc], rule accepts_ret) auto
qed

lemma parse_kv_sound:
  "parse_kv b \<noteq> Panic \<and>
   (parse_kv b = Ok kvs \<longrightarrow>
      (\<forall>e \<in> set kvs. fst e \<noteq> [] \<and> utf8_valid (fst e) \<and> kv_accepted (snd e)) \<and> distinct (map fst kvs) \<and>
      length (kv_bytes kvs) \<le> length b)"
proof -
  have a: "accepts (sp_bind read_u32 (\<lambda>cnt. parse_kv_loop (unat cnt) {}))
      (\<lambda>es n. (\<forall>e \<in> set es. fst e \<noteq> [] \<and> utf8_valid (fst e) \<and> kv_accepted (snd e)) \<and> distinct (map fst es) \<and>
        n = length (kv_bytes es))"
    by (intro accepts_steps accepts_mono [OF accepts_kv_loop]) (auto simp: kv_bytes_def)
  let ?r = "sp_bind read_u32 (\<lambda>cnt. parse_kv_loop (unat cnt) {}) b 0"
  show ?thesis
    using accepts_whole [OF a, of b] by (cases ?r) (auto simp: parse_kv_def)
qed

section \<open>Alignment\<close>

lemma div_up: "0 < r \<Longrightarrow> r < a \<Longrightarrow> (q * a + r + a - 1) div a = q + 1" for q r a :: nat
  by (intro div_nat_eqI) (simp_all add: algebra_simps)

definition align_nat :: "nat \<Rightarrow> nat \<Rightarrow> nat" where
  "align_nat al x = (x + al - 1) div al * al"

lemma align_nat_mod: "0 < a \<Longrightarrow> align_nat a x = (if x mod a = 0 then x else x + (a - x mod a))"
proof (cases "x mod a = 0")
  case True
  assume a: "0 < a"
  obtain k where k: "x = k * a" using True by (metis mod_0_imp_dvd dvd_def mult.commute)
  have "(k * a + a - 1) div a = k" using a by (intro div_nat_eqI) (simp_all add: algebra_simps)
  then show ?thesis using k by (simp add: align_nat_def)
next
  case False
  assume a: "0 < a"
  let ?q = "x div a" and ?r = "x mod a"
  have x: "x = ?q * a + ?r" by simp
  have r: "0 < ?r" "?r < a" using False a by simp_all
  have "(?q * a + ?r + a - 1) div a = ?q + 1" using r by (rule div_up)
  then have "(x + a - 1) div a = ?q + 1" unfolding x [symmetric] .
  moreover have "x + (a - ?r) = ?q * a + a" using x r by linarith
  moreover have "(?q + 1) * a = ?q * a + a" by simp
  ultimately show ?thesis using False by (simp only: align_nat_def if_False)
qed

lemma align_nat_ge: "0 < al \<Longrightarrow> x \<le> align_nat al x"
  unfolding align_nat_mod by (split if_split) (simp only: le_add1 order_refl simp_thms)

lemma align_nat_dvd: "al dvd align_nat al x"
  by (simp add: align_nat_def)

lemma align_nat_less: "0 < al \<Longrightarrow> align_nat al x < x + al"
  by (simp add: align_nat_mod)

text \<open>\<open>align_up\<close> rounds up, and panics exactly when the sum does not fit.\<close>

lemma align_up_eq:
  assumes "0 < al"
  shows "align_up x al =
    (if align_nat (unat al) (unat x) < 2 ^ 64 then Ok (word_of_nat (align_nat (unat al) (unat x))) else Panic)"
proof -
  let ?x = "unat x" and ?a = "unat al"
  have a: "0 < ?a" "al \<noteq> 0" using assms by (auto simp: word_less_nat_alt)
  have m: "unat (x mod al) = ?x mod ?a" by (simp add: unat_mod)
  have s: "unat (al - x mod al) = ?a - ?x mod ?a"
    using m a by (subst unat_sub) (simp_all add: word_le_nat_alt)
  have z: "x mod al = 0 \<longleftrightarrow> ?x mod ?a = 0" using m by (simp add: unat_eq_zero flip: m)
  have e: "?x < 2 ^ 64" using unsigned_less [of x, where 'a = nat] by simp
  show ?thesis
  proof (cases "?x mod ?a = 0")
    case True
    then show ?thesis using a z e by (simp add: align_up_def Let_def align_nat_mod)
  next
    case False
    have w: "word_of_nat (?x + (?a - ?x mod ?a)) = x + (al - x mod al)"
      unfolding s [symmetric] by simp
    show ?thesis
      using a z s False w
      by (simp add: align_up_def Let_def align_nat_mod plain_add_def checked_add_def)
  qed
qed

lemma align_up_value:
  "align_up x al = Ok y \<Longrightarrow> 0 < unat al \<and> unat y = align_nat (unat al) (unat x)"
  using align_up_eq [of al x]
  by (cases "al = 0") (auto simp: align_up_def word_neq_0_conv unat_gt_0 unat_of_nat take_bit_eq_mod split: if_splits)

lemma pad_to_value:
  assumes "pad_to x al = Ok p"
  shows "0 < unat al \<and> unat p = align_nat (unat al) (unat x) - unat x \<and> align_nat (unat al) (unat x) < 2 ^ 64"
proof -
  obtain y where y: "align_up x al = Ok y" "p = y - x" using assms by (auto simp: pad_to_def r_bind_Ok_iff)
  have v: "0 < unat al" "unat y = align_nat (unat al) (unat x)" using align_up_value [OF y(1)] by simp_all
  moreover have "x \<le> y" using v align_nat_ge [of "unat al" "unat x"] by (simp add: word_le_nat_alt)
  ultimately show ?thesis using y(2) unsigned_less [of y, where 'a = nat] by (simp add: unat_sub)
qed

section \<open>Properties\<close>

text \<open>
  The index section. Entries with distinct, non-empty, valid names of at most 65535 bytes are encoded
  to bytes that parse to the same entries, whatever follows them.
\<close>

theorem index_section_roundtrip:
  assumes "index_ok es" and "length es < 2 ^ 64"
  shows "parse_index (encode_index_section es @ rest) = Ok es"
  using assms by (rule index_roundtrip)

definition sample_entries :: "index_entry list" where
  "sample_entries =
     [\<lparr>ie_name = [0x61], ie_descriptor_offset = 64, ie_descriptor_length = 39, ie_data_offset = 4096, ie_data_length = 4\<rparr>,
      \<lparr>ie_name = [0xC3, 0xA9], ie_descriptor_offset = 4104, ie_descriptor_length = 39, ie_data_offset = 8192,
       ie_data_length = 8\<rparr>]"

lemma sample_entries_ok: "index_ok sample_entries"
  by (simp add: index_ok_def sample_entries_def utf8_cont_def word_less_nat_alt word_le_nat_alt)

theorem index_section_roundtrip_witness:
  "parse_index (encode_index_section sample_entries @ [1, 2]) = Ok sample_entries"
  by (rule index_section_roundtrip [OF sample_entries_ok]) (simp add: sample_entries_def)

text \<open>
  C31. The key-value section. Pairs with distinct, non-empty, valid keys and well-formed values (flat,
  homogeneous, non-empty arrays) are encoded, and the bytes parse to the same pairs, whatever
  follows them.
\<close>

theorem kv_section_roundtrip:
  assumes "kv_ok kvs"
  shows "\<exists>b. encode_kv_section kvs = Ok b \<and> (\<forall>rest. parse_kv (b @ rest) = Ok kvs)"
  using encode_kv_section_bytes [OF assms] kv_roundtrip [OF assms] by blast

definition sample_kv :: "(bytes \<times> kv_value) list" where
  "sample_kv = [([0x6B], KvArray [KvBool True, KvBool False]), ([0x6C], KvString [0x78])]"

theorem kv_section_roundtrip_witness:
  "\<exists>b. encode_kv_section sample_kv = Ok b \<and> (\<forall>rest. parse_kv (b @ rest) = Ok sample_kv)"
  by (rule kv_section_roundtrip) (simp add: kv_ok_def sample_kv_def word_less_nat_alt)

text \<open>
  C32. The parsers of the footer on arbitrary bytes: they never panic, an accepted index has distinct,
  non-empty, valid names and accepted pairs have distinct, non-empty, valid keys and flat arrays of one
  type, and the input is at least as long as their encoding, so that declared counts and lengths
  cannot exceed it.
\<close>

theorem footer_parsers_safe:
  "parse_index b \<noteq> Panic \<and> parse_kv b \<noteq> Panic \<and>
   (parse_index b = Ok es \<longrightarrow> index_ok es \<and> length (encode_index_section es) \<le> length b) \<and>
   (parse_kv b = Ok kvs \<longrightarrow>
      (\<forall>e \<in> set kvs. fst e \<noteq> [] \<and> utf8_valid (fst e) \<and> kv_accepted (snd e)) \<and> distinct (map fst kvs) \<and>
      length (kv_bytes kvs) \<le> length b)"
  using parse_index_sound parse_kv_sound by blast

theorem footer_parsers_safe_witness:
  "parse_index (encode_index_section sample_entries) = Ok sample_entries \<and> index_ok sample_entries \<and>
   length (encode_index_section sample_entries) \<le> length (encode_index_section sample_entries @ [7])"
proof -
  have r: "parse_index (encode_index_section sample_entries @ rest) = Ok sample_entries" for rest
    by (rule index_roundtrip [OF sample_entries_ok]) (simp add: sample_entries_def)
  then show ?thesis using footer_parsers_safe [of "encode_index_section sample_entries @ [7]" sample_entries] r [of "[]"] by simp
qed

text \<open>
  An array with the reserved element tag \<open>0x00\<close> and no elements is accepted by the parser, while the
  encoder has no bytes for an array without elements.
\<close>

theorem empty_array_asymmetry:
  "parse_kv_value 0x07 [0x00, 0, 0, 0, 0] 0 = Ok (KvArray [], 5) \<and>
   encode_kv_value buf (KvArray []) = Err (InvalidHeader ''KV array must not be empty'')"
proof
  have "[0x00, 0, 0, 0, 0] = [0x00] @ to_le_bytes (0 :: u32) @ []"
    by (simp add: to_le_bytes_def le_bytes_numeral)
  moreover have "parses (parse_kv_value 0x07) ([0x00] @ to_le_bytes (0 :: u32) @ []) (KvArray [])"
    unfolding parse_kv_value_def
    by (simp only: refl if_True, rule parses_bind [OF parses_byte], rule parses_if_not, simp,
        rule parses_bind [OF parses_words(2)], simp, rule parses_bind_last [OF parses_ret parses_ret])
  ultimately show "parse_kv_value 0x07 [0x00, 0, 0, 0, 0] 0 = Ok (KvArray [], 5)"
    using parses_whole [of "parse_kv_value 0x07" "[0x00, 0, 0, 0, 0]" "KvArray []" "[]"] by simp
qed (simp add: encode_kv_value_def)

end
