(* ===== verification/File_Write.thy ===== *)
theory File_Write
  imports File_Sections Sink_Driver "HOL-Library.List_Lexorder"
begin

text \<open>
  The sans-io writer of the container file (\<open>hurray-io/src/file/sans_io/write.rs\<close>, options of
  \<open>file/types.rs\<close>, constants of \<open>file/mod.rs\<close>): a core that keeps the position in the file, the index
  and the names used, and hands out write operations for the header, for each tensor and for the
  footer. An operation is a plan of segments, its own bytes, runs of zeros and borrowed payloads, and
  commits to the core when the last segment is out.

  The checksum of the crate \<open>crc32c\<close> is a parameter. The counters of bytes written are added with the
  check of the debug build.
\<close>

section \<open>Constants and options\<close>

definition FILE_MAGIC :: bytes where
  "FILE_MAGIC = [0x48, 0x52, 0x52, 0x59, 0x46, 0x49, 0x4C, 0x45]"

definition TRAILER_MAGIC :: bytes where
  "TRAILER_MAGIC = [0x48, 0x52, 0x52, 0x59]"

definition FILE_HEADER_SIZE :: u64 where
  "FILE_HEADER_SIZE = 64"

definition TRAILER_SIZE :: u64 where
  "TRAILER_SIZE = 40"

definition MIN_DATA_BUFFER_ALIGNMENT :: u32 where
  "MIN_DATA_BUFFER_ALIGNMENT = 4096"

definition MAX_DATA_BUFFER_ALIGNMENT :: u32 where
  "MAX_DATA_BUFFER_ALIGNMENT = 2 * 1024 * 1024"

definition HAS_KV_METADATA :: u32 where
  "HAS_KV_METADATA = 1"

definition SORTED_INDEX :: u32 where
  "SORTED_INDEX = 2"

definition HAS_INDEX_CRC32C :: u32 where
  "HAS_INDEX_CRC32C = 4"

record file_writer_options =
  fo_data_buffer_alignment :: u32
  fo_sorted_index :: bool

definition default_file_writer_options :: file_writer_options where
  "default_file_writer_options = \<lparr>fo_data_buffer_alignment = MIN_DATA_BUFFER_ALIGNMENT, fo_sorted_index = False\<rparr>"

definition validate_options :: "file_writer_options \<Rightarrow> unit io_result" where
  "validate_options o' =
     (let a = fo_data_buffer_alignment o' in
      if \<not> is_power_of_two a \<or> \<not> (MIN_DATA_BUFFER_ALIGNMENT \<le> a \<and> a \<le> MAX_DATA_BUFFER_ALIGNMENT)
      then Err (InvalidHeader ''data_buffer_alignment'') else Ok ())"

section \<open>The core\<close>

record file_writer_core =
  fw_alignment :: u64
  fw_sorted_index :: bool
  fw_offset :: u64
  fw_entries :: "index_entry list"
  fw_seen_names :: "bytes set"
  fw_unusable :: "unusable option"
  fw_torn :: bool
  fw_header_written :: bool
  fw_finished :: bool

definition fw_build :: "file_writer_options \<Rightarrow> file_writer_core" where
  "fw_build o' =
     \<lparr>fw_alignment = ucast (fo_data_buffer_alignment o'), fw_sorted_index = fo_sorted_index o', fw_offset = 0,
      fw_entries = [], fw_seen_names = {}, fw_unusable = None, fw_torn = False, fw_header_written = False,
      fw_finished = False\<rparr>"

definition file_writer_new :: file_writer_core where
  "file_writer_new = fw_build default_file_writer_options"

definition file_writer_with_options :: "file_writer_options \<Rightarrow> file_writer_core io_result" where
  "file_writer_with_options o' = r_bind (validate_options o') (\<lambda>_. Ok (fw_build o'))"

definition fw_retired :: "file_writer_core \<Rightarrow> unusable option" where
  "fw_retired w =
     (case fw_unusable w of
        Some r \<Rightarrow> Some r
      | None \<Rightarrow> if fw_torn w then Some IncompleteOutput else None)"

definition fw_is_unusable :: "file_writer_core \<Rightarrow> bool" where
  "fw_is_unusable w = (fw_retired w \<noteq> None)"

definition fw_poison :: "file_writer_core \<Rightarrow> unusable \<Rightarrow> file_writer_core" where
  "fw_poison w r = w\<lparr>fw_unusable := Some r\<rparr>"

text \<open>The 64 bytes of the header, field by field.\<close>

definition fw_encode_header :: "file_writer_core \<Rightarrow> bytes" where
  "fw_encode_header w =
     (let flags = (if fw_sorted_index w then HAS_INDEX_CRC32C OR SORTED_INDEX else HAS_INDEX_CRC32C) in
      FILE_MAGIC @ [1, 0] @ [0, 0] @ to_le_bytes flags @ to_le_bytes (ucast (fw_alignment w) :: u32) @
      to_le_bytes FILE_HEADER_SIZE @ to_le_bytes (- 1 :: u64) @ replicate 28 0)"

section \<open>Operations\<close>

datatype seg = Owned | Zeros u64 | Payload usize

datatype commit = CommitHeader | CommitTensor index_entry | CommitFooter

record file_write_op =
  fo_core :: file_writer_core
  fo_plan :: "seg list"
  fo_bytes :: bytes
  fo_payloads :: "bytes list"
  fo_cursor :: usize
  fo_written :: usize
  fo_emitted :: u64
  fo_commit :: "commit option"
  fo_failed :: bool

definition file_op :: "file_writer_core \<Rightarrow> seg list \<Rightarrow> bytes \<Rightarrow> bytes list \<Rightarrow> commit \<Rightarrow> file_write_op" where
  "file_op w plan bs payloads c =
     \<lparr>fo_core = w, fo_plan = plan, fo_bytes = bs, fo_payloads = payloads, fo_cursor = 0, fo_written = 0,
      fo_emitted = 0, fo_commit = Some c, fo_failed = False\<rparr>"

definition file_header :: "file_writer_core \<Rightarrow> file_write_op io_result" where
  "file_header w =
     (case fw_retired w of
        Some r \<Rightarrow> Err (CoreUnusable r)
      | None \<Rightarrow>
          if fw_finished w \<or> fw_header_written w then Err CoreFailed
          else Ok (file_op w [Owned] (fw_encode_header w) [] CommitHeader))"

fun check_payloads :: "nat \<Rightarrow> buffer_handle list \<Rightarrow> bytes list \<Rightarrow> unit io_result" where
  "check_payloads i (h # hs) (b # bs) =
     (if byte_size h \<noteq> word_of_nat (length b)
      then Err (BufferSizeMismatch i (byte_size h) (word_of_nat (length b)))
      else check_payloads (i + 1) hs bs)"
| "check_payloads i _ _ = Ok ()"

text \<open>The segments of the payloads from the \<open>i\<close>-th on, each but the last padded, and the position after.\<close>

fun plan_payloads :: "u64 \<Rightarrow> nat \<Rightarrow> nat \<Rightarrow> u64 \<Rightarrow> bytes list \<Rightarrow> (seg list \<times> u64) io_result" where
  "plan_payloads al i lst cursor [] = Ok ([], cursor)"
| "plan_payloads al i lst cursor (b # bs) =
     r_bind (plain_add cursor (word_of_nat (length b))) (\<lambda>cursor.
     if i < lst then
       r_bind (pad_to cursor al) (\<lambda>padding.
       if padding > 0 then
         r_bind (plain_add cursor padding) (\<lambda>cursor.
         r_bind (plan_payloads al (i + 1) lst cursor bs) (\<lambda>(segs, cursor).
         Ok (Payload i # Zeros padding # segs, cursor)))
       else
         r_bind (plan_payloads al (i + 1) lst cursor bs) (\<lambda>(segs, cursor). Ok (Payload i # segs, cursor)))
     else
       r_bind (plan_payloads al (i + 1) lst cursor bs) (\<lambda>(segs, cursor). Ok (Payload i # segs, cursor)))"

definition plan_tensor ::
  "file_writer_core \<Rightarrow> bytes \<Rightarrow> bytes \<Rightarrow> bytes list \<Rightarrow> file_write_op io_result" where
  "plan_tensor w name encoded bufs =
     (let descriptor_length = word_of_nat (length encoded) :: u32 in
      r_bind (plain_add (fw_offset w) (ucast descriptor_length)) (\<lambda>descriptor_end.
      r_bind (if bufs = [] then Ok descriptor_end else align_up descriptor_end (fw_alignment w)) (\<lambda>data_offset.
      r_bind (plan_payloads (fw_alignment w) 0 (length bufs - 1) data_offset bufs) (\<lambda>(segs, cursor).
      r_bind (pad_to cursor 8) (\<lambda>padding.
      Ok (file_op w
        ([Owned] @ (if data_offset > descriptor_end then [Zeros (data_offset - descriptor_end)] else []) @ segs @
         (if padding > 0 then [Zeros padding] else []))
        encoded bufs
        (CommitTensor \<lparr>ie_name = name, ie_descriptor_offset = fw_offset w, ie_descriptor_length = descriptor_length,
           ie_data_offset = data_offset, ie_data_length = cursor - data_offset\<rparr>)))))))"

definition file_tensor ::
  "file_writer_core \<Rightarrow> bytes \<Rightarrow> tensor_descriptor \<Rightarrow> bytes list \<Rightarrow> file_write_op io_result" where
  "file_tensor w name d bufs =
     (case fw_retired w of
        Some r \<Rightarrow> Err (CoreUnusable r)
      | None \<Rightarrow>
          if fw_finished w then Err CoreFailed
          else if \<not> fw_header_written w then Err HeaderNotWritten
          else if name = [] then Err TensorNameEmpty
          else if length name > 65535 then Err (TensorNameTooLong (length name))
          else if name \<in> fw_seen_names w then Err (DuplicateTensorName (map (char_of \<circ> unat) name))
          else if length bufs \<noteq> length (buffers d)
          then Err (MultiBufferLengthMismatch (length (buffers d)) (length bufs))
          else
            r_bind (check_payloads 0 (buffers d) bufs) (\<lambda>_.
            r_bind (from_core (encode d)) (\<lambda>encoded. plan_tensor w name encoded bufs)))"

definition sorted_entries :: "file_writer_core \<Rightarrow> index_entry list" where
  "sorted_entries w = (if fw_sorted_index w then sort_key ie_name (fw_entries w) else fw_entries w)"

definition kv_footer :: "u64 \<Rightarrow> (bytes \<times> kv_value) list \<Rightarrow> (u64 \<times> u32 \<times> bytes) io_result" where
  "kv_footer footer_offset kv =
     (if kv = [] then Ok (0, 0, [])
      else
        r_bind (encode_kv_section kv) (\<lambda>kb.
        r_bind (plain_add footer_offset (word_of_nat (length kb))) (\<lambda>e.
        r_bind (pad_to e 8) (\<lambda>padding.
        Ok (footer_offset, word_of_nat (length kb), kb @ replicate (unat padding) 0)))))"

definition file_finish ::
  "(bytes \<Rightarrow> u32) \<Rightarrow> file_writer_core \<Rightarrow> (bytes \<times> kv_value) list \<Rightarrow> file_write_op io_result" where
  "file_finish crc w kv =
     (case fw_retired w of
        Some r \<Rightarrow> Err (CoreUnusable r)
      | None \<Rightarrow>
          if fw_finished w then Err CoreFailed
          else if \<not> fw_header_written w then Err HeaderNotWritten
          else
            r_bind (validate_kv_keys kv) (\<lambda>_.
            r_bind (kv_footer (fw_offset w) kv) (\<lambda>(kv_offset, kv_length, footer).
            let index_bytes = encode_index_section (sorted_entries w) in
            r_bind (plain_add (fw_offset w) (word_of_nat (length footer))) (\<lambda>index_offset.
            let trailer = to_le_bytes index_offset @ to_le_bytes (word_of_nat (length index_bytes) :: u64) @
                  to_le_bytes kv_offset @ to_le_bytes kv_length @ to_le_bytes (crc index_bytes) @ replicate 4 0 @
                  TRAILER_MAGIC in
            Ok (file_op w [Owned] (footer @ index_bytes @ trailer) [] CommitFooter)))))"

section \<open>Running an operation\<close>

definition ZEROS_LEN :: nat where
  "ZEROS_LEN = 4096"

text \<open>\<open>written\<close> never exceeds the segment it counts for, so the subtraction from a run of zeros does not
  wrap.\<close>

definition fo_remaining_in :: "file_write_op \<Rightarrow> seg \<Rightarrow> usize" where
  "fo_remaining_in op s =
     (case s of
        Owned \<Rightarrow> length (fo_bytes op) - fo_written op
      | Zeros len \<Rightarrow> min (unat len - fo_written op) ZEROS_LEN
      | Payload i \<Rightarrow> if i < length (fo_payloads op) then length (fo_payloads op ! i) - fo_written op else 0)"

definition fo_output_src :: "file_write_op \<Rightarrow> bytes" where
  "fo_output_src op =
     (if fo_cursor op < length (fo_plan op) then
        (case fo_plan op ! fo_cursor op of
           Owned \<Rightarrow> drop (min (fo_written op) (length (fo_bytes op))) (fo_bytes op)
         | Zeros len \<Rightarrow> replicate (min (unat len - fo_written op) ZEROS_LEN) 0
         | Payload i \<Rightarrow>
             if i < length (fo_payloads op)
             then drop (min (fo_written op) (length (fo_payloads op ! i))) (fo_payloads op ! i) else [])
      else [])"

definition apply_commit :: "commit option \<Rightarrow> file_writer_core \<Rightarrow> file_writer_core" where
  "apply_commit c w =
     (case c of
        Some CommitHeader \<Rightarrow> w\<lparr>fw_header_written := True\<rparr>
      | Some (CommitTensor e) \<Rightarrow> w\<lparr>fw_seen_names := insert (ie_name e) (fw_seen_names w), fw_entries := fw_entries w @ [e]\<rparr>
      | Some CommitFooter \<Rightarrow> w\<lparr>fw_finished := True\<rparr>
      | None \<Rightarrow> w)"

function fo_step_loop :: "file_write_op \<Rightarrow> file_write_op \<times> write_step io_result" where
  "fo_step_loop op =
     (if fo_cursor op < length (fo_plan op) then
        if fo_remaining_in op (fo_plan op ! fo_cursor op) = 0
        then fo_step_loop (op\<lparr>fo_cursor := fo_cursor op + 1, fo_written := 0\<rparr>)
        else (op, Ok (WriteOutput (fo_remaining_in op (fo_plan op ! fo_cursor op))))
      else
        (op\<lparr>fo_core := apply_commit (fo_commit op) ((fo_core op)\<lparr>fw_torn := False\<rparr>), fo_commit := None\<rparr>,
         Ok ItemWritten))"
  by pat_completeness auto

termination
  by (relation "measure (\<lambda>op. length (fo_plan op) - fo_cursor op)") auto

declare fo_step_loop.simps [simp del]

definition fo_step :: "file_write_op \<Rightarrow> file_write_op \<times> write_step io_result" where
  "fo_step op =
     (case fw_unusable (fo_core op) of
        Some r \<Rightarrow> (op, Err (CoreUnusable r))
      | None \<Rightarrow> if fo_failed op then (op, Err CoreFailed) else fo_step_loop op)"

definition fo_report_written :: "file_write_op \<Rightarrow> usize \<Rightarrow> file_write_op \<times> unit io_result" where
  "fo_report_written op n =
     (case fw_unusable (fo_core op) of
        Some r \<Rightarrow> (op, Err (CoreUnusable r))
      | None \<Rightarrow>
          if fo_failed op then (op, Err CoreFailed)
          else if n = 0 then (op, Err ZeroLengthWrite)
          else if fo_cursor op \<ge> length (fo_plan op) then (op, Err (InvalidProgressReport n 0))
          else
            (let offered = fo_remaining_in op (fo_plan op ! fo_cursor op) in
             if n > offered then
               (op\<lparr>fo_core := (fo_core op)\<lparr>fw_unusable := Some LostWriteCount\<rparr>, fo_failed := True\<rparr>,
                Err (InvalidProgressReport n offered))
             else
               (let op = (if fo_emitted op = 0 then op\<lparr>fo_core := (fo_core op)\<lparr>fw_torn := True\<rparr>\<rparr> else op) in
                (case (plain_add (fo_emitted op) (word_of_nat n) :: u64 io_result,
                       plain_add (fw_offset (fo_core op)) (word_of_nat n) :: u64 io_result) of
                   (Ok e, Ok off) \<Rightarrow>
                     (op\<lparr>fo_emitted := e, fo_core := (fo_core op)\<lparr>fw_offset := off\<rparr>, fo_written := fo_written op + n\<rparr>, Ok ())
                 | _ \<Rightarrow> (op, Panic)))))"

definition fo_report_sink_closed :: "file_write_op \<Rightarrow> file_write_op \<times> io_error" where
  "fo_report_sink_closed op =
     (op\<lparr>fo_core := (fo_core op)\<lparr>fw_unusable := Some IncompleteOutput\<rparr>, fo_failed := True\<rparr>, SinkClosed)"

section \<open>The queue of an operation\<close>

definition seg_bytes :: "file_write_op \<Rightarrow> seg \<Rightarrow> bytes" where
  "seg_bytes op s =
     (case s of
        Owned \<Rightarrow> fo_bytes op
      | Zeros len \<Rightarrow> replicate (unat len) 0
      | Payload i \<Rightarrow> if i < length (fo_payloads op) then fo_payloads op ! i else [])"

definition plan_bytes :: "file_write_op \<Rightarrow> seg list \<Rightarrow> bytes" where
  "plan_bytes op plan = concat (map (seg_bytes op) plan)"

definition fo_queue :: "file_write_op \<Rightarrow> bytes" where
  "fo_queue op =
     (if fo_cursor op < length (fo_plan op)
      then drop (fo_written op) (seg_bytes op (fo_plan op ! fo_cursor op)) @
        plan_bytes op (drop (fo_cursor op + 1) (fo_plan op))
      else [])"

definition fo_ok :: "file_write_op \<Rightarrow> bool" where
  "fo_ok op \<longleftrightarrow>
     fw_unusable (fo_core op) = None \<and> \<not> fo_failed op \<and>
     (fo_cursor op < length (fo_plan op) \<longrightarrow> fo_written op \<le> length (seg_bytes op (fo_plan op ! fo_cursor op))) \<and>
     unat (fo_emitted op) + length (fo_queue op) < 2 ^ 64 \<and> unat (fw_offset (fo_core op)) + length (fo_queue op) < 2 ^ 64"

lemma seg_bytes_update [simp]:
  "seg_bytes (op\<lparr>fo_cursor := c\<rparr>) s = seg_bytes op s" "seg_bytes (op\<lparr>fo_written := n\<rparr>) s = seg_bytes op s"
  "seg_bytes (op\<lparr>fo_emitted := e\<rparr>) s = seg_bytes op s" "seg_bytes (op\<lparr>fo_core := w\<rparr>) s = seg_bytes op s"
  "seg_bytes (op\<lparr>fo_commit := x\<rparr>) s = seg_bytes op s"
  by (simp_all add: seg_bytes_def split: seg.split)

lemma plan_bytes_update [simp]:
  "plan_bytes (op\<lparr>fo_cursor := c\<rparr>) p = plan_bytes op p" "plan_bytes (op\<lparr>fo_written := n\<rparr>) p = plan_bytes op p"
  "plan_bytes (op\<lparr>fo_emitted := e\<rparr>) p = plan_bytes op p" "plan_bytes (op\<lparr>fo_core := w\<rparr>) p = plan_bytes op p"
  "plan_bytes (op\<lparr>fo_commit := x\<rparr>) p = plan_bytes op p"
  by (simp_all add: plan_bytes_def cong: map_cong)

text \<open>What is offered is the front of the current segment.\<close>

lemma offered:
  assumes "fo_cursor op < length (fo_plan op)" and "fo_written op \<le> length (seg_bytes op (fo_plan op ! fo_cursor op))"
  shows "length (fo_output_src op) = fo_remaining_in op (fo_plan op ! fo_cursor op)"
    "fo_output_src op = take (fo_remaining_in op (fo_plan op ! fo_cursor op))
       (drop (fo_written op) (seg_bytes op (fo_plan op ! fo_cursor op)))"
    "fo_remaining_in op (fo_plan op ! fo_cursor op) = 0 \<longleftrightarrow>
       fo_written op = length (seg_bytes op (fo_plan op ! fo_cursor op))"
  using assms
  by (auto simp: fo_output_src_def fo_remaining_in_def seg_bytes_def ZEROS_LEN_def min_def split: seg.splits)

lemma offered_le:
  "fo_written op + fo_remaining_in op s \<le> length (seg_bytes op s) \<or> length (seg_bytes op s) < fo_written op"
  by (auto simp: fo_remaining_in_def seg_bytes_def split: seg.splits)

text \<open>A round of the loop skips a segment that is done.\<close>

lemma skip_segment:
  assumes "fo_ok op" and "fo_cursor op < length (fo_plan op)" and "fo_remaining_in op (fo_plan op ! fo_cursor op) = 0"
  shows "fo_ok (op\<lparr>fo_cursor := fo_cursor op + 1, fo_written := 0\<rparr>)"
    "fo_queue (op\<lparr>fo_cursor := fo_cursor op + 1, fo_written := 0\<rparr>) = fo_queue op"
proof -
  have w: "fo_written op = length (seg_bytes op (fo_plan op ! fo_cursor op))"
    using assms offered(3) [of op] by (simp add: fo_ok_def)
  have "plan_bytes op (drop (fo_cursor op + 1) (fo_plan op)) =
      (if fo_cursor op + 1 < length (fo_plan op)
       then seg_bytes op (fo_plan op ! (fo_cursor op + 1)) @ plan_bytes op (drop (fo_cursor op + 2) (fo_plan op)) else [])"
    by (simp add: plan_bytes_def flip: Cons_nth_drop_Suc)
  then show q: "fo_queue (op\<lparr>fo_cursor := fo_cursor op + 1, fo_written := 0\<rparr>) = fo_queue op"
    using assms(2) w by (simp add: fo_queue_def)
  show "fo_ok (op\<lparr>fo_cursor := fo_cursor op + 1, fo_written := 0\<rparr>)"
    using assms(1) q by (simp add: fo_ok_def)
qed

lemma fo_step_loop_ok:
  "fo_ok op \<Longrightarrow>
   (\<exists>op'. fo_step_loop op = (op', Ok (WriteOutput (length (fo_output_src op')))) \<and> fo_ok op' \<and> fo_output_src op' \<noteq> [] \<and>
      fo_queue op' = fo_queue op \<and> fo_core op' = fo_core op \<and> fo_emitted op' = fo_emitted op \<and> fo_commit op' = fo_commit op) \<or>
   (\<exists>op'. fo_step_loop op = (op', Ok ItemWritten) \<and> fo_queue op = [] \<and>
      fo_core op' = apply_commit (fo_commit op) ((fo_core op)\<lparr>fw_torn := False\<rparr>))"
proof (induction op rule: fo_step_loop.induct)
  case (1 op)
  show ?case
  proof (cases "fo_cursor op < length (fo_plan op)")
    case False
    then show ?thesis by (simp add: fo_step_loop.simps fo_queue_def)
  next
    case lt: True
    let ?r = "fo_remaining_in op (fo_plan op ! fo_cursor op)"
    show ?thesis
    proof (cases "?r = 0")
      case True
      let ?op = "op\<lparr>fo_cursor := fo_cursor op + 1, fo_written := 0\<rparr>"
      have "fo_step_loop op = fo_step_loop ?op" using lt True by (subst fo_step_loop.simps) simp
      then show ?thesis
        using 1(1) [OF lt True skip_segment(1) [OF 1(2) lt True]] skip_segment(2) [OF 1(2) lt True] by simp
    next
      case False
      have "length (fo_output_src op) = ?r" using offered(1) [OF lt] 1(2) lt by (simp add: fo_ok_def)
      then show ?thesis
        using lt False 1(2) by (subst (1 2) fo_step_loop.simps) (auto intro!: exI [of _ op])
    qed
  qed
qed

lemma fo_step_ok:
  assumes "fo_ok op"
  obtains (offer) op' where "fo_step op = (op', Ok (WriteOutput (length (fo_output_src op'))))" "fo_ok op'"
      "fo_output_src op' \<noteq> []" "fo_queue op' = fo_queue op" "fo_core op' = fo_core op" "fo_emitted op' = fo_emitted op"
      "fo_commit op' = fo_commit op"
    | (finished) op' where "fo_step op = (op', Ok ItemWritten)" "fo_queue op = []"
      "fo_core op' = apply_commit (fo_commit op) ((fo_core op)\<lparr>fw_torn := False\<rparr>)"
  using fo_step_loop_ok [OF assms] assms by (auto simp: fo_step_def fo_ok_def)

lemma fo_src_queue: "fo_ok op \<Longrightarrow> \<exists>later. fo_queue op = fo_output_src op @ later"
proof (cases "fo_cursor op < length (fo_plan op)")
  case True
  assume ok: "fo_ok op"
  let ?s = "seg_bytes op (fo_plan op ! fo_cursor op)"
  have "fo_output_src op = take (fo_remaining_in op (fo_plan op ! fo_cursor op)) (drop (fo_written op) ?s)"
    using offered(2) [OF True] ok True by (simp add: fo_ok_def)
  then have "drop (fo_written op) ?s = fo_output_src op @ drop (fo_remaining_in op (fo_plan op ! fo_cursor op)) (drop (fo_written op) ?s)"
    by (metis append_take_drop_id)
  then show ?thesis using True unfolding fo_queue_def by (metis append.assoc)
qed (simp add: fo_output_src_def)

lemma plain_add_of_nat:
  "unat x + n < 2 ^ 64 \<Longrightarrow> plain_add x (word_of_nat n) = Ok (x + word_of_nat n) \<and> unat (x + word_of_nat n) = unat x + n"
  for x :: u64
  by (simp add: plain_add_def checked_add_def unat_word_ariths unat_of_nat)

lemma fo_report_ok:
  assumes ok: "fo_ok op" and n: "0 < n" "n \<le> length (fo_output_src op)"
  shows "\<exists>op'. fo_report_written op n = (op', Ok ()) \<and> fo_ok op' \<and> fo_queue op' = drop n (fo_queue op) \<and>
    fo_core op' = (fo_core op)\<lparr>fw_torn := fw_torn (fo_core op) \<or> fo_emitted op = 0,
      fw_offset := fw_offset (fo_core op) + word_of_nat n\<rparr> \<and>
    fo_emitted op' = fo_emitted op + word_of_nat n \<and> fo_commit op' = fo_commit op"
proof -
  let ?s = "seg_bytes op (fo_plan op ! fo_cursor op)" and ?r = "fo_remaining_in op (fo_plan op ! fo_cursor op)"
  have lt: "fo_cursor op < length (fo_plan op)" using n by (auto simp: fo_output_src_def split: if_splits)
  have w: "fo_written op \<le> length ?s" using ok lt by (simp add: fo_ok_def)
  have r: "n \<le> ?r" using n(2) offered(1) [OF lt w] by simp
  have wr: "fo_written op + ?r \<le> length ?s" using offered_le [of op "fo_plan op ! fo_cursor op"] w by linarith
  have q: "fo_queue op = drop (fo_written op) ?s @ plan_bytes op (drop (fo_cursor op + 1) (fo_plan op))"
    using lt by (simp add: fo_queue_def)
  have ln: "n \<le> length (fo_queue op)" using r wr by (simp add: q)
  have b: "unat (fo_emitted op) + n < 2 ^ 64" "unat (fw_offset (fo_core op)) + n < 2 ^ 64"
    using ok ln unfolding fo_ok_def by linarith+
  have a: "plain_add (fo_emitted op) (word_of_nat n) = (Ok (fo_emitted op + word_of_nat n) :: u64 io_result)"
    "unat (fo_emitted op + word_of_nat n) = unat (fo_emitted op) + n"
    "plain_add (fw_offset (fo_core op)) (word_of_nat n) = (Ok (fw_offset (fo_core op) + word_of_nat n) :: u64 io_result)"
    "unat (fw_offset (fo_core op) + word_of_nat n) = unat (fw_offset (fo_core op)) + n"
    using plain_add_of_nat [OF b(1)] plain_add_of_nat [OF b(2)] by blast+
  let ?w = "(fo_core op)\<lparr>fw_torn := fw_torn (fo_core op) \<or> fo_emitted op = 0, fw_offset := fw_offset (fo_core op) + word_of_nat n\<rparr>"
  let ?op = "op\<lparr>fo_emitted := fo_emitted op + word_of_nat n, fo_core := ?w, fo_written := fo_written op + n\<rparr>"
  have q': "fo_queue ?op = drop n (fo_queue op)"
    using lt r wr by (simp add: fo_queue_def add.commute)
  have ok': "fo_ok ?op" using ok lt r wr q' a(2,4) ln by (simp add: fo_ok_def)
  have "fo_report_written op n = (?op, Ok ())"
    using ok lt n(1) r a by (cases "fo_core op") (auto simp: fo_report_written_def Let_def fo_ok_def)
  then show ?thesis using q' ok' by (intro exI [of _ ?op]) simp
qed

interpretation file_op_queue: byte_queue fo_step fo_output_src fo_report_written fo_queue fo_ok
proof
  fix op assume op: "fo_ok op"
  show "fo_queue op = [] \<Longrightarrow> \<exists>op'. fo_step op = (op', Ok ItemWritten)"
    by (rule fo_step_ok [OF op]) (use fo_src_queue in fastforce)+
  show "fo_queue op \<noteq> [] \<Longrightarrow>
      \<exists>op'. fo_step op = (op', Ok (WriteOutput (length (fo_output_src op')))) \<and> fo_ok op' \<and> fo_queue op' = fo_queue op \<and>
        fo_output_src op' \<noteq> [] \<and> (\<exists>later. fo_queue op' = fo_output_src op' @ later)"
    by (rule fo_step_ok [OF op]) (use fo_src_queue in blast)+
  show "\<exists>op'. fo_report_written op n = (op', Ok ()) \<and> fo_ok op' \<and> fo_queue op' = drop n (fo_queue op)"
    if "0 < n" "n \<le> length (fo_output_src op)" for n
    using fo_report_ok [OF op that] by blast
qed

end
