(* ===== verification/File_Read.thy ===== *)
theory File_Read
  imports File_Sections File_Write Stream_Read
begin

text \<open>
  The sans-io reader of the container file (\<open>hurray-io/src/file/sans_io/read.rs\<close>, item types of
  \<open>file/types.rs\<close>): a core that asks for ranges of the file, from the header and the trailer to the index
  and the key-value section, then answers one request at a time, a descriptor, a tensor or a composite
  walked in file order.

  The checksum of the crate \<open>crc32c\<close> and the destination allocator are parameters. The stack of the
  walk is a list with the deepest level first. The unstable sort by descriptor offset is modelled by a stable one: entries that share an offset,
  which no writer produces, may come in another order in the code.
\<close>

section \<open>Items and steps\<close>

definition SUPPORTED_CONTAINER_VERSION_MAJOR :: u8 where
  "SUPPORTED_CONTAINER_VERSION_MAJOR = 1"

definition FILE_DEFAULT_MAX_COMPOSITE_DEPTH :: usize where
  "FILE_DEFAULT_MAX_COMPOSITE_DEPTH = 64"

definition FILE_RESERVED_MASK :: u32 where
  "FILE_RESERVED_MASK = NOT 0x07"

record read_tensor =
  ft_name :: bytes
  ft_descriptor :: tensor_descriptor
  ft_buffers :: "bytes list"

datatype (plugins only: code size) file_item =
    FileTensorItem read_tensor
  | FileCompositeItem file_composite
and file_composite =
    FileComposite (fc_name: bytes) (fc_head: tensor_descriptor) (fc_members: "file_item list")

fun file_item_descriptor :: "file_item \<Rightarrow> tensor_descriptor" where
  "file_item_descriptor (FileTensorItem t) = ft_descriptor t"
| "file_item_descriptor (FileCompositeItem c) = fc_head c"

datatype file_step = StepRange u64 usize | StepReady | StepDescriptor | StepFileTensor | StepComposite

datatype job = JobDescriptor | JobTensor | JobWalk

datatype file_done = DoneDescriptor | DoneTensor | DoneComposite

datatype file_state =
    AtHeader
  | AtTrailer
  | AtIndex
  | AtKv
  | AtReady
  | AtFileDescriptor
  | AtFileBuffer usize
  | AtDone file_done
  | AtFailed

record open_file_composite =
  of_name :: bytes
  of_head :: tensor_descriptor
  of_member_count :: u32
  of_members :: "file_item list"
  of_validator :: composite_validator

record walk =
  wk_names :: "bytes list"
  wk_cursor :: usize
  wk_stack :: "open_file_composite list"

record file_pending =
  fp_name :: bytes
  fp_descriptor :: tensor_descriptor
  fp_buffers :: "bytes list"
  fp_dest :: "bytes option"
  fp_next_offset :: u64

record file_reader_core =
  fr_size :: u64
  fr_alignment :: u64
  fr_max_depth :: usize
  fr_state :: file_state
  fr_job :: "job option"
  fr_flags :: u32
  fr_index :: "index_entry list"
  fr_kv :: "(bytes \<times> kv_value) list"
  fr_kv_range :: "u64 \<times> u32"
  fr_stored_crc :: u32
  fr_cursor :: u64
  fr_target :: usize
  fr_filled :: usize
  fr_staging :: bytes
  fr_entry_name :: bytes
  fr_entry_data_offset :: u64
  fr_pending :: "file_pending option"
  fr_walk :: "walk option"
  fr_descriptor_out :: "tensor_descriptor option"
  fr_tensor_out :: "read_tensor option"
  fr_composite_out :: "file_composite option"

type_synonym 'a file_action = "file_reader_core \<Rightarrow> file_reader_core \<times> 'a io_result"

definition file_reader_new :: "u64 \<Rightarrow> file_reader_core" where
  "file_reader_new sz =
     \<lparr>fr_size = sz, fr_alignment = 1, fr_max_depth = FILE_DEFAULT_MAX_COMPOSITE_DEPTH, fr_state = AtHeader, fr_job = None,
      fr_flags = 0, fr_index = [], fr_kv = [], fr_kv_range = (0, 0), fr_stored_crc = 0, fr_cursor = 0,
      fr_target = unat FILE_HEADER_SIZE, fr_filled = 0, fr_staging = replicate (unat FILE_HEADER_SIZE) 0,
      fr_entry_name = [], fr_entry_data_offset = 0, fr_pending = None, fr_walk = None, fr_descriptor_out = None,
      fr_tensor_out = None, fr_composite_out = None\<rparr>"

definition with_max_composite_depth :: "usize \<Rightarrow> file_reader_core \<Rightarrow> file_reader_core" where
  "with_max_composite_depth n c = c\<lparr>fr_max_depth := n\<rparr>"

definition fr_is_open :: "file_reader_core \<Rightarrow> bool" where
  "fr_is_open c \<longleftrightarrow> fr_state c \<notin> {AtHeader, AtTrailer, AtIndex, AtKv, AtFailed}"

section \<open>Failures and requests\<close>

definition fr_fail_open :: "io_error \<Rightarrow> 'a file_action" where
  "fr_fail_open e c = (c\<lparr>fr_state := AtFailed\<rparr>, Err e)"

definition fr_fail :: "io_error \<Rightarrow> 'a file_action" where
  "fr_fail e c =
     (if fr_state c \<in> {AtHeader, AtTrailer, AtIndex, AtKv} then fr_fail_open e c
      else (c\<lparr>fr_state := AtReady, fr_job := None, fr_pending := None, fr_walk := None\<rparr>, Err e))"

text \<open>The use of a result in a handler: an error goes to a handler of its own, a panic stops the call.\<close>

definition fr_try ::
  "(io_error \<Rightarrow> 'b file_action) \<Rightarrow> 'a io_result \<Rightarrow> ('a \<Rightarrow> 'b file_action) \<Rightarrow> 'b file_action" where
  "fr_try h r f c =
     (case r of
        Ok x \<Rightarrow> f x c
      | Err e \<Rightarrow> h e c
      | Panic \<Rightarrow> (c, Panic))"

definition fr_some :: "'a option \<Rightarrow> ('a \<Rightarrow> 'b file_action) \<Rightarrow> 'b file_action" where
  "fr_some x f c = (case x of None \<Rightarrow> fr_fail CoreFailed c | Some y \<Rightarrow> f y c)"

definition fr_request :: "u64 \<Rightarrow> usize \<Rightarrow> file_state \<Rightarrow> unit file_action" where
  "fr_request off len st c =
     (c\<lparr>fr_cursor := off, fr_target := len, fr_filled := 0, fr_staging := replicate len 0, fr_state := st\<rparr>, Ok ())"

section \<open>Opening a file\<close>

definition finish_header :: "unit file_action" where
  "finish_header c =
     (let h = fr_staging c in
      if fr_size c < FILE_HEADER_SIZE + TRAILER_SIZE then fr_fail_open (InvalidHeader ''file too small'') c
      else
        fr_try fr_fail_open (slice_at h 0 8) (\<lambda>magic c.
        if magic \<noteq> FILE_MAGIC then fr_fail_open InvalidFileMagic c
        else
          fr_try fr_fail_open (index_at h 8) (\<lambda>major c.
          if major > SUPPORTED_CONTAINER_VERSION_MAJOR then fr_fail_open (UnsupportedContainerVersion major) c
          else
            fr_try fr_fail_open (get_le h 12) (\<lambda>flags c.
            if flags AND FILE_RESERVED_MASK \<noteq> 0 then fr_fail_open (ReservedFileFlagBits flags) c
            else
              fr_try fr_fail_open (get_le h 16) (\<lambda>al c.
              if \<not> is_power_of_two al \<or> al > MAX_DATA_BUFFER_ALIGNMENT
              then fr_fail_open (InvalidHeader ''data_buffer_alignment'') c
              else fr_request (fr_size c - TRAILER_SIZE) (unat TRAILER_SIZE) AtTrailer (c\<lparr>fr_alignment := ucast al\<rparr>))
                (c\<lparr>fr_flags := flags\<rparr>)) c) c) c)"

definition finish_trailer :: "unit file_action" where
  "finish_trailer c =
     (let t = fr_staging c in
      fr_try fr_fail_open (slice_at t 36 4) (\<lambda>magic c.
      if magic \<noteq> TRAILER_MAGIC then fr_fail_open InvalidTrailerMagic c
      else
        fr_try fr_fail_open (get_le t 0) (\<lambda>index_offset.
        fr_try fr_fail_open (get_le t 8) (\<lambda>index_length.
        fr_try fr_fail_open (get_le t 16) (\<lambda>kv_offset.
        fr_try fr_fail_open (get_le t 24) (\<lambda>kv_length.
        fr_try fr_fail_open (get_le t 28) (\<lambda>crc c.
          let c = c\<lparr>fr_stored_crc := crc, fr_kv_range := (kv_offset, kv_length)\<rparr> in
          case checked_add index_offset index_length of
            None \<Rightarrow> fr_fail_open IndexOverrunsTrailer c
          | Some e \<Rightarrow>
              if e \<le> fr_size c - TRAILER_SIZE then fr_request index_offset (unat index_length) AtIndex c
              else fr_fail_open IndexOverrunsTrailer c))))) c) c)"

definition finish_index :: "(bytes \<Rightarrow> u32) \<Rightarrow> unit file_action" where
  "finish_index crc c =
     (let computed = crc (fr_staging c) in
      if fr_flags c AND HAS_INDEX_CRC32C \<noteq> 0 \<and> computed \<noteq> fr_stored_crc c
      then fr_fail_open (IndexCrc32cMismatch (fr_stored_crc c) computed) c
      else
        fr_try fr_fail_open (parse_index (fr_staging c)) (\<lambda>ix c.
          let c = c\<lparr>fr_index := ix\<rparr>; (kv_offset, kv_length) = fr_kv_range c;
              has_kv = (fr_flags c AND HAS_KV_METADATA \<noteq> 0 \<or> kv_offset \<noteq> 0) in
          if has_kv \<and> kv_offset \<noteq> 0 \<and> kv_length \<noteq> 0 then fr_request kv_offset (unat kv_length) AtKv c
          else (c\<lparr>fr_state := AtReady\<rparr>, Ok ())) c)"

definition finish_kv :: "unit file_action" where
  "finish_kv c =
     fr_try fr_fail_open (parse_kv (fr_staging c)) (\<lambda>kv c. (c\<lparr>fr_kv := kv, fr_state := AtReady\<rparr>, Ok ())) c"

section \<open>Descriptors and buffers\<close>

definition name_string :: "bytes \<Rightarrow> string" where
  "name_string name = map (char_of \<circ> unat) name"

definition start_descriptor :: "bytes \<Rightarrow> unit file_action" where
  "start_descriptor name c =
     (case find (\<lambda>e. ie_name e = name) (fr_index c) of
        None \<Rightarrow> (c, Err (TensorNotFound (name_string name)))
      | Some e \<Rightarrow>
          fr_request (ie_descriptor_offset e) (unat (ie_descriptor_length e)) AtFileDescriptor
            (c\<lparr>fr_entry_name := ie_name e, fr_entry_data_offset := ie_data_offset e\<rparr>))"

definition pending_handle :: "file_reader_core \<Rightarrow> usize \<Rightarrow> (buffer_handle \<times> u64) option" where
  "pending_handle c i =
     (case fr_pending c of
        None \<Rightarrow> None
      | Some p \<Rightarrow>
          if i < length (buffers (fp_descriptor p)) then Some (buffers (fp_descriptor p) ! i, fp_next_offset p)
          else None)"

definition file_begin_buffer :: "destination_alloc \<Rightarrow> usize \<Rightarrow> unit file_action" where
  "file_begin_buffer alloc i c =
     fr_some (pending_handle c i) (\<lambda>(h, off).
       fr_try fr_fail (alloc \<lparr>dr_index = i, dr_byte_size = byte_size h, dr_alignment = alignment h\<rparr>) (\<lambda>dest c.
       fr_some (fr_pending c) (\<lambda>p c.
         (c\<lparr>fr_pending := Some (p\<lparr>fp_dest := Some dest\<rparr>), fr_cursor := off, fr_target := unat (byte_size h),
            fr_filled := 0, fr_state := AtFileBuffer i\<rparr>, Ok ())) c)) c"

section \<open>The composite walk\<close>

definition walk_next :: "unit file_action" where
  "walk_next c =
     fr_some (fr_walk c) (\<lambda>wk.
       if wk_cursor wk < length (wk_names wk)
       then (\<lambda>c. start_descriptor (wk_names wk ! wk_cursor wk) (c\<lparr>fr_walk := Some (wk\<lparr>wk_cursor := wk_cursor wk + 1\<rparr>)\<rparr>))
       else
         fr_fail
           (case wk_stack wk of
              [] \<Rightarrow> CoreFailed
            | tp # _ \<Rightarrow> TornComposite (of_member_count tp) (word_of_nat (length (of_members tp))))) c"

fun file_deliver_from :: "walk \<Rightarrow> open_file_composite list \<Rightarrow> file_item \<Rightarrow> unit file_action" where
  "file_deliver_from wk [] item c =
     (case item of
        FileTensorItem _ \<Rightarrow> fr_fail CoreFailed c
      | FileCompositeItem fc \<Rightarrow>
          (c\<lparr>fr_composite_out := Some fc, fr_walk := None, fr_state := AtDone DoneComposite\<rparr>, Ok ()))"
| "file_deliver_from wk (tp # st) item c =
     fr_try fr_fail (from_core (push_member (of_validator tp) (file_item_descriptor item))) (\<lambda>v c.
       let ms = of_members tp @ [item] in
       if (word_of_nat (length ms) :: u32) < of_member_count tp
       then walk_next (c\<lparr>fr_walk := Some (wk\<lparr>wk_stack := tp\<lparr>of_members := ms, of_validator := v\<rparr> # st\<rparr>)\<rparr>)
       else
         fr_try fr_fail (from_core (validator_finish v)) (\<lambda>_.
           file_deliver_from wk st (FileCompositeItem (FileComposite (of_name tp) (of_head tp) ms))) c) c"

definition file_deliver :: "file_item \<Rightarrow> unit file_action" where
  "file_deliver item c = fr_some (fr_walk c) (\<lambda>wk. file_deliver_from wk (wk_stack wk) item) c"

definition file_complete_tensor :: "unit file_action" where
  "file_complete_tensor c =
     fr_some (fr_pending c) (\<lambda>p c.
       let c = c\<lparr>fr_pending := None\<rparr>;
           t = \<lparr>ft_name = fp_name p, ft_descriptor = fp_descriptor p, ft_buffers = fp_buffers p\<rparr> in
       case fr_job c of
         Some JobTensor \<Rightarrow> (c\<lparr>fr_tensor_out := Some t, fr_state := AtDone DoneTensor\<rparr>, Ok ())
       | Some JobWalk \<Rightarrow> file_deliver (FileTensorItem t) c
       | _ \<Rightarrow> fr_fail CoreFailed c) c"

definition begin_buffers :: "destination_alloc \<Rightarrow> tensor_descriptor \<Rightarrow> unit file_action" where
  "begin_buffers alloc d c =
     (let c = c\<lparr>fr_pending := Some \<lparr>fp_name = fr_entry_name c, fp_descriptor = d, fp_buffers = [], fp_dest = None,
            fp_next_offset = fr_entry_data_offset c\<rparr>, fr_entry_name := []\<rparr> in
      if length (buffers d) = 0 then file_complete_tensor c else file_begin_buffer alloc 0 c)"

definition file_finish_buffer :: "destination_alloc \<Rightarrow> usize \<Rightarrow> unit file_action" where
  "file_finish_buffer alloc i c =
     fr_some (fr_pending c) (\<lambda>p.
     fr_some (fp_dest p) (\<lambda>dest c.
       let p = p\<lparr>fp_dest := None, fp_buffers := fp_buffers p @ [dest]\<rparr>; c = c\<lparr>fr_pending := Some p\<rparr> in
       if i + 1 < length (buffers (fp_descriptor p)) then
         fr_try fr_fail (align_up (fr_cursor c) (fr_alignment c)) (\<lambda>off c.
           file_begin_buffer alloc (i + 1) (c\<lparr>fr_pending := Some (p\<lparr>fp_next_offset := off\<rparr>)\<rparr>)) c
       else file_complete_tensor c)) c"

definition walk_descriptor :: "destination_alloc \<Rightarrow> tensor_descriptor \<Rightarrow> unit file_action" where
  "walk_descriptor alloc d c =
     (case layout d of
        Composite l \<Rightarrow>
          fr_some (fr_walk c) (\<lambda>wk.
            if length (wk_stack wk) \<ge> fr_max_depth c then fr_fail (CompositeNestingTooDeep (fr_max_depth c))
            else
              fr_try fr_fail (from_core (validator_new d)) (\<lambda>v c.
                walk_next (c\<lparr>fr_entry_name := [],
                  fr_walk := Some (wk\<lparr>wk_stack :=
                    \<lparr>of_name = fr_entry_name c, of_head = d, of_member_count = member_count l, of_members = [],
                     of_validator = v\<rparr> # wk_stack wk\<rparr>)\<rparr>))) c
      | _ \<Rightarrow>
          (case fr_walk c of
             Some wk \<Rightarrow>
               if wk_stack wk = []
               then fr_fail (NotAComposite (name_string (fr_entry_name c))) (c\<lparr>fr_entry_name := []\<rparr>)
               else begin_buffers alloc d c
           | None \<Rightarrow> begin_buffers alloc d c))"

definition file_finish_descriptor :: "destination_alloc \<Rightarrow> unit file_action" where
  "file_finish_descriptor alloc c =
     fr_try fr_fail (from_core (decode (fr_staging c))) (\<lambda>d c.
       case fr_job c of
         Some JobDescriptor \<Rightarrow> (c\<lparr>fr_descriptor_out := Some d, fr_state := AtDone DoneDescriptor\<rparr>, Ok ())
       | Some JobTensor \<Rightarrow> begin_buffers alloc d c
       | Some JobWalk \<Rightarrow> walk_descriptor alloc d c
       | None \<Rightarrow> fr_fail CoreFailed c) c"

section \<open>The step loop\<close>

definition file_advance :: "(bytes \<Rightarrow> u32) \<Rightarrow> destination_alloc \<Rightarrow> unit file_action" where
  "file_advance crc alloc c =
     (case fr_state c of
        AtHeader \<Rightarrow> finish_header c
      | AtTrailer \<Rightarrow> finish_trailer c
      | AtIndex \<Rightarrow> finish_index crc c
      | AtKv \<Rightarrow> finish_kv c
      | AtFileDescriptor \<Rightarrow> file_finish_descriptor alloc c
      | AtFileBuffer i \<Rightarrow> file_finish_buffer alloc i c
      | _ \<Rightarrow> fr_fail CoreFailed c)"

text \<open>The loop of \<open>step\<close> ends: the phases of opening only go forward, a walk uses up its names, and a
  descriptor is followed by the buffers it declares.\<close>

definition file_phase :: "file_reader_core \<Rightarrow> nat" where
  "file_phase c =
     (case fr_state c of
        AtHeader \<Rightarrow> 5 | AtTrailer \<Rightarrow> 4 | AtIndex \<Rightarrow> 3 | AtKv \<Rightarrow> 2 | AtFileDescriptor \<Rightarrow> 1 | AtFileBuffer _ \<Rightarrow> 1 | _ \<Rightarrow> 0)"

definition walk_left :: "file_reader_core \<Rightarrow> nat" where
  "walk_left c = (case fr_walk c of None \<Rightarrow> 0 | Some wk \<Rightarrow> length (wk_names wk) - wk_cursor wk)"

definition stage_left :: "file_reader_core \<Rightarrow> nat" where
  "stage_left c =
     (case (fr_state c, fr_pending c) of
        (AtFileBuffer i, Some p) \<Rightarrow> length (buffers (fp_descriptor p)) - i
      | _ \<Rightarrow> 0)"

definition at_descriptor :: "file_reader_core \<Rightarrow> nat" where
  "at_descriptor c = (if fr_state c = AtFileDescriptor then 1 else 0)"

lemma fr_fail_Ok [simp]: "fr_fail e c \<noteq> (c', Ok x)" "fr_fail_open e c \<noteq> (c', Ok x)"
  by (auto simp: fr_fail_def fr_fail_open_def)

lemma fr_try_Ok [simp]:
  "fr_try fr_fail r f c = (c', Ok y) \<longleftrightarrow> (\<exists>x. r = Ok x \<and> f x c = (c', Ok y))"
  "fr_try fr_fail_open r f c = (c', Ok y) \<longleftrightarrow> (\<exists>x. r = Ok x \<and> f x c = (c', Ok y))"
  by (auto simp: fr_try_def split: result.splits)

lemma fr_some_Ok [simp]: "fr_some x f c = (c', Ok y) \<longleftrightarrow> (\<exists>z. x = Some z \<and> f z c = (c', Ok y))"
  by (auto simp: fr_some_def split: option.splits)

lemma start_descriptor_Ok:
  "start_descriptor name c = (c', Ok ()) \<Longrightarrow> fr_state c' = AtFileDescriptor \<and> fr_walk c' = fr_walk c"
  by (auto simp: start_descriptor_def fr_request_def split: option.splits)

text \<open>The next name of a walk is asked for, or the walk is over.\<close>

definition walked :: "nat \<Rightarrow> file_reader_core \<Rightarrow> bool" where
  "walked n c \<longleftrightarrow> file_phase c = 0 \<or> fr_state c = AtFileDescriptor \<and> walk_left c < n"

lemma walk_next_Ok:
  "walk_next c = (c', Ok ()) \<Longrightarrow> walked (walk_left c) c'"
  by (auto simp: walk_next_def walk_left_def walked_def split: if_splits dest!: start_descriptor_Ok)

lemma file_deliver_from_Ok:
  "file_deliver_from wk st item c = (c', Ok ()) \<Longrightarrow> walked (length (wk_names wk) - wk_cursor wk) c'"
proof (induction st arbitrary: item c)
  case Nil
  then show ?case by (auto simp: walked_def file_phase_def split: file_item.splits)
next
  case (Cons tp st)
  from Cons.prems show ?case
    by (auto simp: Let_def walk_left_def split: if_splits dest!: walk_next_Ok intro: Cons.IH)
qed

lemma file_complete_tensor_Ok:
  "file_complete_tensor c = (c', Ok ()) \<Longrightarrow> walked (walk_left c) c'"
proof -
  assume ok: "file_complete_tensor c = (c', Ok ())"
  then obtain p where p: "fr_pending c = Some p" by (auto simp: file_complete_tensor_def)
  consider "fr_job c = None \<or> fr_job c = Some JobDescriptor" | "fr_job c = Some JobTensor" | "fr_job c = Some JobWalk"
    by (metis job.exhaust option.exhaust)
  then show ?thesis
  proof cases
    case 3
    then obtain wk item where "fr_walk c = Some wk" "file_deliver_from wk (wk_stack wk) item (c\<lparr>fr_pending := None\<rparr>) = (c', Ok ())"
      using ok p by (auto simp: file_complete_tensor_def file_deliver_def Let_def)
    then show ?thesis using file_deliver_from_Ok by (auto simp: walk_left_def)
  qed (use ok p in \<open>auto simp: file_complete_tensor_def Let_def walked_def file_phase_def\<close>)
qed

lemma file_begin_buffer_Ok:
  "file_begin_buffer alloc i c = (c', Ok ()) \<Longrightarrow>
   \<exists>p. fr_pending c = Some p \<and> i < length (buffers (fp_descriptor p)) \<and> fr_state c' = AtFileBuffer i \<and> fr_walk c' = fr_walk c \<and>
     stage_left c' = length (buffers (fp_descriptor p)) - i"
  by (auto simp: file_begin_buffer_def pending_handle_def stage_left_def split: option.splits if_splits)

lemma begin_buffers_Ok:
  "begin_buffers alloc d c = (c', Ok ()) \<Longrightarrow>
   walked (walk_left c) c' \<or> file_phase c' = 1 \<and> at_descriptor c' = 0 \<and> walk_left c' = walk_left c"
  by (auto simp: begin_buffers_def Let_def walk_left_def at_descriptor_def file_phase_def split: if_splits
      dest!: file_complete_tensor_Ok file_begin_buffer_Ok)

lemma walk_descriptor_Ok:
  "walk_descriptor alloc d c = (c', Ok ()) \<Longrightarrow>
   walked (walk_left c) c' \<or> file_phase c' = 1 \<and> at_descriptor c' = 0 \<and> walk_left c' = walk_left c"
  by (auto simp: walk_descriptor_def walk_left_def split: layout_descriptor.splits option.splits if_splits
      dest!: walk_next_Ok begin_buffers_Ok)

abbreviation file_progress :: "(file_reader_core \<times> file_reader_core) set" where
  "file_progress \<equiv> measures [file_phase, walk_left, at_descriptor, stage_left]"

lemma walked_progress: "walked (walk_left c) c' \<Longrightarrow> fr_state c = AtFileDescriptor \<or> fr_state c = AtFileBuffer i \<Longrightarrow>
   (c', c) \<in> file_progress"
  by (auto simp: walked_def file_phase_def)

lemma fr_request_Ok: "fr_request off len st c = (c', Ok ()) \<Longrightarrow> fr_state c' = st"
  by (auto simp: fr_request_def)

text \<open>What holds of the core when a handler succeeds, by the structure of the handler.\<close>

definition ends :: "(file_reader_core \<Rightarrow> bool) \<Rightarrow> file_reader_core \<times> 'a io_result \<Rightarrow> bool" where
  "ends P r \<longleftrightarrow> (\<forall>x. snd r = Ok x \<longrightarrow> P (fst r))"

named_theorems ends_intros \<open>introduction rules for ends\<close>

lemma ends_fail [ends_intros]: "ends P (fr_fail e c)" "ends P (fr_fail_open e c)" "ends P (c, Err e)" "ends P (c, Panic)"
  by (simp_all add: ends_def fr_fail_def fr_fail_open_def)

lemma ends_try [ends_intros]:
  "(\<And>x. r = Ok x \<Longrightarrow> ends P (f x c)) \<Longrightarrow> ends P (fr_try fr_fail r f c)"
  "(\<And>x. r = Ok x \<Longrightarrow> ends P (f x c)) \<Longrightarrow> ends P (fr_try fr_fail_open r f c)"
  by (auto simp: fr_try_def ends_fail split: result.split)

lemma ends_some [ends_intros]: "(\<And>y. x = Some y \<Longrightarrow> ends P (f y c)) \<Longrightarrow> ends P (fr_some x f c)"
  by (simp add: fr_some_def ends_fail split: option.split)

lemma ends_if [ends_intros]: "(b \<Longrightarrow> ends P r) \<Longrightarrow> (\<not> b \<Longrightarrow> ends P s) \<Longrightarrow> ends P (if b then r else s)"
  by simp

lemma ends_option [ends_intros]:
  "(x = None \<Longrightarrow> ends P r) \<Longrightarrow> (\<And>y. x = Some y \<Longrightarrow> ends P (f y)) \<Longrightarrow> ends P (case x of None \<Rightarrow> r | Some y \<Rightarrow> f y)"
  by (simp split: option.split)

lemma ends_Ok: "P c \<Longrightarrow> ends P (c, Ok x)"
  by (simp add: ends_def)

lemma ends_request: "P (c\<lparr>fr_cursor := off, fr_target := len, fr_filled := 0, fr_staging := replicate len 0, fr_state := st\<rparr>) \<Longrightarrow>
   ends P (fr_request off len st c)"
  by (simp add: ends_def fr_request_def)

lemma endsD: "ends P r \<Longrightarrow> r = (c', Ok x) \<Longrightarrow> P c'"
  by (simp add: ends_def)

lemma finish_header_ends: "ends (\<lambda>c'. fr_state c' = AtTrailer) (finish_header c)"
  unfolding finish_header_def Let_def by (intro ends_intros ends_request) simp

lemma finish_trailer_ends: "ends (\<lambda>c'. fr_state c' = AtIndex) (finish_trailer c)"
  unfolding finish_trailer_def Let_def by (intro ends_intros ends_request) simp

lemma finish_index_ends: "ends (\<lambda>c'. fr_state c' = AtKv \<or> fr_state c' = AtReady) (finish_index crc c)"
  unfolding finish_index_def Let_def split_def by (intro ends_intros ends_request ends_Ok) simp_all

lemma file_advance_progress:
  assumes "file_advance crc alloc c = (c', Ok ())"
  shows "(c', c) \<in> file_progress"
proof (cases "fr_state c")
  case AtHeader
  then show ?thesis using assms endsD [OF finish_header_ends, of c c'] by (simp add: file_advance_def file_phase_def)
next
  case AtTrailer
  then show ?thesis using assms endsD [OF finish_trailer_ends, of c c'] by (simp add: file_advance_def file_phase_def)
next
  case AtIndex
  then show ?thesis using assms endsD [OF finish_index_ends, of crc c c'] by (auto simp: file_advance_def file_phase_def)
next
  case AtKv
  then show ?thesis using assms by (auto simp: file_advance_def finish_kv_def file_phase_def)
next
  case AtFileDescriptor
  obtain d where dec: "from_core (decode (fr_staging c)) = Ok d"
    using assms AtFileDescriptor by (auto simp: file_advance_def file_finish_descriptor_def)
  consider "file_phase c' = 0" | "begin_buffers alloc d c = (c', Ok ())" | "walk_descriptor alloc d c = (c', Ok ())"
  proof (cases "fr_job c")
    case None
    then show ?thesis using assms AtFileDescriptor dec by (simp add: file_advance_def file_finish_descriptor_def)
  next
    case (Some j)
    then show ?thesis
      using assms AtFileDescriptor dec that
      by (cases j) (auto simp: file_advance_def file_finish_descriptor_def file_phase_def)
  qed
  then have "file_phase c' = 0 \<or> walked (walk_left c) c' \<or>
      file_phase c' = 1 \<and> at_descriptor c' = 0 \<and> walk_left c' = walk_left c"
    using begin_buffers_Ok walk_descriptor_Ok by cases blast+
  moreover have "file_phase c = 1" "at_descriptor c = 1" using AtFileDescriptor by (simp_all add: file_phase_def at_descriptor_def)
  ultimately show ?thesis using walked_progress [of c c'] AtFileDescriptor by auto
next
  case (AtFileBuffer i)
  obtain p dest where p: "fr_pending c = Some p" "fp_dest p = Some dest"
    using assms AtFileBuffer by (auto simp: file_advance_def file_finish_buffer_def)
  show ?thesis
  proof (cases "i + 1 < length (buffers (fp_descriptor p))")
    case True
    then show ?thesis
      using assms AtFileBuffer p
      by (auto simp: file_advance_def file_finish_buffer_def Let_def file_phase_def walk_left_def at_descriptor_def
          stage_left_def [of c] dest!: file_begin_buffer_Ok)
  next
    case False
    then show ?thesis
      using assms AtFileBuffer p walked_progress [of c c' i]
      by (auto simp: file_advance_def file_finish_buffer_def Let_def walk_left_def dest!: file_complete_tensor_Ok)
  qed
qed (use assms in \<open>auto simp: file_advance_def\<close>)

function file_reader_step :: "(bytes \<Rightarrow> u32) \<Rightarrow> destination_alloc \<Rightarrow> file_step file_action" where
  "file_reader_step crc alloc c =
     (case fr_state c of
        AtFailed \<Rightarrow> (c, Err CoreFailed)
      | AtReady \<Rightarrow> (c, Ok StepReady)
      | AtDone DoneDescriptor \<Rightarrow> (c, Ok StepDescriptor)
      | AtDone DoneTensor \<Rightarrow> (c, Ok StepFileTensor)
      | AtDone DoneComposite \<Rightarrow> (c, Ok StepComposite)
      | _ \<Rightarrow>
          if fr_filled c < fr_target c then (c, Ok (StepRange (fr_cursor c) (fr_target c - fr_filled c)))
          else
            (case file_advance crc alloc c of
               (c', Ok _) \<Rightarrow> file_reader_step crc alloc c'
             | (c', Err e) \<Rightarrow> (c', Err e)
             | (c', Panic) \<Rightarrow> (c', Panic)))"
  by pat_completeness auto

termination
proof (relation "inv_image file_progress (snd \<circ> snd)")
  show "wf (inv_image file_progress (snd \<circ> snd))" by (rule wf_inv_image) simp
qed (auto simp del: in_measures dest!: file_advance_progress [OF sym])

declare file_reader_step.simps [simp del]

section \<open>The caller's side\<close>

definition filling :: "file_state \<Rightarrow> bool" where
  "filling s = (case s of AtReady \<Rightarrow> False | AtDone _ \<Rightarrow> False | AtFailed \<Rightarrow> False | _ \<Rightarrow> True)"

definition file_input_dst :: "file_reader_core \<Rightarrow> bytes io_result" where
  "file_input_dst c =
     (case fr_state c of
        AtFileBuffer _ \<Rightarrow>
          (case Option.bind (fr_pending c) fp_dest of
             Some dest \<Rightarrow> if fr_filled c \<le> length dest then Ok (drop (fr_filled c) dest) else Panic
           | None \<Rightarrow> Ok [])
      | s \<Rightarrow>
          if filling s
          then (if fr_filled c \<le> length (fr_staging c) then Ok (drop (fr_filled c) (fr_staging c)) else Panic)
          else Ok [])"

text \<open>What a driver does to the core through the mutable slice of \<open>input_dst\<close>.\<close>

definition file_fill :: "bytes \<Rightarrow> file_reader_core \<Rightarrow> file_reader_core" where
  "file_fill bs c =
     (case fr_state c of
        AtFileBuffer _ \<Rightarrow>
          c\<lparr>fr_pending := map_option (\<lambda>p. p\<lparr>fp_dest := map_option (store_at (fr_filled c) bs) (fp_dest p)\<rparr>) (fr_pending c)\<rparr>
      | s \<Rightarrow> if filling s then c\<lparr>fr_staging := store_at (fr_filled c) bs (fr_staging c)\<rparr> else c)"

definition file_report_filled :: "usize \<Rightarrow> unit file_action" where
  "file_report_filled n c =
     (if fr_state c = AtFailed then (c, Err CoreFailed)
      else
        let offered = (if filling (fr_state c) then fr_target c - fr_filled c else 0) in
        if offered = 0 \<or> n > offered then (c, Err (InvalidProgressReport n offered))
        else if n = 0 then fr_fail UnexpectedEof c
        else
          (case plain_add (fr_cursor c) (word_of_nat n) :: u64 io_result of
             Ok cur \<Rightarrow> (c\<lparr>fr_filled := fr_filled c + n, fr_cursor := cur\<rparr>, Ok ())
           | _ \<Rightarrow> (c\<lparr>fr_filled := fr_filled c + n\<rparr>, Panic)))"

definition begin_job :: "job \<Rightarrow> unit file_action" where
  "begin_job j c =
     (if \<not> fr_is_open c then (c, Err CoreFailed)
      else
        (c\<lparr>fr_job := Some j, fr_pending := None, fr_walk := None, fr_descriptor_out := None, fr_tensor_out := None,
           fr_composite_out := None\<rparr>, Ok ()))"

definition fr_then :: "unit file_action \<Rightarrow> unit file_action \<Rightarrow> unit file_action" where
  "fr_then a b c = (case a c of (c', Ok _) \<Rightarrow> b c' | (c', Err e) \<Rightarrow> (c', Err e) | (c', Panic) \<Rightarrow> (c', Panic))"

definition file_begin_descriptor :: "bytes \<Rightarrow> unit file_action" where
  "file_begin_descriptor name = fr_then (begin_job JobDescriptor) (start_descriptor name)"

definition begin_tensor :: "bytes \<Rightarrow> unit file_action" where
  "begin_tensor name = fr_then (begin_job JobTensor) (start_descriptor name)"

definition file_order :: "file_reader_core \<Rightarrow> bytes list" where
  "file_order c = map ie_name (sort_key ie_descriptor_offset (fr_index c))"

definition start_walk :: "bytes \<Rightarrow> unit file_action" where
  "start_walk head c =
     (let names = file_order c; i = length (takeWhile (\<lambda>n. n \<noteq> head) names) in
      if i < length names
      then walk_next (c\<lparr>fr_walk := Some \<lparr>wk_names = names, wk_cursor = i, wk_stack = []\<rparr>\<rparr>)
      else (c, Err (TensorNotFound (name_string head))))"

definition begin_composite :: "bytes \<Rightarrow> unit file_action" where
  "begin_composite head = fr_then (begin_job JobWalk) (start_walk head)"

definition finish_job :: "file_reader_core \<Rightarrow> file_reader_core" where
  "finish_job c = c\<lparr>fr_job := None, fr_state := AtReady\<rparr>"

definition take_descriptor :: "file_reader_core \<Rightarrow> file_reader_core \<times> tensor_descriptor option" where
  "take_descriptor c =
     (case fr_descriptor_out c of
        None \<Rightarrow> (c, None)
      | Some d \<Rightarrow> (finish_job (c\<lparr>fr_descriptor_out := None\<rparr>), Some d))"

definition file_take_tensor :: "file_reader_core \<Rightarrow> file_reader_core \<times> read_tensor option" where
  "file_take_tensor c =
     (case fr_tensor_out c of
        None \<Rightarrow> (c, None)
      | Some t \<Rightarrow> (finish_job (c\<lparr>fr_tensor_out := None\<rparr>), Some t))"

definition take_composite :: "file_reader_core \<Rightarrow> file_reader_core \<times> file_composite option" where
  "take_composite c =
     (case fr_composite_out c of
        None \<Rightarrow> (c, None)
      | Some t \<Rightarrow> (finish_job (c\<lparr>fr_composite_out := None\<rparr>), Some t))"

end
