(* ===== verification/File_Contents.thy ===== *)
theory File_Contents
  imports File_Write
begin

text \<open>
  What a container file holds. A history of operations carried out to their end is an inductive relation
  between the bytes of the file, the writer core and the list of the tensors written. Its invariant ties
  them together: the core knows the length of the file, and each index entry leads to the descriptor
  and to the buffers of its tensor, with the buffers on the alignment of the file.
\<close>

section \<open>Operations carried out\<close>

definition completes :: "file_write_op \<Rightarrow> bytes \<Rightarrow> file_writer_core \<Rightarrow> bool" where
  "completes op out w \<longleftrightarrow>
     (\<exists>op2 op3. (emits fo_step fo_output_src fo_report_written)\<^sup>*\<^sup>* (op, []) (op2, out) \<and>
        fo_step op2 = (op3, Ok ItemWritten) \<and> fo_core op3 = w)"

definition advanced :: "file_writer_core \<Rightarrow> nat \<Rightarrow> bool \<Rightarrow> file_writer_core" where
  "advanced w n t = w\<lparr>fw_torn := t, fw_offset := fw_offset w + word_of_nat n\<rparr>"

lemma emits_advances:
  assumes "(emits fo_step fo_output_src fo_report_written)\<^sup>*\<^sup>* (op, out) (op2, out2)" and "fo_ok op"
    and "fo_core op = advanced w (length out) t"
  shows "fo_ok op2 \<and> (\<exists>t. fo_core op2 = advanced w (length out2) t) \<and> fo_commit op2 = fo_commit op"
  using assms
proof (induction rule: rtranclp_induct2)
  case refl
  then show ?case by auto
next
  case (step op1 out1 op2 out2)
  have ok: "fo_ok op1" and c: "fo_commit op1 = fo_commit op" and "\<exists>t. fo_core op1 = advanced w (length out1) t"
    using step.IH step.prems by auto
  then obtain t1 where t1: "fo_core op1 = advanced w (length out1) t1" by blast
  from step.hyps(2) obtain op' len n where e: "fo_step op1 = (op', Ok (WriteOutput len))" "0 < n" "n \<le> length (fo_output_src op')"
    "fo_report_written op' n = (op2, Ok ())" "out2 = out1 @ take n (fo_output_src op')"
    by (auto elim: emitsE)
  have o: "fo_ok op'" "fo_core op' = fo_core op1" "fo_commit op' = fo_commit op1"
    by (rule fo_step_ok [OF ok]; use e(1) in auto)+
  from fo_report_ok [OF o(1) e(2,3)] e(4) have r: "fo_ok op2" "fo_commit op2 = fo_commit op'"
    "fo_core op2 = (fo_core op')\<lparr>fw_torn := fw_torn (fo_core op') \<or> fo_emitted op' = 0,
       fw_offset := fw_offset (fo_core op') + word_of_nat n\<rparr>" by auto
  have l: "length out2 = length out1 + n" using e(3,5) by simp
  have "fo_core op2 = advanced w (length out2) (fw_torn (fo_core op') \<or> fo_emitted op' = 0)"
    unfolding r(3) o(2) t1 by (simp add: advanced_def l add.assoc)
  then show ?case using r(1,2) o(3) c by auto
qed

lemma advanced_0: "advanced w 0 (fw_torn w) = w"
  by (simp add: advanced_def)

lemma completes_queue:
  assumes "fo_ok op" and "completes op out w'"
  shows "out = fo_queue op" and "w' = apply_commit (fo_commit op) (advanced (fo_core op) (length out) False)"
proof -
  from assms(2) obtain op2 op3 where r: "(emits fo_step fo_output_src fo_report_written)\<^sup>*\<^sup>* (op, []) (op2, out)"
    "fo_step op2 = (op3, Ok ItemWritten)" "fo_core op3 = w'"
    by (auto simp: completes_def)
  show "out = fo_queue op" using file_op_queue.emits_outcome [OF r(1) assms(1)] r(2) by auto
  have "fo_core op = advanced (fo_core op) (length ([] :: bytes)) (fw_torn (fo_core op))" by (simp add: advanced_0)
  from emits_advances [OF r(1) assms(1) this] obtain t where
    a: "fo_ok op2" "fo_core op2 = advanced (fo_core op) (length out) t" "fo_commit op2 = fo_commit op" by blast
  have "fo_core op3 = apply_commit (fo_commit op2) ((fo_core op2)\<lparr>fw_torn := False\<rparr>)"
    by (rule fo_step_ok [OF a(1)]; use r(2) in auto)
  then show "w' = apply_commit (fo_commit op) (advanced (fo_core op) (length out) False)"
    using a(2,3) r(3) by (cases "fo_core op") (simp add: advanced_def)
qed

lemma completes_exists: "fo_ok op \<Longrightarrow> \<exists>w. completes op (fo_queue op) w"
  using file_op_queue.emits_continue [of op "[]"] by (auto simp: completes_def)

lemma file_op_ok:
  assumes "fw_unusable w = None" and "unat (fw_offset w) + length (plan_bytes (file_op w plan bs ps c) plan) < 2 ^ 64"
  shows "fo_ok (file_op w plan bs ps c)" "fo_queue (file_op w plan bs ps c) = plan_bytes (file_op w plan bs ps c) plan"
proof -
  show q: "fo_queue (file_op w plan bs ps c) = plan_bytes (file_op w plan bs ps c) plan"
    by (cases plan) (simp_all add: fo_queue_def file_op_def plan_bytes_def)
  show "fo_ok (file_op w plan bs ps c)"
    using assms q by (simp add: fo_ok_def) (simp add: file_op_def)
qed

section \<open>Histories\<close>

type_synonym written_tensor = "bytes \<times> tensor_descriptor \<times> bytes list"

inductive file_history ::
  "file_writer_options \<Rightarrow> bytes \<Rightarrow> file_writer_core \<Rightarrow> written_tensor list \<Rightarrow> bool" for o' where
  new: "validate_options o' = Ok () \<Longrightarrow> file_history o' [] (fw_build o') []"
| header: "file_history o' f w its \<Longrightarrow> file_header w = Ok op \<Longrightarrow> completes op out w' \<Longrightarrow>
    file_history o' (f @ out) w' its"
| tensor: "file_history o' f w its \<Longrightarrow> file_tensor w name d bufs = Ok op \<Longrightarrow> encodable d \<Longrightarrow> utf8_valid name \<Longrightarrow>
    length (concat bufs) < 2 ^ 63 \<Longrightarrow> completes op out w' \<Longrightarrow>
    file_history o' (f @ out) w' (its @ [(name, d, bufs)])"

section \<open>Where things are\<close>

text \<open>Buffers one after the other, each but the last padded to the alignment.\<close>

fun padded :: "nat \<Rightarrow> nat \<Rightarrow> bytes list \<Rightarrow> bytes" where
  "padded al pos [] = []"
| "padded al pos [b] = b"
| "padded al pos (b # c # bs) =
     b @ replicate (align_nat al (pos + length b) - (pos + length b)) 0 @
     padded al (align_nat al (pos + length b)) (c # bs)"

fun buffers_at :: "nat \<Rightarrow> bytes \<Rightarrow> nat \<Rightarrow> bytes list \<Rightarrow> bool" where
  "buffers_at al f pos [] = True"
| "buffers_at al f pos (b # bs) =
     (pos + length b \<le> length f \<and> take (length b) (drop pos f) = b \<and>
      (bs \<noteq> [] \<longrightarrow> buffers_at al f (align_nat al (pos + length b)) bs))"

definition describes :: "nat \<Rightarrow> bytes \<Rightarrow> index_entry \<Rightarrow> written_tensor \<Rightarrow> bool" where
  "describes al f e it \<longleftrightarrow>
     (case it of (name, d, bufs) \<Rightarrow>
        ie_name e = name \<and> encodable d \<and> length bufs = length (buffers d) \<and>
        list_all2 (\<lambda>h b. length b = unat (byte_size h)) (buffers d) bufs \<and>
        unat (ie_descriptor_length e) = length (descriptor_bytes d) \<and>
        unat (ie_descriptor_offset e) + length (descriptor_bytes d) \<le> length f \<and>
        take (length (descriptor_bytes d)) (drop (unat (ie_descriptor_offset e)) f) = descriptor_bytes d \<and>
        (bufs \<noteq> [] \<longrightarrow> al dvd unat (ie_data_offset e)) \<and> buffers_at al f (unat (ie_data_offset e)) bufs)"

lemma buffers_at_append: "buffers_at al f pos bs \<Longrightarrow> buffers_at al (f @ g) pos bs"
  by (induction al f pos bs rule: buffers_at.induct) auto

lemma describes_append: "describes al f e it \<Longrightarrow> describes al (f @ g) e it"
  by (auto simp: describes_def buffers_at_append split: prod.splits)

lemma buffers_at_padded:
  "0 < al \<Longrightarrow> length f = pos \<Longrightarrow> buffers_at al (f @ padded al pos bs @ g) pos bs"
proof (induction al pos bs arbitrary: f rule: padded.induct)
  case (3 al pos b c bs)
  let ?p = "align_nat al (pos + length b)"
  let ?f = "f @ b @ replicate (?p - (pos + length b)) 0"
  have l: "length ?f = ?p" using 3(2,3) align_nat_ge [of al "pos + length b"] by simp
  have eq: "f @ padded al pos (b # c # bs) @ g = ?f @ padded al ?p (c # bs) @ g" by simp
  have b: "take (length b) (drop pos (f @ padded al pos (b # c # bs) @ g)) = b" using 3(3) by simp
  have le: "pos + length b \<le> length (f @ padded al pos (b # c # bs) @ g)" using 3(3) by simp
  have "buffers_at al (f @ padded al pos (b # c # bs) @ g) ?p (c # bs)"
    unfolding eq by (rule 3(1) [OF 3(2) l])
  then show ?case unfolding buffers_at.simps(2) [of al _ pos] using b le by blast
qed simp_all

section \<open>The plan of a tensor\<close>

lemma plain_add_value: "plain_add x y = Ok z \<Longrightarrow> unat z = unat x + unat y" for x y z :: "'a::len word"
  by (auto simp: plain_add_def checked_add_Some split: option.splits)

lemma plan_bytes_simps [simp]:
  "plan_bytes op [] = []" "plan_bytes op (s # p) = seg_bytes op s @ plan_bytes op p"
  "plan_bytes op (p @ q) = plan_bytes op p @ plan_bytes op q"
  by (simp_all add: plan_bytes_def)

lemma seg_bytes_simps [simp]:
  "seg_bytes op Owned = fo_bytes op" "seg_bytes op (Zeros len) = replicate (unat len) 0"
  "i < length (fo_payloads op) \<Longrightarrow> seg_bytes op (Payload i) = fo_payloads op ! i"
  by (simp_all add: seg_bytes_def)

text \<open>A pad is planned as a run of zeros, or not at all when it is empty.\<close>

lemma plan_bytes_pad: "plan_bytes op (if p > 0 then [Zeros p] else []) = replicate (unat p) 0"
  by (auto simp: word_neq_0_conv [symmetric])

lemma plan_payloads_bytes:
  assumes "plan_payloads al i lst cur bs = Ok (segs, cur')"
    and "drop i (fo_payloads op) = bs" and "lst = length (fo_payloads op) - 1" and "0 < unat al"
    and "\<forall>b \<in> set bs. length b < 2 ^ 63"
  shows "plan_bytes op segs = padded (unat al) (unat cur) bs \<and>
    unat cur' = unat cur + length (padded (unat al) (unat cur) bs)"
  using assms
proof (induction bs arbitrary: i cur segs)
  case Nil
  then show ?case by simp
next
  case (Cons b bs)
  have i: "i < length (fo_payloads op)" "fo_payloads op ! i = b" "drop (i + 1) (fo_payloads op) = bs"
    using Cons.prems(2) by (metis Cons_nth_drop_Suc drop_all leI list.inject list.distinct(1) Suc_eq_plus1)+
  have len: "length (fo_payloads op) = i + length (b # bs)" using Cons.prems(2) i(1) by (metis length_drop le_add_diff_inverse less_imp_le)
  have ub: "unat (word_of_nat (length b) :: u64) = length b"
    using Cons.prems(5) by (simp add: unat_of_nat take_bit_eq_mod)
  obtain c1 where c1: "plain_add cur (word_of_nat (length b)) = (Ok c1 :: u64 io_result)"
    using Cons.prems(1) by (auto simp: r_bind_Ok_iff)
  have u1: "unat c1 = unat cur + length b" using plain_add_value [OF c1] ub by simp
  have bs63: "\<forall>b \<in> set bs. length b < 2 ^ 63" using Cons.prems(5) by simp
  show ?case
  proof (cases bs)
    case Nil
    then have "\<not> i < lst" using len Cons.prems(3) by simp
    then show ?thesis using Cons.prems(1) c1 Nil i u1 by (auto simp: r_bind_Ok_iff)
  next
    case (Cons c cs)
    then have lt: "i < lst" using len Cons.prems(3) by simp
    obtain p where p: "pad_to c1 al = Ok p" using Cons.prems(1) c1 lt by (auto simp: r_bind_Ok_iff)
    let ?al = "unat al" and ?n = "align_nat (unat al) (unat c1)"
    have v: "unat p = ?n - unat c1" "?n < 2 ^ 64" using pad_to_value [OF p] by simp_all
    have ge: "unat c1 \<le> ?n" using Cons.prems(4) by (rule align_nat_ge)
    show ?thesis
    proof (cases "p > 0")
      case True
      then obtain c2 segs' where c2: "plain_add c1 p = (Ok c2 :: u64 io_result)"
        "plan_payloads al (i + 1) lst c2 bs = Ok (segs', cur')" "segs = Payload i # Zeros p # segs'"
        using Cons.prems(1) c1 lt p by (auto simp: r_bind_Ok_iff)
      have "unat c2 = ?n" using plain_add_value [OF c2(1)] v(1) ge by simp
      then show ?thesis
        using Cons.IH [OF c2(2) i(3) Cons.prems(3,4) bs63] c2(3) i(1,2) v(1) u1 ge Cons by simp
    next
      case False
      then obtain segs' where c2: "plan_payloads al (i + 1) lst c1 bs = Ok (segs', cur')" "segs = Payload i # segs'"
        using Cons.prems(1) c1 lt p by (auto simp: r_bind_Ok_iff)
      have "p = 0" using False by (simp add: word_neq_0_conv [symmetric])
      then have "?n = unat c1" using v(1) ge by simp
      then show ?thesis
        using Cons.IH [OF c2(1) i(3) Cons.prems(3,4) bs63] c2(2) i(1,2) u1 Cons by simp
    qed
  qed
qed

definition data_start :: "nat \<Rightarrow> nat \<Rightarrow> bytes list \<Rightarrow> nat" where
  "data_start al pos bufs = (if bufs = [] then pos else align_nat al pos)"

text \<open>The bytes of a tensor that starts at position \<open>pos\<close>: the descriptor, the buffers on the alignment,
  zeros up to a multiple of eight.\<close>

definition tensor_region :: "nat \<Rightarrow> nat \<Rightarrow> bytes \<Rightarrow> bytes list \<Rightarrow> bytes" where
  "tensor_region al pos enc bufs =
     (let p1 = pos + length enc; p2 = data_start al p1 bufs; body = padded al p2 bufs; p3 = p2 + length body in
      enc @ replicate (p2 - p1) 0 @ body @ replicate (align_nat 8 p3 - p3) 0)"

lemma plan_tensor_region:
  assumes p: "plan_tensor w name enc bufs = Ok op" and len: "length enc < 2 ^ 32" "\<forall>b \<in> set bufs. length b < 2 ^ 63"
    and al: "0 < unat (fw_alignment w)"
  obtains plan e where
    "op = file_op w plan enc bufs (CommitTensor e)"
    "plan_bytes op plan = tensor_region (unat (fw_alignment w)) (unat (fw_offset w)) enc bufs"
    "ie_name e = name" "ie_descriptor_offset e = fw_offset w" "unat (ie_descriptor_length e) = length enc"
    "unat (ie_data_offset e) = data_start (unat (fw_alignment w)) (unat (fw_offset w) + length enc) bufs"
    "unat (fw_offset w) + length (tensor_region (unat (fw_alignment w)) (unat (fw_offset w)) enc bufs) < 2 ^ 64"
proof -
  let ?al = "unat (fw_alignment w)" and ?dl = "word_of_nat (length enc) :: u32"
  have udl: "unat ?dl = length enc" "unat (ucast ?dl :: u64) = length enc"
    using unat_of_nat_u32 [OF len(1)] by (simp_all only: unat_ucast_u32_u64)
  from p obtain de where de: "plain_add (fw_offset w) (ucast ?dl) = (Ok de :: u64 io_result)"
    unfolding plan_tensor_def Let_def r_bind_Ok_iff by blast
  from p de obtain dof where dof: "(if bufs = [] then Ok de else align_up de (fw_alignment w)) = Ok dof"
    unfolding plan_tensor_def Let_def r_bind_Ok_iff by auto
  from p de dof obtain segs cur where sc: "plan_payloads (fw_alignment w) 0 (length bufs - 1) dof bufs = Ok (segs, cur)"
    unfolding plan_tensor_def Let_def r_bind_Ok_iff by auto
  from p de dof sc obtain pd where pd: "pad_to cur 8 = Ok pd"
    by (auto simp: plan_tensor_def Let_def r_bind_Ok_iff)
  let ?e = "\<lparr>ie_name = name, ie_descriptor_offset = fw_offset w, ie_descriptor_length = ?dl,
    ie_data_offset = dof, ie_data_length = cur - dof\<rparr>"
  let ?plan = "[Owned] @ (if dof > de then [Zeros (dof - de)] else []) @ segs @ (if pd > 0 then [Zeros pd] else [])"
  have op: "op = file_op w ?plan enc bufs (CommitTensor ?e)"
    using p unfolding plan_tensor_def Let_def by (simp only: de dof sc pd r_bind.simps prod.case result.inject)
  have ude: "unat de = unat (fw_offset w) + length enc" using plain_add_value [OF de] udl by simp
  have udof: "unat dof = data_start ?al (unat de) bufs"
    using dof align_up_value [of de "fw_alignment w" dof] by (auto simp: data_start_def split: if_splits)
  have ge: "de \<le> dof" using udof align_nat_ge [OF al, of "unat de"] by (auto simp: data_start_def word_le_nat_alt)
  have gap: "(if dof > de then [Zeros (dof - de)] else []) = (if dof - de > 0 then [Zeros (dof - de)] else [])"
    using ge by (auto simp: word_neq_0_conv [symmetric])
  have pay: "fo_payloads op = bufs" "fo_bytes op = enc" unfolding op by (simp_all add: file_op_def)
  from plan_payloads_bytes [OF sc, of op] pay(1) len(2) al have body:
    "plan_bytes op segs = padded ?al (unat dof) bufs" "unat cur = unat dof + length (padded ?al (unat dof) bufs)" by simp_all
  have upd: "unat pd = align_nat 8 (unat cur) - unat cur" "align_nat 8 (unat cur) < 2 ^ 64"
    using pad_to_value [OF pd] by simp_all
  have ugap: "unat (dof - de) = unat dof - unat de" using ge by (simp add: unat_sub)
  have tr: "tensor_region ?al (unat (fw_offset w)) enc bufs =
      enc @ replicate (unat dof - unat de) 0 @ padded ?al (unat dof) bufs @ replicate (align_nat 8 (unat cur) - unat cur) 0"
    by (simp only: tensor_region_def Let_def ude udof body(2))
  have bytes: "plan_bytes op ?plan = tensor_region ?al (unat (fw_offset w)) enc bufs"
    unfolding gap tr by (simp add: plan_bytes_pad body(1) pay(2) ugap upd(1))
  have "unat de \<le> unat dof" "unat cur \<le> align_nat 8 (unat cur)"
    using ge align_nat_ge [of 8 "unat cur"] by (simp_all add: word_le_nat_alt)
  then have "unat (fw_offset w) + length (tensor_region ?al (unat (fw_offset w)) enc bufs) = align_nat 8 (unat cur)"
    unfolding tr using ude body(2) by simp
  with upd(2) have "unat (fw_offset w) + length (tensor_region ?al (unat (fw_offset w)) enc bufs) < 2 ^ 64" by simp
  then show thesis using that [OF op bytes] udl ude udof by simp
qed

section \<open>The invariant of a history\<close>

definition header_bytes :: "file_writer_options \<Rightarrow> bytes" where
  "header_bytes o' = fw_encode_header (fw_build o')"

definition file_inv ::
  "file_writer_options \<Rightarrow> bytes \<Rightarrow> file_writer_core \<Rightarrow> written_tensor list \<Rightarrow> bool" where
  "file_inv o' f w its \<longleftrightarrow>
     validate_options o' = Ok () \<and> fw_alignment w = ucast (fo_data_buffer_alignment o') \<and>
     fw_sorted_index w = fo_sorted_index o' \<and> unat (fw_offset w) = length f \<and> fw_unusable w = None \<and> \<not> fw_torn w \<and>
     \<not> fw_finished w \<and> 8 dvd length f \<and>
     (if fw_header_written w then 64 \<le> length f \<and> take 64 f = header_bytes o' else f = [] \<and> fw_entries w = []) \<and>
     fw_seen_names w = ie_name ` set (fw_entries w) \<and> index_ok (fw_entries w) \<and>
     sorted_wrt (<) (map (unat \<circ> ie_descriptor_offset) (fw_entries w)) \<and>
     list_all2 (describes (unat (fo_data_buffer_alignment o')) f) (fw_entries w) its"

lemma valid_alignment:
  assumes "validate_options o' = Ok ()"
  shows "0 < unat (fo_data_buffer_alignment o')" "8 dvd unat (fo_data_buffer_alignment o')"
    "is_power_of_two (fo_data_buffer_alignment o')" "fo_data_buffer_alignment o' \<le> MAX_DATA_BUFFER_ALIGNMENT"
proof -
  show p: "is_power_of_two (fo_data_buffer_alignment o')" "fo_data_buffer_alignment o' \<le> MAX_DATA_BUFFER_ALIGNMENT"
    using assms by (auto simp: validate_options_def Let_def split: if_splits)
  obtain k where k: "unat (fo_data_buffer_alignment o') = 2 ^ k" using p(1) by (auto simp: is_power_of_two_iff)
  then show "0 < unat (fo_data_buffer_alignment o')" by simp
  have "4096 \<le> unat (fo_data_buffer_alignment o')"
    using assms by (auto simp: validate_options_def Let_def MIN_DATA_BUFFER_ALIGNMENT_def word_le_nat_alt split: if_splits)
  then have "(2 :: nat) ^ 3 \<le> 2 ^ k" using k by simp
  then have "3 \<le> k" by (rule power_le_imp_le_exp [rotated]) simp
  then have "(2 :: nat) ^ 3 dvd 2 ^ k" by (rule le_imp_power_dvd)
  then show "8 dvd unat (fo_data_buffer_alignment o')" using k by simp
qed

lemma length_header: "length (fw_encode_header w) = 64"
  by (simp add: fw_encode_header_def FILE_MAGIC_def Let_def)

lemma header_independent:
  "fw_alignment w = ucast (fo_data_buffer_alignment o') \<Longrightarrow> fw_sorted_index w = fo_sorted_index o' \<Longrightarrow>
   fw_encode_header w = header_bytes o'"
  by (simp add: header_bytes_def fw_encode_header_def fw_build_def)

lemma unat_advanced:
  "unat (fw_offset w) + n < 2 ^ 64 \<Longrightarrow> unat (fw_offset (advanced w n t)) = unat (fw_offset w) + n"
  unfolding advanced_def using plain_add_of_nat [THEN conjunct2, of "fw_offset w" n] by simp

lemma length_tensor_region:
  assumes "8 dvd pos" "0 < al"
  shows "8 dvd pos + length (tensor_region al pos enc bufs)"
proof -
  let ?p1 = "pos + length enc" let ?p2 = "data_start al ?p1 bufs" let ?p3 = "?p2 + length (padded al ?p2 bufs)"
  have "?p1 \<le> ?p2" using align_nat_ge [OF assms(2), of ?p1] by (simp add: data_start_def)
  moreover have "?p3 \<le> align_nat 8 ?p3" by (rule align_nat_ge) simp
  ultimately have "pos + length (tensor_region al pos enc bufs) = align_nat 8 ?p3"
    by (simp add: tensor_region_def Let_def)
  then show ?thesis using align_nat_dvd by simp
qed

lemma check_payloads_sizes:
  "check_payloads i hs bs = Ok () \<Longrightarrow> length hs = length bs \<Longrightarrow> \<forall>b \<in> set bs. length b < 2 ^ 63 \<Longrightarrow>
   list_all2 (\<lambda>h b. length b = unat (byte_size h)) hs bs"
  by (induction i hs bs rule: check_payloads.induct) (auto simp: unat_of_nat take_bit_eq_mod split: if_splits)

text \<open>The operation of a tensor on a core of a history: its bytes, and that it can be carried out.\<close>

lemma tensor_op:
  assumes inv: "file_inv o' f w its" and t: "file_tensor w name d bufs = Ok op" and d: "encodable d"
    and len: "length (concat bufs) < 2 ^ 63"
  obtains plan e where
    "op = file_op w plan (descriptor_bytes d) bufs (CommitTensor e)" "fo_ok op"
    "fo_queue op = tensor_region (unat (fo_data_buffer_alignment o')) (length f) (descriptor_bytes d) bufs"
    "ie_name e = name" "ie_descriptor_offset e = fw_offset w" "unat (ie_descriptor_length e) = length (descriptor_bytes d)"
    "unat (ie_data_offset e) =
       data_start (unat (fo_data_buffer_alignment o')) (length f + length (descriptor_bytes d)) bufs"
    "length f + length (tensor_region (unat (fo_data_buffer_alignment o')) (length f) (descriptor_bytes d) bufs) < 2 ^ 64"
    "fw_header_written w" "name \<noteq> []" "length name \<le> 65535" "name \<notin> fw_seen_names w" "length bufs = length (buffers d)"
    "list_all2 (\<lambda>h b. length b = unat (byte_size h)) (buffers d) bufs"
proof -
  let ?al = "unat (fo_data_buffer_alignment o')" and ?enc = "descriptor_bytes d"
  have v: "validate_options o' = Ok ()" and wal: "fw_alignment w = ucast (fo_data_buffer_alignment o')"
    and off: "unat (fw_offset w) = length f" and ret: "fw_retired w = None"
    using inv by (simp_all add: file_inv_def fw_retired_def)
  note al = valid_alignment [OF v]
  have ual: "unat (fw_alignment w) = ?al" by (simp add: wal unat_ucast_u32_u64)
  have g: "fw_header_written w" "name \<noteq> []" "length name \<le> 65535" "name \<notin> fw_seen_names w"
      "length bufs = length (buffers d)" "check_payloads 0 (buffers d) bufs = Ok ()" "plan_tensor w name ?enc bufs = Ok op"
    using t ret encode_encodable [OF d]
    by (auto simp: file_tensor_def r_bind_Ok_iff split: if_splits)
  have blen: "\<forall>b \<in> set bufs. length b < 2 ^ 63"
    using len by (metis (no_types, lifting) in_set_conv_decomp concat.simps(2) concat_append le_add1 le_add2 le_less_trans
        le_trans length_append)
  have elen: "length ?enc < 2 ^ 32" using d by (simp add: encodable_def)
  from plan_tensor_region [OF g(7) elen blen] al(1) ual obtain plan e where
    op: "op = file_op w plan ?enc bufs (CommitTensor e)" and
    pb: "plan_bytes op plan = tensor_region ?al (length f) ?enc bufs" and
    e: "ie_name e = name" "ie_descriptor_offset e = fw_offset w" "unat (ie_descriptor_length e) = length ?enc"
      "unat (ie_data_offset e) = data_start ?al (length f + length ?enc) bufs" and
    fit: "length f + length (tensor_region ?al (length f) ?enc bufs) < 2 ^ 64"
    unfolding off by metis
  have ok: "fo_ok op" "fo_queue op = tensor_region ?al (length f) ?enc bufs"
    using file_op_ok [of w plan ?enc bufs "CommitTensor e"] inv pb fit off unfolding op file_inv_def by simp_all
  show thesis
    using that [OF op ok e fit g(1-5)] check_payloads_sizes [OF g(6) _ blen] g(5) by simp
qed

lemma history_tensor:
  assumes inv: "file_inv o' f w its" and t: "file_tensor w name d bufs = Ok op" and d: "encodable d" and u: "utf8_valid name"
    and len: "length (concat bufs) < 2 ^ 63" and c: "completes op out w'"
  shows "file_inv o' (f @ out) w' (its @ [(name, d, bufs)])"
proof -
  let ?al = "unat (fo_data_buffer_alignment o')" and ?enc = "descriptor_bytes d"
  from inv t d len obtain plan e where op: "op = file_op w plan ?enc bufs (CommitTensor e)" and ok: "fo_ok op"
      "fo_queue op = tensor_region ?al (length f) ?enc bufs" and e: "ie_name e = name" "ie_descriptor_offset e = fw_offset w"
      "unat (ie_descriptor_length e) = length ?enc" "unat (ie_data_offset e) = data_start ?al (length f + length ?enc) bufs" and
    fit: "length f + length (tensor_region ?al (length f) ?enc bufs) < 2 ^ 64" and
    g: "fw_header_written w" "name \<noteq> []" "length name \<le> 65535" "name \<notin> fw_seen_names w" "length bufs = length (buffers d)"
      "list_all2 (\<lambda>h b. length b = unat (byte_size h)) (buffers d) bufs"
    by (rule tensor_op)
  have off: "unat (fw_offset w) = length f" using inv by (simp add: file_inv_def)
  have v: "validate_options o' = Ok ()" using inv by (simp add: file_inv_def)
  note al = valid_alignment [OF v]
  have out: "out = tensor_region ?al (length f) ?enc bufs" using completes_queue(1) [OF ok(1) c] ok(2) by simp
  have w': "w' = apply_commit (Some (CommitTensor e)) (advanced w (length out) False)"
    using completes_queue(2) [OF ok(1) c] unfolding op by (simp add: file_op_def)
  let ?p1 = "length f + length ?enc" let ?p2 = "data_start ?al ?p1 bufs"
  have le: "?p1 \<le> ?p2" using align_nat_ge [OF al(1), of ?p1] by (simp add: data_start_def)
  obtain tail where tail: "f @ out = (f @ ?enc @ replicate (?p2 - ?p1) 0) @ padded ?al ?p2 bufs @ tail"
    unfolding out tensor_region_def Let_def by simp
  have "buffers_at ?al (f @ out) ?p2 bufs"
    unfolding tail using le by (intro buffers_at_padded [OF al(1)]) simp
  moreover have "bufs \<noteq> [] \<longrightarrow> ?al dvd ?p2" by (simp add: data_start_def align_nat_dvd)
  moreover have "take (length ?enc) (drop (length f) (f @ out)) = ?enc" "length f + length ?enc \<le> length (f @ out)"
    unfolding out tensor_region_def Let_def by simp_all
  ultimately have new: "describes ?al (f @ out) e (name, d, bufs)"
    using e off d g(5,6) by (simp add: describes_def del: length_descriptor_bytes)
  have old: "list_all2 (describes ?al (f @ out)) (fw_entries w) its"
    using inv by (auto simp: file_inv_def elim: list_all2_mono intro: describes_append)
  have idx: "index_ok (fw_entries w @ [e])"
    using inv g(2-4) e(1) u by (auto simp: index_ok_def file_inv_def)
  have "unat (ie_descriptor_offset x) < length f" if x: "x \<in> set (fw_entries w)" for x
  proof -
    obtain i where i: "i < length (fw_entries w)" "fw_entries w ! i = x"
      using x unfolding in_set_conv_nth by blast
    have "list_all2 (describes ?al f) (fw_entries w) its" using inv by (simp add: file_inv_def)
    then have "describes ?al f x (its ! i)" using list_all2_nthD i by metis
    moreover obtain n' d' b' where it: "its ! i = (n', d', b')" by (cases "its ! i")
    ultimately have "unat (ie_descriptor_offset x) + length (descriptor_bytes d') \<le> length f" by (simp add: describes_def)
    moreover have "0 < length (descriptor_bytes d')" by simp
    ultimately show ?thesis by linarith
  qed
  then have srt: "sorted_wrt (<) (map (unat \<circ> ie_descriptor_offset) (fw_entries w @ [e]))"
    using inv e(2) off by (auto simp: file_inv_def sorted_wrt_append)
  have offs: "unat (fw_offset (advanced w (length out) False)) = length (f @ out)"
    using unat_advanced [of w "length out" False] fit off out by simp
  have dvd: "8 dvd length (f @ out)"
    using length_tensor_region [OF _ al(1), of "length f" ?enc bufs] inv out by (simp add: file_inv_def)
  show ?thesis
    using inv g(1) new old idx offs dvd e(1) srt
    unfolding w' by (simp add: file_inv_def apply_commit_def advanced_def list_all2_appendI)
qed

lemma history_inv: "file_history o' f w its \<Longrightarrow> file_inv o' f w its"
proof (induction rule: file_history.induct)
  case new
  then show ?case by (simp add: file_inv_def fw_build_def index_ok_def)
next
  case (header f w its op out w')
  have h: "op = file_op w [Owned] (fw_encode_header w) [] CommitHeader" "\<not> fw_header_written w"
    using header.hyps by (auto simp: file_header_def split: option.splits if_splits)
  then have f: "f = []" "fw_entries w = []" "fw_offset w = 0" using header.IH by (auto simp: file_inv_def unat_eq_zero)
  have pb: "plan_bytes op [Owned] = header_bytes o'" using header.IH h(1) header_independent [of w o'] by (simp add: file_inv_def file_op_def)
  have len: "length (header_bytes o') = 64" by (simp add: header_bytes_def length_header)
  have ok: "fo_ok op" "fo_queue op = header_bytes o'"
    using file_op_ok [of w "[Owned]" "fw_encode_header w" "[]" CommitHeader] header.IH pb len f(3)
    unfolding h(1) by (simp_all add: file_inv_def)
  have out: "out = header_bytes o'" using completes_queue(1) [OF ok(1) header.hyps(3)] ok(2) by simp
  have w': "w' = apply_commit (Some CommitHeader) (advanced w (length out) False)"
    using completes_queue(2) [OF ok(1) header.hyps(3)] unfolding h(1) by (simp add: file_op_def)
  show ?case
    using header.IH f out len unfolding w' by (simp add: file_inv_def apply_commit_def advanced_def unat_of_nat take_bit_eq_mod)
next
  case (tensor f w its name d bufs op out w')
  then show ?case using history_tensor by blast
qed

end
