(* ===== verification/File_Sealed.thy ===== *)
theory File_Sealed
  imports File_Contents "HOL-Library.Multiset"
begin

text \<open>
  The finished container file: header, tensors, optional key-value section, index, trailer. \<open>sealed\<close> says
  what the bytes of such a file are; the footer that \<open>finish\<close> writes after any history seals it.
\<close>

section \<open>The footer\<close>

definition file_trailer :: "u64 \<Rightarrow> u64 \<Rightarrow> u64 \<Rightarrow> u32 \<Rightarrow> u32 \<Rightarrow> bytes" where
  "file_trailer io il ko kl c =
     to_le_bytes io @ to_le_bytes il @ to_le_bytes ko @ to_le_bytes kl @ to_le_bytes c @ replicate 4 0 @ TRAILER_MAGIC"

lemma length_trailer [simp]: "length (file_trailer io il ko kl c) = 40"
  by (simp add: file_trailer_def TRAILER_MAGIC_def)

text \<open>The key-value section as the file has it: absent, or its bytes padded to a multiple of eight.\<close>

definition kv_part :: "nat \<Rightarrow> (bytes \<times> kv_value) list \<Rightarrow> u64 \<Rightarrow> u32 \<Rightarrow> bytes \<Rightarrow> bool" where
  "kv_part pos kv ko kl footer \<longleftrightarrow>
     (if kv = [] then footer = [] \<and> ko = 0 \<and> kl = 0
      else unat ko = pos \<and> unat kl = length (kv_bytes kv) \<and>
        footer = kv_bytes kv @ replicate (align_nat 8 (pos + length (kv_bytes kv)) - (pos + length (kv_bytes kv))) 0)"

definition sealed ::
  "(bytes \<Rightarrow> u32) \<Rightarrow> file_writer_options \<Rightarrow> bytes \<Rightarrow> index_entry list \<Rightarrow> (bytes \<times> kv_value) list \<Rightarrow> bool" where
  "sealed crc o' f es kv \<longleftrightarrow>
     validate_options o' = Ok () \<and> length f < 2 ^ 64 \<and> index_ok es \<and> kv_ok kv \<and>
     (\<exists>body footer ko kl.
        f = body @ footer @ encode_index_section es @
          file_trailer (word_of_nat (length body + length footer)) (word_of_nat (length (encode_index_section es))) ko kl
            (crc (encode_index_section es)) \<and>
        64 \<le> length body \<and> take 64 body = header_bytes o' \<and> 8 dvd length body + length footer \<and>
        kv_part (length body) kv ko kl footer)"

lemma kv_footer_part:
  assumes "kv_footer pos kv = Ok (ko, kl, footer)" and "kv_ok kv" and "length (kv_bytes kv) < 2 ^ 32"
  shows "kv_part (unat pos) kv ko kl footer"
proof (cases "kv = []")
  case True
  then show ?thesis using assms(1) by (simp add: kv_footer_def kv_part_def)
next
  case False
  let ?k = "kv_bytes kv"
  obtain e p where e: "plain_add pos (word_of_nat (length ?k)) = (Ok e :: u64 io_result)" "pad_to e 8 = Ok p"
    "ko = pos" "kl = word_of_nat (length ?k)" "footer = ?k @ replicate (unat p) 0"
    using assms(1) False encode_kv_section_bytes [OF assms(2)] by (auto simp: kv_footer_def r_bind_Ok_iff)
  have "unat (word_of_nat (length ?k) :: u64) = length ?k" using assms(3) by (simp add: unat_of_nat take_bit_eq_mod)
  then have "unat e = unat pos + length ?k" using plain_add_value [OF e(1)] by simp
  then show ?thesis
    using False e(3-5) pad_to_value [OF e(2)] unat_of_nat_u32 [OF assms(3)] by (simp add: kv_part_def)
qed

lemma set_sorted_entries [simp]: "set (sorted_entries w) = set (fw_entries w)"
  by (simp add: sorted_entries_def)

lemma index_ok_sorted: "index_ok (fw_entries w) \<Longrightarrow> index_ok (sorted_entries w)"
  unfolding index_ok_def set_sorted_entries
  by (auto simp: sorted_entries_def distinct_map)

lemma sorted_index_sorted: "fw_sorted_index w \<Longrightarrow> sorted (map ie_name (sorted_entries w))"
  by (simp add: sorted_entries_def)

text \<open>By descriptor offset, the entries come in the order they were written in.\<close>

lemma sort_by_offset:
  assumes "sorted_wrt (<) (map (unat \<circ> ie_descriptor_offset) es)" and "set xs = set es" and "length xs = length es"
  shows "sort_key ie_descriptor_offset xs = es"
proof (rule sort_key_inj_key_eq)
  have "distinct (map (unat \<circ> ie_descriptor_offset) es)"
    using assms(1) by (simp add: strict_sorted_iff)
  then have d: "distinct es" "inj_on ie_descriptor_offset (set es)"
    by (auto simp: distinct_map comp_inj_on_iff dest: inj_on_imageI2)
  then have "distinct xs" using assms(2,3) by (metis card_distinct distinct_card)
  then show "mset xs = mset es" using d(1) assms(2) by (simp add: set_eq_iff_mset_eq_distinct)
  show "inj_on ie_descriptor_offset (set xs)" using d(2) assms(2) by simp
  show "sorted (map ie_descriptor_offset es)"
    using assms(1) by (auto simp: sorted_wrt_map word_le_nat_alt elim!: sorted_wrt_mono_rel [rotated])
qed

lemma kv_part_length: "8 dvd pos \<Longrightarrow> kv_part pos kv ko kl footer \<Longrightarrow> 8 dvd pos + length footer"
  using align_nat_dvd [of 8] align_nat_ge [of 8 "pos + length (kv_bytes kv)"] by (auto simp: kv_part_def split: if_splits)

lemma describes_all_append: "list_all2 (describes al f) es its \<Longrightarrow> list_all2 (describes al (f @ g)) es its"
  by (auto elim: list_all2_mono intro: describes_append)

lemma describes_names: "list_all2 (describes al f) es its \<Longrightarrow> map ie_name es = map fst its"
  by (induction rule: list_all2_induct) (auto simp: describes_def)

lemma finish_sealed:
  assumes h: "file_history o' f w its" and fin: "file_finish crc w kv = Ok op" and kv: "kv_ok kv"
    "length (kv_bytes kv) < 2 ^ 32" and fit: "length f + length (fo_bytes op) < 2 ^ 64" and c: "completes op out w'"
  shows "sealed crc o' (f @ out) (sorted_entries w) kv \<and> fw_finished w' \<and>
    list_all2 (describes (unat (fo_data_buffer_alignment o')) (f @ out)) (fw_entries w) its \<and>
    map ie_name (sort_key ie_descriptor_offset (sorted_entries w)) = map fst its"
proof -
  let ?ix = "encode_index_section (sorted_entries w)"
  have inv: "file_inv o' f w its" using h by (rule history_inv)
  have ret: "fw_retired w = None" using inv by (simp add: file_inv_def fw_retired_def)
  have hw: "fw_header_written w" using fin ret by (auto simp: file_finish_def split: if_splits)
  obtain ko kl footer where kf: "kv_footer (fw_offset w) kv = Ok (ko, kl, footer)"
    using fin ret hw by (auto simp: file_finish_def r_bind_Ok_iff split: if_splits)
  obtain io where io: "plain_add (fw_offset w) (word_of_nat (length footer)) = (Ok io :: u64 io_result)"
    using fin ret hw kf by (auto simp: file_finish_def r_bind_Ok_iff Let_def split: if_splits)
  let ?tr = "file_trailer io (word_of_nat (length ?ix)) ko kl (crc ?ix)"
  have op: "op = file_op w [Owned] (footer @ ?ix @ ?tr) [] CommitFooter"
    using fin ret hw kf io by (auto simp: file_finish_def r_bind_Ok_iff Let_def file_trailer_def split: if_splits)
  have off: "unat (fw_offset w) = length f" using inv by (simp add: file_inv_def)
  have b: "plan_bytes op [Owned] = footer @ ?ix @ ?tr" unfolding op by (simp add: file_op_def)
  have q: "fo_bytes op = footer @ ?ix @ ?tr" unfolding op by (simp add: file_op_def)
  have ok: "fo_ok op" "fo_queue op = footer @ ?ix @ ?tr"
    using file_op_ok [of w "[Owned]" "footer @ ?ix @ ?tr" "[]" CommitFooter] inv b fit off q
    unfolding op by (simp_all add: file_inv_def)
  have out: "out = footer @ ?ix @ ?tr" using completes_queue(1) [OF ok(1) c] ok(2) by simp
  have fin': "fw_finished w'" using completes_queue(2) [OF ok(1) c] unfolding op by (simp add: file_op_def apply_commit_def)
  have part: "kv_part (length f) kv ko kl footer" using kv_footer_part [OF kf kv] off by simp
  have lf: "length f + length footer < 2 ^ 64" using fit q by simp
  have "io = word_of_nat (length f + length footer)"
  proof -
    have "unat (word_of_nat (length footer) :: u64) = length footer" using lf by (simp add: unat_of_nat take_bit_eq_mod)
    then have "unat io = length f + length footer" using plain_add_value [OF io] off by simp
    then show ?thesis using lf by (simp add: word_unat_eq_iff unat_of_nat take_bit_eq_mod del: of_nat_add)
  qed
  moreover have "64 \<le> length f" "take 64 f = header_bytes o'" "8 dvd length f" "validate_options o' = Ok ()"
    "index_ok (fw_entries w)" using inv hw by (simp_all add: file_inv_def)
  ultimately have "sealed crc o' (f @ out) (sorted_entries w) kv"
    using kv(1) fit q out part kv_part_length [OF _ part] index_ok_sorted unfolding sealed_def
    by (intro conjI exI [of _ f] exI [of _ footer] exI [of _ ko] exI [of _ kl]) simp_all
  moreover have "list_all2 (describes (unat (fo_data_buffer_alignment o')) (f @ out)) (fw_entries w) its"
    using inv by (simp add: file_inv_def describes_all_append)
  moreover have "sort_key ie_descriptor_offset (sorted_entries w) = fw_entries w"
    using inv by (intro sort_by_offset) (simp_all add: file_inv_def sorted_entries_def)
  ultimately show ?thesis using fin' describes_names by simp
qed

end
