(* ===== verification/File_Delivery.thy ===== *)
theory File_Delivery
  imports File_Read File_Sealed
begin

text \<open>
  What a driver gets from the sans-io file reader on a file it can read at any position: whatever the chunks,
  the core gets to the same point. \<open>on_way\<close> says that from a core that has been served some of what it
  asked for, only successful handlers lead to a given core. With it a sealed file opens with its index and
  metadata, and each tensor that the index describes is read back.
\<close>

section \<open>Serving a range\<close>

inductive serves ::
  "(bytes \<Rightarrow> u32) \<Rightarrow> destination_alloc \<Rightarrow> bytes \<Rightarrow> file_reader_core \<Rightarrow> file_reader_core \<Rightarrow> bool"
  for crc alloc f where
  chunk: "file_reader_step crc alloc c = (c1, Ok (StepRange off len)) \<Longrightarrow> 0 < n \<Longrightarrow> n \<le> len \<Longrightarrow> unat off + n \<le> length f \<Longrightarrow>
    file_report_filled n (file_fill (take n (drop (unat off) f)) c1) = (c2, Ok ()) \<Longrightarrow> serves crc alloc f c c2"

inductive_cases servesE: "serves crc alloc f c c2"

definition fr_buffer :: "file_reader_core \<Rightarrow> bytes option" where
  "fr_buffer c =
     (case fr_state c of AtFileBuffer _ \<Rightarrow> Option.bind (fr_pending c) fp_dest | _ \<Rightarrow> Some (fr_staging c))"

definition put_buffer :: "bytes \<Rightarrow> file_reader_core \<Rightarrow> file_reader_core" where
  "put_buffer bs c =
     (case fr_state c of
        AtFileBuffer _ \<Rightarrow> c\<lparr>fr_pending := map_option (\<lambda>p. p\<lparr>fp_dest := Some bs\<rparr>) (fr_pending c)\<rparr>
      | _ \<Rightarrow> c\<lparr>fr_staging := bs\<rparr>)"

definition slice :: "bytes \<Rightarrow> nat \<Rightarrow> nat \<Rightarrow> bytes" where
  "slice f off len = take len (drop off f)"

definition asks :: "bytes \<Rightarrow> nat \<Rightarrow> nat \<Rightarrow> file_reader_core \<Rightarrow> bool" where
  "asks f off len c \<longleftrightarrow>
     filling (fr_state c) \<and> fr_target c = len \<and> fr_filled c \<le> len \<and> fr_cursor c = word_of_nat (off + fr_filled c) \<and>
     off + len \<le> length f \<and> length f < 2 ^ 64 \<and>
     (\<exists>dst. fr_buffer c = Some dst \<and> length dst = len \<and> take (fr_filled c) dst = take (fr_filled c) (slice f off len))"

text \<open>The core when all of the range is there.\<close>

definition served :: "bytes \<Rightarrow> nat \<Rightarrow> nat \<Rightarrow> file_reader_core \<Rightarrow> file_reader_core" where
  "served f off len c = (put_buffer (slice f off len) c)\<lparr>fr_filled := len, fr_cursor := word_of_nat (off + len)\<rparr>"

lemma length_slice [simp]: "off + len \<le> length f \<Longrightarrow> length (slice f off len) = len"
  by (simp add: slice_def)

lemma put_buffer_simps [simp]:
  "fr_state (put_buffer bs c) = fr_state c" "fr_target (put_buffer bs c) = fr_target c"
  "fr_filled (put_buffer bs c) = fr_filled c" "fr_cursor (put_buffer bs c) = fr_cursor c"
  "put_buffer bs (c\<lparr>fr_filled := n\<rparr>) = (put_buffer bs c)\<lparr>fr_filled := n\<rparr>"
  "put_buffer bs (c\<lparr>fr_cursor := x\<rparr>) = (put_buffer bs c)\<lparr>fr_cursor := x\<rparr>"
  by (simp_all add: put_buffer_def split: file_state.split)

lemma put_buffer_twice [simp]: "put_buffer bs (put_buffer bs' c) = put_buffer bs c"
  by (auto simp: put_buffer_def option.map_comp comp_def split: file_state.splits)

lemma fr_buffer_put: "fr_buffer c \<noteq> None \<Longrightarrow> fr_buffer (put_buffer bs c) = Some bs"
  by (cases "fr_pending c") (auto simp: fr_buffer_def put_buffer_def split: file_state.splits)

lemma fr_buffer_update [simp]:
  "fr_buffer (c\<lparr>fr_filled := n\<rparr>) = fr_buffer c" "fr_buffer (c\<lparr>fr_cursor := x\<rparr>) = fr_buffer c"
  by (simp_all add: fr_buffer_def split: file_state.split)

lemma put_same_buffer: "fr_buffer c = Some bs \<Longrightarrow> put_buffer bs c = c"
proof (cases "fr_state c")
  case (AtFileBuffer i)
  assume b: "fr_buffer c = Some bs"
  then obtain p where p: "fr_pending c = Some p" "fp_dest p = Some bs"
    using AtFileBuffer by (auto simp: fr_buffer_def bind_eq_Some_conv)
  then have "p\<lparr>fp_dest := Some bs\<rparr> = p" by simp
  then have "put_buffer bs c = c\<lparr>fr_pending := fr_pending c\<rparr>" using AtFileBuffer p(1) by (simp add: put_buffer_def)
  then show ?thesis by simp
qed (auto simp: put_buffer_def fr_buffer_def)

lemma file_fill_put:
  "filling (fr_state c) \<Longrightarrow> fr_buffer c = Some dst \<Longrightarrow> file_fill bs c = put_buffer (store_at (fr_filled c) bs dst) c"
  by (cases "fr_state c"; cases "fr_pending c") (simp_all add: file_fill_def put_buffer_def fr_buffer_def filling_def)

lemma served_full: "asks f off len c \<Longrightarrow> fr_filled c = len \<Longrightarrow> served f off len c = c"
  by (cases c) (auto simp: asks_def served_def put_same_buffer)

lemma asks_chunk:
  assumes a: "asks f off len c" and n: "0 < n" "n \<le> len - fr_filled c"
  shows "\<exists>c2. file_report_filled n (file_fill (take n (drop (unat (fr_cursor c)) f)) c) = (c2, Ok ()) \<and>
    asks f off len c2 \<and> served f off len c2 = served f off len c \<and> fr_filled c2 = fr_filled c + n"
proof -
  let ?k = "fr_filled c" and ?s = "slice f off len"
  obtain dst where d: "fr_buffer c = Some dst" "length dst = len" "take ?k dst = take ?k ?s"
    using a by (auto simp: asks_def)
  have b: "filling (fr_state c)" "fr_target c = len" "?k \<le> len" "fr_cursor c = word_of_nat (off + ?k)" "off + len \<le> length f"
    "length f < 2 ^ 64" using a by (simp_all add: asks_def)
  have cur: "unat (word_of_nat (off + ?k) :: u64) = off + ?k"
    using b(3,5,6) by (simp add: unat_of_nat take_bit_eq_mod del: of_nat_add)
  let ?bs = "take n (drop (off + ?k) f)"
  have bs: "?bs = take n (drop ?k ?s)" using n b(3) by (simp add: slice_def drop_take add.commute)
  let ?d = "store_at ?k ?bs dst"
  have st: "take (?k + n) ?d = take (?k + n) ?s" "length ?d = len"
    using store_chunk [OF d(3) _ _ bs] n b(3,5) d(2) by simp_all
  have nw: "unat (word_of_nat n :: u64) = n" using n b(5,6) by (simp add: unat_of_nat take_bit_eq_mod)
  have add: "plain_add (word_of_nat (off + ?k)) (word_of_nat n) = (Ok (word_of_nat (off + (?k + n))) :: u64 io_result)"
    using cur nw n b(5,6) by (simp add: plain_add_def checked_add_def add.assoc)
  let ?c = "(put_buffer ?d c)\<lparr>fr_filled := ?k + n, fr_cursor := word_of_nat (off + (?k + n))\<rparr>"
  have "file_report_filled n (file_fill ?bs c) = (?c, Ok ())"
    using b n add file_fill_put [OF b(1) d(1)] by (auto simp: file_report_filled_def Let_def filling_def)
  moreover have "asks f off len ?c" using b n st d(1) by (simp add: asks_def fr_buffer_put)
  moreover have "served f off len ?c = served f off len c"
    by (cases "put_buffer ?s c") (simp add: served_def)
  ultimately show ?thesis unfolding b(4) cur by (intro exI [of _ ?c]) simp
qed

definition at_request :: "bytes \<Rightarrow> file_reader_core \<Rightarrow> file_reader_core \<Rightarrow> bool" where
  "at_request f c k \<longleftrightarrow> (\<exists>off len. asks f off len c \<and> k = served f off len c)"

section \<open>Runs\<close>

inductive leads ::
  "(bytes \<Rightarrow> u32) \<Rightarrow> destination_alloc \<Rightarrow> bytes \<Rightarrow> file_reader_core \<Rightarrow> file_reader_core \<Rightarrow> bool"
  for crc alloc f where
  final: "file_advance crc alloc k = (c, Ok ()) \<Longrightarrow> \<not> filling (fr_state c) \<Longrightarrow> fr_state c \<noteq> AtFailed \<Longrightarrow> leads crc alloc f k c"
| more: "file_advance crc alloc k = (c1, Ok ()) \<Longrightarrow> at_request f c1 k1 \<Longrightarrow> leads crc alloc f k1 c \<Longrightarrow> leads crc alloc f k c"

definition on_way ::
  "(bytes \<Rightarrow> u32) \<Rightarrow> destination_alloc \<Rightarrow> bytes \<Rightarrow> file_reader_core \<Rightarrow> file_reader_core \<Rightarrow> bool" where
  "on_way crc alloc f c r \<longleftrightarrow> (\<exists>k. at_request f c k \<and> leads crc alloc f k r)"

text \<open>The reply to a driver of a core that waits for nothing.\<close>

definition reply_of :: "file_reader_core \<Rightarrow> file_step" where
  "reply_of c =
     (case fr_state c of
        AtDone DoneDescriptor \<Rightarrow> StepDescriptor
      | AtDone DoneTensor \<Rightarrow> StepFileTensor
      | AtDone DoneComposite \<Rightarrow> StepComposite
      | _ \<Rightarrow> StepReady)"

lemma step_partial:
  "filling (fr_state c) \<Longrightarrow> fr_filled c < fr_target c \<Longrightarrow>
   file_reader_step crc alloc c = (c, Ok (StepRange (fr_cursor c) (fr_target c - fr_filled c)))"
  by (subst file_reader_step.simps) (auto simp: filling_def split: file_state.splits)

lemma step_full:
  "filling (fr_state c) \<Longrightarrow> \<not> fr_filled c < fr_target c \<Longrightarrow> file_advance crc alloc c = (c', Ok ()) \<Longrightarrow>
   file_reader_step crc alloc c = file_reader_step crc alloc c'"
  by (subst file_reader_step.simps) (auto simp: filling_def split: file_state.splits)

lemma step_final:
  "\<not> filling (fr_state c) \<Longrightarrow> fr_state c \<noteq> AtFailed \<Longrightarrow> file_reader_step crc alloc c = (c, Ok (reply_of c))"
  by (subst file_reader_step.simps) (auto simp: filling_def reply_of_def split: file_state.splits file_done.splits)

lemma leads_final: "leads crc alloc f k r \<Longrightarrow> \<not> filling (fr_state r) \<and> fr_state r \<noteq> AtFailed"
  by (induction rule: leads.induct) auto

text \<open>Asked for its next step, such a core is at its end or asks for a range within the file.\<close>

lemma step_leads:
  "leads crc alloc f k r \<Longrightarrow> at_request f c k \<Longrightarrow>
   file_reader_step crc alloc c = (r, Ok (reply_of r)) \<or>
   (\<exists>c' off len. file_reader_step crc alloc c = (c', Ok (StepRange (fr_cursor c') (fr_target c' - fr_filled c'))) \<and>
      asks f off len c' \<and> fr_filled c' < len \<and> leads crc alloc f (served f off len c') r)"
proof (induction arbitrary: c rule: leads.induct)
  case (final k r)
  then obtain off len where a: "asks f off len c" "k = served f off len c" by (auto simp: at_request_def)
  show ?case
  proof (cases "fr_filled c < len")
    case True
    then show ?thesis
      using a step_partial [of c] leads.final [OF final.hyps] by (auto simp: asks_def)
  next
    case False
    then have "fr_filled c = len" using a by (simp add: asks_def)
    then have "k = c" using a served_full by simp
    then show ?thesis
      using final.hyps step_full [of c crc alloc r] step_final [of r] a \<open>fr_filled c = len\<close> by (auto simp: asks_def)
  qed
next
  case (more k c1 k1 r)
  then obtain off len where a: "asks f off len c" "k = served f off len c" by (auto simp: at_request_def)
  show ?case
  proof (cases "fr_filled c < len")
    case True
    then show ?thesis
      using a step_partial [of c] leads.more [OF more.hyps] by (auto simp: asks_def)
  next
    case False
    then have l: "fr_filled c = len" using a by (simp add: asks_def)
    then have "k = c" using a served_full by simp
    then show ?thesis
      using more step_full [of c crc alloc c1] a l by (simp add: asks_def)
  qed
qed

lemma step_on_way:
  assumes "on_way crc alloc f c r"
  obtains (over) "file_reader_step crc alloc c = (r, Ok (reply_of r))"
    | (range) c' off len where "file_reader_step crc alloc c = (c', Ok (StepRange (fr_cursor c') (fr_target c' - fr_filled c')))"
      "asks f off len c'" "fr_filled c' < len" "leads crc alloc f (served f off len c') r"
  using assms step_leads unfolding on_way_def by metis

lemma serves_on_way:
  assumes w: "on_way crc alloc f c r" and s: "serves crc alloc f c c2"
  shows "on_way crc alloc f c2 r"
  using w
proof (cases rule: step_on_way)
  case over
  moreover have "StepRange off len \<noteq> reply_of r" for off len
    by (simp add: reply_of_def split: file_state.splits file_done.splits)
  ultimately show ?thesis using s by (auto elim!: servesE)
next
  case (range c' off len)
  then obtain n where n: "0 < n" "n \<le> fr_target c' - fr_filled c'"
    "file_report_filled n (file_fill (take n (drop (unat (fr_cursor c')) f)) c') = (c2, Ok ())"
    using s by (auto elim!: servesE)
  have "fr_target c' = len" using range(2) by (simp add: asks_def)
  then show ?thesis
    using asks_chunk [OF range(2) n(1)] n(2,3) range(4) unfolding on_way_def at_request_def by (metis prod.inject)
qed

lemma serves_star_on_way:
  "(serves crc alloc f)\<^sup>*\<^sup>* c c2 \<Longrightarrow> on_way crc alloc f c r \<Longrightarrow> on_way crc alloc f c2 r"
  by (induction rule: rtranclp_induct) (auto intro: serves_on_way)

text \<open>Serving each range whole gets to the end.\<close>

lemma range_served:
  assumes step: "file_reader_step crc alloc c = (c', Ok (StepRange (fr_cursor c') (fr_target c' - fr_filled c')))"
    and a: "asks f off len c'" "fr_filled c' < len"
  shows "serves crc alloc f c (served f off len c')"
proof -
  let ?n = "len - fr_filled c'"
  obtain c2 where c2: "file_report_filled ?n (file_fill (take ?n (drop (unat (fr_cursor c')) f)) c') = (c2, Ok ())"
    "asks f off len c2" "served f off len c2 = served f off len c'" "fr_filled c2 = len"
    using asks_chunk [OF a(1), of ?n] a(2) by auto
  then have "c2 = served f off len c'" using served_full by metis
  moreover have "unat (fr_cursor c') + ?n \<le> length f" "fr_target c' = len"
    using a by (simp_all add: asks_def unat_of_nat take_bit_eq_mod del: of_nat_add)
  moreover have "0 < ?n" "?n \<le> fr_target c' - fr_filled c'" using a(2) \<open>fr_target c' = len\<close> by simp_all
  ultimately show ?thesis using serves.chunk [OF step] c2(1) by metis
qed

lemma served_star:
  assumes "asks f off len c"
  shows "(serves crc alloc f)\<^sup>*\<^sup>* c (served f off len c)"
proof (cases "fr_filled c < len")
  case True
  then have "file_reader_step crc alloc c = (c, Ok (StepRange (fr_cursor c) (fr_target c - fr_filled c)))"
    using assms by (intro step_partial) (auto simp: asks_def)
  then show ?thesis using range_served [OF _ assms True] by blast
next
  case False
  then show ?thesis using assms served_full [OF assms] by (simp add: asks_def)
qed

lemma served_request: "asks f off len c \<Longrightarrow> at_request f (served f off len c) (served f off len c)"
  unfolding at_request_def by (rule exI [of _ off], rule exI [of _ len])
    (auto simp: asks_def served_def fr_buffer_put)

lemma leads_reached:
  "leads crc alloc f k r \<Longrightarrow> at_request f c k \<Longrightarrow>
   \<exists>c2. (serves crc alloc f)\<^sup>*\<^sup>* c c2 \<and> file_reader_step crc alloc c2 = (r, Ok (reply_of r))"
proof (induction arbitrary: c rule: leads.induct)
  case (final k r)
  then obtain off len where a: "asks f off len c" "k = served f off len c" by (auto simp: at_request_def)
  have k: "(serves crc alloc f)\<^sup>*\<^sup>* c k" "filling (fr_state k)" "\<not> fr_filled k < fr_target k"
    using served_star [OF a(1)] a by (auto simp: asks_def served_def)
  then show ?case using final.hyps step_full [OF k(2,3)] step_final [of r] by (intro exI [of _ k]) simp
next
  case (more k c1 k1 r)
  then obtain off len where a: "asks f off len c" "k = served f off len c" by (auto simp: at_request_def)
  have k: "(serves crc alloc f)\<^sup>*\<^sup>* c k" "filling (fr_state k)" "\<not> fr_filled k < fr_target k"
    using served_star [OF a(1)] a by (auto simp: asks_def served_def)
  obtain c2 where c2: "(serves crc alloc f)\<^sup>*\<^sup>* c1 c2" "file_reader_step crc alloc c2 = (r, Ok (reply_of r))"
    using more by blast
  have "file_reader_step crc alloc k = file_reader_step crc alloc c1" using step_full [OF k(2,3)] more.hyps(1) by simp
  then have "serves crc alloc f k x \<longleftrightarrow> serves crc alloc f c1 x" for x unfolding serves.simps by simp
  then have "c2 = c1 \<or> (serves crc alloc f)\<^sup>*\<^sup>* k c2" using c2(1) by (metis converse_rtranclpE converse_rtranclp_into_rtranclp)
  then show ?case
    using c2(2) k(1) \<open>file_reader_step crc alloc k = file_reader_step crc alloc c1\<close> by (metis rtranclp_trans)
qed

lemma on_way_reached:
  assumes "on_way crc alloc f c r"
  shows "\<exists>c2. (serves crc alloc f)\<^sup>*\<^sup>* c c2 \<and> file_reader_step crc alloc c2 = (r, Ok (reply_of r))"
  using assms leads_reached unfolding on_way_def by metis

section \<open>Opening a sealed file\<close>

definition leads_to ::
  "(bytes \<Rightarrow> u32) \<Rightarrow> destination_alloc \<Rightarrow> bytes \<Rightarrow> file_reader_core \<Rightarrow> (file_reader_core \<Rightarrow> bool) \<Rightarrow> bool" where
  "leads_to crc alloc f k P \<longleftrightarrow> (\<exists>r. leads crc alloc f k r \<and> P r)"

lemma leads_to_more:
  "file_advance crc alloc k = (c1, Ok ()) \<Longrightarrow> asks f off len c1 \<Longrightarrow> leads_to crc alloc f (served f off len c1) P \<Longrightarrow>
   leads_to crc alloc f k P"
  unfolding leads_to_def at_request_def by (meson leads.more at_request_def)

lemma leads_to_final:
  "file_advance crc alloc k = (c1, Ok ()) \<Longrightarrow> \<not> filling (fr_state c1) \<Longrightarrow> fr_state c1 \<noteq> AtFailed \<Longrightarrow> P c1 \<Longrightarrow>
   leads_to crc alloc f k P"
  unfolding leads_to_def by (meson leads.final)

lemma asks_request:
  assumes "off + len \<le> length f" "length f < 2 ^ 64" "filling st" "\<forall>i. st \<noteq> AtFileBuffer i"
  shows "asks f off len (c\<lparr>fr_cursor := word_of_nat off, fr_target := len, fr_filled := 0, fr_staging := replicate len 0, fr_state := st\<rparr>)"
  using assms by (cases st) (simp_all add: asks_def fr_buffer_def)

lemma served_request_simps:
  assumes "\<forall>i. st \<noteq> AtFileBuffer i"
  shows "served f off len (c\<lparr>fr_cursor := x, fr_target := len, fr_filled := 0, fr_staging := s, fr_state := st\<rparr>) =
    c\<lparr>fr_cursor := word_of_nat (off + len), fr_target := len, fr_filled := len, fr_staging := slice f off len, fr_state := st\<rparr>"
  using assms by (cases st; cases c) (simp_all add: served_def put_buffer_def)

lemma get_le_field:
  "off = length pre \<Longrightarrow> get_le (pre @ to_le_bytes (w :: u32) @ post) off = Ok w"
  "off = length pre \<Longrightarrow> get_le (pre @ to_le_bytes (z :: u64) @ post) off = Ok z"
  by (simp_all add: get_le_Ok from_to_le_bytes_words)

definition header_flags :: "file_writer_options \<Rightarrow> u32" where
  "header_flags o' = (if fo_sorted_index o' then HAS_INDEX_CRC32C OR SORTED_INDEX else HAS_INDEX_CRC32C)"

lemma header_flags_bits:
  "header_flags o' AND FILE_RESERVED_MASK = 0" "header_flags o' AND HAS_INDEX_CRC32C \<noteq> 0" "header_flags o' AND HAS_KV_METADATA = 0"
  by (simp_all add: header_flags_def FILE_RESERVED_MASK_def HAS_INDEX_CRC32C_def SORTED_INDEX_def HAS_KV_METADATA_def)

lemma ucast_u32_u64_u32 [simp]: "ucast (ucast x :: u64) = x" for x :: u32
  by transfer simp

lemma header_fields:
  "slice_at (header_bytes o') 0 8 = Ok FILE_MAGIC" "index_at (header_bytes o') 8 = Ok 1"
  "get_le (header_bytes o') 12 = Ok (header_flags o')" "get_le (header_bytes o') 16 = Ok (fo_data_buffer_alignment o')"
proof -
  let ?a = "FILE_MAGIC @ [1, 0] @ [0, 0]" and ?fl = "to_le_bytes (header_flags o')"
  let ?al = "to_le_bytes (fo_data_buffer_alignment o')"
  obtain rest where h: "header_bytes o' = ?a @ ?fl @ ?al @ rest"
    by (simp add: header_bytes_def fw_encode_header_def fw_build_def header_flags_def Let_def)
  have l: "length ?a = 12" by (simp add: FILE_MAGIC_def)
  show "slice_at (header_bytes o') 0 8 = Ok FILE_MAGIC" "index_at (header_bytes o') 8 = Ok 1"
    unfolding h by (simp_all add: slice_at_def index_at_def FILE_MAGIC_def)
  show "get_le (header_bytes o') 12 = Ok (header_flags o')"
    unfolding h by (rule get_le_field(1) [of 12 ?a "header_flags o'"]) (simp add: FILE_MAGIC_def)
  show "get_le (header_bytes o') 16 = Ok (fo_data_buffer_alignment o')"
    using get_le_field(1) [of 16 "?a @ ?fl" "fo_data_buffer_alignment o'" rest] l unfolding h by (simp add: FILE_MAGIC_def)
qed

lemma finish_header_valid:
  assumes "fr_staging c = header_bytes o'" "validate_options o' = Ok ()" "104 \<le> unat (fr_size c)"
  shows "finish_header c = fr_request (fr_size c - 40) 40 AtTrailer
    (c\<lparr>fr_flags := header_flags o', fr_alignment := ucast (fo_data_buffer_alignment o')\<rparr>)"
proof -
  have "\<not> fr_size c < FILE_HEADER_SIZE + TRAILER_SIZE"
    using assms(3) by (simp add: FILE_HEADER_SIZE_def TRAILER_SIZE_def word_less_nat_alt)
  then show ?thesis
    using assms(1) header_flags_bits(1) valid_alignment(3,4) [OF assms(2)]
    by (simp add: finish_header_def fr_try_def header_fields SUPPORTED_CONTAINER_VERSION_MAJOR_def TRAILER_SIZE_def
        not_less [symmetric])
qed

lemma trailer_fields:
  fixes io il ko :: u64 and kl c :: u32
  defines "t \<equiv> file_trailer io il ko kl c"
  shows "slice_at t 36 4 = Ok TRAILER_MAGIC" "get_le t 0 = Ok io" "get_le t 8 = Ok il" "get_le t 16 = Ok ko"
    "get_le t 24 = Ok kl" "get_le t 28 = Ok c"
proof -
  note t = t_def [unfolded file_trailer_def]
  show "slice_at t 36 4 = Ok TRAILER_MAGIC" unfolding t by (simp add: slice_at_def TRAILER_MAGIC_def)
  show "get_le t 0 = Ok io" unfolding t by (rule get_le_field(2) [of 0 "[]", simplified])
  show "get_le t 8 = Ok il" unfolding t by (rule get_le_field(2)) simp
  show "get_le t 16 = Ok ko"
    unfolding t using get_le_field(2) [of 16 "to_le_bytes io @ to_le_bytes il" ko] by simp
  show "get_le t 24 = Ok kl"
    unfolding t using get_le_field(1) [of 24 "to_le_bytes io @ to_le_bytes il @ to_le_bytes ko" kl] by simp
  show "get_le t 28 = Ok c"
    unfolding t using get_le_field(1) [of 28 "to_le_bytes io @ to_le_bytes il @ to_le_bytes ko @ to_le_bytes kl" c] by simp
qed

lemma finish_trailer_valid:
  assumes "fr_staging c = file_trailer io il ko kl crc" "unat io + unat il < 2 ^ 64" "unat io + unat il \<le> unat (fr_size c - TRAILER_SIZE)"
  shows "finish_trailer c = fr_request io (unat il) AtIndex (c\<lparr>fr_stored_crc := crc, fr_kv_range := (ko, kl)\<rparr>)"
proof -
  have "checked_add io il = Some (io + il)" "io + il \<le> fr_size c - TRAILER_SIZE"
    using assms(2,3) by (simp_all add: checked_add_def word_le_nat_alt unat_word_ariths)
  then show ?thesis
    using assms(1) by (simp add: finish_trailer_def fr_try_def trailer_fields)
qed

definition opened :: "file_writer_options \<Rightarrow> index_entry list \<Rightarrow> (bytes \<times> kv_value) list \<Rightarrow> file_reader_core \<Rightarrow> bool" where
  "opened o' es kv c \<longleftrightarrow>
     fr_state c = AtReady \<and> fr_index c = es \<and> fr_kv c = kv \<and> fr_alignment c = ucast (fo_data_buffer_alignment o') \<and>
     fr_max_depth c = FILE_DEFAULT_MAX_COMPOSITE_DEPTH"

lemma kv_bytes_nonempty: "4 \<le> length (kv_bytes kv)"
  by (simp add: kv_bytes_def)

lemma length_entries_index: "length es \<le> length (encode_index_section es)"
proof (induction es)
  case (Cons e es)
  then show ?case using length_index_entry [of e] by (simp add: encode_index_section_def)
qed (simp add: encode_index_section_def)

text \<open>The index of a sealed file is read, then the key-value section when there is one.\<close>

lemma open_index:
  assumes kv: "kv_ok kv" "kv_part (length body) kv ko kl footer" and ix: "index_ok es" "length es < 2 ^ 64"
    and f: "f = body @ footer @ rest" "length f < 2 ^ 64" "0 < length body"
    and c: "fr_state c = AtIndex" "fr_staging c = encode_index_section es" "fr_stored_crc c = crc (encode_index_section es)"
      "fr_kv_range c = (ko, kl)" "fr_flags c = header_flags o'" "fr_kv c = []" "fr_max_depth c = FILE_DEFAULT_MAX_COMPOSITE_DEPTH"
      "fr_alignment c = ucast (fo_data_buffer_alignment o')"
  shows "leads_to crc alloc f c (opened o' es kv)"
proof -
  let ?c = "c\<lparr>fr_index := es\<rparr>"
  have p: "parse_index (encode_index_section es) = Ok es" using index_roundtrip [OF ix, of "[]"] by simp
  have adv: "file_advance crc alloc c =
      (if ko \<noteq> 0 \<and> kl \<noteq> 0 then fr_request ko (unat kl) AtKv ?c else (?c\<lparr>fr_state := AtReady\<rparr>, Ok ()))"
    using c p header_flags_bits [of o'] by (simp add: file_advance_def finish_index_def fr_try_def)
  show ?thesis
  proof (cases "kv = []")
    case True
    then have "file_advance crc alloc c = (?c\<lparr>fr_state := AtReady\<rparr>, Ok ())" using adv kv(2) by (simp add: kv_part_def)
    then show ?thesis by (rule leads_to_final) (use True c in \<open>simp_all add: filling_def opened_def\<close>)
  next
    case False
    let ?k = "kv_bytes kv"
    have k: "unat ko = length body" "unat kl = length ?k" "take (length ?k) footer = ?k" "length ?k \<le> length footer"
      using kv(2) False by (simp_all add: kv_part_def)
    have nz: "ko \<noteq> 0" "kl \<noteq> 0" using k(1,2) f(3) kv_bytes_nonempty [of kv] by auto
    have ko: "word_of_nat (length body) = ko" unfolding k(1) [symmetric] by simp
    have fit: "length body + length ?k \<le> length f" using k(4) f(1) by simp
    have sl: "slice f (length body) (length ?k) = ?k" using k(3,4) f(1) by (simp add: slice_def)
    let ?c1 = "?c\<lparr>fr_cursor := word_of_nat (length body), fr_target := length ?k, fr_filled := 0,
      fr_staging := replicate (length ?k) 0, fr_state := AtKv\<rparr>"
    have "file_advance crc alloc c = (?c1, Ok ())" using adv nz k(2) ko by (simp add: fr_request_def)
    moreover have "asks f (length body) (length ?k) ?c1" using fit f(2) by (intro asks_request) (simp_all add: filling_def)
    moreover have "leads_to crc alloc f (served f (length body) (length ?k) ?c1) (opened o' es kv)"
    proof -
      have "file_advance crc alloc (served f (length body) (length ?k) ?c1) =
          ((served f (length body) (length ?k) ?c1)\<lparr>fr_kv := kv, fr_state := AtReady\<rparr>, Ok ())"
        using kv_roundtrip [OF kv(1), of "[]"] sl
        by (simp add: served_request_simps file_advance_def finish_kv_def fr_try_def)
      then show ?thesis
        by (rule leads_to_final) (use c in \<open>simp_all add: filling_def opened_def served_request_simps\<close>)
    qed
    ultimately show ?thesis by (rule leads_to_more)
  qed
qed

lemma sealed_on_way:
  assumes s: "sealed crc o' f es kv"
  shows "\<exists>r. on_way crc alloc f (file_reader_new (word_of_nat (length f))) r \<and> opened o' es kv r"
proof -
  let ?ix = "encode_index_section es"
  obtain body footer ko kl where b:
    "f = body @ footer @ ?ix @ file_trailer (word_of_nat (length body + length footer)) (word_of_nat (length ?ix)) ko kl (crc ?ix)"
    "64 \<le> length body" "take 64 body = header_bytes o'" "kv_part (length body) kv ko kl footer"
    using s by (auto simp: sealed_def)
  have g: "validate_options o' = Ok ()" "length f < 2 ^ 64" "index_ok es" "kv_ok kv" using s by (simp_all add: sealed_def)
  let ?n = "length f" and ?p = "length body + length footer"
  have n: "?n = ?p + length ?ix + 40" unfolding b(1) by simp
  have u: "unat (word_of_nat ?n :: u64) = ?n" "unat (word_of_nat (length ?ix) :: u64) = length ?ix"
    "unat (word_of_nat ?p :: u64) = ?p"
    using g(2) n by (simp_all add: unat_of_nat take_bit_eq_mod del: of_nat_add)
  have c40: "word_of_nat ?n - 40 = (word_of_nat (?n - 40) :: u64)" using n by (simp add: of_nat_diff)
  have u40: "unat (word_of_nat ?n - 40 :: u64) = ?n - 40"
    using g(2) unfolding c40 by (simp add: unat_of_nat take_bit_eq_mod del: of_nat_add)
  define c0 where "c0 = file_reader_new (word_of_nat ?n)"
  have a0: "asks f 0 64 c0"
    using g(2) n b(2) by (simp add: c0_def file_reader_new_def asks_def filling_def fr_buffer_def FILE_HEADER_SIZE_def)
  define k0 where "k0 = served f 0 64 c0"
  have k0: "fr_state k0 = AtHeader" "fr_staging k0 = header_bytes o'" "fr_size k0 = word_of_nat ?n" "fr_kv k0 = []"
    "fr_max_depth k0 = FILE_DEFAULT_MAX_COMPOSITE_DEPTH"
    using b(2,3) by (simp_all add: k0_def c0_def file_reader_new_def served_def put_buffer_def slice_def b(1))
  define c1 where "c1 = (k0\<lparr>fr_flags := header_flags o', fr_alignment := ucast (fo_data_buffer_alignment o')\<rparr>)
    \<lparr>fr_cursor := word_of_nat (?n - 40), fr_target := 40, fr_filled := 0, fr_staging := replicate 40 0, fr_state := AtTrailer\<rparr>"
  have s0: "file_advance crc alloc k0 = (c1, Ok ())"
    using finish_header_valid [OF k0(2) g(1)] k0 u(1) n b(2) by (simp add: file_advance_def fr_request_def c1_def c40)
  have a1: "asks f (?n - 40) 40 c1" unfolding c1_def using n g(2) by (intro asks_request) (simp_all add: filling_def)
  define k1 where "k1 = served f (?n - 40) 40 c1"
  have k1: "fr_staging k1 = file_trailer (word_of_nat ?p) (word_of_nat (length ?ix)) ko kl (crc ?ix)" "fr_state k1 = AtTrailer"
    "fr_size k1 = word_of_nat ?n" "fr_flags k1 = header_flags o'" "fr_kv k1 = []" "fr_alignment k1 = ucast (fo_data_buffer_alignment o')"
    "fr_max_depth k1 = FILE_DEFAULT_MAX_COMPOSITE_DEPTH"
    using n k0 by (simp_all add: k1_def c1_def served_request_simps slice_def b(1))
  define c2 where "c2 = (k1\<lparr>fr_stored_crc := crc ?ix, fr_kv_range := (ko, kl)\<rparr>)
    \<lparr>fr_cursor := word_of_nat ?p, fr_target := length ?ix, fr_filled := 0, fr_staging := replicate (length ?ix) 0, fr_state := AtIndex\<rparr>"
  have s1: "file_advance crc alloc k1 = (c2, Ok ())"
    using finish_trailer_valid [OF k1(1)] u u40 k1(2,3) n g(2)
    by (simp add: file_advance_def fr_request_def c2_def TRAILER_SIZE_def del: of_nat_add)
  have a2: "asks f ?p (length ?ix) c2" unfolding c2_def using n g(2) by (intro asks_request) (simp_all add: filling_def)
  define k2 where "k2 = served f ?p (length ?ix) c2"
  have k2: "fr_state k2 = AtIndex" "fr_staging k2 = ?ix" "fr_stored_crc k2 = crc ?ix" "fr_kv_range k2 = (ko, kl)"
    "fr_flags k2 = header_flags o'" "fr_kv k2 = []" "fr_max_depth k2 = FILE_DEFAULT_MAX_COMPOSITE_DEPTH"
    "fr_alignment k2 = ucast (fo_data_buffer_alignment o')"
    using k1 by (simp_all add: k2_def c2_def served_request_simps slice_def b(1))
  have les: "length es < 2 ^ 64" using length_entries_index [of es] n g(2) by linarith
  have "leads_to crc alloc f k2 (opened o' es kv)"
    using b(2) by (intro open_index [where crc = crc, OF g(4) b(4) g(3) les b(1) g(2) _ k2]) linarith
  then have "leads_to crc alloc f k0 (opened o' es kv)"
    using leads_to_more [OF s0 a1] leads_to_more [OF s1 a2] by (simp add: k1_def k2_def)
  then show ?thesis using a0 unfolding on_way_def leads_to_def at_request_def c0_def k0_def by blast
qed

end
