(* ===== verification/File_Tensors.thy ===== *)
theory File_Tensors
  imports File_Delivery
begin

text \<open>
  Reading a tensor of a file by its name: on a file whose index leads to the descriptor and the buffers,
  the reader delivers them, whatever the chunks.
\<close>

section \<open>The buffers of a tensor\<close>

text \<open>A handler goes on to a reply that satisfies \<open>P\<close>, at once or after the range it asks for.\<close>

definition continues ::
  "(bytes \<Rightarrow> u32) \<Rightarrow> destination_alloc \<Rightarrow> bytes \<Rightarrow> file_reader_core \<Rightarrow> (file_reader_core \<Rightarrow> bool) \<Rightarrow> bool" where
  "continues crc alloc f c P \<longleftrightarrow>
     \<not> filling (fr_state c) \<and> fr_state c \<noteq> AtFailed \<and> P c \<or>
     (\<exists>off len. asks f off len c \<and> leads_to crc alloc f (served f off len c) P)"

lemma leads_continues:
  "file_advance crc alloc k = (c, Ok ()) \<Longrightarrow> continues crc alloc f c P \<Longrightarrow> leads_to crc alloc f k P"
  unfolding continues_def using leads_to_more leads_to_final by blast

lemma continues_on_way:
  assumes "continues crc alloc f c P"
  shows "\<exists>r. P r \<and> (on_way crc alloc f c r \<or> file_reader_step crc alloc c = (r, Ok (reply_of r)))"
  using assms step_final unfolding continues_def leads_to_def on_way_def at_request_def by blast

definition allocates :: "destination_alloc \<Rightarrow> tensor_descriptor \<Rightarrow> bool" where
  "allocates alloc d \<longleftrightarrow>
     (\<forall>i < length (buffers d).
        \<exists>dest. alloc \<lparr>dr_index = i, dr_byte_size = byte_size (buffers d ! i), dr_alignment = alignment (buffers d ! i)\<rparr> = Ok dest \<and>
          length dest = unat (byte_size (buffers d ! i)))"

text \<open>The core as it is while the buffers of a tensor are read: what changes of \<open>c\<close>.\<close>

definition buffering ::
  "u64 \<Rightarrow> usize \<Rightarrow> usize \<Rightarrow> file_state \<Rightarrow> file_pending \<Rightarrow> file_reader_core \<Rightarrow> file_reader_core" where
  "buffering x y z s p c = c\<lparr>fr_cursor := x, fr_target := y, fr_filled := z, fr_state := s, fr_pending := Some p\<rparr>"

lemma buffering_simps [simp]:
  "fr_pending (buffering x y z s p c) = Some p" "fr_cursor (buffering x y z s p c) = x"
  "fr_state (buffering x y z s p c) = s" "fr_alignment (buffering x y z s p c) = fr_alignment c"
  "fr_job (buffering x y z s p c) = fr_job c" "fr_walk (buffering x y z s p c) = fr_walk c"
  "buffering x y z s p (buffering x' y' z' s' p' c) = buffering x y z s p c"
  "(buffering x y z s p c)\<lparr>fr_pending := Some p'\<rparr> = buffering x y z s p' c"
  by (simp_all add: buffering_def)

definition completes_from ::
  "(bytes \<Rightarrow> u32) \<Rightarrow> destination_alloc \<Rightarrow> bytes \<Rightarrow> file_reader_core \<Rightarrow> bytes \<Rightarrow> tensor_descriptor \<Rightarrow> bytes list \<Rightarrow>
   (file_reader_core \<Rightarrow> bool) \<Rightarrow> bool" where
  "completes_from crc alloc f c name d bufs P \<longleftrightarrow>
     (\<forall>x y z s nx. \<exists>c1.
        file_complete_tensor
          (buffering x y z s \<lparr>fp_name = name, fp_descriptor = d, fp_buffers = bufs, fp_dest = None, fp_next_offset = nx\<rparr> c) =
          (c1, Ok ()) \<and> continues crc alloc f c1 P)"

lemma begin_buffer_asks:
  assumes a: "allocates alloc d" and i: "i < length (buffers d)" and sz: "length b = unat (byte_size (buffers d ! i))"
    and pos: "pos + length b \<le> length f" "length f < 2 ^ 64"
    and p: "fr_pending c = Some \<lparr>fp_name = name, fp_descriptor = d, fp_buffers = bs, fp_dest = None, fp_next_offset = word_of_nat pos\<rparr>"
  obtains dest where
    "file_begin_buffer alloc i c = (buffering (word_of_nat pos) (length b) 0 (AtFileBuffer i)
       \<lparr>fp_name = name, fp_descriptor = d, fp_buffers = bs, fp_dest = Some dest, fp_next_offset = word_of_nat pos\<rparr> c, Ok ())"
    "asks f pos (length b) (buffering (word_of_nat pos) (length b) 0 (AtFileBuffer i)
       \<lparr>fp_name = name, fp_descriptor = d, fp_buffers = bs, fp_dest = Some dest, fp_next_offset = word_of_nat pos\<rparr> c)"
proof -
  obtain dest where "alloc \<lparr>dr_index = i, dr_byte_size = byte_size (buffers d ! i), dr_alignment = alignment (buffers d ! i)\<rparr> = Ok dest"
    "length dest = unat (byte_size (buffers d ! i))" using a i by (auto simp: allocates_def)
  then show thesis
    using that [of dest] i sz pos p
    by (cases c) (simp_all add: file_begin_buffer_def pending_handle_def fr_some_def fr_try_def buffering_def asks_def filling_def
        fr_buffer_def)
qed

lemma served_buffering:
  "served f off len (buffering x y z (AtFileBuffer i) p c) =
   buffering (word_of_nat (off + len)) y len (AtFileBuffer i) (p\<lparr>fp_dest := Some (slice f off len)\<rparr>) c"
  by (cases c) (simp add: served_def put_buffer_def buffering_def)

lemma buffers_led:
  assumes a: "allocates alloc d" and sz: "list_all2 (\<lambda>h b. length b = unat (byte_size h)) (buffers d) bufs"
    and f: "length f < 2 ^ 64" and al: "0 < unat (fr_alignment c)"
    and fin: "completes_from crc alloc f c name d bufs P"
  shows "i < length bufs \<Longrightarrow> buffers_at (unat (fr_alignment c)) f pos (drop i bufs) \<Longrightarrow>
    leads_to crc alloc f
      (buffering (word_of_nat (pos + length (bufs ! i))) y z (AtFileBuffer i)
        \<lparr>fp_name = name, fp_descriptor = d, fp_buffers = take i bufs, fp_dest = Some (bufs ! i), fp_next_offset = nx\<rparr> c) P"
proof (induction "length bufs - i" arbitrary: i pos y z nx rule: less_induct)
  case less
  let ?al = "unat (fr_alignment c)" and ?e = "pos + length (bufs ! i)" and ?b' = "bufs ! Suc i"
  let ?k = "buffering (word_of_nat ?e) y z (AtFileBuffer i)
    \<lparr>fp_name = name, fp_descriptor = d, fp_buffers = take i bufs, fp_dest = Some (bufs ! i), fp_next_offset = nx\<rparr> c"
  have len: "length (buffers d) = length bufs" using sz by (simp add: list_all2_lengthD)
  have dr: "drop i bufs = bufs ! i # drop (Suc i) bufs" using less.prems(1) by (simp add: Cons_nth_drop_Suc)
  have at: "?e \<le> length f" "drop (Suc i) bufs \<noteq> [] \<Longrightarrow> buffers_at ?al f (align_nat ?al ?e) (drop (Suc i) bufs)"
    using less.prems(2) unfolding dr by simp_all
  have tk: "take i bufs @ [bufs ! i] = take (Suc i) bufs" using less.prems(1) by (simp add: take_Suc_conv_app_nth)
  show ?case
  proof (cases "Suc i < length bufs")
    case False
    then have "take (Suc i) bufs = bufs" by simp
    moreover obtain c1 where "file_complete_tensor (buffering (word_of_nat ?e) y z (AtFileBuffer i)
        \<lparr>fp_name = name, fp_descriptor = d, fp_buffers = bufs, fp_dest = None, fp_next_offset = nx\<rparr> c) = (c1, Ok ())"
      "continues crc alloc f c1 P" using fin unfolding completes_from_def by blast
    ultimately show ?thesis
      using False tk len
      by (intro leads_continues) (simp_all add: file_advance_def file_finish_buffer_def fr_some_def Let_def)
  next
    case True
    let ?n = "align_nat ?al ?e"
    have dr': "drop (Suc i) bufs = ?b' # drop (Suc (Suc i)) bufs" using True by (simp add: Cons_nth_drop_Suc)
    have at': "buffers_at ?al f ?n (drop (Suc i) bufs)" using at(2) True by simp
    then have n: "?n + length ?b' \<le> length f" "take (length ?b') (drop ?n f) = ?b'" unfolding dr' by simp_all
    have ue: "unat (word_of_nat ?e :: u64) = ?e" using at(1) f by (simp add: unat_of_nat take_bit_eq_mod del: of_nat_add)
    have al': "align_up (word_of_nat ?e) (fr_alignment c) = Ok (word_of_nat ?n)"
      using align_up_eq [of "fr_alignment c" "word_of_nat ?e"] al ue n(1) f by (simp add: word_less_nat_alt del: of_nat_add)
    have sz': "length ?b' = unat (byte_size (buffers d ! Suc i))" using sz True len by (simp add: list_all2_conv_all_nth)
    let ?c = "buffering (word_of_nat ?e) y z (AtFileBuffer i)
      \<lparr>fp_name = name, fp_descriptor = d, fp_buffers = take (Suc i) bufs, fp_dest = None, fp_next_offset = word_of_nat ?n\<rparr> c"
    obtain dest where dest: "file_begin_buffer alloc (Suc i) ?c = (buffering (word_of_nat ?n) (length ?b') 0 (AtFileBuffer (Suc i))
       \<lparr>fp_name = name, fp_descriptor = d, fp_buffers = take (Suc i) bufs, fp_dest = Some dest, fp_next_offset = word_of_nat ?n\<rparr> ?c, Ok ())"
      "asks f ?n (length ?b') (buffering (word_of_nat ?n) (length ?b') 0 (AtFileBuffer (Suc i))
       \<lparr>fp_name = name, fp_descriptor = d, fp_buffers = take (Suc i) bufs, fp_dest = Some dest, fp_next_offset = word_of_nat ?n\<rparr> ?c)"
      using begin_buffer_asks [OF a _ sz' n(1) f, of ?c name "take (Suc i) bufs"] True len by auto
    have "file_advance crc alloc ?k = file_begin_buffer alloc (Suc i) ?c"
      using True len tk al' by (simp add: file_advance_def file_finish_buffer_def fr_some_def fr_try_def Let_def)
    then show ?thesis
    proof (rule leads_to_more [OF trans [OF _ dest(1)] dest(2)])
      show "leads_to crc alloc f (served f ?n (length ?b') (buffering (word_of_nat ?n) (length ?b') 0 (AtFileBuffer (Suc i))
         \<lparr>fp_name = name, fp_descriptor = d, fp_buffers = take (Suc i) bufs, fp_dest = Some dest, fp_next_offset = word_of_nat ?n\<rparr> ?c)) P"
        unfolding served_buffering using less.hyps [OF _ True at'] True n(2) by (simp add: slice_def)
    qed
  qed
qed

section \<open>One tensor\<close>

definition readable_entry :: "destination_alloc \<Rightarrow> nat \<Rightarrow> bytes \<Rightarrow> index_entry \<Rightarrow> written_tensor \<Rightarrow> bool" where
  "readable_entry alloc al f e it \<longleftrightarrow> describes al f e it \<and> allocates alloc (fst (snd it)) \<and> length f < 2 ^ 64"

text \<open>After the descriptor of an entry, the buffers.\<close>

lemma begin_buffers_continues:
  assumes e: "readable_entry alloc (unat (fr_alignment c)) f e (name, d, bufs)"
    and c: "fr_entry_name c = name" "fr_entry_data_offset c = ie_data_offset e" "0 < unat (fr_alignment c)"
    and fin: "completes_from crc alloc f (c\<lparr>fr_entry_name := []\<rparr>) name d bufs P"
  shows "\<exists>c1. begin_buffers alloc d c = (c1, Ok ()) \<and> continues crc alloc f c1 P"
proof -
  let ?c = "c\<lparr>fr_entry_name := []\<rparr>" and ?al = "unat (fr_alignment c)" and ?pos = "unat (ie_data_offset e)"
  let ?p = "\<lparr>fp_name = name, fp_descriptor = d, fp_buffers = [], fp_dest = None, fp_next_offset = ie_data_offset e\<rparr>"
  let ?s = "buffering (fr_cursor c) (fr_target c) (fr_filled c) (fr_state c) ?p ?c"
  have d: "length bufs = length (buffers d)" "list_all2 (\<lambda>h b. length b = unat (byte_size h)) (buffers d) bufs"
    "buffers_at ?al f ?pos bufs" "length f < 2 ^ 64" "allocates alloc d"
    using e by (auto simp: readable_entry_def describes_def)
  have s: "c\<lparr>fr_pending := Some ?p, fr_entry_name := []\<rparr> = ?s" by (cases c) (simp add: buffering_def)
  show ?thesis
  proof (cases bufs)
    case Nil
    then have "begin_buffers alloc d c = file_complete_tensor ?s"
      using d(1) s c by (simp add: begin_buffers_def)
    then show ?thesis using fin Nil unfolding completes_from_def by metis
  next
    case (Cons b bs)
    have b: "?pos + length b \<le> length f" "take (length b) (drop ?pos f) = b" "b = bufs ! 0" using d(3) Cons by simp_all
    have sz: "length b = unat (byte_size (buffers d ! 0))" using d(2) Cons by (auto simp: list_all2_Cons2)
    have "0 < length (buffers d)" unfolding d(1) [symmetric] Cons by simp
    from begin_buffer_asks [OF d(5) this sz b(1) d(4), of ?s name "[]"] obtain dest where
      dest: "file_begin_buffer alloc 0 ?s = (buffering (ie_data_offset e) (length b) 0 (AtFileBuffer 0) (?p\<lparr>fp_dest := Some dest\<rparr>) ?s, Ok ())"
      "asks f ?pos (length b) (buffering (ie_data_offset e) (length b) 0 (AtFileBuffer 0) (?p\<lparr>fp_dest := Some dest\<rparr>) ?s)"
      by auto
    have "buffers d \<noteq> []" using d(1) Cons by auto
    then have "begin_buffers alloc d c = file_begin_buffer alloc 0 ?s" using s c by (simp add: begin_buffers_def Let_def)
    moreover have "leads_to crc alloc f (served f ?pos (length b)
        (buffering (ie_data_offset e) (length b) 0 (AtFileBuffer 0) (?p\<lparr>fp_dest := Some dest\<rparr>) ?s)) P"
    proof -
      have al: "0 < unat (fr_alignment ?c)" using c(3) by simp
      have "buffers_at (unat (fr_alignment ?c)) f ?pos (drop 0 bufs)" "0 < length bufs" using d(3) Cons by simp_all
      note led = buffers_led [OF d(5,2,4) al fin this(2,1), of "length b" "length b" "ie_data_offset e"]
      have "slice f ?pos (length b) = b" using b(2) by (simp add: slice_def)
      then show ?thesis using led b(3) unfolding served_buffering by simp
    qed
    ultimately show ?thesis using dest unfolding continues_def by metis
  qed
qed

text \<open>An entry of the index is found by its name.\<close>

lemma find_entry:
  assumes "index_ok es" "e \<in> set es"
  shows "find (\<lambda>x. ie_name x = ie_name e) es = Some e"
proof -
  have "distinct (map ie_name es)" using assms(1) by (simp add: index_ok_def)
  then show ?thesis
    using assms(2) by (induction es) (auto simp: image_iff)
qed

lemma start_descriptor_continues:
  assumes e: "readable_entry alloc al f e (name, d, bufs)" "index_ok (fr_index c)" "e \<in> set (fr_index c)"
    and adv: "\<And>c2. c2 = c\<lparr>fr_entry_name := name, fr_entry_data_offset := ie_data_offset e, fr_cursor := fr_cursor c2,
        fr_target := fr_target c2, fr_filled := fr_filled c2, fr_staging := descriptor_bytes d, fr_state := AtFileDescriptor\<rparr> \<Longrightarrow>
      \<exists>c3. file_finish_descriptor alloc c2 = (c3, Ok ()) \<and> continues crc alloc f c3 P"
  shows "\<exists>c1. start_descriptor name c = (c1, Ok ()) \<and> continues crc alloc f c1 P"
proof -
  let ?D = "descriptor_bytes d" and ?off = "unat (ie_descriptor_offset e)"
  have d: "ie_name e = name" "unat (ie_descriptor_length e) = length ?D" "?off + length ?D \<le> length f"
    "take (length ?D) (drop ?off f) = ?D" "length f < 2 ^ 64"
    using e(1) by (auto simp: readable_entry_def describes_def simp del: length_descriptor_bytes)
  let ?c0 = "c\<lparr>fr_entry_name := name, fr_entry_data_offset := ie_data_offset e\<rparr>"
  let ?c1 = "?c0\<lparr>fr_cursor := word_of_nat ?off, fr_target := length ?D, fr_filled := 0,
    fr_staging := replicate (length ?D) 0, fr_state := AtFileDescriptor\<rparr>"
  have "start_descriptor name c = (?c1, Ok ())"
    using find_entry [OF e(2,3)] d(1,2) by (simp add: start_descriptor_def fr_request_def del: length_descriptor_bytes)
  moreover have "asks f ?off (length ?D) ?c1" using d(3,5) by (intro asks_request) (simp_all add: filling_def)
  moreover have "leads_to crc alloc f (served f ?off (length ?D) ?c1) P"
  proof -
    let ?k = "served f ?off (length ?D) ?c1"
    have k: "?k = ?c0\<lparr>fr_cursor := word_of_nat (?off + length ?D), fr_target := length ?D, fr_filled := length ?D,
        fr_staging := ?D, fr_state := AtFileDescriptor\<rparr>"
      using d(4) by (simp add: served_request_simps slice_def del: of_nat_add length_descriptor_bytes)
    obtain c3 where "file_finish_descriptor alloc ?k = (c3, Ok ())" "continues crc alloc f c3 P"
      using adv [of ?k] unfolding k by auto
    moreover have "file_advance crc alloc ?k = file_finish_descriptor alloc ?k" unfolding file_advance_def k by simp
    ultimately show ?thesis using leads_continues by metis
  qed
  ultimately show ?thesis unfolding continues_def by blast
qed

section \<open>What a driver gets\<close>

text \<open>However the ranges are served, each step of the run asks for bytes inside the file or gives the reply;
  and some way of serving them gets to the reply.\<close>

definition delivers ::
  "(bytes \<Rightarrow> u32) \<Rightarrow> destination_alloc \<Rightarrow> bytes \<Rightarrow> file_reader_core \<Rightarrow> file_step \<Rightarrow> (file_reader_core \<Rightarrow> bool) \<Rightarrow> bool" where
  "delivers crc alloc f c reply P \<longleftrightarrow>
     (\<forall>c2. (serves crc alloc f)\<^sup>*\<^sup>* c c2 \<longrightarrow>
        (\<exists>r. file_reader_step crc alloc c2 = (r, Ok reply) \<and> P r) \<or>
        (\<exists>r off len. file_reader_step crc alloc c2 = (r, Ok (StepRange off len)) \<and> 0 < len \<and> unat off + len \<le> length f)) \<and>
     (\<exists>c2 r. (serves crc alloc f)\<^sup>*\<^sup>* c c2 \<and> file_reader_step crc alloc c2 = (r, Ok reply) \<and> P r)"

lemma on_way_delivers:
  assumes w: "on_way crc alloc f c r" and p: "P r"
  shows "delivers crc alloc f c (reply_of r) P"
  unfolding delivers_def
proof (intro conjI allI impI)
  show "\<exists>c2 r'. (serves crc alloc f)\<^sup>*\<^sup>* c c2 \<and> file_reader_step crc alloc c2 = (r', Ok (reply_of r)) \<and> P r'"
    using on_way_reached [OF w] p by blast
next
  fix c2 assume "(serves crc alloc f)\<^sup>*\<^sup>* c c2"
  from serves_star_on_way [OF this w]
  show "(\<exists>r'. file_reader_step crc alloc c2 = (r', Ok (reply_of r)) \<and> P r') \<or>
      (\<exists>r' off len. file_reader_step crc alloc c2 = (r', Ok (StepRange off len)) \<and> 0 < len \<and> unat off + len \<le> length f)"
  proof (cases rule: step_on_way)
    case over
    then show ?thesis using p by blast
  next
    case (range c' off len)
    then have "0 < fr_target c' - fr_filled c'" "unat (fr_cursor c') + (fr_target c' - fr_filled c') \<le> length f"
      by (simp_all add: asks_def unat_of_nat take_bit_eq_mod del: of_nat_add)
    then show ?thesis using range(1) by blast
  qed
qed

lemma delivers_mono: "delivers crc alloc f c reply P \<Longrightarrow> (\<And>r. P r \<Longrightarrow> Q r) \<Longrightarrow> delivers crc alloc f c reply Q"
  unfolding delivers_def by blast

lemma reply_of_opened: "opened o' es kv r \<Longrightarrow> reply_of r = StepReady"
  by (simp add: opened_def reply_of_def)

lemma sealed_delivers:
  assumes "sealed crc o' f es kv"
  shows "delivers crc alloc f (file_reader_new (word_of_nat (length f))) StepReady (opened o' es kv)"
  using sealed_on_way [OF assms] on_way_delivers reply_of_opened by metis

definition same_file :: "file_reader_core \<Rightarrow> file_reader_core \<Rightarrow> bool" where
  "same_file c c' \<longleftrightarrow>
     fr_size c' = fr_size c \<and> fr_alignment c' = fr_alignment c \<and> fr_max_depth c' = fr_max_depth c \<and> fr_index c' = fr_index c \<and>
     fr_kv c' = fr_kv c"

lemma tensor_on_way:
  assumes e: "readable_entry alloc (unat (fr_alignment c)) f e (name, d, bufs)" "index_ok (fr_index c)" "e \<in> set (fr_index c)"
    and c: "fr_is_open c" "0 < unat (fr_alignment c)"
  shows "\<exists>c1 r. begin_tensor name c = (c1, Ok ()) \<and> on_way crc alloc f c1 r \<and> same_file c r \<and>
    fr_state r = AtDone DoneTensor \<and> fr_tensor_out r = Some \<lparr>ft_name = name, ft_descriptor = d, ft_buffers = bufs\<rparr>"
proof -
  let ?t = "\<lparr>ft_name = name, ft_descriptor = d, ft_buffers = bufs\<rparr>"
  let ?P = "\<lambda>r. same_file c r \<and> fr_state r = AtDone DoneTensor \<and> fr_tensor_out r = Some ?t"
  let ?c = "c\<lparr>fr_job := Some JobTensor, fr_pending := None, fr_walk := None, fr_descriptor_out := None, fr_tensor_out := None,
           fr_composite_out := None\<rparr>"
  have dec: "decode (descriptor_bytes d) = Ok d"
    using e(1) decode_bytes [of d "[]"] by (auto simp: readable_entry_def describes_def encodable_def)
  have "\<exists>c1. start_descriptor name ?c = (c1, Ok ()) \<and> continues crc alloc f c1 ?P"
  proof (rule start_descriptor_continues [OF e(1)])
    fix c2 assume c2: "c2 = ?c\<lparr>fr_entry_name := name, fr_entry_data_offset := ie_data_offset e, fr_cursor := fr_cursor c2,
        fr_target := fr_target c2, fr_filled := fr_filled c2, fr_staging := descriptor_bytes d, fr_state := AtFileDescriptor\<rparr>"
    have s: "fr_staging c2 = descriptor_bytes d" "fr_job c2 = Some JobTensor" "fr_entry_name c2 = name"
      "fr_entry_data_offset c2 = ie_data_offset e" "fr_alignment c2 = fr_alignment c" "same_file c c2"
      by (subst c2, simp add: same_file_def)+
    have "completes_from crc alloc f (c2\<lparr>fr_entry_name := []\<rparr>) name d bufs ?P"
      unfolding completes_from_def continues_def
      using s by (auto simp: file_complete_tensor_def fr_some_def buffering_def filling_def same_file_def)
    then show "\<exists>c3. file_finish_descriptor alloc c2 = (c3, Ok ()) \<and> continues crc alloc f c3 ?P"
      using begin_buffers_continues [of alloc c2 f e name d bufs crc ?P] e(1) s c(2) dec
      by (simp add: file_finish_descriptor_def fr_try_def)
  qed (use e in simp_all)
  then obtain c1 where c1: "start_descriptor name ?c = (c1, Ok ())" "continues crc alloc f c1 ?P" by blast
  have "fr_state c1 = AtFileDescriptor" using start_descriptor_Ok [OF c1(1)] by simp
  then have "\<exists>r. on_way crc alloc f c1 r \<and> ?P r"
    using c1(2) unfolding continues_def on_way_def leads_to_def at_request_def by (auto simp: filling_def)
  moreover have "begin_tensor name c = (c1, Ok ())"
    using c(1) c1(1) by (simp add: begin_tensor_def fr_then_def begin_job_def)
  ultimately show ?thesis by blast
qed

lemma opened_same: "opened o' es kv c \<Longrightarrow> same_file c c' \<Longrightarrow> fr_state c' = AtReady \<Longrightarrow> opened o' es kv c'"
  by (simp add: opened_def same_file_def)

end
