(* ===== verification/File_Flatten.thy ===== *)
theory File_Flatten
  imports File_Write
begin

text \<open>
  The write order of a composite in a file: \<open>flatten_composite\<close> of
  \<open>hurray-io/src/file/sans_io/write.rs\<close> on the trees \<open>FileCompositeNode\<close> of \<open>file/types.rs\<close>. The code
  keeps a stack of the open heads with the index of the next member; the depth-first recursion it stands
  for is \<open>node_writes\<close>.
\<close>

datatype file_node =
    FileTensorNode bytes tensor_descriptor "bytes list"
  | FileCompositeNode bytes tensor_descriptor "file_node list"

fun file_node_descriptor :: "file_node \<Rightarrow> tensor_descriptor" where
  "file_node_descriptor (FileTensorNode n d bufs) = d"
| "file_node_descriptor (FileCompositeNode n h ms) = h"

record composite_write =
  cw_name :: bytes
  cw_descriptor :: tensor_descriptor
  cw_buffers :: "bytes list"

type_synonym open_level = "tensor_descriptor \<times> file_node list \<times> usize"

text \<open>The stack ends: each round takes a member or closes a level.\<close>

fun node_weight :: "file_node \<Rightarrow> nat" where
  "node_weight (FileTensorNode n d bufs) = 1"
| "node_weight (FileCompositeNode n h ms) = 2 + sum_list (map node_weight ms)"

fun levels_weight :: "open_level list \<Rightarrow> nat" where
  "levels_weight [] = 0"
| "levels_weight ((h, nodes, k) # st) = Suc (sum_list (map node_weight (drop k nodes))) + levels_weight st"

lemma levels_weight_member:
  "k < length nodes \<Longrightarrow>
   levels_weight ((h, nodes, k) # st) = node_weight (nodes ! k) + levels_weight ((h, nodes, k + 1) # st)"
  by (simp flip: Cons_nth_drop_Suc)

function flatten_loop ::
  "composite_write list \<Rightarrow> open_level list \<Rightarrow> composite_write list io_result" where
  "flatten_loop order [] = Ok order"
| "flatten_loop order ((open_head, nodes, k) # stack) =
     r_bind (if k = 0 then validate_members open_head (map file_node_descriptor nodes) else Ok ()) (\<lambda>_.
     if k < length nodes then
       (case nodes ! k of
          FileTensorNode name d bufs \<Rightarrow>
            flatten_loop (order @ [\<lparr>cw_name = name, cw_descriptor = d, cw_buffers = bufs\<rparr>])
              ((open_head, nodes, k + 1) # stack)
        | FileCompositeNode name h ms \<Rightarrow>
            flatten_loop (order @ [\<lparr>cw_name = name, cw_descriptor = h, cw_buffers = []\<rparr>])
              ((h, ms, 0) # (open_head, nodes, k + 1) # stack))
     else flatten_loop order stack)"
  by pat_completeness auto

termination
proof (relation "measure (levels_weight \<circ> snd)", goal_cases)
  case (2 order h nodes k st u n d bufs)
  then show ?case using levels_weight_member [of k nodes h st] by simp
next
  case (3 order h nodes k st u n h' ms)
  then show ?case using levels_weight_member [of k nodes h st] by simp
qed auto

definition flatten_composite ::
  "bytes \<Rightarrow> tensor_descriptor \<Rightarrow> file_node list \<Rightarrow> composite_write list io_result" where
  "flatten_composite head_name head members =
     flatten_loop [\<lparr>cw_name = head_name, cw_descriptor = head, cw_buffers = []\<rparr>] [(head, members, 0)]"

section \<open>The recursion it stands for\<close>

fun node_writes :: "file_node \<Rightarrow> composite_write list io_result"
  and nodes_writes :: "file_node list \<Rightarrow> composite_write list io_result" where
  "node_writes (FileTensorNode name d bufs) = Ok [\<lparr>cw_name = name, cw_descriptor = d, cw_buffers = bufs\<rparr>]"
| "node_writes (FileCompositeNode name h ms) =
     r_bind (validate_members h (map file_node_descriptor ms)) (\<lambda>_.
     r_bind (nodes_writes ms) (\<lambda>ws. Ok (\<lparr>cw_name = name, cw_descriptor = h, cw_buffers = []\<rparr> # ws)))"
| "nodes_writes [] = Ok []"
| "nodes_writes (m # ms) = r_bind (node_writes m) (\<lambda>a. r_bind (nodes_writes ms) (\<lambda>b. Ok (a @ b)))"

fun levels_writes :: "open_level list \<Rightarrow> composite_write list io_result" where
  "levels_writes [] = Ok []"
| "levels_writes ((h, nodes, k) # st) =
     r_bind (if k = 0 then validate_members h (map file_node_descriptor nodes) else Ok ()) (\<lambda>_.
     r_bind (nodes_writes (drop k nodes)) (\<lambda>a. r_bind (levels_writes st) (\<lambda>b. Ok (a @ b))))"

lemma flatten_loop_eq: "flatten_loop order st = r_bind (levels_writes st) (\<lambda>ws. Ok (order @ ws))"
proof (induction order st rule: flatten_loop.induct)
  case (2 order h nodes k st)
  let ?v = "if k = 0 then validate_members h (map file_node_descriptor nodes) else Ok ()"
  show ?case
  proof (cases "?v")
    case (Ok u)
    show ?thesis
    proof (cases "k < length nodes")
      case False
      then show ?thesis using 2(3) [OF Ok False] Ok by (simp add: r_bind_assoc)
    next
      case True
      have d: "drop k nodes = nodes ! k # drop (k + 1) nodes" using True by (simp add: Cons_nth_drop_Suc)
      show ?thesis
      proof (cases "nodes ! k")
        case (FileTensorNode n d bufs)
        then show ?thesis using 2(1) [OF Ok True FileTensorNode] Ok True d by (simp add: r_bind_assoc)
      next
        case (FileCompositeNode n h' ms)
        then show ?thesis using 2(2) [OF Ok True FileCompositeNode] Ok True d by (simp add: r_bind_assoc)
      qed
    qed
  qed simp_all
qed simp

lemma flatten_composite_node: "flatten_composite name h ms = node_writes (FileCompositeNode name h ms)"
  by (simp add: flatten_composite_def flatten_loop_eq r_bind_assoc)

text \<open>
  C35. The explicit stack of \<open>flatten_composite\<close> is the depth-first recursion: each level is validated before its
  members are written, a head comes before its members, and the first error in that order is the result.
\<close>

theorem flatten_composite_is_preorder:
  "flatten_composite name head members =
     r_bind (validate_members head (map file_node_descriptor members)) (\<lambda>_.
     r_bind (nodes_writes members) (\<lambda>ws. Ok (\<lparr>cw_name = name, cw_descriptor = head, cw_buffers = []\<rparr> # ws)))"
  by (simp only: flatten_composite_node node_writes.simps)

end
