(* ===== verification/File_Walk.thy ===== *)
theory File_Walk
  imports File_Tensors File_Flatten Stream_Items
begin

text \<open>
  The composite walk of the file reader: on entries that lie in the file in the order in which a tree was
  flattened, the walk from the head's name rebuilds the tree, whatever the chunks.
\<close>

section \<open>Trees\<close>

fun file_item_of :: "file_node \<Rightarrow> file_item" where
  "file_item_of (FileTensorNode n d bufs) = FileTensorItem \<lparr>ft_name = n, ft_descriptor = d, ft_buffers = bufs\<rparr>"
| "file_item_of (FileCompositeNode n h ms) = FileCompositeItem (FileComposite n h (map file_item_of ms))"

lemma descriptor_item_of [simp]: "file_item_descriptor (file_item_of n) = file_node_descriptor n"
  by (cases n) simp_all

fun node_items :: "file_node \<Rightarrow> written_tensor list" where
  "node_items (FileTensorNode n d bufs) = [(n, d, bufs)]"
| "node_items (FileCompositeNode n h ms) = (n, h, []) # concat (map node_items ms)"

text \<open>The levels are valid, leaves are no heads, and a level has members, not more than can be counted.\<close>

fun file_tree_ok :: "file_node \<Rightarrow> bool" where
  "file_tree_ok (FileTensorNode n d bufs) = (\<not> is_virtual (layout d))"
| "file_tree_ok (FileCompositeNode n h ms) =
     (ms \<noteq> [] \<and> length ms < 2 ^ 32 \<and> validate_members h (map file_node_descriptor ms) = Ok () \<and> list_all file_tree_ok ms)"

fun tree_depth :: "file_node \<Rightarrow> nat" where
  "tree_depth (FileTensorNode n d bufs) = 0"
| "tree_depth (FileCompositeNode n h ms) = 1 + foldr max (map tree_depth ms) 0"

lemma tree_depth_member: "m \<in> set ms \<Longrightarrow> tree_depth m \<le> foldr max (map tree_depth ms) 0"
  by (induction ms) auto

text \<open>What \<open>flatten_composite\<close> hands to the writer.\<close>

definition write_item :: "composite_write \<Rightarrow> written_tensor" where
  "write_item w = (cw_name w, cw_descriptor w, cw_buffers w)"

lemma nodes_writes_items:
  "node_writes n = Ok ws \<Longrightarrow> map write_item ws = node_items n"
  "nodes_writes ns = Ok ws \<Longrightarrow> map write_item ws = concat (map node_items ns)"
proof (induction n and ns arbitrary: ws and ws rule: node_writes_nodes_writes.induct)
  case (4 m ms)
  then obtain a b where "node_writes m = Ok a" "nodes_writes ms = Ok b" "ws = a @ b" by (auto simp: r_bind_Ok_iff)
  then show ?case using 4 by simp
qed (auto simp: r_bind_Ok_iff write_item_def)

section \<open>Entries in file order\<close>

fun entries_at ::
  "destination_alloc \<Rightarrow> bytes \<Rightarrow> file_reader_core \<Rightarrow> bytes list \<Rightarrow> nat \<Rightarrow> written_tensor list \<Rightarrow> bool" where
  "entries_at alloc f c0 names cur [] = True"
| "entries_at alloc f c0 names cur (it # its) =
     (cur < length names \<and> names ! cur = fst it \<and>
      (\<exists>e \<in> set (fr_index c0). readable_entry alloc (unat (fr_alignment c0)) f e it) \<and>
      entries_at alloc f c0 names (Suc cur) its)"

lemma entries_at_append:
  "entries_at alloc f c0 names cur (a @ b) \<longleftrightarrow>
   entries_at alloc f c0 names cur a \<and> entries_at alloc f c0 names (cur + length a) b"
  by (induction a arbitrary: cur) auto

section \<open>The walk\<close>

definition walking :: "file_reader_core \<Rightarrow> file_reader_core \<Rightarrow> bool" where
  "walking c0 c \<longleftrightarrow> same_file c0 c \<and> fr_job c = Some JobWalk"

definition walk_at ::
  "file_reader_core \<Rightarrow> bytes list \<Rightarrow> nat \<Rightarrow> open_file_composite list \<Rightarrow> file_reader_core \<Rightarrow> bool" where
  "walk_at c0 names cur st c \<longleftrightarrow>
     walking c0 c \<and> (\<exists>wk. fr_walk c = Some wk \<and> wk_names wk = names \<and> wk_cursor wk = cur \<and> wk_stack wk = st)"

text \<open>An item delivered to the stack, with the next name at \<open>cur\<close>, goes on to \<open>P\<close>.\<close>

definition delivery ::
  "(bytes \<Rightarrow> u32) \<Rightarrow> destination_alloc \<Rightarrow> bytes \<Rightarrow> file_reader_core \<Rightarrow> bytes list \<Rightarrow> nat \<Rightarrow> open_file_composite list \<Rightarrow>
   file_item \<Rightarrow> (file_reader_core \<Rightarrow> bool) \<Rightarrow> bool" where
  "delivery crc alloc f c0 names cur st item P \<longleftrightarrow>
     (\<forall>c wk. walking c0 c \<longrightarrow> wk_names wk = names \<longrightarrow> wk_cursor wk = cur \<longrightarrow>
        (\<exists>c1. file_deliver_from wk st item c = (c1, Ok ()) \<and> continues crc alloc f c1 P))"

definition walks ::
  "(bytes \<Rightarrow> u32) \<Rightarrow> destination_alloc \<Rightarrow> bytes \<Rightarrow> file_reader_core \<Rightarrow> bytes list \<Rightarrow> nat \<Rightarrow> open_file_composite list \<Rightarrow>
   (file_reader_core \<Rightarrow> bool) \<Rightarrow> bool" where
  "walks crc alloc f c0 names cur st P \<longleftrightarrow>
     (\<forall>c. walk_at c0 names cur st c \<longrightarrow> (\<exists>c1. walk_next c = (c1, Ok ()) \<and> continues crc alloc f c1 P))"

lemma walking_update [simp]:
  "walking c0 (c\<lparr>fr_walk := w\<rparr>) = walking c0 c" "walking c0 (c\<lparr>fr_pending := p\<rparr>) = walking c0 c"
  "walking c0 (c\<lparr>fr_entry_name := nm\<rparr>) = walking c0 c" "walking c0 (buffering x y z s q c) = walking c0 c"
  by (simp_all add: walking_def same_file_def buffering_def)

text \<open>One name of the walk: the descriptor is read and looked at.\<close>

lemma walk_descriptor_read:
  assumes c: "walk_at c0 names cur st c" and ix: "index_ok (fr_index c0)"
    and it: "entries_at alloc f c0 names cur ((name, d, bufs) # rest)"
    and adv: "\<And>c2 e. walk_at c0 names (Suc cur) st c2 \<Longrightarrow> fr_entry_name c2 = name \<Longrightarrow>
        fr_entry_data_offset c2 = ie_data_offset e \<Longrightarrow>
        readable_entry alloc (unat (fr_alignment c2)) f e (name, d, bufs) \<Longrightarrow>
        \<exists>c3. walk_descriptor alloc d c2 = (c3, Ok ()) \<and> continues crc alloc f c3 P"
  shows "\<exists>c1. walk_next c = (c1, Ok ()) \<and> continues crc alloc f c1 P"
proof -
  obtain wk where wk: "fr_walk c = Some wk" "wk_names wk = names" "wk_cursor wk = cur" "wk_stack wk = st" "walking c0 c"
    using c by (auto simp: walk_at_def)
  obtain e where e: "cur < length names" "names ! cur = name" "e \<in> set (fr_index c0)"
    "readable_entry alloc (unat (fr_alignment c0)) f e (name, d, bufs)" using it by auto
  let ?c = "c\<lparr>fr_walk := Some (wk\<lparr>wk_cursor := cur + 1\<rparr>)\<rparr>"
  have w: "walk_next c = start_descriptor name ?c" using wk e(1,2) by (simp add: walk_next_def fr_some_def)
  have dec: "decode (descriptor_bytes d) = Ok d"
    using e(4) decode_bytes [of d "[]"] by (auto simp: readable_entry_def describes_def encodable_def)
  have same: "fr_index ?c = fr_index c0" "fr_alignment c = fr_alignment c0" using wk(5) by (simp_all add: walking_def same_file_def)
  have "\<exists>c1. start_descriptor name ?c = (c1, Ok ()) \<and> continues crc alloc f c1 P"
  proof (rule start_descriptor_continues [OF e(4)])
    fix c2 assume c2: "c2 = ?c\<lparr>fr_entry_name := name, fr_entry_data_offset := ie_data_offset e, fr_cursor := fr_cursor c2,
        fr_target := fr_target c2, fr_filled := fr_filled c2, fr_staging := descriptor_bytes d, fr_state := AtFileDescriptor\<rparr>"
    have s: "fr_staging c2 = descriptor_bytes d" "fr_job c2 = Some JobWalk" "fr_entry_name c2 = name"
      "fr_entry_data_offset c2 = ie_data_offset e" "fr_alignment c2 = fr_alignment c0"
      "fr_walk c2 = Some (wk\<lparr>wk_cursor := cur + 1\<rparr>)" "walking c0 c2"
      using wk(5) by (subst c2, simp add: walking_def same_file_def)+
    then have "walk_at c0 names (Suc cur) st c2" using wk by (simp add: walk_at_def)
    then show "\<exists>c3. file_finish_descriptor alloc c2 = (c3, Ok ()) \<and> continues crc alloc f c3 P"
      using adv [of c2 e] s e(4) dec by (simp add: file_finish_descriptor_def fr_try_def)
  qed (use ix e(3) same in simp_all)
  then show ?thesis using w by simp
qed

lemma walk_leaf:
  assumes ix: "index_ok (fr_index c0)" "0 < unat (fr_alignment c0)"
    and leaf: "\<not> is_virtual (layout d)" and st: "st \<noteq> []"
    and it: "entries_at alloc f c0 names cur ((name, d, bufs) # rest)"
    and del: "delivery crc alloc f c0 names (Suc cur) st (FileTensorItem \<lparr>ft_name = name, ft_descriptor = d, ft_buffers = bufs\<rparr>) P"
  shows "walks crc alloc f c0 names cur st P"
  unfolding walks_def
proof (intro allI impI)
  fix c assume c: "walk_at c0 names cur st c"
  show "\<exists>c1. walk_next c = (c1, Ok ()) \<and> continues crc alloc f c1 P"
  proof (rule walk_descriptor_read [OF c ix(1) it])
    fix c2 e assume c2: "walk_at c0 names (Suc cur) st c2" "fr_entry_name c2 = name" "fr_entry_data_offset c2 = ie_data_offset e"
      "readable_entry alloc (unat (fr_alignment c2)) f e (name, d, bufs)"
    obtain wk where wk: "fr_walk c2 = Some wk" "wk_names wk = names" "wk_cursor wk = Suc cur" "wk_stack wk = st" "walking c0 c2"
      using c2(1) by (auto simp: walk_at_def)
    have al: "0 < unat (fr_alignment c2)" using ix(2) wk(5) by (simp add: walking_def same_file_def)
    have job: "fr_job c2 = Some JobWalk" using wk(5) by (simp add: walking_def)
    have "completes_from crc alloc f (c2\<lparr>fr_entry_name := []\<rparr>) name d bufs P"
      unfolding completes_from_def
    proof (intro allI)
      fix x y z s nx
      let ?c = "buffering x y z s \<lparr>fp_name = name, fp_descriptor = d, fp_buffers = bufs, fp_dest = None, fp_next_offset = nx\<rparr>
        (c2\<lparr>fr_entry_name := []\<rparr>)"
      have "file_complete_tensor ?c =
          file_deliver_from wk st (FileTensorItem \<lparr>ft_name = name, ft_descriptor = d, ft_buffers = bufs\<rparr>) (?c\<lparr>fr_pending := None\<rparr>)"
        using wk job by (simp add: file_complete_tensor_def fr_some_def Let_def file_deliver_def)
      then show "\<exists>c1. file_complete_tensor ?c = (c1, Ok ()) \<and> continues crc alloc f c1 P"
        using del wk unfolding delivery_def by simp
    qed
    from begin_buffers_continues [OF c2(4,2,3) al this]
    have "\<exists>c1. begin_buffers alloc d c2 = (c1, Ok ()) \<and> continues crc alloc f c1 P" .
    moreover have "walk_descriptor alloc d c2 = begin_buffers alloc d c2"
      using leaf st wk(1,4) by (cases "layout d") (simp_all add: walk_descriptor_def is_virtual_def)
    ultimately show "\<exists>c3. walk_descriptor alloc d c2 = (c3, Ok ()) \<and> continues crc alloc f c3 P" by simp
  qed
qed

lemma walk_members:
  assumes "\<And>m cur st rest P. m \<in> set ms \<Longrightarrow> length st = dep \<Longrightarrow> st \<noteq> [] \<Longrightarrow> entries_at alloc f c0 names cur (node_items m @ rest) \<Longrightarrow>
      delivery crc alloc f c0 names (cur + length (node_items m)) st (file_item_of m) P \<Longrightarrow> walks crc alloc f c0 names cur st P"
    and "ms \<noteq> []" and "push_all (of_validator tp) (map file_node_descriptor ms) = Ok v'" and "validator_finish v' = Ok ()"
    and "of_member_count tp = word_of_nat (length (of_members tp) + length ms)"
    and "length (of_members tp) + length ms < 2 ^ 32" and "Suc (length st) = dep"
    and "entries_at alloc f c0 names cur (concat (map node_items ms) @ rest)"
    and "delivery crc alloc f c0 names (cur + length (concat (map node_items ms))) st
      (FileCompositeItem (FileComposite (of_name tp) (of_head tp) (of_members tp @ map file_item_of ms))) P"
  shows "walks crc alloc f c0 names cur (tp # st) P"
  using assms
proof (induction ms arbitrary: tp cur)
  case (Cons m ms)
  let ?n = "length (of_members tp)" and ?cur = "cur + length (node_items m)"
  obtain v where v: "push_member (of_validator tp) (file_node_descriptor m) = Ok v" "push_all v (map file_node_descriptor ms) = Ok v'"
    using Cons.prems(3) by (auto simp: r_bind_Ok_iff)
  have n: "?n + length (m # ms) < 2 ^ 32" using Cons.prems(6) by simp
  have "Suc ?n < 2 ^ 32" using n by simp
  then have ul: "unat (word_of_nat (Suc ?n) :: u32) = Suc ?n" "unat (of_member_count tp) = ?n + length (m # ms)"
    unfolding Cons.prems(5) using unat_of_nat_u32 n by blast+
  let ?tp = "tp\<lparr>of_members := of_members tp @ [file_item_of m], of_validator := v\<rparr>"
  have "delivery crc alloc f c0 names ?cur (tp # st) (file_item_of m) P"
    unfolding delivery_def
  proof (intro allI impI)
    fix c and wk :: walk assume c: "walking c0 c" "wk_names wk = names" "wk_cursor wk = ?cur"
    show "\<exists>c1. file_deliver_from wk (tp # st) (file_item_of m) c = (c1, Ok ()) \<and> continues crc alloc f c1 P"
    proof (cases "ms = []")
      case True
      then have "\<not> (word_of_nat (Suc ?n) :: u32) < of_member_count tp"
        using ul by (simp add: word_less_nat_alt del: of_nat_Suc)
      then have "file_deliver_from wk (tp # st) (file_item_of m) c = file_deliver_from wk st
          (FileCompositeItem (FileComposite (of_name tp) (of_head tp) (of_members tp @ [file_item_of m]))) c"
        using v True Cons.prems(4) by (simp add: fr_try_def Let_def del: of_nat_Suc)
      then show ?thesis using Cons.prems(9) True c unfolding delivery_def by simp
    next
      case False
      then have lt: "(word_of_nat (Suc ?n) :: u32) < of_member_count tp"
        using ul by (simp add: word_less_nat_alt del: of_nat_Suc)
      have "file_deliver_from wk (tp # st) (file_item_of m) c = walk_next (c\<lparr>fr_walk := Some (wk\<lparr>wk_stack := ?tp # st\<rparr>)\<rparr>)"
        using v lt by (simp add: fr_try_def Let_def del: of_nat_Suc)
      moreover have "walks crc alloc f c0 names ?cur (?tp # st) P"
      proof (rule Cons.IH)
        show "entries_at alloc f c0 names ?cur (concat (map node_items ms) @ rest)"
          using Cons.prems(8) by (simp add: entries_at_append)
        show "walks crc alloc f c0 names cur' st' P'" if "m' \<in> set ms" "length st' = dep" "st' \<noteq> []"
          "entries_at alloc f c0 names cur' (node_items m' @ rest')"
          "delivery crc alloc f c0 names (cur' + length (node_items m')) st' (file_item_of m') P'" for m' cur' st' rest' P'
          using Cons.prems(1) [OF _ that(2-5)] that(1) by simp
      qed (use Cons.prems v(2) False in \<open>simp_all add: add.assoc\<close>)
      moreover have "walk_at c0 names ?cur (?tp # st) (c\<lparr>fr_walk := Some (wk\<lparr>wk_stack := ?tp # st\<rparr>)\<rparr>)"
        using c by (simp add: walk_at_def)
      ultimately show ?thesis unfolding walks_def by simp
    qed
  qed
  then show ?case
    using Cons.prems(1) [of m "tp # st" cur "concat (map node_items ms) @ rest"] Cons.prems(7,8) by simp
qed simp

lemma walk_node:
  assumes ix: "index_ok (fr_index c0)" "0 < unat (fr_alignment c0)"
  shows "file_tree_ok n \<Longrightarrow> st \<noteq> [] \<or> is_virtual (layout (file_node_descriptor n)) \<Longrightarrow> length st + tree_depth n \<le> fr_max_depth c0 \<Longrightarrow>
    entries_at alloc f c0 names cur (node_items n @ rest) \<Longrightarrow>
    delivery crc alloc f c0 names (cur + length (node_items n)) st (file_item_of n) P \<Longrightarrow> walks crc alloc f c0 names cur st P"
proof (induction n arbitrary: cur st rest P)
  case (FileTensorNode name d bufs)
  then show ?case using walk_leaf [OF ix, of d st alloc f names cur name bufs rest crc P] by simp
next
  case (FileCompositeNode name h ms)
  from FileCompositeNode.prems(1) have val: "validate_members h (map file_node_descriptor ms) = Ok ()" by simp
  from val obtain v v' l where v: "validator_new h = Ok v" "push_all v (map file_node_descriptor ms) = Ok v'"
    "validator_finish v' = Ok ()" "layout h = Composite l" "member_count l = word_of_nat (length ms)"
    by (rule validated_head) simp
  let ?tp = "\<lparr>of_name = name, of_head = h, of_member_count = member_count l, of_members = [], of_validator = v\<rparr>"
  have shape: "ms \<noteq> []" "length ms < 2 ^ 32" "\<forall>m \<in> set ms. file_tree_ok m"
    using FileCompositeNode.prems(1) by (auto simp: list_all_iff)
  have depth: "length st < fr_max_depth c0" "length st + Suc (foldr max (map tree_depth ms) 0) \<le> fr_max_depth c0"
    using FileCompositeNode.prems(3) by simp_all
  have it: "entries_at alloc f c0 names cur ((name, h, []) # concat (map node_items ms) @ rest)"
    using FileCompositeNode.prems(4) by simp
  have members: "walks crc alloc f c0 names (Suc cur) (?tp # st) P"
  proof (rule walk_members [where dep = "Suc (length st)" and ms = ms and v' = v' and rest = rest])
    fix m cur' rest' P' and st' :: "open_file_composite list"
    assume m: "m \<in> set ms" "length st' = Suc (length st)" "st' \<noteq> []" "entries_at alloc f c0 names cur' (node_items m @ rest')"
      "delivery crc alloc f c0 names (cur' + length (node_items m)) st' (file_item_of m) P'"
    have "length st' + tree_depth m \<le> fr_max_depth c0" using tree_depth_member [OF m(1)] m(2) depth(2) by linarith
    then show "walks crc alloc f c0 names cur' st' P'"
      using FileCompositeNode.IH [OF m(1) _ _ _ m(4,5)] m(1,3) shape(3) by blast
  qed (use v shape it FileCompositeNode.prems(5) in simp_all)
  show ?case
    unfolding walks_def
  proof (intro allI impI)
    fix c assume c: "walk_at c0 names cur st c"
    show "\<exists>c1. walk_next c = (c1, Ok ()) \<and> continues crc alloc f c1 P"
    proof (rule walk_descriptor_read [OF c ix(1) it])
      fix c2 e assume c2: "walk_at c0 names (Suc cur) st c2" "fr_entry_name c2 = name"
      obtain wk where wk: "fr_walk c2 = Some wk" "wk_names wk = names" "wk_cursor wk = Suc cur" "wk_stack wk = st" "walking c0 c2"
        using c2(1) by (auto simp: walk_at_def)
      let ?c = "c2\<lparr>fr_entry_name := [], fr_walk := Some (wk\<lparr>wk_stack := ?tp # st\<rparr>)\<rparr>"
      have "fr_max_depth c2 = fr_max_depth c0" using wk(5) by (simp add: walking_def same_file_def)
      then have "walk_descriptor alloc h c2 = walk_next ?c"
        using v(1,4) wk(1,4) c2(2) depth(1) by (simp add: walk_descriptor_def fr_some_def fr_try_def)
      moreover have "walk_at c0 names (Suc cur) (?tp # st) ?c" using wk by (simp add: walk_at_def)
      ultimately show "\<exists>c3. walk_descriptor alloc h c2 = (c3, Ok ()) \<and> continues crc alloc f c3 P"
        using members unfolding walks_def by simp
    qed
  qed
qed

section \<open>The composite a caller gets\<close>

lemma takeWhile_position:
  assumes "distinct names" "i < length names" "names ! i = x"
  shows "length (takeWhile (\<lambda>n. n \<noteq> x) names) = i"
proof -
  have "\<And>j. j < i \<Longrightarrow> names ! j \<noteq> x" using assms by (auto simp: nth_eq_iff_index_eq)
  then have "takeWhile (\<lambda>n. n \<noteq> x) names = take i names" using assms(2,3) by (intro takeWhile_eq_take_P_nth) auto
  then show ?thesis using assms(2) by simp
qed

lemma distinct_file_order: "index_ok (fr_index c) \<Longrightarrow> distinct (file_order c)"
proof -
  assume "index_ok (fr_index c)"
  then have d: "distinct (map ie_name (fr_index c))" by (simp add: index_ok_def)
  then have "inj_on ie_name (set (fr_index c))" "distinct (fr_index c)" by (simp_all add: distinct_map)
  then show ?thesis by (simp add: file_order_def distinct_map)
qed

lemma composite_on_way:
  assumes ix: "index_ok (fr_index c)" "0 < unat (fr_alignment c)" "fr_is_open c"
    and tree: "file_tree_ok (FileCompositeNode n h ms)" "tree_depth (FileCompositeNode n h ms) \<le> fr_max_depth c"
    and it: "entries_at alloc f c (file_order c) cur (node_items (FileCompositeNode n h ms) @ rest)"
  shows "\<exists>c1 r. begin_composite n c = (c1, Ok ()) \<and> on_way crc alloc f c1 r \<and> same_file c r \<and>
    fr_state r = AtDone DoneComposite \<and> fr_composite_out r = Some (FileComposite n h (map file_item_of ms))"
proof -
  let ?x = "FileComposite n h (map file_item_of ms)" and ?names = "file_order c"
  let ?P = "\<lambda>r. same_file c r \<and> fr_state r = AtDone DoneComposite \<and> fr_composite_out r = Some ?x"
  let ?j = "c\<lparr>fr_job := Some JobWalk, fr_pending := None, fr_walk := None, fr_descriptor_out := None, fr_tensor_out := None,
           fr_composite_out := None\<rparr>"
  let ?c = "?j\<lparr>fr_walk := Some \<lparr>wk_names = ?names, wk_cursor = cur, wk_stack = []\<rparr>\<rparr>"
  have cur: "cur < length ?names" "?names ! cur = n" using it by auto
  have "length (takeWhile (\<lambda>x. x \<noteq> n) ?names) = cur"
    using takeWhile_position [OF distinct_file_order [OF ix(1)] cur] .
  moreover have "file_order ?j = ?names" by (simp add: file_order_def)
  ultimately have b: "begin_composite n c = walk_next ?c"
    using ix(3) cur(1) by (simp add: begin_composite_def fr_then_def begin_job_def start_walk_def Let_def)
  have "layout h = Composite l \<Longrightarrow> is_virtual (layout h)" for l by (simp add: is_virtual_def)
  then have v: "is_virtual (layout (file_node_descriptor (FileCompositeNode n h ms)))"
    using tree(1) by (auto elim: validated_head)
  have "delivery crc alloc f c ?names (cur + length (node_items (FileCompositeNode n h ms))) []
      (file_item_of (FileCompositeNode n h ms)) ?P"
    unfolding delivery_def continues_def by (simp add: walking_def same_file_def filling_def)
  from walk_node [OF ix(1,2) tree(1) disjI2 [OF v] _ it this] tree(2)
  have "walks crc alloc f c ?names cur [] ?P" by simp
  moreover have "walk_at c ?names cur [] ?c" by (simp add: walk_at_def walking_def same_file_def)
  ultimately obtain c1 where c1: "walk_next ?c = (c1, Ok ())" "continues crc alloc f c1 ?P" unfolding walks_def by blast
  have "fr_state c1 = AtFileDescriptor"
    using c1(1) cur(1) start_descriptor_Ok by (auto simp: walk_next_def fr_some_def)
  then have "\<exists>r. on_way crc alloc f c1 r \<and> ?P r"
    using c1(2) unfolding continues_def on_way_def leads_to_def at_request_def by (auto simp: filling_def)
  then show ?thesis using b c1(1) by metis
qed

end
