(* ===== verification/File_Progress.thy ===== *)
theory File_Progress
  imports File_Sealed
begin

text \<open>
  The writer makes progress: on a core of a history, a tensor that is valid and fits in the address space is
  accepted and its operation can be carried out, and so can \<open>finish\<close>. The room a tensor takes is bounded
  by its bytes and one alignment gap before each buffer.
\<close>

lemma plain_add_fits: "unat x + unat y < 2 ^ 64 \<Longrightarrow> plain_add x y = Ok (x + y) \<and> unat (x + y) = unat x + unat y" for x y :: u64
  by (simp add: plain_add_def checked_add_def unat_word_ariths)

lemma pad_to_fits:
  assumes "0 < unat al" "unat x + unat al < 2 ^ 64"
  shows "\<exists>p. pad_to x al = Ok p \<and> unat p < unat al" "\<exists>y. align_up x al = Ok y"
proof -
  have lt: "align_nat (unat al) (unat x) < 2 ^ 64" using align_nat_less [OF assms(1), of "unat x"] assms(2) by linarith
  then show a: "\<exists>y. align_up x al = Ok y" using align_up_eq [of al x] assms(1) by (auto simp: word_less_nat_alt)
  then obtain p where p: "pad_to x al = Ok p" by (auto simp: pad_to_def)
  then have "unat p = align_nat (unat al) (unat x) - unat x" using pad_to_value by blast
  then show "\<exists>p. pad_to x al = Ok p \<and> unat p < unat al"
    using p align_nat_less [OF assms(1), of "unat x"] align_nat_ge [OF assms(1), of "unat x"] by auto
qed

definition room :: "nat \<Rightarrow> bytes list \<Rightarrow> nat" where
  "room al bs = sum_list (map (\<lambda>b. length b + al) bs)"

lemma plan_payloads_fits:
  "0 < unat al \<Longrightarrow> unat cur + room (unat al) bs < 2 ^ 63 \<Longrightarrow> unat al < 2 ^ 62 \<Longrightarrow>
   \<exists>segs cur'. plan_payloads al i lst cur bs = Ok (segs, cur') \<and> unat cur' \<le> unat cur + room (unat al) bs"
proof (induction bs arbitrary: i cur)
  case Nil
  then show ?case by simp
next
  case (Cons b bs)
  let ?al = "unat al"
  have r: "room ?al (b # bs) = length b + ?al + room ?al bs" by (simp add: room_def)
  have ub: "unat (word_of_nat (length b) :: u64) = length b"
    using Cons.prems(2) r by (simp add: unat_of_nat take_bit_eq_mod)
  obtain c1 where c1: "plain_add cur (word_of_nat (length b)) = (Ok c1 :: u64 io_result)" "unat c1 = unat cur + length b"
    using plain_add_fits [of cur "word_of_nat (length b)"] ub Cons.prems(2) r by auto
  show ?case
  proof (cases "i < lst")
    case False
    have "unat c1 + room ?al bs < 2 ^ 63" using c1(2) Cons.prems(2) r by linarith
    from Cons.IH [OF Cons.prems(1) this Cons.prems(3), of "i + 1"] show ?thesis using False c1 r by auto
  next
    case True
    obtain p where p: "pad_to c1 al = Ok p" "unat p < ?al"
      using pad_to_fits(1) [of al c1] Cons.prems c1(2) r by auto
    show ?thesis
    proof (cases "p > 0")
      case False
      have "unat c1 + room ?al bs < 2 ^ 63" using c1(2) Cons.prems(2) r by linarith
      from Cons.IH [OF Cons.prems(1) this Cons.prems(3), of "i + 1"] show ?thesis using True False c1 p r by auto
    next
      case pos: True
      have c2: "plain_add c1 p = (Ok (c1 + p) :: u64 io_result)" "unat (c1 + p) = unat cur + length b + unat p"
        using plain_add_fits [of c1 p] c1(2) p(2) Cons.prems(2) r by auto
      have "unat (c1 + p) + room ?al bs < 2 ^ 63" using c2(2) p(2) Cons.prems(2) r by linarith
      from Cons.IH [OF Cons.prems(1) this Cons.prems(3), of "i + 1"] obtain segs cur' where
        "plan_payloads al (i + 1) lst (c1 + p) bs = Ok (segs, cur')" "unat cur' \<le> unat (c1 + p) + room ?al bs" by blast
      then show ?thesis using True pos c1 c2 p r by auto
    qed
  qed
qed

lemma plan_tensor_fits:
  assumes al: "0 < unat (fw_alignment w)" "unat (fw_alignment w) < 2 ^ 32" and len: "length enc < 2 ^ 32"
    and fit: "unat (fw_offset w) + length enc + unat (fw_alignment w) + room (unat (fw_alignment w)) bufs < 2 ^ 63"
  shows "\<exists>op. plan_tensor w name enc bufs = Ok op"
proof -
  let ?al = "unat (fw_alignment w)" and ?dl = "word_of_nat (length enc) :: u32"
  have udl: "unat (ucast ?dl :: u64) = length enc"
    using unat_of_nat_u32 [OF len] by (simp only: unat_ucast_u32_u64)
  obtain de where de: "plain_add (fw_offset w) (ucast ?dl) = (Ok de :: u64 io_result)" "unat de = unat (fw_offset w) + length enc"
    using plain_add_fits [of "fw_offset w" "ucast ?dl"] udl fit by auto
  obtain off where off: "(if bufs = [] then Ok de else align_up de (fw_alignment w)) = Ok off" "unat off \<le> unat de + ?al"
  proof (cases "bufs = []")
    case False
    obtain y where y: "align_up de (fw_alignment w) = Ok y" using pad_to_fits(2) [OF al(1), of de] de(2) fit by auto
    then have "unat y \<le> unat de + ?al" using align_up_value align_nat_less [OF al(1), of "unat de"] by fastforce
    then show thesis using that y False by simp
  qed (use that in simp)
  have "unat off + room ?al bufs < 2 ^ 63" using off(2) de(2) fit by linarith
  from plan_payloads_fits [OF al(1) this] al(2) obtain segs cur where
    sc: "plan_payloads (fw_alignment w) 0 (length bufs - 1) off bufs = Ok (segs, cur)" "unat cur \<le> unat off + room ?al bufs"
    by fastforce
  have "unat cur < 2 ^ 63" using sc(2) off(2) de(2) fit by linarith
  then have "unat cur + 8 < 2 ^ 64" by simp
  then obtain p where "pad_to cur 8 = Ok p" using pad_to_fits(1) [of 8 cur] by auto
  then show ?thesis unfolding plan_tensor_def Let_def by (simp only: de(1) off(1) sc(1) r_bind.simps prod.case) blast
qed

lemma check_payloads_ok:
  "list_all2 (\<lambda>h b. length b = unat (byte_size h)) hs bs \<Longrightarrow> check_payloads i hs bs = Ok ()"
  by (induction arbitrary: i rule: list_all2_induct) simp_all

lemma length_padded: "0 < al \<Longrightarrow> length (padded al pos bs) \<le> room al bs"
proof (induction al pos bs rule: padded.induct)
  case (3 al pos b c bs)
  then show ?case using align_nat_less [of al "pos + length b"] by (simp add: room_def)
qed (simp_all add: room_def)

lemma length_region_le:
  assumes "0 < al"
  shows "length (tensor_region al pos enc bufs) \<le> length enc + al + room al bufs + 8"
proof -
  let ?p1 = "pos + length enc" let ?p2 = "data_start al ?p1 bufs" let ?p3 = "?p2 + length (padded al ?p2 bufs)"
  have "?p2 \<le> ?p1 + al" using align_nat_less [OF assms, of ?p1] by (simp add: data_start_def)
  moreover have "align_nat 8 ?p3 < ?p3 + 8" by (rule align_nat_less) simp
  ultimately show ?thesis using length_padded [OF assms, of ?p2 bufs] by (simp add: tensor_region_def Let_def)
qed

text \<open>A tensor that fits is accepted, and its operation runs to its end.\<close>

lemma tensor_accepted:
  assumes h: "file_history o' f w its" and hw: "fw_header_written w"
    and n: "name \<noteq> []" "length name \<le> 65535" "utf8_valid name" "name \<notin> fst ` set its"
    and d: "encodable d" "list_all2 (\<lambda>h b. length b = unat (byte_size h)) (buffers d) bufs"
    and fit: "length f + length (descriptor_bytes d) + unat (fo_data_buffer_alignment o') +
      room (unat (fo_data_buffer_alignment o')) bufs < 2 ^ 63"
  shows "\<exists>op out w'. file_tensor w name d bufs = Ok op \<and> completes op out w' \<and> fw_header_written w' \<and>
    file_history o' (f @ out) w' (its @ [(name, d, bufs)]) \<and>
    length out \<le> length (descriptor_bytes d) + unat (fo_data_buffer_alignment o') + room (unat (fo_data_buffer_alignment o')) bufs + 8"
proof -
  let ?al = "unat (fo_data_buffer_alignment o')" and ?enc = "descriptor_bytes d"
  have inv: "file_inv o' f w its" using h by (rule history_inv)
  then have v: "validate_options o' = Ok ()" and ual: "unat (fw_alignment w) = ?al" and off: "unat (fw_offset w) = length f"
    by (simp_all add: file_inv_def unat_ucast_u32_u64)
  have al: "0 < ?al" "?al < 2 ^ 32" using valid_alignment(1) [OF v] unat_u32_bound by blast+
  have "plan_tensor w name ?enc bufs = Ok op \<Longrightarrow> file_tensor w name d bufs = Ok op" for op
  proof -
    have "ie_name ` set (fw_entries w) = fst ` set its"
      using inv describes_names by (metis file_inv_def list.set_map)
    then have "name \<notin> fw_seen_names w" using inv n(4) by (simp add: file_inv_def)
    then show "plan_tensor w name ?enc bufs = Ok op \<Longrightarrow> file_tensor w name d bufs = Ok op"
      using inv hw n check_payloads_ok [OF d(2)] encode_encodable [OF d(1)] list_all2_lengthD [OF d(2)]
      by (simp add: file_tensor_def fw_retired_def file_inv_def)
  qed
  moreover have "length ?enc < 2 ^ 32" using d(1) by (simp add: encodable_def)
  ultimately obtain op where op: "file_tensor w name d bufs = Ok op"
    using plan_tensor_fits [of w ?enc bufs name] al ual off fit by auto
  have "length (concat bufs) \<le> room ?al bufs" by (induction bufs) (simp_all add: room_def)
  then have len: "length (concat bufs) < 2 ^ 63" using fit by linarith
  from inv op d(1) len obtain plan e where o: "op = file_op w plan ?enc bufs (CommitTensor e)" "fo_ok op"
    "fo_queue op = tensor_region ?al (length f) ?enc bufs" by (rule tensor_op)
  obtain w' where w': "completes op (fo_queue op) w'" using completes_exists [OF o(2)] by blast
  have "w' = apply_commit (Some (CommitTensor e)) (advanced w (length (fo_queue op)) False)"
    using completes_queue(2) [OF o(2) w'] unfolding o(1) by (simp add: file_op_def)
  then have "fw_header_written w'" using hw by (simp add: apply_commit_def advanced_def)
  then show ?thesis
    using op w' file_history.tensor [OF h op d(1) n(3) len w'] length_region_le [OF al(1)] o(3) by metis
qed

lemma validate_kv_keys_ok: "kv_ok kv \<Longrightarrow> validate_kv_keys kv = Ok ()"
proof -
  have "(\<forall>e \<in> set kv. fst e \<noteq> [] \<and> length (fst e) \<le> 65535) \<Longrightarrow> distinct (map fst kv) \<Longrightarrow> fst ` set kv \<inter> seen = {} \<Longrightarrow>
      validate_kv_keys_from seen kv = Ok ()" for seen
    by (induction seen kv rule: validate_kv_keys_from.induct) auto
  note keys = this [of "{}"]
  assume "kv_ok kv"
  then have "\<forall>e \<in> set kv. fst e \<noteq> [] \<and> length (fst e) \<le> 65535" "distinct (map fst kv)" by (auto simp: kv_ok_def)
  then show ?thesis using keys by (simp add: validate_kv_keys_def)
qed

text \<open>A file is finished with any valid metadata that fits.\<close>

lemma finish_accepted:
  assumes h: "file_history o' f w its" and hw: "fw_header_written w" and kv: "kv_ok kv" "length (kv_bytes kv) < 2 ^ 32"
    and fit: "length f + length (encode_index_section (sorted_entries w)) < 2 ^ 62"
  shows "\<exists>op out w'. file_finish crc w kv = Ok op \<and> completes op out w' \<and> length f + length (fo_bytes op) < 2 ^ 64"
proof -
  let ?ix = "encode_index_section (sorted_entries w)" and ?k = "kv_bytes kv"
  have inv: "file_inv o' f w its" using h by (rule history_inv)
  then have off: "unat (fw_offset w) = length f" by (simp add: file_inv_def)
  have lf: "length f < 2 ^ 62" using fit by linarith
  obtain ko kl footer where kf: "kv_footer (fw_offset w) kv = Ok (ko, kl, footer)" "length footer < 2 ^ 33"
  proof (cases "kv = []")
    case False
    have uk: "unat (word_of_nat (length ?k) :: u64) = length ?k" using kv(2) by (simp add: unat_of_nat take_bit_eq_mod)
    obtain e where e: "plain_add (fw_offset w) (word_of_nat (length ?k)) = (Ok e :: u64 io_result)" "unat e = length f + length ?k"
      using plain_add_fits [of "fw_offset w" "word_of_nat (length ?k)"] uk off lf kv(2) by auto
    obtain p where p: "pad_to e 8 = Ok p" "unat p < 8" using pad_to_fits(1) [of 8 e] e(2) lf kv(2) by auto
    show thesis
      using that False encode_kv_section_bytes [OF kv(1)] e(1) p kv(2) by (auto simp: kv_footer_def)
  qed (use that in \<open>simp add: kv_footer_def\<close>)
  have ul: "unat (word_of_nat (length footer) :: u64) = length footer" using kf(2) by (simp add: unat_of_nat take_bit_eq_mod)
  obtain io where io: "plain_add (fw_offset w) (word_of_nat (length footer)) = (Ok io :: u64 io_result)"
    using plain_add_fits [of "fw_offset w" "word_of_nat (length footer)"] ul off lf kf(2) by auto
  obtain op where op: "file_finish crc w kv = Ok op" "op = file_op w [Owned] (fo_bytes op) [] CommitFooter"
    "length (fo_bytes op) = length footer + length ?ix + 40"
    using inv hw kf(1) io validate_kv_keys_ok [OF kv(1)]
    by (auto simp: file_finish_def fw_retired_def file_inv_def Let_def file_op_def TRAILER_MAGIC_def)
  have fits: "length f + length (fo_bytes op) < 2 ^ 64" using op(3) fit kf(2) by simp
  have b: "plan_bytes op [Owned] = fo_bytes op" by simp
  have ok: "fo_ok op"
    using file_op_ok(1) [of w "[Owned]" "fo_bytes op" "[]" CommitFooter] inv b off fits
    unfolding op(2) [symmetric] by (simp add: file_inv_def)
  then show ?thesis using completes_exists [OF ok] op(1) fits by blast
qed

end
