(* ===== verification/File_Roundtrip.thy ===== *)
theory File_Roundtrip
  imports File_Walk File_Progress Stream_Delivery
begin

text \<open>
  The container file end to end: what the writer puts down through its operations, the reader gets back,
  the index and the metadata on opening and each tensor by its name.
\<close>

definition written_file ::
  "(bytes \<Rightarrow> u32) \<Rightarrow> file_writer_options \<Rightarrow> written_tensor list \<Rightarrow> (bytes \<times> kv_value) list \<Rightarrow> index_entry list \<Rightarrow> bytes \<Rightarrow> bool" where
  "written_file crc o' its kv es g \<longleftrightarrow>
     (\<exists>f w op out w'.
        file_history o' f w its \<and> file_finish crc w kv = Ok op \<and> kv_ok kv \<and> length (kv_bytes kv) < 2 ^ 32 \<and>
        length f + length (fo_bytes op) < 2 ^ 64 \<and> completes op out w' \<and> g = f @ out \<and> es = sorted_entries w)"

lemma written_sealed:
  assumes "written_file crc o' its kv es g"
  obtains entries where "sealed crc o' g es kv" "set es = set entries"
    "list_all2 (describes (unat (fo_data_buffer_alignment o')) g) entries its"
    "map ie_name (sort_key ie_descriptor_offset es) = map fst its"
  using assms finish_sealed set_sorted_entries unfolding written_file_def by metis

lemma written_entry:
  assumes w: "written_file crc o' its kv es g" and t: "(name, d, bufs) \<in> set its"
  obtains e where "e \<in> set es" "describes (unat (fo_data_buffer_alignment o')) g e (name, d, bufs)"
proof -
  obtain entries where e: "set es = set entries" "list_all2 (describes (unat (fo_data_buffer_alignment o')) g) entries its"
    using written_sealed [OF w] by metis
  obtain i where i: "i < length its" "its ! i = (name, d, bufs)" using t by (metis in_set_conv_nth)
  then show thesis using that [of "entries ! i"] e list_all2_nthD2 [OF e(2) i(1)] list_all2_lengthD [OF e(2)] by simp
qed

text \<open>A run of tensors, in the file order of the whole.\<close>

lemma entries_at_mid:
  assumes "\<And>it. it \<in> set its \<Longrightarrow> \<exists>e \<in> set (fr_index c). readable_entry alloc (unat (fr_alignment c)) g e it"
  shows "entries_at alloc g c (map fst (pre @ its @ post)) (length pre + k) (drop k its)"
proof (induction "length its - k" arbitrary: k)
  case 0
  then show ?case by simp
next
  case (Suc m)
  then have k: "k < length its" by simp
  have d: "drop k its = its ! k # drop (Suc k) its" using k by (simp add: Cons_nth_drop_Suc)
  have "map fst (pre @ its @ post) ! (length pre + k) = fst (its ! k)" using k by (simp add: nth_append)
  then show ?case unfolding d using Suc(1) [of "Suc k"] Suc(2) k assms [of "its ! k"] by simp
qed

section \<open>Samples\<close>

abbreviation sample_options :: file_writer_options where
  "sample_options \<equiv> default_file_writer_options"

definition sample_payload :: bytes where
  "sample_payload = [1, 2, 3, 4]"

definition sample_kv :: "(bytes \<times> kv_value) list" where
  "sample_kv = [([107], KvBool True)]"

lemma sample_valid: "validate_options sample_options = Ok ()"
  by (simp add: validate_options_def default_file_writer_options_def MIN_DATA_BUFFER_ALIGNMENT_def
      MAX_DATA_BUFFER_ALIGNMENT_def is_power_of_two_def pow2_nat.simps)

lemma sample_alignment: "unat (fo_data_buffer_alignment sample_options) = 4096"
  by (simp add: default_file_writer_options_def MIN_DATA_BUFFER_ALIGNMENT_def)

lemma sample_header:
  obtains w where "file_history sample_options (header_bytes sample_options) w []" "fw_header_written w"
proof -
  let ?o = sample_options
  have h: "file_history ?o [] (fw_build ?o) []" using sample_valid by (rule file_history.new)
  let ?op = "file_op (fw_build ?o) [Owned] (header_bytes ?o) [] CommitHeader"
  have op: "file_header (fw_build ?o) = Ok ?op"
    by (simp add: file_header_def fw_retired_def fw_build_def header_bytes_def)
  have l: "length (header_bytes ?o) = 64" by (simp add: header_bytes_def length_header)
  have b: "plan_bytes ?op [Owned] = header_bytes ?o" by (simp add: file_op_def)
  have ok: "fo_ok ?op" "fo_queue ?op = header_bytes ?o"
    using file_op_ok [of "fw_build ?o" "[Owned]" "header_bytes ?o" "[]" CommitHeader] b l by (simp_all add: fw_build_def)
  obtain w where w: "completes ?op (header_bytes ?o) w" using completes_exists [OF ok(1)] ok(2) by auto
  have "w = apply_commit (Some CommitHeader) (advanced (fw_build ?o) 64 False)"
    using completes_queue(2) [OF ok(1) w] l by (simp add: file_op_def)
  then show thesis
    using that [of w] file_history.header [OF h op w] by (simp add: apply_commit_def advanced_def)
qed

text \<open>One more small tensor, and the end of a small file.\<close>

lemma sample_tensor_added:
  assumes h: "file_history sample_options f w its" "fw_header_written w" and n: "n < 0x80" "[n] \<notin> fst ` set its"
    and d: "encodable d" "list_all2 (\<lambda>h b. length b = unat (byte_size h)) (buffers d) bufs"
    and small: "length f + k < 2 ^ 60" "length (descriptor_bytes d) + room 4096 bufs < 2 ^ 33" "k = 2 ^ 34"
  obtains op g w' where "file_tensor w [n] d bufs = Ok op" "file_history sample_options g w' (its @ [([n], d, bufs)])"
    "fw_header_written w'" "length g < length f + k"
proof -
  have fit: "length f + length (descriptor_bytes d) + 4096 + room 4096 bufs < 2 ^ 63" using small by simp
  from tensor_accepted [OF h _ _ _ n(2) d fit [unfolded sample_alignment [symmetric]]] n(1) obtain op out w' where
    o: "file_tensor w [n] d bufs = Ok op" "fw_header_written w'" "file_history sample_options (f @ out) w' (its @ [([n], d, bufs)])"
    "length out \<le> length (descriptor_bytes d) + 4096 + room 4096 bufs + 8"
    unfolding sample_alignment by auto
  then show thesis using that [OF o(1,3,2)] small by simp
qed

lemma index_fits:
  assumes h: "file_history sample_options f w its"
    and small: "length f < 2 ^ 61" "8 + sum_list (map (\<lambda>it. 34 + length (fst it)) its) < (2 :: nat) ^ 61"
  shows "length f + length (encode_index_section (sorted_entries w)) < 2 ^ 62"
proof -
  have inv: "file_inv sample_options f w its" using h(1) by (rule history_inv)
  then have "list_all2 (describes 4096 f) (fw_entries w) its" "\<not> fw_sorted_index w"
    using sample_alignment by (simp_all add: file_inv_def default_file_writer_options_def)
  then have es: "sorted_entries w = fw_entries w" "map ie_name (fw_entries w) = map fst its"
    using describes_names by (simp_all add: sorted_entries_def)
  have "length (encode_index_section (fw_entries w)) = 8 + sum_list (map (\<lambda>e. 34 + length (ie_name e)) (fw_entries w))"
    by (simp add: encode_index_section_def length_concat length_index_entry comp_def add.commute)
  also have "map (\<lambda>e. 34 + length (ie_name e)) (fw_entries w) = map (\<lambda>n. 34 + length n) (map fst its)"
    unfolding es(2) [symmetric] by simp
  finally show ?thesis using small es(1) by (simp add: comp_def)
qed

lemma sample_finished:
  assumes h: "file_history sample_options f w its" "fw_header_written w" and kv: "kv_ok kv" "length (kv_bytes kv) < 2 ^ 32"
    and small: "length f < 2 ^ 61" "8 + sum_list (map (\<lambda>it. 34 + length (fst it)) its) < (2 :: nat) ^ 61"
  obtains es g where "written_file crc sample_options its kv es g"
  using finish_accepted [OF h kv index_fits [OF h(1) small]] that h(1) kv unfolding written_file_def by metis

lemma sample_kv_ok: "kv_ok sample_kv" "length (kv_bytes sample_kv) < 2 ^ 32"
  by (simp_all add: sample_kv_def kv_ok_def kv_bytes_def kv_entry_bytes_def)

lemma sample_encodable: "encodable sample_tensor"
  using sample_tensor_readable by (simp add: readable_def encodable_def)

lemma length_sample: "length (descriptor_bytes sample_tensor) = 53"
  by (simp add: sample_tensor_def sample_descriptor_def descriptor_body_def section_bytes_def opt_bytes_def handle_bytes_def)

lemma sample_buffers: "list_all2 (\<lambda>h b. length b = unat (byte_size h)) (buffers sample_tensor) [sample_payload]"
  by (simp add: sample_tensor_def sample_payload_def)

lemma sample_file:
  obtains w0 op f w where "file_history sample_options (header_bytes sample_options) w0 []"
    "file_tensor w0 [97] sample_tensor [sample_payload] = Ok op"
    "file_history sample_options f w [([97], sample_tensor, [sample_payload])]" "fw_header_written w" "length f < 2 ^ 35"
proof -
  obtain w0 where w0: "file_history sample_options (header_bytes sample_options) w0 []" "fw_header_written w0"
    by (rule sample_header)
  have l: "length (header_bytes sample_options) = 64" by (simp add: header_bytes_def length_header)
  obtain op f w where "file_tensor w0 [97] sample_tensor [sample_payload] = Ok op"
    "file_history sample_options f w ([] @ [([97], sample_tensor, [sample_payload])])" "fw_header_written w"
    "length f < length (header_bytes sample_options) + 2 ^ 34"
    by (rule sample_tensor_added [OF w0, of 97 sample_tensor "[sample_payload]" "2 ^ 34"])
      (use l length_sample sample_encodable sample_buffers in
        \<open>simp_all add: room_def sample_payload_def del: length_descriptor_bytes\<close>)
  then show thesis using that [of w0 op f w] w0(1) l by simp
qed

lemma sample_written:
  obtains es g where "written_file crc sample_options [([97], sample_tensor, [sample_payload])] sample_kv es g"
proof -
  obtain w0 op f w where w: "file_history sample_options f w [([97], sample_tensor, [sample_payload])]" "fw_header_written w"
    "length f < 2 ^ 35" by (rule sample_file)
  show thesis by (rule sample_finished [OF w(1,2) sample_kv_ok _ _ that]) (use w(3) in simp_all)
qed

text \<open>A partition of two members after its head.\<close>

definition sample_members :: "file_node list" where
  "sample_members = [FileTensorNode [97] (sample_part 0 1) [[]], FileTensorNode [98] (sample_part 1 3) [[]]]"

lemma sample_composite_written:
  obtains es g ws where "flatten_composite [104] sample_head sample_members = Ok ws"
    "written_file crc sample_options ([] @ map write_item ws @ []) [] es g"
    "\<forall>x \<in> set ws. allocates system_allocate (cw_descriptor x)"
proof -
  let ?a = "([97], sample_part 0 1, [[]]) :: written_tensor" and ?b = "([98], sample_part 1 3, [[]]) :: written_tensor"
  have e: "encodable sample_head" "encodable (sample_part 0 1)" "encodable (sample_part 1 3)"
    using sample_head_encodable sample_part_encodable by simp_all
  have bs: "list_all2 (\<lambda>h b. length b = unat (byte_size h)) (buffers (sample_part off n)) [[]]"
    "buffers sample_head = []" for off n
    by (simp_all add: sample_part_def sample_head_def handle_empty_def)
  obtain w0 where w0: "file_history sample_options (header_bytes sample_options) w0 []" "fw_header_written w0"
    by (rule sample_header)
  have l: "length (header_bytes sample_options) = 64" by (simp add: header_bytes_def length_header)
  obtain f1 w1 where w1: "file_history sample_options f1 w1 ([] @ [([104], sample_head, [])])" "fw_header_written w1"
    "length f1 < 2 ^ 35"
    by (rule sample_tensor_added [OF w0, of 104 sample_head "[]" "2 ^ 34"])
      (use l e(1) bs(2) in \<open>simp_all add: room_def encodable_def del: length_descriptor_bytes\<close>)
  obtain f2 w2 where w2: "file_history sample_options f2 w2 (([] @ [([104], sample_head, [])]) @ [?a])" "fw_header_written w2"
    "length f2 < 2 ^ 36"
    by (rule sample_tensor_added [OF w1(1,2), of 97 "sample_part 0 1" "[[]]" "2 ^ 34"])
      (use w1(3) e(2) bs(1) in \<open>simp_all add: room_def encodable_def del: length_descriptor_bytes\<close>)
  obtain f3 w3 where w3: "file_history sample_options f3 w3 ((([] @ [([104], sample_head, [])]) @ [?a]) @ [?b])"
    "fw_header_written w3" "length f3 < 2 ^ 37"
    by (rule sample_tensor_added [OF w2(1,2), of 98 "sample_part 1 3" "[[]]" "2 ^ 34"])
      (use w2(3) e(3) bs(1) in \<open>simp_all add: room_def encodable_def del: length_descriptor_bytes\<close>)
  let ?ws = "[\<lparr>cw_name = [104], cw_descriptor = sample_head, cw_buffers = []\<rparr>,
    \<lparr>cw_name = [97], cw_descriptor = sample_part 0 1, cw_buffers = [[]]\<rparr>,
    \<lparr>cw_name = [98], cw_descriptor = sample_part 1 3, cw_buffers = [[]]\<rparr>]"
  have "flatten_composite [104] sample_head sample_members = Ok ?ws"
    using sample_members_valid by (simp add: flatten_composite_def flatten_loop_eq sample_members_def)
  moreover have "map write_item ?ws = [([104], sample_head, []), ?a, ?b]" by (simp add: write_item_def)
  moreover have "\<forall>x \<in> set ?ws. allocates system_allocate (cw_descriptor x)"
    by (simp add: allocates_def bs(2) sample_part_def handle_empty_def system_allocate_def aligned_buf_zeroed_def)
  moreover have "kv_ok []" "length (kv_bytes []) < 2 ^ 32" by (simp_all add: kv_ok_def kv_bytes_def)
  from sample_finished [OF w3(1,2) this] obtain es g where
    "written_file crc sample_options [([104], sample_head, []), ?a, ?b] [] es g" using w3(3) by auto
  ultimately show thesis using that by (metis append_Nil append_Nil2)
qed

lemma sample_opened: "written_file crc o' its kv es g \<Longrightarrow> \<exists>c. opened o' es kv c"
  using sealed_delivers unfolding delivers_def by (blast elim: written_sealed)

lemma sample_allocates: "allocates system_allocate sample_tensor"
  by (simp add: allocates_def sample_tensor_def system_allocate_def aligned_buf_zeroed_def is_power_of_two_def
      pow2_nat.simps)

lemma sample_tree:
  "file_tree_ok (FileCompositeNode [104] sample_head sample_members)"
  "tree_depth (FileCompositeNode [104] sample_head sample_members) \<le> FILE_DEFAULT_MAX_COMPOSITE_DEPTH"
  using sample_members_valid
  by (simp_all add: sample_members_def sample_part_def is_virtual_def FILE_DEFAULT_MAX_COMPOSITE_DEPTH_def)

section \<open>Requests on an open reader\<close>

definition open_on :: "file_writer_options \<Rightarrow> index_entry list \<Rightarrow> file_reader_core \<Rightarrow> bool" where
  "open_on o' es c \<longleftrightarrow> fr_is_open c \<and> fr_index c = es \<and> fr_alignment c = ucast (fo_data_buffer_alignment o')"

lemma tensor_begins:
  assumes w: "written_file crc o' its kv es g" and c: "open_on o' es c" and t: "(name, d, bufs) \<in> set its"
    and a: "allocates alloc d"
  shows "\<exists>c1 r. begin_tensor name c = (c1, Ok ()) \<and> on_way crc alloc g c1 r \<and> same_file c r \<and>
    fr_state r = AtDone DoneTensor \<and> fr_tensor_out r = Some \<lparr>ft_name = name, ft_descriptor = d, ft_buffers = bufs\<rparr>"
proof -
  obtain e where e: "e \<in> set es" "describes (unat (fo_data_buffer_alignment o')) g e (name, d, bufs)"
    using written_entry [OF w t] by metis
  have s: "sealed crc o' g es kv" using written_sealed [OF w] by metis
  have o: "fr_index c = es" "unat (fr_alignment c) = unat (fo_data_buffer_alignment o')" "fr_is_open c"
    using c by (simp_all add: open_on_def unat_ucast_u32_u64)
  have al: "0 < unat (fr_alignment c)" "index_ok es" "length g < 2 ^ 64"
    using s valid_alignment(1) o(2) by (simp_all add: sealed_def)
  have r: "readable_entry alloc (unat (fr_alignment c)) g e (name, d, bufs)"
    using e(2) a al(3) o(2) by (simp add: readable_entry_def)
  show ?thesis using tensor_on_way [OF r _ _ o(3) al(1)] al(2) e(1) o(1) by metis
qed

lemma composite_begins:
  assumes w: "written_file crc o' (pre @ map write_item ws @ post) kv es g" and ws: "flatten_composite n h ms = Ok ws"
    and c: "open_on o' es c" and tree: "file_tree_ok (FileCompositeNode n h ms)"
    and depth: "tree_depth (FileCompositeNode n h ms) \<le> fr_max_depth c"
    and a: "\<forall>x \<in> set ws. allocates alloc (cw_descriptor x)"
  shows "\<exists>c1 r. begin_composite n c = (c1, Ok ()) \<and> on_way crc alloc g c1 r \<and> same_file c r \<and>
    fr_state r = AtDone DoneComposite \<and> fr_composite_out r = Some (FileComposite n h (map file_item_of ms))"
proof -
  let ?its = "node_items (FileCompositeNode n h ms)"
  have its: "map write_item ws = ?its"
    using ws nodes_writes_items(1) [of "FileCompositeNode n h ms" ws] unfolding flatten_composite_node by blast
  obtain entries where s: "sealed crc o' g es kv" "map ie_name (sort_key ie_descriptor_offset es) = map fst (pre @ ?its @ post)"
    using written_sealed [OF w] its by metis
  have o: "fr_index c = es" "unat (fr_alignment c) = unat (fo_data_buffer_alignment o')" "fr_is_open c"
    using c by (simp_all add: open_on_def unat_ucast_u32_u64)
  have al: "0 < unat (fr_alignment c)" "index_ok (fr_index c)" "length g < 2 ^ 64"
    using s(1) valid_alignment(1) o(1,2) by (simp_all add: sealed_def)
  have names: "file_order c = map fst (pre @ ?its @ post)" using s(2) o(1) by (simp add: file_order_def)
  have item: "\<exists>e \<in> set (fr_index c). readable_entry alloc (unat (fr_alignment c)) g e it" if "it \<in> set ?its" for it
  proof -
    obtain n' d' b' where e: "it = (n', d', b')" by (cases it)
    have "it \<in> set (pre @ map write_item ws @ post)" using that its by (simp del: node_items.simps)
    from written_entry [OF w this [unfolded e]] obtain x where "x \<in> set es"
      "describes (unat (fo_data_buffer_alignment o')) g x it" using e by metis
    moreover have "allocates alloc (fst (snd it))" using that a unfolding its [symmetric] by (auto simp: write_item_def)
    ultimately show ?thesis using o(1,2) al(3) by (auto simp: readable_entry_def)
  qed
  have "entries_at alloc g c (file_order c) (length pre + k) (drop k ?its)" for k
    unfolding names using item by (rule entries_at_mid)
  from this [of 0] have at: "entries_at alloc g c (file_order c) (length pre) (?its @ [])" by simp
  show ?thesis using composite_on_way [OF al(2,1) o(3) tree depth at] .
qed

section \<open>Properties\<close>

text \<open>
  C33. The state of a file under construction. After any completed sequence of writer operations the core knows
  the length of the file, tensors start on multiples of eight, names are unique, and each index entry leads
  to its tensor: the descriptor's bytes at its offset, the buffers at the data offset, each on a multiple of
  the file's alignment.
\<close>

theorem file_history_invariant:
  assumes "file_history o' f w its"
  shows "unat (fw_offset w) = length f \<and> 8 dvd length f \<and> distinct (map ie_name (fw_entries w)) \<and>
    list_all2 (\<lambda>e (name, d, bufs).
      ie_name e = name \<and> take (length (descriptor_bytes d)) (drop (unat (ie_descriptor_offset e)) f) = descriptor_bytes d \<and>
      (bufs \<noteq> [] \<longrightarrow> unat (fo_data_buffer_alignment o') dvd unat (ie_data_offset e)) \<and>
      buffers_at (unat (fo_data_buffer_alignment o')) f (unat (ie_data_offset e)) bufs) (fw_entries w) its"
proof -
  have inv: "file_inv o' f w its" using assms by (rule history_inv)
  then have "list_all2 (describes (unat (fo_data_buffer_alignment o')) f) (fw_entries w) its" by (simp add: file_inv_def)
  then show ?thesis using inv by (auto simp: file_inv_def index_ok_def describes_def elim!: list_all2_mono)
qed

theorem file_history_invariant_witness:
  "\<exists>f w. file_history default_file_writer_options f w [([97], sample_tensor, [sample_payload])] \<and>
    unat (fw_offset w) = length f \<and> distinct (map ie_name (fw_entries w))"
  by (rule sample_file) (use file_history_invariant in blast)

text \<open>
  A tensor operation, whatever the counts the sink accepts: at every moment it has emitted a prefix of the
  tensor's region, the encoded descriptor, zeros up to the alignment, the buffers padded between them and
  zeros up to a multiple of eight, and offers a non-empty piece of the rest, or is done with all of it.
\<close>

theorem file_tensor_emits_region:
  assumes "file_history o' f w its" and "file_tensor w name d bufs = Ok op" and "encodable d" and "length (concat bufs) < 2 ^ 63"
    and "(emits fo_step fo_output_src fo_report_written)\<^sup>*\<^sup>* (op, []) (op2, out)"
  shows "(\<exists>op3. fo_step op2 = (op3, Ok ItemWritten) \<and>
      out = tensor_region (unat (fo_data_buffer_alignment o')) (length f) (descriptor_bytes d) bufs) \<or>
    (\<exists>op3 later. fo_step op2 = (op3, Ok (WriteOutput (length (fo_output_src op3)))) \<and> fo_output_src op3 \<noteq> [] \<and>
      tensor_region (unat (fo_data_buffer_alignment o')) (length f) (descriptor_bytes d) bufs =
        out @ fo_output_src op3 @ later)"
proof -
  from history_inv [OF assms(1)] assms(2-4) have "fo_ok op"
    "fo_queue op = tensor_region (unat (fo_data_buffer_alignment o')) (length f) (descriptor_bytes d) bufs"
    by (rule tensor_op; simp)+
  then show ?thesis using file_op_queue.emits_outcome [OF assms(5)] by simp
qed

theorem file_tensor_emits_region_witness:
  "\<exists>w op. file_tensor w [97] sample_tensor [sample_payload] = Ok op \<and>
    ((\<exists>op3. fo_step op = (op3, Ok ItemWritten) \<and> [] = tensor_region 4096 64 (descriptor_bytes sample_tensor) [sample_payload]) \<or>
     (\<exists>op3 later. fo_step op = (op3, Ok (WriteOutput (length (fo_output_src op3)))) \<and> fo_output_src op3 \<noteq> [] \<and>
       tensor_region 4096 64 (descriptor_bytes sample_tensor) [sample_payload] = [] @ fo_output_src op3 @ later))"
proof -
  obtain w0 op f w where w: "file_history sample_options (header_bytes sample_options) w0 []"
    "file_tensor w0 [97] sample_tensor [sample_payload] = Ok op"
    by (rule sample_file)
  have "length (concat [sample_payload]) < 2 ^ 63" by (simp add: sample_payload_def)
  from file_tensor_emits_region [OF w sample_encodable this rtranclp.rtrancl_refl] w(2)
  show ?thesis unfolding sample_alignment header_bytes_def length_header by blast
qed

text \<open>
  C34. Opening. A file written by any sequence of tensors and finished with its metadata opens: however its ranges
  are served, the reader asks only for bytes inside the file and becomes ready with the index and the
  metadata that were written, the names of the index being those of the tensors.
\<close>

theorem file_opens:
  assumes "written_file crc o' its kv es g"
  shows "delivers crc alloc g (file_reader_new (word_of_nat (length g))) StepReady (opened o' es kv) \<and>
    ie_name ` set es = fst ` set its"
proof -
  obtain entries where e: "sealed crc o' g es kv" "map ie_name (sort_key ie_descriptor_offset es) = map fst its"
    using written_sealed [OF assms] by metis
  have "ie_name ` set es = set (map ie_name (sort_key ie_descriptor_offset es))" by simp
  then show ?thesis using sealed_delivers [OF e(1)] e(2) by simp
qed

theorem file_opens_witness:
  "\<exists>g es. delivers (\<lambda>b. 0) system_allocate g (file_reader_new (word_of_nat (length g))) StepReady
    (opened sample_options es sample_kv) \<and> ie_name ` set es = {[97]}"
proof -
  obtain es g where "written_file (\<lambda>b. 0) sample_options [([97], sample_tensor, [sample_payload])] sample_kv es g"
    by (rule sample_written)
  from file_opens [OF this, of system_allocate] show ?thesis by auto
qed

text \<open>
  C5. Tensor round trip. On an opened file, \<open>begin_tensor\<close> with the name of a tensor that was written leads the
  driver to exactly that tensor, descriptor and buffers, and leaves the reader open as before.
\<close>

theorem file_tensor_roundtrip:
  assumes w: "written_file crc o' its kv es g" and c: "opened o' es kv c" and t: "(name, d, bufs) \<in> set its"
    and a: "allocates alloc d"
  shows "\<exists>c1. begin_tensor name c = (c1, Ok ()) \<and>
    delivers crc alloc g c1 StepFileTensor (\<lambda>r. \<exists>c'. opened o' es kv c' \<and>
      file_take_tensor r = (c', Some \<lparr>ft_name = name, ft_descriptor = d, ft_buffers = bufs\<rparr>))"
proof -
  have "open_on o' es c" using c by (simp add: opened_def open_on_def fr_is_open_def)
  from tensor_begins [OF w this t a] obtain c1 r where c1: "begin_tensor name c = (c1, Ok ())" "on_way crc alloc g c1 r"
    "same_file c r" "fr_state r = AtDone DoneTensor" "fr_tensor_out r = Some \<lparr>ft_name = name, ft_descriptor = d, ft_buffers = bufs\<rparr>"
    by blast
  let ?r = "finish_job (r\<lparr>fr_tensor_out := None\<rparr>)"
  let ?P = "\<lambda>r. \<exists>c'. opened o' es kv c' \<and>
    file_take_tensor r = (c', Some \<lparr>ft_name = name, ft_descriptor = d, ft_buffers = bufs\<rparr>)"
  have "opened o' es kv ?r" using c c1(3) by (simp add: opened_def same_file_def finish_job_def)
  then have "?P r" using c1(5) by (simp add: file_take_tensor_def)
  from on_way_delivers [where P = ?P, OF c1(2) this]
  have "delivers crc alloc g c1 StepFileTensor ?P" using c1(4) by (simp add: reply_of_def)
  then show ?thesis using c1(1) by blast
qed

theorem file_tensor_roundtrip_witness:
  "\<exists>g c c1. begin_tensor [97] c = (c1, Ok ()) \<and>
    delivers (\<lambda>b. 0) system_allocate g c1 StepFileTensor (\<lambda>r. \<exists>c'. fr_state c' = AtReady \<and>
      file_take_tensor r = (c', Some \<lparr>ft_name = [97], ft_descriptor = sample_tensor, ft_buffers = [sample_payload]\<rparr>))"
proof -
  obtain es g where w: "written_file (\<lambda>b. 0) sample_options [([97], sample_tensor, [sample_payload])] sample_kv es g"
    by (rule sample_written)
  obtain c where c: "opened sample_options es sample_kv c" using sample_opened [OF w] by blast
  have "([97], sample_tensor, [sample_payload]) \<in> set [([97], sample_tensor, [sample_payload])]" by simp
  from file_tensor_roundtrip [OF w c this sample_allocates] obtain c1 where b: "begin_tensor [97] c = (c1, Ok ())" and
    d: "delivers (\<lambda>b. 0) system_allocate g c1 StepFileTensor (\<lambda>r. \<exists>c'. opened sample_options es sample_kv c' \<and>
      file_take_tensor r = (c', Some \<lparr>ft_name = [97], ft_descriptor = sample_tensor, ft_buffers = [sample_payload]\<rparr>))"
    by blast
  show ?thesis by (intro exI conjI, rule b, rule delivers_mono [OF d]) (auto simp: opened_def)
qed



end
