(* ===== verification/File_Safety.thy ===== *)
theory File_Safety
  imports File_Read Stream_Delivery
begin

text \<open>
  The file reader on arbitrary input: any bytes, any calls in any order. Its invariant, and with it that the
  only panic of \<open>step\<close> is the overflow of the alignment after a buffer that ends at the end of the address
  space, and that what is handed over is valid.
\<close>

section \<open>The invariant\<close>

definition read_tensor_ok :: "read_tensor \<Rightarrow> bool" where
  "read_tensor_ok t \<longleftrightarrow>
     descriptor_ok (ft_descriptor t) \<and>
     list_all2 (\<lambda>h b. length b = unat (byte_size h)) (buffers (ft_descriptor t)) (ft_buffers t)"

fun file_item_ok :: "file_item \<Rightarrow> bool"
  and file_composite_ok :: "file_composite \<Rightarrow> bool" where
  "file_item_ok (FileTensorItem t) = read_tensor_ok t"
| "file_item_ok (FileCompositeItem c) = file_composite_ok c"
| "file_composite_ok (FileComposite n h ms) = (descriptor_ok h \<and> list_all file_item_ok ms)"

definition open_ok :: "open_file_composite \<Rightarrow> bool" where
  "open_ok x \<longleftrightarrow> descriptor_ok (of_head x) \<and> list_all file_item_ok (of_members x)"

definition fr_base :: "file_reader_core \<Rightarrow> bool" where
  "fr_base c \<longleftrightarrow>
     (\<forall>wk. fr_walk c = Some wk \<longrightarrow> list_all open_ok (wk_stack wk)) \<and>
     0 < unat (fr_alignment c) \<and> (\<forall>t. fr_tensor_out c = Some t \<longrightarrow> read_tensor_ok t) \<and>
     (\<forall>x. fr_composite_out c = Some x \<longrightarrow> file_composite_ok x) \<and>
     (\<forall>d. fr_descriptor_out c = Some d \<longrightarrow> descriptor_ok d)"

definition state_ok :: "file_reader_core \<Rightarrow> bool" where
  "state_ok c \<longleftrightarrow>
     (case fr_state c of
        AtHeader \<Rightarrow> fr_target c = 64 \<and> length (fr_staging c) = 64 \<and> fr_filled c \<le> 64
      | AtTrailer \<Rightarrow> fr_target c = 40 \<and> length (fr_staging c) = 40 \<and> fr_filled c \<le> 40
      | AtIndex \<Rightarrow> length (fr_staging c) = fr_target c \<and> fr_filled c \<le> fr_target c
      | AtKv \<Rightarrow> length (fr_staging c) = fr_target c \<and> fr_filled c \<le> fr_target c
      | AtFileDescriptor \<Rightarrow> length (fr_staging c) = fr_target c \<and> fr_filled c \<le> fr_target c
      | AtFileBuffer i \<Rightarrow> fr_filled c \<le> fr_target c
      | _ \<Rightarrow> True)"

text \<open>The first \<open>i\<close> buffers of a tensor are there.\<close>

definition read_so_far :: "nat \<Rightarrow> file_pending \<Rightarrow> bool" where
  "read_so_far i p \<longleftrightarrow>
     descriptor_ok (fp_descriptor p) \<and> i \<le> length (buffers (fp_descriptor p)) \<and>
     list_all2 (\<lambda>h b. length b = unat (byte_size h)) (take i (buffers (fp_descriptor p))) (fp_buffers p)"

definition buffer_ok :: "file_reader_core \<Rightarrow> bool" where
  "buffer_ok c \<longleftrightarrow>
     (\<forall>i p. fr_state c = AtFileBuffer i \<longrightarrow> fr_pending c = Some p \<longrightarrow>
        read_so_far i p \<and> i < length (buffers (fp_descriptor p)) \<and>
        fr_target c = unat (byte_size (buffers (fp_descriptor p) ! i)) \<and>
        (\<exists>dest. fp_dest p = Some dest \<and> length dest = fr_target c))"

definition fr_inv :: "file_reader_core \<Rightarrow> bool" where
  "fr_inv c \<longleftrightarrow> fr_base c \<and> state_ok c \<and> buffer_ok c"

text \<open>A call keeps the invariant, or it panics at a position from which the next multiple of the alignment is
  out of reach.\<close>

definition safe :: "file_reader_core \<times> 'a io_result \<Rightarrow> bool" where
  "safe r \<longleftrightarrow>
     (if snd r = Panic then 2 ^ 64 < unat (fr_cursor (fst r)) + unat (fr_alignment (fst r)) else fr_inv (fst r))"

named_theorems safe_intros \<open>introduction rules for safe\<close>

lemma safe_Ok: "fr_inv c \<Longrightarrow> safe (c, Ok x)" and safe_Err: "fr_inv c \<Longrightarrow> safe (c, Err e)"
  by (simp_all add: safe_def)

lemma fr_base_update [simp]:
  "fr_base (c\<lparr>fr_state := st\<rparr>) = fr_base c" "fr_base (c\<lparr>fr_pending := p\<rparr>) = fr_base c"
  "fr_base (c\<lparr>fr_job := j\<rparr>) = fr_base c" "fr_base (c\<lparr>fr_flags := fl\<rparr>) = fr_base c" "fr_base (c\<lparr>fr_index := ix\<rparr>) = fr_base c"
  "fr_base (c\<lparr>fr_kv := kv\<rparr>) = fr_base c" "fr_base (c\<lparr>fr_kv_range := r\<rparr>) = fr_base c"
  "fr_base (c\<lparr>fr_stored_crc := x\<rparr>) = fr_base c" "fr_base (c\<lparr>fr_cursor := cur\<rparr>) = fr_base c"
  "fr_base (c\<lparr>fr_target := n\<rparr>) = fr_base c" "fr_base (c\<lparr>fr_filled := k\<rparr>) = fr_base c"
  "fr_base (c\<lparr>fr_staging := bs\<rparr>) = fr_base c" "fr_base (c\<lparr>fr_entry_name := nm\<rparr>) = fr_base c"
  "fr_base (c\<lparr>fr_entry_data_offset := off\<rparr>) = fr_base c"
  by (simp_all add: fr_base_def)

lemma fr_base_walk: "fr_base c \<Longrightarrow> list_all open_ok (wk_stack wk) \<Longrightarrow> fr_base (c\<lparr>fr_walk := Some wk\<rparr>)"
  "fr_base c \<Longrightarrow> fr_base (c\<lparr>fr_walk := None\<rparr>)"
  by (simp_all add: fr_base_def)

lemma state_ok_update [simp]:
  "state_ok (c\<lparr>fr_pending := p\<rparr>) = state_ok c" "state_ok (c\<lparr>fr_walk := wk\<rparr>) = state_ok c"
  "state_ok (c\<lparr>fr_job := j\<rparr>) = state_ok c" "state_ok (c\<lparr>fr_descriptor_out := x\<rparr>) = state_ok c"
  "state_ok (c\<lparr>fr_tensor_out := t\<rparr>) = state_ok c" "state_ok (c\<lparr>fr_composite_out := y\<rparr>) = state_ok c"
  "state_ok (c\<lparr>fr_entry_name := nm\<rparr>) = state_ok c" "state_ok (c\<lparr>fr_entry_data_offset := off\<rparr>) = state_ok c"
  by (simp_all add: state_ok_def split: file_state.split)

lemma buffer_ok_none: "fr_pending c = None \<Longrightarrow> buffer_ok c" "fr_state c = AtFileDescriptor \<Longrightarrow> buffer_ok c"
  by (simp_all add: buffer_ok_def)

lemma safe_fail [safe_intros]: "fr_base c \<Longrightarrow> safe (fr_fail e c)" "fr_base c \<Longrightarrow> safe (fr_fail_open e c)"
  using fr_base_walk(2) [of "c\<lparr>fr_state := AtReady, fr_job := None, fr_pending := None\<rparr>"]
  by (auto simp: safe_def fr_fail_def fr_fail_open_def fr_inv_def state_ok_def buffer_ok_def)

lemma safe_try [safe_intros]:
  "fr_base c \<Longrightarrow> r \<noteq> Panic \<Longrightarrow> (\<And>x. r = Ok x \<Longrightarrow> safe (f x c)) \<Longrightarrow> safe (fr_try fr_fail r f c)"
  "fr_base c \<Longrightarrow> r \<noteq> Panic \<Longrightarrow> (\<And>x. r = Ok x \<Longrightarrow> safe (f x c)) \<Longrightarrow> safe (fr_try fr_fail_open r f c)"
  by (auto simp: fr_try_def safe_fail split: result.split)

lemma safe_some [safe_intros]: "fr_base c \<Longrightarrow> (\<And>y. x = Some y \<Longrightarrow> safe (f y c)) \<Longrightarrow> safe (fr_some x f c)"
  by (simp add: fr_some_def safe_fail split: option.split)

lemma safe_if [safe_intros]: "(b \<Longrightarrow> safe r) \<Longrightarrow> (\<not> b \<Longrightarrow> safe s) \<Longrightarrow> safe (if b then r else s)"
  by simp

lemma safe_option [safe_intros]:
  "(x = None \<Longrightarrow> safe r) \<Longrightarrow> (\<And>y. x = Some y \<Longrightarrow> safe (f y)) \<Longrightarrow> safe (case x of None \<Rightarrow> r | Some y \<Rightarrow> f y)"
  by (simp split: option.split)

lemma safe_request: "fr_base c \<Longrightarrow> st \<in> {AtIndex, AtKv, AtFileDescriptor} \<or> st = AtTrailer \<and> len = 40 \<Longrightarrow>
   safe (fr_request off len st c)"
  by (auto simp: safe_def fr_request_def fr_inv_def state_ok_def buffer_ok_def)

section \<open>Opening\<close>

lemma get_le_safe: "off + LENGTH('a) div 8 \<le> length b \<Longrightarrow> get_le b off \<noteq> (Panic :: 'a::len word io_result)"
  by (simp add: get_le_Ok)

lemma fr_base_alignment: "fr_base c \<Longrightarrow> is_power_of_two (al :: u32) \<Longrightarrow> fr_base (c\<lparr>fr_alignment := ucast al\<rparr>)"
  by (auto simp: fr_base_def is_power_of_two_iff unat_ucast_u32_u64)

lemma finish_header_safe: "fr_base c \<Longrightarrow> length (fr_staging c) = 64 \<Longrightarrow> safe (finish_header c)"
  unfolding finish_header_def Let_def
  by (intro safe_intros safe_request) (simp_all add: slice_at_def index_at_def get_le_safe fr_base_alignment TRAILER_SIZE_def)

lemma finish_trailer_safe: "fr_base c \<Longrightarrow> length (fr_staging c) = 40 \<Longrightarrow> safe (finish_trailer c)"
  unfolding finish_trailer_def Let_def
  by (intro safe_intros safe_request) (simp_all add: slice_at_def get_le_safe)

lemma safe_ready: "fr_base c \<Longrightarrow> safe (c\<lparr>fr_state := AtReady\<rparr>, Ok ())"
  by (simp add: safe_def fr_inv_def state_ok_def buffer_ok_def)

lemma finish_index_safe: "fr_base c \<Longrightarrow> safe (finish_index crc c)"
  unfolding finish_index_def Let_def split_def
  by (intro safe_intros safe_request safe_ready) (use parse_index_sound in auto)

lemma finish_kv_safe: "fr_base c \<Longrightarrow> safe (finish_kv c)"
  unfolding finish_kv_def using parse_kv_sound
  by (intro safe_intros) (auto simp: safe_def fr_inv_def state_ok_def buffer_ok_def fr_base_def)

section \<open>Descriptors, buffers and the walk\<close>

lemma validator_new_no_panic: "validator_new d \<noteq> Panic"
  by (simp add: validator_new_def split: layout_descriptor.split)

lemma push_member_no_panic:
  assumes "descriptor_ok m"
  shows "push_member v m \<noteq> Panic"
proof -
  have "shard_validate_against_shape s (td_shape m) \<noteq> Panic" if "shard m = Some s" for s
    using shard_validate_spec assms that by (simp add: descriptor_ok_def fields_ok_def)
  then have "shard_box v m i \<noteq> Panic" for i
    by (simp add: shard_box_def ok_or_def r_bind_Panic_iff split: option.split)
  then show ?thesis
    by (auto simp: push_member_def Let_def r_bind_Panic_iff check_member_type_def check_overlay_member_role_def
        reject_composite_member_flag_def ok_or_def split: composition_rule.splits if_splits option.splits)
qed

lemma validator_finish_no_panic: "validator_finish v \<noteq> Panic"
  by (simp add: validator_finish_def split: composition_rule.split)

lemma start_descriptor_safe: "fr_inv c \<Longrightarrow> safe (start_descriptor name c)"
  unfolding start_descriptor_def
  by (intro safe_intros safe_request safe_Err) (simp_all add: fr_inv_def)

text \<open>A core with nothing pending.\<close>

definition idle :: "file_reader_core \<Rightarrow> bool" where
  "idle c \<longleftrightarrow> fr_base c \<and> state_ok c \<and> (fr_pending c = None \<or> fr_state c = AtFileDescriptor)"

lemma idle_inv: "idle c \<Longrightarrow> fr_inv c"
  using buffer_ok_none by (auto simp: idle_def fr_inv_def)

lemma idle_walk: "idle c \<Longrightarrow> list_all open_ok (wk_stack wk) \<Longrightarrow> idle (c\<lparr>fr_walk := Some wk\<rparr>)"
  by (simp add: idle_def fr_base_walk)

lemma walk_next_safe:
  assumes "idle c"
  shows "safe (walk_next c)"
proof -
  have b: "fr_base c" using assms by (simp add: idle_def)
  have st: "list_all open_ok (wk_stack wk)" if "fr_walk c = Some wk" for wk using b that by (simp add: fr_base_def)
  show ?thesis
  proof (cases "fr_walk c")
    case None
    then show ?thesis using b by (simp add: walk_next_def fr_some_def safe_fail)
  next
    case (Some wk)
    have "safe (start_descriptor n (c\<lparr>fr_walk := Some (wk\<lparr>wk_cursor := k\<rparr>)\<rparr>))" for n k
      using idle_walk [OF assms] st [OF Some] by (intro start_descriptor_safe idle_inv) simp
    then show ?thesis using Some b by (simp add: walk_next_def fr_some_def safe_fail)
  qed
qed

lemma file_item_descriptor_ok: "file_item_ok item \<Longrightarrow> descriptor_ok (file_item_descriptor item)"
  by (cases item rule: file_item_ok.cases) (auto simp: read_tensor_ok_def elim: file_composite_ok.elims)

lemma file_deliver_from_safe:
  "idle c \<Longrightarrow> list_all open_ok st \<Longrightarrow> file_item_ok item \<Longrightarrow> safe (file_deliver_from wk st item c)"
proof (induction st arbitrary: item c)
  case Nil
  then have b: "fr_base c" by (simp add: idle_def)
  show ?case
  proof (cases item)
    case (FileTensorItem t)
    then show ?thesis using b by (simp add: safe_fail)
  next
    case (FileCompositeItem x)
    then have "fr_base (c\<lparr>fr_composite_out := Some x, fr_walk := None\<rparr>)" using b Nil(3) by (simp add: fr_base_def)
    then show ?thesis using FileCompositeItem by (simp add: safe_def fr_inv_def state_ok_def buffer_ok_def)
  qed
next
  case (Cons tp st)
  have b: "fr_base c" using Cons.prems(1) by (simp add: idle_def)
  have d: "descriptor_ok (file_item_descriptor item)" using Cons.prems(3) by (rule file_item_descriptor_ok)
  have tp: "open_ok (tp\<lparr>of_members := of_members tp @ [item], of_validator := v\<rparr>)"
    "file_item_ok (FileCompositeItem (FileComposite (of_name tp) (of_head tp) (of_members tp @ [item])))" for v
    using Cons.prems(2,3) by (simp_all add: open_ok_def)
  show ?case
    unfolding file_deliver_from.simps Let_def
  proof (intro safe_intros walk_next_safe idle_walk Cons.IH)
    show "from_core (push_member (of_validator tp) (file_item_descriptor item)) \<noteq> Panic"
      using push_member_no_panic [OF d] by (simp add: from_core_def map_err_def split: result.split)
    show "from_core (validator_finish v) \<noteq> Panic" for v
      using validator_finish_no_panic by (simp add: from_core_def map_err_def split: result.split)
  qed (use Cons.prems b tp in simp_all)
qed

lemma file_deliver_safe: "idle c \<Longrightarrow> file_item_ok item \<Longrightarrow> safe (file_deliver item c)"
  unfolding file_deliver_def
  by (intro safe_some file_deliver_from_safe) (auto simp: idle_def fr_base_def)

text \<open>The handlers of a tensor are called with a core whose pending tensor is read so far.\<close>

definition tensor_ok :: "nat \<Rightarrow> file_reader_core \<Rightarrow> bool" where
  "tensor_ok i c \<longleftrightarrow> fr_base c \<and> state_ok c \<and> (\<forall>p. fr_pending c = Some p \<longrightarrow> read_so_far i p)"

lemma file_complete_tensor_safe:
  assumes "tensor_ok i c" and "\<And>p. fr_pending c = Some p \<Longrightarrow> i = length (buffers (fp_descriptor p))"
  shows "safe (file_complete_tensor c)"
proof (cases "fr_pending c")
  case None
  then show ?thesis using assms(1) by (simp add: file_complete_tensor_def fr_some_def safe_fail tensor_ok_def)
next
  case (Some p)
  let ?c = "c\<lparr>fr_pending := None\<rparr>"
  let ?t = "\<lparr>ft_name = fp_name p, ft_descriptor = fp_descriptor p, ft_buffers = fp_buffers p\<rparr>"
  have t: "read_tensor_ok ?t" using assms Some by (auto simp: tensor_ok_def read_so_far_def read_tensor_ok_def)
  have i: "idle ?c" "fr_base ?c" using assms(1) by (simp_all add: tensor_ok_def idle_def)
  have "safe (?c\<lparr>fr_tensor_out := Some ?t, fr_state := AtDone DoneTensor\<rparr>, Ok ())"
    using i(2) t by (simp add: safe_def fr_inv_def fr_base_def state_ok_def buffer_ok_def)
  moreover have "safe (file_deliver (FileTensorItem ?t) ?c)" using file_deliver_safe [OF i(1)] t by simp
  ultimately show ?thesis
    using Some i(2) by (auto simp: file_complete_tensor_def fr_some_def Let_def safe_fail split: option.split job.split)
qed

context destinations
begin

lemma file_begin_buffer_safe:
  assumes t: "tensor_ok i c"
  shows "safe (file_begin_buffer alloc i c)"
  unfolding file_begin_buffer_def split_def
proof (intro safe_intros)
  show b: "fr_base c" "fr_base c" "fr_base c" using t by (simp_all add: tensor_ok_def)
  show "alloc r \<noteq> Panic" for r by (rule alloc_no_panic)
  fix y dest p
  assume y: "pending_handle c i = Some y" and p: "fr_pending c = Some p"
    and a: "alloc \<lparr>dr_index = i, dr_byte_size = byte_size (fst y), dr_alignment = alignment (fst y)\<rparr> = Ok dest"
  have h: "i < length (buffers (fp_descriptor p))" "fst y = buffers (fp_descriptor p) ! i"
    using y p by (auto simp: pending_handle_def split: if_splits)
  have "length dest = unat (byte_size (fst y))" using alloc_size [OF a] by simp
  then show "safe (c\<lparr>fr_pending := Some (p\<lparr>fp_dest := Some dest\<rparr>), fr_cursor := snd y, fr_target := unat (byte_size (fst y)),
      fr_filled := 0, fr_state := AtFileBuffer i\<rparr>, Ok ())"
    using t p h by (simp add: safe_def fr_inv_def state_ok_def buffer_ok_def tensor_ok_def read_so_far_def)
qed

lemma begin_buffers_safe:
  assumes "fr_base c" "fr_state c = AtFileDescriptor" "state_ok c" "descriptor_ok d"
  shows "safe (begin_buffers alloc d c)"
proof -
  let ?p = "\<lparr>fp_name = fr_entry_name c, fp_descriptor = d, fp_buffers = [], fp_dest = None, fp_next_offset = fr_entry_data_offset c\<rparr>"
  let ?c = "c\<lparr>fr_pending := Some ?p, fr_entry_name := []\<rparr>"
  have "tensor_ok 0 ?c" using assms by (simp add: tensor_ok_def read_so_far_def)
  then show ?thesis
    using file_complete_tensor_safe [of 0 ?c] file_begin_buffer_safe [of 0 ?c] by (simp add: begin_buffers_def Let_def)
qed

lemma file_finish_buffer_safe:
  assumes inv: "fr_inv c" and s: "fr_state c = AtFileBuffer i"
  shows "safe (file_finish_buffer alloc i c)"
proof (cases "fr_pending c")
  case None
  then show ?thesis using inv by (simp add: file_finish_buffer_def fr_some_def safe_fail fr_inv_def)
next
  case (Some p)
  obtain dest where p: "read_so_far i p" "i < length (buffers (fp_descriptor p))" "fp_dest p = Some dest"
    "length dest = unat (byte_size (buffers (fp_descriptor p) ! i))"
    using inv s Some by (auto simp: fr_inv_def buffer_ok_def)
  let ?p = "p\<lparr>fp_dest := None, fp_buffers := fp_buffers p @ [dest]\<rparr>" let ?c = "c\<lparr>fr_pending := Some ?p\<rparr>"
  have q: "read_so_far (i + 1) ?p"
    using p by (simp add: read_so_far_def take_Suc_conv_app_nth list_all2_appendI)
  have t: "tensor_ok (i + 1) (c\<lparr>fr_pending := Some (?p\<lparr>fp_next_offset := off\<rparr>)\<rparr>)" "tensor_ok (i + 1) ?c" for off
    using inv q by (simp_all add: tensor_ok_def fr_inv_def read_so_far_def)
  show ?thesis
  proof (cases "i + 1 < length (buffers (fp_descriptor p))")
    case False
    then have "i + 1 = length (buffers (fp_descriptor p))" using p(2) by simp
    then show ?thesis
      using file_complete_tensor_safe [OF t(2)] Some p(3) by (simp add: file_finish_buffer_def fr_some_def Let_def)
  next
    case True
    have al: "0 < unat (fr_alignment c)" using inv by (simp add: fr_inv_def fr_base_def)
    let ?a = "align_up (fr_cursor c) (fr_alignment c)"
    have eq: "file_finish_buffer alloc i c = fr_try fr_fail ?a (\<lambda>off c.
        file_begin_buffer alloc (i + 1) (c\<lparr>fr_pending := Some (?p\<lparr>fp_next_offset := off\<rparr>)\<rparr>)) ?c"
      using Some p(3) True by (simp add: file_finish_buffer_def fr_some_def Let_def)
    show ?thesis
    proof (cases "align_nat (unat (fr_alignment c)) (unat (fr_cursor c)) < 2 ^ 64")
      case True
      then obtain off where "?a = Ok off" using align_up_eq [of "fr_alignment c" "fr_cursor c"] al by (auto simp: word_less_nat_alt)
      then show ?thesis unfolding eq using file_begin_buffer_safe [OF t(1)] by (simp add: fr_try_def)
    next
      case False
      then have "?a = Panic" using align_up_eq [of "fr_alignment c" "fr_cursor c"] al by (simp add: word_less_nat_alt)
      moreover have "2 ^ 64 < unat (fr_cursor c) + unat (fr_alignment c)"
        using False align_nat_less [OF al, of "unat (fr_cursor c)"] by linarith
      ultimately show ?thesis unfolding eq by (simp add: fr_try_def safe_def)
    qed
  qed
qed

lemma walk_descriptor_safe:
  assumes c: "fr_base c" "fr_state c = AtFileDescriptor" "state_ok c" and d: "descriptor_ok d"
  shows "safe (walk_descriptor alloc d c)"
proof (cases "is_virtual (layout d)")
  case False
  then have "safe (case fr_walk c of
        Some wk \<Rightarrow> if wk_stack wk = [] then fr_fail (NotAComposite (name_string (fr_entry_name c))) (c\<lparr>fr_entry_name := []\<rparr>)
          else begin_buffers alloc d c
      | None \<Rightarrow> begin_buffers alloc d c)"
    using begin_buffers_safe [OF c d] c(1) by (auto simp: safe_fail split: option.split)
  then show ?thesis using False by (cases "layout d") (simp_all add: walk_descriptor_def is_virtual_def)
next
  case True
  then obtain l where l: "layout d = Composite l" by (auto simp: is_virtual_def split: layout_descriptor.splits)
  have w: "idle (c\<lparr>fr_entry_name := [], fr_walk := Some (wk\<lparr>wk_stack :=
      \<lparr>of_name = fr_entry_name c, of_head = d, of_member_count = member_count l, of_members = [], of_validator = v\<rparr> # wk_stack wk\<rparr>)\<rparr>)"
    if "fr_walk c = Some wk" for wk v
    using c d that by (auto simp: idle_def open_ok_def intro!: fr_base_walk) (simp add: fr_base_def)
  have v: "from_core (validator_new d) \<noteq> Panic"
    using validator_new_no_panic by (simp add: from_core_def map_err_def split: result.split)
  show ?thesis
    unfolding walk_descriptor_def l layout_descriptor.case
    by (rule safe_some [OF c(1)]) (use c(1) v w in \<open>auto simp: safe_fail intro!: safe_try walk_next_safe\<close>)
qed

lemma file_finish_descriptor_safe:
  assumes inv: "fr_inv c" and st: "fr_state c = AtFileDescriptor"
  shows "safe (file_finish_descriptor alloc c)"
proof -
  have c: "fr_base c" "state_ok c" using inv by (simp_all add: fr_inv_def)
  have "decode b \<noteq> Panic" for b using decode_sound by blast
  then have "from_core (decode b) \<noteq> Panic" for b by (simp add: from_core_def map_err_def split: result.split)
  moreover have "descriptor_ok d" if "from_core (decode (fr_staging c)) = Ok d" for d
    using that decode_sound [of "fr_staging c" d] by (cases "decode (fr_staging c)") simp_all
  moreover have "safe (c\<lparr>fr_descriptor_out := Some d, fr_state := AtDone DoneDescriptor\<rparr>, Ok ())" if "descriptor_ok d" for d
    using c that by (simp add: safe_def fr_inv_def fr_base_def state_ok_def buffer_ok_def)
  ultimately show ?thesis
    unfolding file_finish_descriptor_def
    using c begin_buffers_safe [OF c(1) st c(2)] walk_descriptor_safe [OF c(1) st c(2)]
    by (intro safe_intros) (auto simp: safe_fail split: option.split job.split)
qed

lemma file_advance_safe:
  assumes inv: "fr_inv c"
  shows "safe (file_advance crc alloc c)"
proof -
  have c: "fr_base c" "state_ok c" using inv by (simp_all add: fr_inv_def)
  show ?thesis
    using c finish_header_safe finish_trailer_safe finish_index_safe finish_kv_safe file_finish_descriptor_safe [OF inv]
      file_finish_buffer_safe [OF inv]
    by (auto simp: file_advance_def safe_fail state_ok_def split: file_state.splits)
qed

lemma file_step_safe: "fr_inv c \<Longrightarrow> safe (file_reader_step crc alloc c)"
proof (induction c rule: wf_induct_rule [OF wf_measures [of "[file_phase, walk_left, at_descriptor, stage_left]"]])
  case (1 c)
  show ?case
  proof (cases "filling (fr_state c) \<and> \<not> fr_filled c < fr_target c")
    case False
    then show ?thesis
      using 1(2) by (subst file_reader_step.simps) (auto simp: safe_def filling_def split: file_state.splits file_done.splits)
  next
    case True
    have k: "safe (file_advance crc alloc c)" using file_advance_safe [OF 1(2)] .
    obtain c' r where a: "file_advance crc alloc c = (c', r)" by fastforce
    have st: "file_reader_step crc alloc c =
        (case r of Ok _ \<Rightarrow> file_reader_step crc alloc c' | Err e \<Rightarrow> (c', Err e) | Panic \<Rightarrow> (c', Panic))"
      using True a by (subst file_reader_step.simps) (auto simp: filling_def split: file_state.splits result.splits)
    show ?thesis
    proof (cases r)
      case (Ok u)
      then have a': "file_advance crc alloc c = (c', Ok ())" using a by simp
      show ?thesis using 1(1) [OF file_advance_progress [OF a']] k a' st Ok by (simp add: safe_def)
    qed (use st k a in \<open>simp_all add: safe_def\<close>)
  qed
qed

end

section \<open>Any calls in any order\<close>

inductive file_reachable :: "(bytes \<Rightarrow> u32) \<Rightarrow> destination_alloc \<Rightarrow> file_reader_core \<Rightarrow> bool" for crc alloc where
  new: "file_reachable crc alloc (file_reader_new n)"
| depth: "file_reachable crc alloc c \<Longrightarrow> file_reachable crc alloc (with_max_composite_depth n c)"
| step: "file_reachable crc alloc c \<Longrightarrow> file_reader_step crc alloc c = (c', r) \<Longrightarrow> r \<noteq> Panic \<Longrightarrow> file_reachable crc alloc c'"
| fill: "file_reachable crc alloc c \<Longrightarrow> file_input_dst c = Ok dst \<Longrightarrow> length bs \<le> length dst \<Longrightarrow>
    file_reachable crc alloc (file_fill bs c)"
| report: "file_reachable crc alloc c \<Longrightarrow> file_report_filled n c = (c', r) \<Longrightarrow> r \<noteq> Panic \<Longrightarrow> file_reachable crc alloc c'"
| begin_descriptor: "file_reachable crc alloc c \<Longrightarrow> file_reachable crc alloc (fst (file_begin_descriptor name c))"
| begin_tensor: "file_reachable crc alloc c \<Longrightarrow> file_reachable crc alloc (fst (begin_tensor name c))"
| begin_composite: "file_reachable crc alloc c \<Longrightarrow> file_reachable crc alloc (fst (begin_composite name c))"
| take_descriptor: "file_reachable crc alloc c \<Longrightarrow> file_reachable crc alloc (fst (take_descriptor c))"
| take_tensor: "file_reachable crc alloc c \<Longrightarrow> file_reachable crc alloc (fst (file_take_tensor c))"
| take_composite: "file_reachable crc alloc c \<Longrightarrow> file_reachable crc alloc (fst (take_composite c))"

lemma fill_inv:
  assumes "fr_inv c" "file_input_dst c = Ok dst" "length bs \<le> length dst"
  shows "fr_inv (file_fill bs c)"
proof (cases "fr_state c")
  case (AtFileBuffer i)
  then show ?thesis
    using assms by (auto simp: file_fill_def file_input_dst_def fr_inv_def state_ok_def buffer_ok_def store_at_def read_so_far_def
        split: option.splits if_splits)
qed (use assms in \<open>auto simp: file_fill_def file_input_dst_def filling_def fr_inv_def state_ok_def buffer_ok_def store_at_def
    split: if_splits\<close>)

lemma fr_fail_no_panic: "snd (fr_fail e c) \<noteq> Panic"
  by (simp add: fr_fail_def fr_fail_open_def)

lemma report_inv:
  assumes inv: "fr_inv c" and "file_report_filled n c = (c', r)" and "r \<noteq> Panic"
  shows "fr_inv c'"
proof (cases "filling (fr_state c) \<and> 0 < n \<and> n \<le> fr_target c - fr_filled c")
  case True
  then obtain cur where "c' = c\<lparr>fr_filled := fr_filled c + n, fr_cursor := cur\<rparr>"
    using assms by (auto simp: file_report_filled_def Let_def filling_def split: result.splits if_splits)
  then show ?thesis
    using inv True by (auto simp: fr_inv_def state_ok_def buffer_ok_def filling_def split: file_state.splits)
next
  case False
  then have "c' = c \<or> (c', r) = fr_fail UnexpectedEof c"
    using assms by (auto simp: file_report_filled_def Let_def split: if_splits)
  moreover have "safe (fr_fail UnexpectedEof c :: file_reader_core \<times> unit io_result)"
    by (rule safe_fail(1)) (use inv in \<open>simp add: fr_inv_def\<close>)
  then have "fr_inv (fst (fr_fail UnexpectedEof c :: file_reader_core \<times> unit io_result))"
    by (simp add: safe_def fr_fail_no_panic)
  ultimately show ?thesis using inv by (metis fst_conv)
qed

lemma begin_job_inv:
  assumes inv: "fr_inv c" and ok: "begin_job j c = (c', Ok ())"
  shows "idle c'"
proof -
  have "c' = c\<lparr>fr_job := Some j, fr_pending := None, fr_walk := None, fr_descriptor_out := None, fr_tensor_out := None,
      fr_composite_out := None\<rparr>" using ok by (simp add: begin_job_def split: if_splits)
  then show ?thesis using inv by (simp add: idle_def fr_inv_def) (simp add: fr_base_def)
qed

lemma safe_then: "safe (a c) \<Longrightarrow> snd (a c) \<noteq> Panic \<Longrightarrow> (\<And>c'. a c = (c', Ok ()) \<Longrightarrow> safe (b c')) \<Longrightarrow> safe (fr_then a b c)"
  by (auto simp: fr_then_def safe_def split: prod.split result.split)

lemma begin_safe:
  assumes inv: "fr_inv c" and b: "\<And>c'. idle c' \<Longrightarrow> safe (b c')"
  shows "safe (fr_then (begin_job j) b c)"
proof (rule safe_then)
  show "snd (begin_job j c) \<noteq> Panic" by (simp add: begin_job_def)
  show "safe (begin_job j c)"
  proof (cases "fr_is_open c")
    case True
    then obtain c' where "begin_job j c = (c', Ok ())" by (simp add: begin_job_def)
    then show ?thesis using idle_inv [OF begin_job_inv [OF inv]] by (simp add: safe_def)
  qed (use inv in \<open>simp add: begin_job_def safe_def\<close>)
  show "safe (b c')" if "begin_job j c = (c', Ok ())" for c' using b begin_job_inv [OF inv that] by blast
qed

lemma start_walk_safe: "idle c \<Longrightarrow> safe (start_walk head c)"
  unfolding start_walk_def Let_def
  by (intro safe_intros walk_next_safe idle_walk safe_Err idle_inv) simp_all

lemma begin_no_panic: "snd (file_begin_descriptor name c) \<noteq> Panic" "snd (begin_tensor name c) \<noteq> Panic"
  "snd (begin_composite name c) \<noteq> Panic"
proof -
  have s: "snd (start_descriptor name c) \<noteq> Panic" for name c
    by (simp add: start_descriptor_def fr_request_def split: option.split)
  have "snd (walk_next c) \<noteq> Panic" for c
    using s by (simp add: walk_next_def fr_some_def fr_fail_def fr_fail_open_def split: option.split)
  then have w: "snd (start_walk head c) \<noteq> Panic" for head c by (simp add: start_walk_def Let_def)
  have j: "snd (begin_job j c) \<noteq> Panic" for j by (simp add: begin_job_def)
  have "snd (fr_then (begin_job j) b c) \<noteq> Panic" if "\<And>c. snd (b c) \<noteq> Panic" for j and b :: "unit file_action"
    using j [of j] that by (auto simp: fr_then_def split: prod.split result.split)
  then show "snd (file_begin_descriptor name c) \<noteq> Panic" "snd (begin_tensor name c) \<noteq> Panic"
    "snd (begin_composite name c) \<noteq> Panic"
    using s w by (simp_all add: file_begin_descriptor_def begin_tensor_def begin_composite_def)
qed

lemma begin_inv:
  assumes "fr_inv c"
  shows "fr_inv (fst (file_begin_descriptor name c))" "fr_inv (fst (begin_tensor name c))" "fr_inv (fst (begin_composite name c))"
proof -
  have "safe (file_begin_descriptor name c)" "safe (begin_tensor name c)" "safe (begin_composite name c)"
    unfolding file_begin_descriptor_def begin_tensor_def begin_composite_def
    by (intro begin_safe [OF assms] start_descriptor_safe start_walk_safe idle_inv; assumption)+
  then show "fr_inv (fst (file_begin_descriptor name c))" "fr_inv (fst (begin_tensor name c))" "fr_inv (fst (begin_composite name c))"
    using begin_no_panic [of name c] by (simp_all add: safe_def)
qed

lemma finish_job_inv: "fr_base c \<Longrightarrow> fr_inv (finish_job c)"
  by (simp add: finish_job_def fr_inv_def state_ok_def buffer_ok_def)

lemma take_inv:
  assumes "fr_inv c"
  shows "fr_inv (fst (take_descriptor c))" "fr_inv (fst (file_take_tensor c))" "fr_inv (fst (take_composite c))"
proof -
  have "fr_base (c\<lparr>fr_descriptor_out := None\<rparr>)" "fr_base (c\<lparr>fr_tensor_out := None\<rparr>)" "fr_base (c\<lparr>fr_composite_out := None\<rparr>)"
    using assms by (simp_all add: fr_inv_def fr_base_def)
  then show "fr_inv (fst (take_descriptor c))" "fr_inv (fst (file_take_tensor c))" "fr_inv (fst (take_composite c))"
    using assms by (auto simp: take_descriptor_def file_take_tensor_def take_composite_def finish_job_inv split: option.split)
qed

lemma file_reachable_inv: "file_reachable crc system_allocate c \<Longrightarrow> fr_inv c"
proof (induction rule: file_reachable.induct)
  case (new n)
  then show ?case by (simp add: file_reader_new_def fr_inv_def fr_base_def state_ok_def buffer_ok_def FILE_HEADER_SIZE_def)
next
  case (depth c n)
  then have "fr_base (with_max_composite_depth n c)" "state_ok (with_max_composite_depth n c)"
    "buffer_ok (with_max_composite_depth n c)"
    by (auto simp: with_max_composite_depth_def fr_inv_def fr_base_def state_ok_def buffer_ok_def split: file_state.splits)
  then show ?case by (simp add: fr_inv_def)
next
  case (step c c' r)
  then show ?case using system.file_step_safe [of c crc] by (simp add: safe_def)
next
  case (fill c dst bs)
  show ?case by (rule fill_inv [OF fill.IH fill.hyps(2,3)])
next
  case (report c n c' r)
  show ?case by (rule report_inv [OF report.IH report.hyps(2,3)])
qed (simp_all add: begin_inv take_inv)

lemma input_dst_no_panic: "fr_inv c \<Longrightarrow> file_input_dst c \<noteq> Panic"
proof (cases "fr_state c")
  case (AtFileBuffer i)
  assume inv: "fr_inv c"
  show ?thesis
  proof (cases "fr_pending c")
    case (Some p)
    then show ?thesis using inv AtFileBuffer by (auto simp: file_input_dst_def fr_inv_def state_ok_def buffer_ok_def)
  qed (use AtFileBuffer in \<open>simp add: file_input_dst_def\<close>)
qed (simp_all add: file_input_dst_def fr_inv_def state_ok_def filling_def)

text \<open>
  C7. Safety on arbitrary input. Whatever bytes arrive and whatever methods are called in whatever order,
  \<open>input_dst\<close> is in bounds, what is handed over is valid, and \<open>step\<close> panics only where the position after
  a buffer is so close to \<open>2 ^ 64\<close> that the next multiple of the alignment overflows.
\<close>

theorem file_reader_safe:
  assumes "file_reachable crc system_allocate c"
  shows "file_input_dst c \<noteq> Panic \<and>
    (\<forall>c'. file_reader_step crc system_allocate c = (c', Panic) \<longrightarrow> 2 ^ 64 < unat (fr_cursor c') + unat (fr_alignment c')) \<and>
    (\<forall>t. snd (file_take_tensor c) = Some t \<longrightarrow> read_tensor_ok t) \<and>
    (\<forall>x. snd (take_composite c) = Some x \<longrightarrow> file_composite_ok x)"
proof -
  have inv: "fr_inv c" using assms by (rule file_reachable_inv)
  have "safe (file_reader_step crc system_allocate c)" using inv by (rule system.file_step_safe)
  then show ?thesis
    using inv input_dst_no_panic [OF inv]
    by (auto simp: safe_def file_take_tensor_def take_composite_def fr_inv_def fr_base_def split: option.splits)
qed

theorem file_reader_safe_witness:
  "file_input_dst (file_reader_new 5) \<noteq> Panic"
  using file_reader_safe [OF file_reachable.new] by blast

end
