(* ===== verification/File_Edges.thy ===== *)
theory File_Edges
  imports File_Roundtrip File_Safety
begin

text \<open>
  Two edges of the file reader: the alignment after an empty first buffer of a crafted index entry, and a
  request for an unknown name while an earlier result has not been taken.
\<close>

text \<open>
  A crafted index entry panics the reader. When the data offset of an entry lies beyond the last multiple of
  the alignment and the tensor has two buffers of which the first is empty, reading the tensor serves its
  descriptor and then panics with overflow instead of failing with an error.
\<close>

theorem crafted_data_offset_panics:
  assumes c: "fr_is_open c" "index_ok (fr_index c)" "e \<in> set (fr_index c)" "0 < unat (fr_alignment c)" and f: "length f < 2 ^ 64"
    and d: "encodable d" "unat (ie_descriptor_length e) = length (descriptor_bytes d)"
      "unat (ie_descriptor_offset e) + length (descriptor_bytes d) \<le> length f"
      "take (length (descriptor_bytes d)) (drop (unat (ie_descriptor_offset e)) f) = descriptor_bytes d"
    and b: "2 \<le> length (buffers d)" "byte_size (hd (buffers d)) = 0"
    and off: "2 ^ 64 \<le> align_nat (unat (fr_alignment c)) (unat (ie_data_offset e))"
  shows "\<exists>c1 c2. begin_tensor (ie_name e) c = (c1, Ok ()) \<and> serves crc system_allocate f c1 c2 \<and>
    snd (file_reader_step crc system_allocate c2) = Panic"
proof -
  let ?D = "descriptor_bytes d" and ?o = "unat (ie_descriptor_offset e)"
  let ?j = "c\<lparr>fr_job := Some JobTensor, fr_pending := None, fr_walk := None, fr_descriptor_out := None, fr_tensor_out := None,
           fr_composite_out := None, fr_entry_name := ie_name e, fr_entry_data_offset := ie_data_offset e\<rparr>"
  let ?c1 = "?j\<lparr>fr_cursor := word_of_nat ?o, fr_target := length ?D, fr_filled := 0, fr_staging := replicate (length ?D) 0,
    fr_state := AtFileDescriptor\<rparr>"
  have s: "begin_tensor (ie_name e) c = (?c1, Ok ())"
    using c(1) find_entry [OF c(2,3)] d(2)
    by (simp add: begin_tensor_def fr_then_def begin_job_def start_descriptor_def fr_request_def del: length_descriptor_bytes)
  have a: "asks f ?o (length ?D) ?c1" using d(3) f by (intro asks_request) (simp_all add: filling_def)
  let ?k = "?j\<lparr>fr_cursor := word_of_nat (?o + length ?D), fr_target := length ?D, fr_filled := length ?D, fr_staging := ?D,
    fr_state := AtFileDescriptor\<rparr>"
  have k: "served f ?o (length ?D) ?c1 = ?k"
    using d(4) by (simp add: served_request_simps slice_def del: of_nat_add length_descriptor_bytes)
  have "0 < length ?D" by simp
  moreover have "fr_filled ?c1 = 0" "fr_target ?c1 = length ?D" "fr_state ?c1 = AtFileDescriptor" by simp_all
  ultimately have "serves crc system_allocate f ?c1 ?k"
    using range_served [OF step_partial a] k by (simp add: filling_def del: length_descriptor_bytes)
  moreover have "snd (file_reader_step crc system_allocate ?k) = Panic"
  proof -
    let ?p = "\<lparr>fp_name = ie_name e, fp_descriptor = d, fp_buffers = [], fp_dest = Some [], fp_next_offset = ie_data_offset e\<rparr>"
    let ?b = "?k\<lparr>fr_entry_name := [], fr_pending := Some ?p, fr_cursor := ie_data_offset e, fr_target := 0, fr_filled := 0,
      fr_state := AtFileBuffer 0\<rparr>"
    have dec: "decode ?D = Ok d" using d(1) decode_bytes [of d "[]"] by (simp add: encodable_def)
    have "buffers d \<noteq> []" using b(1) by auto
    then have h: "buffers d \<noteq> []" "byte_size (buffers d ! 0) = 0" "Suc 0 < length (buffers d)"
      using b by (simp_all add: flip: hd_conv_nth)
    have adv: "file_advance crc system_allocate ?k = (?b, Ok ())"
      using dec h by (simp add: file_advance_def file_finish_descriptor_def fr_try_def begin_buffers_def Let_def file_begin_buffer_def
          fr_some_def pending_handle_def system_allocate_def aligned_buf_zeroed_def ok_or_def)
    have "align_up (ie_data_offset e) (fr_alignment c) = Panic"
      using align_up_eq [of "fr_alignment c" "ie_data_offset e"] c(4) off by (simp add: word_less_nat_alt)
    then have "snd (file_advance crc system_allocate ?b) = Panic"
      using h by (simp add: file_advance_def file_finish_buffer_def fr_some_def Let_def fr_try_def)
    then have "snd (file_reader_step crc system_allocate ?b) = Panic"
      by (subst file_reader_step.simps) (auto split: prod.split result.split)
    moreover have "file_reader_step crc system_allocate ?k = file_reader_step crc system_allocate ?b"
      by (rule step_full [OF _ _ adv]) (simp_all add: filling_def)
    ultimately show ?thesis by simp
  qed
  ultimately show ?thesis using s by blast
qed

definition crafted_tensor :: tensor_descriptor where
  "crafted_tensor = sample_descriptor\<lparr>buffers := [handle_empty Cpu, handle_empty Cpu]\<rparr>"

definition crafted_entry :: index_entry where
  "crafted_entry =
     \<lparr>ie_name = [97], ie_descriptor_offset = 0, ie_descriptor_length = word_of_nat (length (descriptor_bytes crafted_tensor)),
      ie_data_offset = - 1, ie_data_length = 0\<rparr>"

definition crafted_core :: file_reader_core where
  "crafted_core = (file_reader_new 0)\<lparr>fr_state := AtReady, fr_index := [crafted_entry], fr_alignment := 4096\<rparr>"

lemma crafted_encodable: "encodable crafted_tensor"
  using sample_descriptor_ok
  by (simp add: encodable_def crafted_tensor_def sample_descriptor_def descriptor_ok_def fields_ok_def finish_ok_def
      descriptor_body_def section_bytes_def opt_bytes_def handle_bytes_def)

theorem crafted_data_offset_panics_witness:
  "\<exists>c1 c2. begin_tensor [97] crafted_core = (c1, Ok ()) \<and>
    serves (\<lambda>b. 0) system_allocate (descriptor_bytes crafted_tensor) c1 c2 \<and>
    snd (file_reader_step (\<lambda>b. 0) system_allocate c2) = Panic"
proof -
  let ?D = "descriptor_bytes crafted_tensor"
  have D: "length ?D < 2 ^ 32" using crafted_encodable by (simp add: encodable_def)
  have e: "ie_name crafted_entry = [97]" by (simp add: crafted_entry_def)
  have c: "fr_is_open crafted_core" "index_ok (fr_index crafted_core)" "crafted_entry \<in> set (fr_index crafted_core)"
    "0 < unat (fr_alignment crafted_core)"
    by (simp_all add: crafted_core_def fr_is_open_def index_ok_def crafted_entry_def file_reader_new_def)
  have f: "length ?D < 2 ^ 64" using D by (rule less_trans) simp
  have d: "unat (ie_descriptor_length crafted_entry) = length ?D"
    "unat (ie_descriptor_offset crafted_entry) + length ?D \<le> length ?D"
    "take (length ?D) (drop (unat (ie_descriptor_offset crafted_entry)) ?D) = ?D"
    using unat_of_nat_u32 [OF D] by (simp_all add: crafted_entry_def del: length_descriptor_bytes)
  have b: "2 \<le> length (buffers crafted_tensor)" "byte_size (hd (buffers crafted_tensor)) = 0"
    by (simp_all add: crafted_tensor_def handle_empty_def)
  have off: "2 ^ 64 \<le> align_nat (unat (fr_alignment crafted_core)) (unat (ie_data_offset crafted_entry))"
    by (simp add: crafted_core_def crafted_entry_def align_nat_def unsigned_minus_1_eq_mask mask_eq_exp_minus_1)
  show ?thesis using crafted_data_offset_panics [OF c f crafted_encodable d b off] unfolding e .
qed

text \<open>
  A result that was not taken survives a request for an unknown name. The request fails, the core drops the
  result and still announces it: \<open>step\<close> reports a tensor that \<open>take_tensor\<close> does not have.
\<close>

theorem unknown_name_leaves_stale_reply:
  assumes "fr_state c = AtDone DoneTensor" and "name \<notin> ie_name ` set (fr_index c)"
  shows "\<exists>c'. begin_tensor name c = (c', Err (TensorNotFound (name_string name))) \<and>
    file_reader_step crc alloc c' = (c', Ok StepFileTensor) \<and> file_take_tensor c' = (c', None)"
proof -
  let ?c = "c\<lparr>fr_job := Some JobTensor, fr_pending := None, fr_walk := None, fr_descriptor_out := None, fr_tensor_out := None,
           fr_composite_out := None\<rparr>"
  have "find (\<lambda>e. ie_name e = name) (fr_index c) = None" using assms(2) by (auto simp: find_None_iff)
  then have "begin_tensor name c = (?c, Err (TensorNotFound (name_string name)))"
    using assms(1) by (simp add: begin_tensor_def fr_then_def begin_job_def fr_is_open_def start_descriptor_def)
  moreover have "file_reader_step crc alloc ?c = (?c, Ok (reply_of ?c))"
    using assms(1) by (intro step_final) (simp_all add: filling_def)
  ultimately show ?thesis using assms(1) by (simp add: reply_of_def file_take_tensor_def)
qed

theorem unknown_name_leaves_stale_reply_witness:
  "\<exists>c'. begin_tensor [98] (crafted_core\<lparr>fr_state := AtDone DoneTensor\<rparr>) =
      (c', Err (TensorNotFound (name_string [98]))) \<and>
    file_reader_step (\<lambda>b. 0) system_allocate c' = (c', Ok StepFileTensor) \<and> file_take_tensor c' = (c', None)"
  by (rule unknown_name_leaves_stale_reply) (simp_all add: crafted_core_def crafted_entry_def)

end
