(* ===== verification/File_Writer.thy ===== *)
theory File_Writer
  imports Sink_Driver File_Roundtrip
begin

text \<open>
  The tokio driver of the file writer (\<open>hurray-io/src/file/writer.rs\<close>): the writer core and its sink. Its loop is the
  one of the stream writer; a composite is a loop of tensor calls over the flattened tree. The flush at the end of
  \<open>finish\<close> is not modelled.
\<close>

section \<open>The writer\<close>

record file_writer =
  fd_inner :: bytes
  fd_core :: file_writer_core

definition file_drain ::
  "file_write_op \<Rightarrow> bytes \<Rightarrow> write_event list \<Rightarrow> (file_write_op \<times> bytes \<times> write_event list) \<times> unit poll" where
  "file_drain = drain_loop fo_step fo_output_src fo_report_written fo_report_sink_closed"

definition file_call ::
  "file_writer \<Rightarrow> file_write_op io_result \<Rightarrow> write_event list \<Rightarrow> (file_writer \<times> write_event list) \<times> unit poll" where
  "file_call w submitted evs =
     (case submitted of
        Ok op \<Rightarrow>
          (case file_drain op (fd_inner w) evs of
             ((op, inner, evs), r) \<Rightarrow> ((\<lparr>fd_inner = inner, fd_core = fo_core op\<rparr>, evs), r))
      | Err e \<Rightarrow> ((w, evs), Returned (Err e))
      | Panic \<Rightarrow> ((w, evs), Returned Panic))"

text \<open>\<open>with_options\<close>: the header is on the sink before the writer exists.\<close>

definition file_writer_on ::
  "file_writer_options \<Rightarrow> bytes \<Rightarrow> write_event list \<Rightarrow> (bytes \<times> write_event list) \<times> file_writer poll" where
  "file_writer_on o' inner evs =
     (case file_writer_with_options o' of
        Err e \<Rightarrow> ((inner, evs), Returned (Err e))
      | Panic \<Rightarrow> ((inner, evs), Returned Panic)
      | Ok core \<Rightarrow>
          (case file_call \<lparr>fd_inner = inner, fd_core = core\<rparr> (file_header core) evs of
             ((w, evs), Returned (Ok _)) \<Rightarrow> ((fd_inner w, evs), Returned (Ok w))
           | ((w, evs), Returned (Err e)) \<Rightarrow> ((fd_inner w, evs), Returned (Err e))
           | ((w, evs), Returned Panic) \<Rightarrow> ((fd_inner w, evs), Returned Panic)
           | ((w, evs), Suspended) \<Rightarrow> ((fd_inner w, evs), Suspended)))"

definition file_writer_on_default :: "bytes \<Rightarrow> write_event list \<Rightarrow> (bytes \<times> write_event list) \<times> file_writer poll" where
  "file_writer_on_default = file_writer_on default_file_writer_options"

definition file_write_tensor ::
  "file_writer \<Rightarrow> bytes \<Rightarrow> tensor_descriptor \<Rightarrow> bytes list \<Rightarrow> write_event list \<Rightarrow>
   (file_writer \<times> write_event list) \<times> unit poll" where
  "file_write_tensor w name d bufs evs = file_call w (file_tensor (fd_core w) name d bufs) evs"

text \<open>The loop of \<open>write_composite\<close>: the position counts the nodes that are out.\<close>

fun write_members ::
  "nat \<Rightarrow> file_writer \<Rightarrow> composite_write list \<Rightarrow> write_event list \<Rightarrow> (file_writer \<times> write_event list) \<times> unit poll" where
  "write_members k w [] evs = ((w, evs), Returned (Ok ()))"
| "write_members k w (x # xs) evs =
     (case file_write_tensor w (cw_name x) (cw_descriptor x) (cw_buffers x) evs of
        ((w, evs), Returned (Ok _)) \<Rightarrow> write_members (k + 1) w xs evs
      | ((w, evs), Returned (Err e)) \<Rightarrow>
          ((if k > 0 then w\<lparr>fd_core := fw_poison (fd_core w) IncompleteOutput\<rparr> else w, evs), Returned (Err e))
      | ((w, evs), r) \<Rightarrow> ((w, evs), r))"

definition file_write_composite ::
  "file_writer \<Rightarrow> bytes \<Rightarrow> tensor_descriptor \<Rightarrow> file_node list \<Rightarrow> write_event list \<Rightarrow>
   (file_writer \<times> write_event list) \<times> unit poll" where
  "file_write_composite w head_name head ms evs =
     (case flatten_composite head_name head ms of
        Ok xs \<Rightarrow> write_members 0 w xs evs
      | Err e \<Rightarrow> ((w, evs), Returned (Err e))
      | Panic \<Rightarrow> ((w, evs), Returned Panic))"

definition file_writer_finish ::
  "(bytes \<Rightarrow> u32) \<Rightarrow> file_writer \<Rightarrow> (bytes \<times> kv_value) list \<Rightarrow> write_event list \<Rightarrow>
   (file_writer \<times> write_event list) \<times> unit poll" where
  "file_writer_finish crc w kv evs = file_call w (file_finish crc (fd_core w) kv) evs"

fun write_file_node :: "file_writer \<Rightarrow> file_node \<Rightarrow> write_event list \<Rightarrow> (file_writer \<times> write_event list) \<times> unit poll" where
  "write_file_node w (FileTensorNode n d bufs) evs = file_write_tensor w n d bufs evs"
| "write_file_node w (FileCompositeNode n h ms) evs = file_write_composite w n h ms evs"

text \<open>A session: one call after the other, whatever the earlier ones came to.\<close>

fun write_file_nodes :: "file_writer \<Rightarrow> (file_node \<times> write_event list) list \<Rightarrow> file_writer \<times> unit poll list" where
  "write_file_nodes w [] = (w, [])"
| "write_file_nodes w ((n, evs) # calls) =
     (case write_file_node w n evs of ((w, _), r) \<Rightarrow> (case write_file_nodes w calls of (w, rs) \<Rightarrow> (w, r # rs)))"

section \<open>One operation\<close>

text \<open>The core is torn from the first byte of the operation on.\<close>

definition fo_tracks :: "file_writer_core \<Rightarrow> file_write_op \<Rightarrow> bytes \<Rightarrow> bool" where
  "fo_tracks w op out \<longleftrightarrow> (if out = [] then fo_core op = w \<and> fo_emitted op = 0 else fw_torn (fo_core op))"

lemma emits_run_torn:
  assumes "(emits fo_step fo_output_src fo_report_written)\<^sup>*\<^sup>* (op, []) (op2, out)" and "fo_ok op" and "fo_emitted op = 0"
  shows "fo_ok op2 \<and> fo_tracks (fo_core op) op2 out"
  using assms
proof (induction rule: rtranclp_induct2)
  case (step op1 out1 op2 out2)
  then have ok: "fo_ok op1" and tr: "fo_tracks (fo_core op) op1 out1" by blast+
  from step.hyps(2) obtain op' len n where e: "fo_step op1 = (op', Ok (WriteOutput len))" "0 < n" "n \<le> length (fo_output_src op')"
    "fo_report_written op' n = (op2, Ok ())" "out2 = out1 @ take n (fo_output_src op')"
    by (auto elim: emitsE)
  have o: "fo_ok op'" "fo_core op' = fo_core op1" "fo_emitted op' = fo_emitted op1"
    by (rule fo_step_ok [OF ok]; use e(1) in auto)+
  from fo_report_ok [OF o(1) e(2,3)] e(4) have r: "fo_ok op2"
    "fw_torn (fo_core op2) = (fw_torn (fo_core op') \<or> fo_emitted op' = 0)" by auto
  have "out2 \<noteq> []" using e(2,3,5) by auto
  then show ?case using r tr o(2,3) by (auto simp: fo_tracks_def split: if_splits)
qed (simp_all add: fo_tracks_def)

lemma file_drain_outcome:
  assumes ok: "fo_ok op" "fo_emitted op = 0" "\<not> fw_torn (fo_core op)"
    and d: "file_drain op inner evs = ((op', inner', evs'), r)"
  obtains (written) out where "r = Returned (Ok ())" "inner' = inner @ out" "completes op out (fo_core op')"
    | (untouched) "r \<noteq> Returned (Ok ())" "inner' = inner" "fo_core op' = fo_core op"
    | (torn) "r \<noteq> Returned (Ok ())" "fw_retired (fo_core op') = Some IncompleteOutput"
proof -
  let ?emits = "emits fo_step fo_output_src fo_report_written"
  from file_op_queue.drain_emits [OF d [unfolded file_drain_def] ok(1)] obtain op1 where
    e: "?emits\<^sup>*\<^sup>* (op, inner) (op1, inner')" "drained fo_step fo_output_src fo_report_sink_closed op1 op' r" by blast
  from emits_shift [OF e(1)] obtain sent where sent: "inner' = inner @ sent" "?emits\<^sup>*\<^sup>* (op, []) (op1, sent)" by blast
  have o1: "fo_ok op1" "fo_tracks (fo_core op) op1 sent" using emits_run_torn [OF sent(2) ok(1,2)] by blast+
  consider (ok) "r = Returned (Ok ())" "fo_step op1 = (op', Ok ItemWritten)"
    | (stop) "r = Suspended \<or> (\<exists>x. r = Returned (Err (Io x)))" "fo_step op1 = (op', Ok (WriteOutput (length (fo_output_src op'))))"
    | (closed) op2 x where "r = Returned (Err x)" "fo_report_sink_closed op2 = (op', x)"
    using e(2) unfolding drained_def by blast
  then show thesis
  proof cases
    case ok
    then show ?thesis using written sent unfolding completes_def by blast
  next
    case stop
    have k: "fo_core op' = fo_core op1" by (rule fo_step_ok [OF o1(1)]; use stop(2) in auto)
    have nr: "r \<noteq> Returned (Ok ())" using stop(1) by auto
    have un: "fw_unusable (fo_core op1) = None" using o1(1) by (simp add: fo_ok_def)
    show ?thesis
      using nr k un o1(2) sent(1) untouched torn by (cases "sent = []") (simp_all add: fo_tracks_def fw_retired_def)
  next
    case closed
    then show ?thesis using torn by (auto simp: fo_report_sink_closed_def fw_retired_def)
  qed
qed

lemma fw_retired_submit:
  assumes "fw_retired w = Some r"
  shows "file_tensor w n d bufs = Err (CoreUnusable r)" "file_finish crc w kv = Err (CoreUnusable r)"
  using assms by (simp_all add: file_tensor_def file_finish_def)

definition writable :: "written_tensor \<Rightarrow> bool" where
  "writable = (\<lambda>(name, d, bufs). utf8_valid name \<and> encodable d \<and> length (concat bufs) < 2 ^ 63)"

text \<open>The driver between calls: its file is the one of the core's history.\<close>

definition writing :: "file_writer_options \<Rightarrow> file_writer \<Rightarrow> written_tensor list \<Rightarrow> bool" where
  "writing o' w its \<longleftrightarrow> file_history o' (fd_inner w) (fd_core w) its"

definition sealed_off :: "file_writer \<Rightarrow> bool" where
  "sealed_off w \<longleftrightarrow> fw_retired (fd_core w) = Some IncompleteOutput"

lemma file_write_tensor_outcome:
  assumes h: "writing o' w its" and ok: "writable (name, d, bufs)"
    and c: "file_write_tensor w name d bufs evs = ((w', evs'), r)"
  obtains (written) "r = Returned (Ok ())" "writing o' w' (its @ [(name, d, bufs)])"
    | (untouched) "r \<noteq> Returned (Ok ())" "w' = w"
    | (torn) "r \<noteq> Returned (Ok ())" "sealed_off w'"
proof (cases "file_tensor (fd_core w) name d bufs")
  case (Ok op)
  obtain op' inner' evs2 r' where d: "file_drain op (fd_inner w) evs = ((op', inner', evs2), r')" by (metis prod.collapse)
  have w': "w' = \<lparr>fd_inner = inner', fd_core = fo_core op'\<rparr>" "r = r'"
    using c d by (simp_all add: file_write_tensor_def file_call_def Ok)
  have inv: "file_inv o' (fd_inner w) (fd_core w) its" using h history_inv by (simp add: writing_def)
  have v: "utf8_valid name" "encodable d" "length (concat bufs) < 2 ^ 63" using ok by (simp_all add: writable_def)
  from inv Ok v(2,3) obtain plan e where op: "op = file_op (fd_core w) plan (descriptor_bytes d) bufs (CommitTensor e)" "fo_ok op"
    by (rule tensor_op)
  have s: "fo_emitted op = 0" "fo_core op = fd_core w" "\<not> fw_torn (fo_core op)"
    using op(1) inv by (simp_all add: file_op_def file_inv_def)
  from op(2) s(1,3) d show ?thesis
  proof (cases rule: file_drain_outcome)
    case (written out)
    then show ?thesis
      using that(1) w' h file_history.tensor [OF _ Ok v(2,1,3)] by (simp add: writing_def)
  qed (use that(2,3) w' s(2) in \<open>simp_all add: sealed_off_def\<close>)
next
  case (Err e)
  then show ?thesis using c by (intro that(2)) (auto simp: file_write_tensor_def file_call_def)
next
  case Panic
  then show ?thesis using c by (intro that(2)) (auto simp: file_write_tensor_def file_call_def)
qed

lemma sealed_off_refuses:
  assumes "sealed_off w"
  shows "file_write_tensor w n d bufs evs = ((w, evs), Returned (Err (CoreUnusable IncompleteOutput)))"
    "file_writer_finish crc w kv evs = ((w, evs), Returned (Err (CoreUnusable IncompleteOutput)))"
  using assms fw_retired_submit
  by (simp_all add: sealed_off_def file_write_tensor_def file_writer_finish_def file_call_def)

section \<open>A composite\<close>

definition settled :: "unit poll \<Rightarrow> bool" where
  "settled r \<longleftrightarrow> r \<noteq> Suspended \<and> r \<noteq> Returned Panic"

text \<open>A composite that is not abandoned is all written, or nothing of it is, or the writer is sealed off.\<close>

lemma write_members_outcome:
  assumes "writing o' w its" and "\<forall>x \<in> set xs. writable (write_item x)"
    and "write_members k w xs evs = ((w', evs'), r)" and "settled r"
  shows "if r = Returned (Ok ()) then writing o' w' (its @ map write_item xs) else sealed_off w' \<or> k = 0 \<and> w' = w"
  using assms
proof (induction xs arbitrary: w its k evs)
  case (Cons x xs)
  obtain w1 evs1 r1 where c: "file_write_tensor w (cw_name x) (cw_descriptor x) (cw_buffers x) evs = ((w1, evs1), r1)"
    by (metis prod.collapse)
  have ok: "writable (cw_name x, cw_descriptor x, cw_buffers x)" using Cons.prems(2) by (simp add: write_item_def)
  have *: "sealed_off w' \<or> k = 0 \<and> w' = w" if "r1 \<noteq> Returned (Ok ())" "sealed_off w1 \<or> w1 = w"
    using that Cons.prems(3,4) c
    by (cases r1) (auto simp: settled_def sealed_off_def fw_poison_def fw_retired_def split: result.splits if_splits)
  have r: "r1 \<noteq> Returned (Ok ()) \<Longrightarrow> r \<noteq> Returned (Ok ())"
    using Cons.prems(3) c by (auto split: poll.splits result.splits)
  from Cons.prems(1) ok c show ?case
  proof (cases rule: file_write_tensor_outcome)
    case written
    then have "write_members (k + 1) w1 xs evs1 = ((w', evs'), r)" using Cons.prems(3) c by simp
    from Cons.IH [OF written(2) _ this Cons.prems(4)] Cons.prems(2)
    have "if r = Returned (Ok ()) then writing o' w' ((its @ [write_item x]) @ map write_item xs) else sealed_off w'"
      by (auto simp: write_item_def split: if_splits)
    then show ?thesis by (simp split: if_splits)
  qed (use * r in auto)
qed simp

lemma write_file_node_outcome:
  assumes h: "writing o' w its" and ok: "\<forall>it \<in> set (node_items n). writable it"
    and c: "write_file_node w n evs = ((w', evs'), r)" and s: "(\<exists>m h ms. n = FileCompositeNode m h ms) \<longrightarrow> settled r"
  shows "if r = Returned (Ok ()) then writing o' w' (its @ node_items n) else sealed_off w' \<or> w' = w"
proof (cases n)
  case (FileTensorNode name d bufs)
  have "writable (name, d, bufs)" "file_write_tensor w name d bufs evs = ((w', evs'), r)"
    using ok c FileTensorNode by simp_all
  with h show ?thesis by (cases rule: file_write_tensor_outcome) (simp_all add: FileTensorNode)
next
  case (FileCompositeNode m head ms)
  show ?thesis
  proof (cases "flatten_composite m head ms")
    case (Ok xs)
    have items: "map write_item xs = node_items n"
      using Ok nodes_writes_items(1) [of n xs] unfolding FileCompositeNode flatten_composite_node by blast
    then have "\<forall>x \<in> set xs. writable (write_item x)" using ok by (metis imageI list.set_map)
    moreover have "write_members 0 w xs evs = ((w', evs'), r)" using c FileCompositeNode Ok by (simp add: file_write_composite_def)
    ultimately have "if r = Returned (Ok ()) then writing o' w' (its @ map write_item xs) else sealed_off w' \<or> 0 = (0 :: nat) \<and> w' = w"
      using write_members_outcome [OF h] s FileCompositeNode by blast
    then show ?thesis using items by (simp split: if_splits)
  qed (use c FileCompositeNode in \<open>auto simp: file_write_composite_def\<close>)
qed

lemma sealed_off_node: "sealed_off w \<Longrightarrow> write_file_node w n evs = ((w', evs'), r) \<Longrightarrow> w' = w \<and> r \<noteq> Returned (Ok ())"
proof (cases n)
  case (FileCompositeNode m h ms)
  assume s: "sealed_off w" and c: "write_file_node w n evs = ((w', evs'), r)"
  show ?thesis
  proof (cases "flatten_composite m h ms")
    case (Ok xs)
    obtain x xs' where "xs = x # xs'"
      using Ok by (auto simp: flatten_composite_is_preorder r_bind_Ok_iff)
    then show ?thesis using c FileCompositeNode Ok sealed_off_refuses(1) [OF s] by (auto simp: file_write_composite_def)
  qed (use c FileCompositeNode in \<open>auto simp: file_write_composite_def\<close>)
qed (auto simp: sealed_off_refuses)

section \<open>A session\<close>

text \<open>The tensors of the calls that returned successfully.\<close>

definition returned_items :: "(file_node \<times> write_event list) list \<Rightarrow> unit poll list \<Rightarrow> written_tensor list" where
  "returned_items calls rs = concat (map (\<lambda>((n, _), r). if r = Returned (Ok ()) then node_items n else []) (zip calls rs))"

lemma returned_items_simps [simp]:
  "returned_items [] rs = []"
  "returned_items ((n, evs) # calls) (r # rs) = (if r = Returned (Ok ()) then node_items n else []) @ returned_items calls rs"
  by (simp_all add: returned_items_def)

text \<open>No composite call is dropped while suspended, or unwound by a panic.\<close>

definition no_group_abandoned :: "(file_node \<times> write_event list) list \<Rightarrow> unit poll list \<Rightarrow> bool" where
  "no_group_abandoned calls rs \<longleftrightarrow>
     list_all2 (\<lambda>(n, _) r. (\<exists>m h ms. n = FileCompositeNode m h ms) \<longrightarrow> settled r) calls rs"

lemma sealed_off_session:
  "sealed_off w \<Longrightarrow> write_file_nodes w calls = (w', rs) \<Longrightarrow> w' = w"
proof (induction w calls arbitrary: rs rule: write_file_nodes.induct)
  case (2 w n evs calls)
  then show ?case using sealed_off_node [of w n evs] by (auto split: prod.splits)
qed simp

lemma file_session:
  assumes "writing o' w its" and "\<forall>(n, _) \<in> set calls. \<forall>it \<in> set (node_items n). writable it"
    and "write_file_nodes w calls = (w', rs)" and "no_group_abandoned calls rs"
  shows "sealed_off w' \<or> writing o' w' (its @ returned_items calls rs)"
  using assms
proof (induction calls arbitrary: w its rs)
  case (Cons call calls)
  obtain n evs where call: "call = (n, evs)" by (cases call)
  obtain w1 evs1 r where w1: "write_file_node w n evs = ((w1, evs1), r)" by (metis prod.collapse)
  obtain rs1 where rs: "write_file_nodes w1 calls = (w', rs1)" "rs = r # rs1"
    using Cons.prems(3) w1 by (auto simp: call split: prod.splits)
  have "\<forall>it \<in> set (node_items n). writable it" using Cons.prems(2) by (simp add: call)
  moreover have "(\<exists>m h ms. n = FileCompositeNode m h ms) \<longrightarrow> settled r" "no_group_abandoned calls rs1"
    using Cons.prems(4) by (simp_all add: no_group_abandoned_def rs(2) call)
  ultimately have o: "if r = Returned (Ok ()) then writing o' w1 (its @ node_items n) else sealed_off w1 \<or> w1 = w"
    using write_file_node_outcome [OF Cons.prems(1) _ w1] by blast
  show ?case
  proof (cases "sealed_off w1")
    case True
    then show ?thesis using sealed_off_session [OF _ rs(1)] by simp
  next
    case False
    then have "writing o' w1 (its @ (if r = Returned (Ok ()) then node_items n else []))"
      using o Cons.prems(1) by (auto split: if_splits)
    from Cons.IH [OF this _ rs(1) \<open>no_group_abandoned calls rs1\<close>] Cons.prems(2)
    show ?thesis by (simp add: call rs(2))
  qed
qed simp

text \<open>The header.\<close>

lemma header_op:
  assumes "validate_options o' = Ok ()" and "file_header (fw_build o') = Ok op"
  shows "fo_ok op" "fo_emitted op = 0" "\<not> fw_torn (fo_core op)"
proof -
  have op: "op = file_op (fw_build o') [Owned] (header_bytes o') [] CommitHeader"
    using assms(2) by (simp add: file_header_def fw_retired_def fw_build_def header_bytes_def)
  have b: "plan_bytes op [Owned] = header_bytes o'" "length (header_bytes o') = 64"
    by (simp_all add: op file_op_def header_bytes_def length_header)
  show "fo_ok op" using file_op_ok(1) [of "fw_build o'" "[Owned]" "header_bytes o'" "[]" CommitHeader] b
    unfolding op [symmetric] by (simp add: fw_build_def)
  show "fo_emitted op = 0" "\<not> fw_torn (fo_core op)" by (simp_all add: op file_op_def fw_build_def)
qed

lemma file_writer_on_writing:
  assumes "file_writer_on o' [] evs = (x, Returned (Ok w))"
  shows "writing o' w []"
proof -
  have v: "file_writer_with_options o' = Ok (fw_build o')" "validate_options o' = Ok ()"
    using assms by (auto simp: file_writer_on_def file_writer_with_options_def r_bind_Ok_iff split: result.splits)
  obtain op where op: "file_header (fw_build o') = Ok op" by (auto simp: file_header_def fw_retired_def fw_build_def)
  obtain op' inner' evs' r where d: "file_drain op [] evs = ((op', inner', evs'), r)" by (metis prod.collapse)
  have r: "r = Returned (Ok ())" "w = \<lparr>fd_inner = inner', fd_core = fo_core op'\<rparr>"
    using assms v op d by (auto simp: file_writer_on_def file_call_def split: poll.splits result.splits)
  from header_op [OF v(2) op] d show ?thesis
  proof (cases rule: file_drain_outcome)
    case (written out)
    then show ?thesis
      using r(2) file_history.header [OF file_history.new [OF v(2)] op] by (simp add: writing_def)
  qed (use r in simp_all)
qed

lemma finish_op:
  assumes inv: "file_inv o' f w its" and op: "file_finish crc w kv = Ok op" and fit: "length f + length (fo_bytes op) < 2 ^ 64"
  shows "fo_ok op" "fo_emitted op = 0" "\<not> fw_torn (fo_core op)"
proof -
  have eq: "op = file_op w [Owned] (fo_bytes op) [] CommitFooter"
    using op inv
    by (auto simp: file_finish_def fw_retired_def file_inv_def Let_def file_op_def r_bind_Ok_iff split: if_splits)
  then have b: "plan_bytes op [Owned] = fo_bytes op" by simp
  show "fo_ok op"
    using file_op_ok(1) [of w "[Owned]" "fo_bytes op" "[]" CommitFooter] inv b fit
    unfolding eq [symmetric] by (simp add: file_inv_def)
  show "fo_emitted op = 0" "\<not> fw_torn (fo_core op)"
    using inv by (subst eq; simp add: file_op_def file_inv_def)+
qed

lemma finish_written:
  assumes h: "writing o' w its" and fin: "file_writer_finish crc w kv evs = ((w', evs'), Returned (Ok ()))"
    and kv: "kv_ok kv" "length (kv_bytes kv) < 2 ^ 32"
    and fit: "length (fd_inner w) + length (encode_index_section (sorted_entries (fd_core w))) < 2 ^ 62"
  shows "written_file crc o' its kv (sorted_entries (fd_core w)) (fd_inner w')"
proof -
  have hist: "file_history o' (fd_inner w) (fd_core w) its" using h by (simp add: writing_def)
  then have inv: "file_inv o' (fd_inner w) (fd_core w) its" by (rule history_inv)
  have "fw_header_written (fd_core w)"
    using fin by (auto simp: file_writer_finish_def file_call_def file_finish_def split: result.splits option.splits if_splits)
  from finish_accepted [OF hist this kv fit] obtain op where op: "file_finish crc (fd_core w) kv = Ok op"
    "length (fd_inner w) + length (fo_bytes op) < 2 ^ 64" by blast
  obtain op' inner' evs2 r where d: "file_drain op (fd_inner w) evs = ((op', inner', evs2), r)" by (metis prod.collapse)
  have r: "r = Returned (Ok ())" "w' = \<lparr>fd_inner = inner', fd_core = fo_core op'\<rparr>"
    using fin op(1) d by (auto simp: file_writer_finish_def file_call_def)
  from finish_op [OF inv op] d show ?thesis
  proof (cases rule: file_drain_outcome)
    case (written out)
    then show ?thesis
      unfolding written_file_def using hist op kv r(2)
      by (intro exI [of _ "fd_inner w"] exI [of _ "fd_core w"] exI [of _ op] exI [of _ out] exI [of _ "fo_core op'"]) simp
  qed (use r(1) in simp_all)
qed

section \<open>Sinks that take byte by byte\<close>

lemma drain_done:
  assumes "fo_ok op" and "fo_emitted op = 0" and "\<not> fw_torn (fo_core op)"
  shows "\<exists>op'. file_drain op inner (replicate (length (fo_queue op)) (Accepts 1) @ evs) =
    ((op', inner @ fo_queue op, evs), Returned (Ok ())) \<and> completes op (fo_queue op) (fo_core op')"
proof -
  from file_op_queue.drain_bytewise [OF assms(1) refl] obtain op' where
    d: "file_drain op inner (replicate (length (fo_queue op)) (Accepts 1) @ evs) =
      ((op', inner @ fo_queue op, evs), Returned (Ok ()))" unfolding file_drain_def by blast
  from assms d have "completes op (fo_queue op) (fo_core op')" by (cases rule: file_drain_outcome) auto
  then show ?thesis using d by blast
qed

lemma open_done:
  obtains evs w where "file_writer_on sample_options [] evs = ((fd_inner w, []), Returned (Ok w))"
    "writing sample_options w []" "fw_header_written (fd_core w)" "length (fd_inner w) = 64"
proof -
  let ?o = sample_options
  obtain op where op: "file_header (fw_build ?o) = Ok op" by (auto simp: file_header_def fw_retired_def fw_build_def)
  have eq: "op = file_op (fw_build ?o) [Owned] (header_bytes ?o) [] CommitHeader"
    using op by (simp add: file_header_def fw_retired_def fw_build_def header_bytes_def)
  note ok = header_op [OF sample_valid op]
  let ?evs = "replicate (length (fo_queue op)) (Accepts 1)"
  from drain_done [OF ok, of "[]" "[]"] obtain op' where d: "file_drain op [] ?evs = ((op', fo_queue op, []), Returned (Ok ()))"
    "completes op (fo_queue op) (fo_core op')" by auto
  let ?w = "\<lparr>fd_inner = fo_queue op, fd_core = fo_core op'\<rparr>"
  have on: "file_writer_on ?o [] ?evs = ((fd_inner ?w, []), Returned (Ok ?w))"
    using op d(1) sample_valid by (simp add: file_writer_on_def file_writer_with_options_def file_call_def)
  have "fw_header_written (fo_core op')"
    using completes_queue(2) [OF ok(1) d(2)] unfolding eq by (simp add: file_op_def apply_commit_def)
  moreover have "length (fo_queue op) = 64"
    unfolding eq by (simp add: fo_queue_def file_op_def seg_bytes_def plan_bytes_def header_bytes_def length_header)
  ultimately show thesis using that [OF on file_writer_on_writing [OF on]] by simp
qed

lemma tensor_done:
  assumes h: "writing sample_options w its" "fw_header_written (fd_core w)" and n: "n < 0x80" "[n] \<notin> fst ` set its"
    and d: "encodable d" "list_all2 (\<lambda>h b. length b = unat (byte_size h)) (buffers d) bufs"
    and small: "length (fd_inner w) + k < 2 ^ 60" "length (descriptor_bytes d) + room 4096 bufs < 2 ^ 33" "k = 2 ^ 34"
  obtains evs w' where "\<forall>more. file_write_tensor w [n] d bufs (evs @ more) = ((w', more), Returned (Ok ()))"
    "writing sample_options w' (its @ [([n], d, bufs)])" "fw_header_written (fd_core w')" "length (fd_inner w') < length (fd_inner w) + k"
proof -
  have hist: "file_history sample_options (fd_inner w) (fd_core w) its" using h(1) by (simp add: writing_def)
  have fit: "length (fd_inner w) + length (descriptor_bytes d) + 4096 + room 4096 bufs < 2 ^ 63" using small by simp
  from tensor_accepted [OF hist h(2) _ _ _ n(2) d fit [unfolded sample_alignment [symmetric]]] n(1) obtain op out c where
    o: "file_tensor (fd_core w) [n] d bufs = Ok op" "completes op out c" "fw_header_written c"
      "file_history sample_options (fd_inner w @ out) c (its @ [([n], d, bufs)])"
      "length out \<le> length (descriptor_bytes d) + 4096 + room 4096 bufs + 8"
    unfolding sample_alignment by auto
  have inv: "file_inv sample_options (fd_inner w) (fd_core w) its" using hist by (rule history_inv)
  have "length (concat bufs) \<le> room 4096 bufs" by (induction bufs) (simp_all add: room_def)
  then have "length (concat bufs) < 2 ^ 63" using fit by linarith
  from inv o(1) d(1) this obtain plan e where op: "op = file_op (fd_core w) plan (descriptor_bytes d) bufs (CommitTensor e)" "fo_ok op"
    by (rule tensor_op)
  have s: "fo_emitted op = 0" "\<not> fw_torn (fo_core op)" using op(1) inv by (simp_all add: file_op_def file_inv_def)
  note q = completes_queue [OF op(2) o(2)]
  let ?w = "\<lparr>fd_inner = fd_inner w @ out, fd_core = c\<rparr>"
  have "file_write_tensor w [n] d bufs (replicate (length (fo_queue op)) (Accepts 1) @ more) = ((?w, more), Returned (Ok ()))" for more
  proof -
    from drain_done [OF op(2) s] obtain op' where d':
      "file_drain op (fd_inner w) (replicate (length (fo_queue op)) (Accepts 1) @ more) =
        ((op', fd_inner w @ fo_queue op, more), Returned (Ok ()))" "completes op (fo_queue op) (fo_core op')" by blast
    have "fo_core op' = c" using completes_queue(2) [OF op(2) d'(2)] q by simp
    then show ?thesis using d'(1) o(1) q(1) by (simp add: file_write_tensor_def file_call_def)
  qed
  then have evs: "\<exists>evs. \<forall>more. file_write_tensor w [n] d bufs (evs @ more) = ((?w, more), Returned (Ok ()))" by blast
  have "writing sample_options ?w (its @ [([n], d, bufs)])" "length (fd_inner ?w) < length (fd_inner w) + k"
    using o(4,5) small by (simp_all add: writing_def del: length_descriptor_bytes)
  then show thesis using evs that [of _ ?w] o(3) by auto
qed

lemma finish_done:
  assumes h: "writing sample_options w its" "fw_header_written (fd_core w)" and kv: "kv_ok kv" "length (kv_bytes kv) < 2 ^ 32"
    and small: "length (fd_inner w) < 2 ^ 61" "8 + sum_list (map (\<lambda>it. 34 + length (fst it)) its) < (2 :: nat) ^ 61"
  obtains evs w' where "file_writer_finish crc w kv evs = ((w', []), Returned (Ok ()))"
proof -
  have hist: "file_history sample_options (fd_inner w) (fd_core w) its" using h(1) by (simp add: writing_def)
  have inv: "file_inv sample_options (fd_inner w) (fd_core w) its" using hist by (rule history_inv)
  from finish_accepted [OF hist h(2) kv index_fits [OF hist small]] obtain op where op: "file_finish crc (fd_core w) kv = Ok op"
    "length (fd_inner w) + length (fo_bytes op) < 2 ^ 64" by blast
  note ok = finish_op [OF inv op]
  obtain evs op' where "file_drain op (fd_inner w) evs = ((op', fd_inner w @ fo_queue op, []), Returned (Ok ()))"
    using drain_done [OF ok] by blast
  then have "file_writer_finish crc w kv evs = ((\<lparr>fd_inner = fd_inner w @ fo_queue op, fd_core = fo_core op'\<rparr>, []), Returned (Ok ()))"
    using op(1) by (simp add: file_writer_finish_def file_call_def)
  then show thesis by (rule that)
qed

lemma drain_nothing:
  assumes "fo_ok op" and "fo_queue op \<noteq> []"
  shows "\<exists>op'. file_drain op inner [] = ((op', inner, []), Suspended) \<and> fo_core op' = fo_core op"
  by (rule fo_step_ok [OF assms(1)]) (use assms(2) in \<open>simp_all add: file_drain_def drain_loop.simps\<close>)

lemma tensor_not_begun:
  assumes h: "writing o' w its" and t: "file_tensor (fd_core w) name d bufs = Ok op" and ok: "writable (name, d, bufs)"
  shows "file_write_tensor w name d bufs [] = ((w, []), Suspended)"
proof -
  have inv: "file_inv o' (fd_inner w) (fd_core w) its" using h history_inv by (simp add: writing_def)
  have v: "encodable d" "length (concat bufs) < 2 ^ 63" using ok by (simp_all add: writable_def)
  from inv t v obtain plan e where op: "op = file_op (fd_core w) plan (descriptor_bytes d) bufs (CommitTensor e)" "fo_ok op"
    "fo_queue op = tensor_region (unat (fo_data_buffer_alignment o')) (length (fd_inner w)) (descriptor_bytes d) bufs"
    by (rule tensor_op)
  have "fo_queue op \<noteq> []" unfolding op(3) tensor_region_def Let_def by (simp add: descriptor_bytes_def MAGIC_def)
  from drain_nothing [OF op(2) this, of "fd_inner w"] show ?thesis
    using t op(1) by (auto simp: file_write_tensor_def file_call_def file_op_def)
qed

section \<open>Properties\<close>

text \<open>
  C11. A session with the tokio file writer: opened on an empty sink, any calls with any behaviour of the sink, their results
  whatever they are, then \<open>finish\<close>. When no composite call was dropped while suspended and \<open>finish\<close> returns
  successfully, the sink holds a file of exactly the tensors of the calls that returned successfully, in
  order. The round trips of the file reader apply to it.
\<close>

theorem file_session_written:
  assumes "file_writer_on o' [] evs0 = (x, Returned (Ok w0))" and "write_file_nodes w0 calls = (w1, rs)"
    and "file_writer_finish crc w1 kv evs = ((w2, evs'), Returned (Ok ()))"
    and "no_group_abandoned calls rs"
    and "\<forall>(n, _) \<in> set calls. \<forall>it \<in> set (node_items n). writable it" and "kv_ok kv" and "length (kv_bytes kv) < 2 ^ 32"
    and "length (fd_inner w1) + length (encode_index_section (sorted_entries (fd_core w1))) < 2 ^ 62"
  shows "written_file crc o' (returned_items calls rs) kv (sorted_entries (fd_core w1)) (fd_inner w2)"
proof -
  have "\<not> sealed_off w1" using assms(3) sealed_off_refuses(2) by auto
  moreover have "sealed_off w1 \<or> writing o' w1 ([] @ returned_items calls rs)"
    using file_writer_on_writing [OF assms(1)] assms(5,2,4) by (rule file_session)
  ultimately show ?thesis using finish_written assms(3,6-8) by simp
qed

theorem file_session_written_witness:
  "\<exists>evs1 w0 w1 evs2 w2 es. write_file_nodes w0 [(FileTensorNode [97] sample_tensor [sample_payload], evs1)] = (w1, [Returned (Ok ())]) \<and>
     file_writer_finish (\<lambda>b. 0) w1 [] evs2 = ((w2, []), Returned (Ok ())) \<and>
     written_file (\<lambda>b. 0) sample_options [([97], sample_tensor, [sample_payload])] [] es (fd_inner w2)"
proof -
  obtain evs0 w0 where w0: "file_writer_on sample_options [] evs0 = ((fd_inner w0, []), Returned (Ok w0))"
    "writing sample_options w0 []" "fw_header_written (fd_core w0)" "length (fd_inner w0) = 64" by (rule open_done)
  obtain evs1 w1 where w1: "\<forall>more. file_write_tensor w0 [97] sample_tensor [sample_payload] (evs1 @ more) = ((w1, more), Returned (Ok ()))"
    "writing sample_options w1 ([] @ [([97], sample_tensor, [sample_payload])])" "fw_header_written (fd_core w1)"
    "length (fd_inner w1) < length (fd_inner w0) + 2 ^ 34"
    by (rule tensor_done [OF w0(2,3), of 97 sample_tensor "[sample_payload]" "2 ^ 34"])
      (use w0(4) length_sample sample_encodable sample_buffers in
        \<open>simp_all add: room_def sample_payload_def del: length_descriptor_bytes\<close>)
  have kv: "kv_ok []" "length (kv_bytes []) < 2 ^ 32" by (simp_all add: kv_ok_def kv_bytes_def)
  obtain evs2 w2 where w2: "file_writer_finish (\<lambda>b. 0) w1 [] evs2 = ((w2, []), Returned (Ok ()))"
    by (rule finish_done [OF w1(2,3) kv]) (use w0(4) w1(4) in simp_all)
  let ?calls = "[(FileTensorNode [97] sample_tensor [sample_payload], evs1)]"
  have c: "write_file_nodes w0 ?calls = (w1, [Returned (Ok ())])" using spec [OF w1(1), of "[]"] by simp
  have "file_history sample_options (fd_inner w1) (fd_core w1) [([97], sample_tensor, [sample_payload])]"
    using w1(2) by (simp add: writing_def)
  from index_fits [OF this] w0(4) w1(4)
  have "length (fd_inner w1) + length (encode_index_section (sorted_entries (fd_core w1))) < 2 ^ 62" by simp
  moreover have "no_group_abandoned ?calls [Returned (Ok ())]" by (simp add: no_group_abandoned_def)
  moreover have "\<forall>(n, _) \<in> set ?calls. \<forall>it \<in> set (node_items n). writable it"
    using sample_encodable by (simp add: writable_def sample_payload_def)
  ultimately have "written_file (\<lambda>b. 0) sample_options (returned_items ?calls [Returned (Ok ())]) []
      (sorted_entries (fd_core w1)) (fd_inner w2)"
    using file_session_written [OF w0(1) c w2 _ _ kv] by blast
  then have "written_file (\<lambda>b. 0) sample_options [([97], sample_tensor, [sample_payload])] [] (sorted_entries (fd_core w1)) (fd_inner w2)"
    by simp
  with c w2 show ?thesis by blast
qed

text \<open>
  A composite that is dropped between its members. The following computation of the drivers shows a defect of the code, not what it
  means to do: when the future of \<open>write_composite\<close> is suspended before the first byte of
  a member and is dropped there, the writer is not poisoned, \<open>finish\<close> returns successfully, and the
  file has the head, which declares two members, and none of them. The poisoning in \<open>write_composite\<close> excludes
  such a file only for members that return an error.
\<close>

theorem cancelled_composite_sealed:
  "\<exists>evs0 w0 evs1 w1 evs2 w2 ws es.
     file_writer_on default_file_writer_options [] evs0 = ((fd_inner w0, []), Returned (Ok w0)) \<and>
     flatten_composite [104] sample_head sample_members = Ok ws \<and> length ws = 3 \<and>
     file_write_composite w0 [104] sample_head sample_members evs1 = ((w1, []), Suspended) \<and>
     \<not> fw_is_unusable (fd_core w1) \<and>
     file_writer_finish crc w1 [] evs2 = ((w2, []), Returned (Ok ())) \<and>
     written_file crc default_file_writer_options [([104], sample_head, [])] [] es (fd_inner w2)"
proof -
  let ?a = "([97], sample_part 0 1, [[]]) :: written_tensor"
  have e: "encodable sample_head" "encodable (sample_part 0 1)" using sample_head_encodable sample_part_encodable by simp_all
  have bs: "list_all2 (\<lambda>h b. length b = unat (byte_size h)) (buffers (sample_part off n)) [[]]"
    "buffers sample_head = []" for off n
    by (simp_all add: sample_part_def sample_head_def handle_empty_def)
  obtain ws where ws: "flatten_composite [104] sample_head sample_members = Ok ws"
    "ws = [\<lparr>cw_name = [104], cw_descriptor = sample_head, cw_buffers = []\<rparr>,
      \<lparr>cw_name = [97], cw_descriptor = sample_part 0 1, cw_buffers = [[]]\<rparr>,
      \<lparr>cw_name = [98], cw_descriptor = sample_part 1 3, cw_buffers = [[]]\<rparr>]"
    using sample_members_valid by (simp add: flatten_composite_def flatten_loop_eq sample_members_def)
  obtain evs0 w0 where w0: "file_writer_on sample_options [] evs0 = ((fd_inner w0, []), Returned (Ok w0))"
    "writing sample_options w0 []" "fw_header_written (fd_core w0)" "length (fd_inner w0) = 64" by (rule open_done)
  obtain evs1 w1 where w1: "\<forall>more. file_write_tensor w0 [104] sample_head [] (evs1 @ more) = ((w1, more), Returned (Ok ()))"
    "writing sample_options w1 ([] @ [([104], sample_head, [])])" "fw_header_written (fd_core w1)"
    "length (fd_inner w1) < length (fd_inner w0) + 2 ^ 34"
    by (rule tensor_done [OF w0(2,3), of 104 sample_head "[]" "2 ^ 34"])
      (use w0(4) e(1) bs(2) in \<open>simp_all add: room_def encodable_def del: length_descriptor_bytes\<close>)
  have h1: "file_history sample_options (fd_inner w1) (fd_core w1) [([104], sample_head, [])]"
    using w1(2) by (simp add: writing_def)
  have "length (descriptor_bytes (sample_part 0 1)) < 2 ^ 32" using e(2) by (simp add: encodable_def)
  then have fit: "length (fd_inner w1) + length (descriptor_bytes (sample_part 0 1)) + unat (fo_data_buffer_alignment sample_options) +
      room (unat (fo_data_buffer_alignment sample_options)) [[]] < 2 ^ 63"
    using w0(4) w1(4) unfolding sample_alignment by (simp add: room_def del: length_descriptor_bytes)
  have "\<exists>op. file_tensor (fd_core w1) [97] (sample_part 0 1) [[]] = Ok op"
    using tensor_accepted [OF h1 w1(3) _ _ _ _ e(2) bs(1) fit, of "[97]"] by auto
  moreover have "writable ?a" using e(2) by (simp add: writable_def)
  ultimately have second: "file_write_tensor w1 [97] (sample_part 0 1) [[]] [] = ((w1, []), Suspended)"
    using tensor_not_begun [OF w1(2)] by blast
  have c: "file_write_composite w0 [104] sample_head sample_members evs1 = ((w1, []), Suspended)"
    using spec [OF w1(1), of "[]"] second by (simp add: file_write_composite_def ws(1)) (simp add: ws(2))
  have kv: "kv_ok []" "length (kv_bytes []) < 2 ^ 32" by (simp_all add: kv_ok_def kv_bytes_def)
  obtain evs2 w2 where w2: "file_writer_finish crc w1 [] evs2 = ((w2, []), Returned (Ok ()))"
    by (rule finish_done [OF w1(2,3) kv]) (use w0(4) w1(4) in simp_all)
  have "length (fd_inner w1) + length (encode_index_section (sorted_entries (fd_core w1))) < 2 ^ 62"
    by (rule index_fits [OF h1]) (use w0(4) w1(4) in simp_all)
  from finish_written [OF w1(2) w2 kv this]
  have g: "written_file crc sample_options [([104], sample_head, [])] [] (sorted_entries (fd_core w1)) (fd_inner w2)" by simp
  have "\<not> fw_is_unusable (fd_core w1)"
    using history_inv [OF h1] by (simp add: file_inv_def fw_is_unusable_def fw_retired_def)
  moreover have "length ws = 3" by (simp add: ws(2))
  ultimately show ?thesis using w0(1) ws(1) c w2 g by blast
qed

end
