(* ===== verification/File_Reader.thy ===== *)
theory File_Reader
  imports File_Writer Source_Driver
begin

text \<open>
  The tokio driver of the file reader (\<open>hurray-io/src/file/reader.rs\<close>): a seekable source with fixed contents and the
  reader core, which says what range to read next. An event of the source stands for the next call of \<open>seek\<close>
  or \<open>read\<close>; a \<open>seek\<close> that is interrupted fails.
\<close>

section \<open>The source\<close>

definition EINTR :: nat where
  "EINTR = 4"

fun source_seek :: "read_event list \<Rightarrow> read_event list \<times> unit poll" where
  "source_seek [] = ([], Suspended)"
| "source_seek (Reads _ # evs) = (evs, Returned (Ok ()))"
| "source_seek (ReadInterrupted # evs) = (evs, Returned (Err (Io EINTR)))"
| "source_seek (ReadFails e # evs) = (evs, Returned (Err (Io e)))"

definition fill_range ::
  "bytes \<Rightarrow> file_reader_core \<Rightarrow> u64 \<Rightarrow> usize \<Rightarrow> read_event list \<Rightarrow> (file_reader_core \<times> read_event list) \<times> unit poll" where
  "fill_range inner c off len evs =
     (case source_seek evs of
        (evs, Suspended) \<Rightarrow> ((c, evs), Suspended)
      | (evs, Returned (Err e)) \<Rightarrow> ((c, evs), Returned (Err e))
      | (evs, Returned Panic) \<Rightarrow> ((c, evs), Returned Panic)
      | (evs, Returned (Ok _)) \<Rightarrow>
          (case file_input_dst c of
             Ok dst \<Rightarrow>
               if len \<le> length dst then
                 (case source_read len (drop (unat off) inner) evs of
                    ((_, evs), Returned (Ok bs)) \<Rightarrow>
                      (case file_report_filled (length bs) (file_fill bs c) of (c, r) \<Rightarrow> ((c, evs), Returned r))
                  | ((_, evs), Returned (Err e)) \<Rightarrow> ((c, evs), Returned (Err e))
                  | ((_, evs), Returned Panic) \<Rightarrow> ((c, evs), Returned Panic)
                  | ((_, evs), Suspended) \<Rightarrow> ((c, evs), Suspended))
               else ((c, evs), Returned Panic)
           | Err e \<Rightarrow> ((c, evs), Returned (Err e))
           | Panic \<Rightarrow> ((c, evs), Returned Panic)))"

lemma source_seek_cases:
  obtains "evs = []" "source_seek evs = ([], Suspended)"
    | e evs' where "source_seek evs = (evs', Returned (Err (Io e)))" "length evs = Suc (length evs')"
    | k evs' where "evs = Reads k # evs'" "source_seek evs = (evs', Returned (Ok ()))"
  by (cases evs rule: source_seek.cases) auto

lemma fill_range_shrinks: "fill_range inner c off len evs = ((c', evs'), Returned (Ok u)) \<Longrightarrow> length evs' < length evs"
  by (cases rule: source_seek_cases [of evs])
    (auto simp: fill_range_def dest: source_read_shrinks split: result.splits prod.splits poll.splits if_splits)

section \<open>The reader\<close>

function file_drive ::
  "(bytes \<Rightarrow> u32) \<Rightarrow> destination_alloc \<Rightarrow> bytes \<Rightarrow> file_reader_core \<Rightarrow> read_event list \<Rightarrow>
   (file_reader_core \<times> read_event list) \<times> file_step poll" where
  "file_drive crc alloc inner c evs =
     (case file_reader_step crc alloc c of
        (c, Ok (StepRange off len)) \<Rightarrow>
          (case fill_range inner c off len evs of
             ((c, evs'), Returned (Ok _)) \<Rightarrow> file_drive crc alloc inner c evs'
           | ((c, evs'), Returned (Err e)) \<Rightarrow> ((c, evs'), Returned (Err e))
           | ((c, evs'), Returned Panic) \<Rightarrow> ((c, evs'), Returned Panic)
           | ((c, evs'), Suspended) \<Rightarrow> ((c, evs'), Suspended))
      | (c, Ok other) \<Rightarrow> ((c, evs), Returned (Ok other))
      | (c, Err e) \<Rightarrow> ((c, evs), Returned (Err e))
      | (c, Panic) \<Rightarrow> ((c, evs), Returned Panic))"
  by pat_completeness auto

termination
  by (relation "measure (\<lambda>(crc, alloc, inner, c, evs). length evs)") (auto dest: fill_range_shrinks [OF sym])

declare file_drive.simps [simp del]

record file_reader =
  fe_inner :: bytes
  fe_core :: file_reader_core
  fe_index :: "index_entry list"
  fe_kv :: "(bytes \<times> kv_value) list"

text \<open>The loop of \<open>open\<close> is the one of \<open>drive\<close>, with its own test of the step it ends with.\<close>

definition file_open ::
  "(bytes \<Rightarrow> u32) \<Rightarrow> destination_alloc \<Rightarrow> bytes \<Rightarrow> read_event list \<Rightarrow> read_event list \<times> file_reader poll" where
  "file_open crc alloc inner evs =
     (case source_seek evs of
        (evs, Suspended) \<Rightarrow> (evs, Suspended)
      | (evs, Returned (Err e)) \<Rightarrow> (evs, Returned (Err e))
      | (evs, Returned Panic) \<Rightarrow> (evs, Returned Panic)
      | (evs, Returned (Ok _)) \<Rightarrow>
          (case file_drive crc alloc inner (file_reader_new (word_of_nat (length inner))) evs of
             ((c, evs), Returned (Ok StepReady)) \<Rightarrow>
               (evs, Returned (Ok \<lparr>fe_inner = inner, fe_core = c, fe_index = fr_index c, fe_kv = fr_kv c\<rparr>))
           | ((c, evs), Returned (Ok _)) \<Rightarrow> (evs, Returned (Err CoreFailed))
           | ((c, evs), Returned (Err e)) \<Rightarrow> (evs, Returned (Err e))
           | ((c, evs), Returned Panic) \<Rightarrow> (evs, Returned Panic)
           | ((c, evs), Suspended) \<Rightarrow> (evs, Suspended)))"

definition reader_with_max_composite_depth :: "usize \<Rightarrow> file_reader \<Rightarrow> file_reader" where
  "reader_with_max_composite_depth n r = r\<lparr>fe_core := with_max_composite_depth n (fe_core r)\<rparr>"

definition tensor_names :: "file_reader \<Rightarrow> bytes list" where
  "tensor_names r = map ie_name (fe_index r)"

text \<open>The three reads differ in how they begin, the step they wait for and what they take.\<close>

definition file_request ::
  "(bytes \<Rightarrow> u32) \<Rightarrow> destination_alloc \<Rightarrow> unit file_action \<Rightarrow> file_step \<Rightarrow>
   (file_reader_core \<Rightarrow> file_reader_core \<times> 'a option) \<Rightarrow> file_reader \<Rightarrow> read_event list \<Rightarrow>
   (file_reader \<times> read_event list) \<times> 'a poll" where
  "file_request crc alloc start answer taking r evs =
     (case start (fe_core r) of
        (c, Ok _) \<Rightarrow>
          (case file_drive crc alloc (fe_inner r) c evs of
             ((c, evs), Returned (Ok s)) \<Rightarrow>
               if s = answer then
                 (case taking c of
                    (c, Some x) \<Rightarrow> ((r\<lparr>fe_core := c\<rparr>, evs), Returned (Ok x))
                  | (c, None) \<Rightarrow> ((r\<lparr>fe_core := c\<rparr>, evs), Returned (Err CoreFailed)))
               else ((r\<lparr>fe_core := c\<rparr>, evs), Returned (Err CoreFailed))
           | ((c, evs), Returned (Err e)) \<Rightarrow> ((r\<lparr>fe_core := c\<rparr>, evs), Returned (Err e))
           | ((c, evs), Returned Panic) \<Rightarrow> ((r\<lparr>fe_core := c\<rparr>, evs), Returned Panic)
           | ((c, evs), Suspended) \<Rightarrow> ((r\<lparr>fe_core := c\<rparr>, evs), Suspended))
      | (c, Err e) \<Rightarrow> ((r\<lparr>fe_core := c\<rparr>, evs), Returned (Err e))
      | (c, Panic) \<Rightarrow> ((r\<lparr>fe_core := c\<rparr>, evs), Returned Panic))"

definition read_descriptor ::
  "(bytes \<Rightarrow> u32) \<Rightarrow> destination_alloc \<Rightarrow> bytes \<Rightarrow> file_reader \<Rightarrow> read_event list \<Rightarrow>
   (file_reader \<times> read_event list) \<times> tensor_descriptor poll" where
  "read_descriptor crc alloc name = file_request crc alloc (file_begin_descriptor name) StepDescriptor take_descriptor"

definition file_read_tensor ::
  "(bytes \<Rightarrow> u32) \<Rightarrow> destination_alloc \<Rightarrow> bytes \<Rightarrow> file_reader \<Rightarrow> read_event list \<Rightarrow>
   (file_reader \<times> read_event list) \<times> read_tensor poll" where
  "file_read_tensor crc alloc name = file_request crc alloc (begin_tensor name) StepFileTensor file_take_tensor"

definition read_composite ::
  "(bytes \<Rightarrow> u32) \<Rightarrow> destination_alloc \<Rightarrow> bytes \<Rightarrow> file_reader \<Rightarrow> read_event list \<Rightarrow>
   (file_reader \<times> read_event list) \<times> file_composite poll" where
  "read_composite crc alloc head_name = file_request crc alloc (begin_composite head_name) StepComposite take_composite"

section \<open>Driving to the end\<close>

definition waits :: "'a poll \<Rightarrow> bool" where
  "waits res \<longleftrightarrow> res = Suspended \<or> (\<exists>e. res = Returned (Err (Io e)))"

definition untroubled :: "read_event list \<Rightarrow> bool" where
  "untroubled evs \<longleftrightarrow> list_all (\<lambda>e. \<exists>k. e = Reads k) evs"

lemma asks_dst: "asks f off len c \<Longrightarrow> \<exists>dst. file_input_dst c = Ok dst \<and> length dst = len - fr_filled c"
  by (auto simp: asks_def file_input_dst_def fr_buffer_def filling_def bind_eq_Some_conv split: file_state.splits)

text \<open>\<open>fill\<close> on a range within the file: nothing has happened, or some of the range is there.\<close>

lemma fill_range_asks:
  assumes a: "asks f off len c" "fr_filled c < len"
  obtains (waiting) evs' p where "fill_range f c (fr_cursor c) (len - fr_filled c) evs = ((c, evs'), p)" "waits p"
      "untroubled evs \<Longrightarrow> length evs \<le> 1"
    | (filled) evs' c2 where "fill_range f c (fr_cursor c) (len - fr_filled c) evs = ((c2, evs'), Returned (Ok ()))"
        "asks f off len c2" "served f off len c2 = served f off len c" "fr_filled c < fr_filled c2"
        "untroubled evs \<Longrightarrow> untroubled evs' \<and> length evs = Suc (Suc (length evs'))"
proof (cases rule: source_seek_cases [of evs])
  case 1
  then show ?thesis by (intro that(1) [of "[]" Suspended]) (simp_all add: fill_range_def waits_def)
next
  case (2 e evs')
  have "\<not> untroubled evs" using 2 by (cases evs rule: source_seek.cases) (auto simp: untroubled_def)
  then show ?thesis using 2 by (intro that(1) [of evs' "Returned (Err (Io e))"]) (simp_all add: fill_range_def waits_def)
next
  case (3 k evs1)
  obtain dst where dst: "file_input_dst c = Ok dst" "length dst = len - fr_filled c" using asks_dst [OF a(1)] by blast
  let ?n = "len - fr_filled c" and ?inp = "drop (unat (fr_cursor c)) f"
  have cur: "unat (fr_cursor c) + ?n \<le> length f"
    using a by (simp add: asks_def unat_of_nat take_bit_eq_mod del: of_nat_add)
  show ?thesis
  proof (cases rule: source_read_cases [of ?n ?inp evs1])
    case suspended
    have "untroubled evs \<Longrightarrow> length evs \<le> 1"
      using suspended(2) 3(1) by (cases evs1 rule: readings.cases) (auto simp: untroubled_def)
    then show ?thesis using 3 dst suspended(1) by (intro that(1) [of "[]" Suspended]) (simp_all add: fill_range_def waits_def)
  next
    case (failed evs2 e)
    have "\<not> untroubled evs1" using failed(2) by (induction evs1 rule: steady.induct) (auto simp: untroubled_def)
    then show ?thesis using 3 dst failed(1) by (intro that(1) [of evs2 "Returned (Err (Io e))"]) (simp_all add: fill_range_def waits_def untroubled_def)
  next
    case (bytes evs2 m)
    have m: "0 < m" "m \<le> ?n" using bytes(2,3) a(2) by simp_all
    have l: "length (take m ?inp) = m" using m cur by simp
    from asks_chunk [OF a(1) m] obtain c2 where c2: "file_report_filled m (file_fill (take m ?inp) c) = (c2, Ok ())"
      "asks f off len c2" "served f off len c2 = served f off len c" "fr_filled c2 = fr_filled c + m" by blast
    have "fill_range f c (fr_cursor c) ?n evs = ((c2, evs2), Returned (Ok ()))"
      using 3 dst bytes(1) c2(1) l by (simp add: fill_range_def del: length_take take_all take_all_iff)
    moreover have "untroubled evs \<Longrightarrow> untroubled evs2 \<and> length evs = Suc (Suc (length evs2))"
      using 3(1) bytes(1) by (cases evs1) (auto simp: untroubled_def Let_def)
    ultimately show ?thesis using that(2) c2(2-4) m by simp
  qed
qed

lemma drive_on_way:
  assumes "on_way crc alloc f c r" and "file_drive crc alloc f c evs = ((c', evs'), res)"
  shows "c' = r \<and> res = Returned (Ok (reply_of r)) \<or> waits res \<and> on_way crc alloc f c' r"
  using assms
proof (induction "length evs" arbitrary: c evs rule: less_induct)
  case less
  have no: "reply_of r \<noteq> StepRange off len" for off len
    by (simp add: reply_of_def split: file_state.splits file_done.splits)
  from less.prems(1) show ?case
  proof (cases rule: step_on_way)
    case over
    then have "file_drive crc alloc f c evs = ((r, evs), Returned (Ok (reply_of r)))"
      using no by (subst file_drive.simps) (simp split: file_step.splits)
    then show ?thesis using less.prems(2) by simp
  next
    case (range c1 off len)
    have t: "fr_target c1 = len" using range(2) by (simp add: asks_def)
    have w: "on_way crc alloc f c1 r" using range(2,4) unfolding on_way_def at_request_def by blast
    from range(2,3) show ?thesis
    proof (cases rule: fill_range_asks [of f off len c1 evs])
      case (waiting evs2 p)
      then show ?thesis
        using less.prems(2) range(1) t w by (subst (asm) file_drive.simps) (auto simp: waits_def)
    next
      case (filled evs2 c2)
      have l: "length evs2 < length evs" using filled(1) fill_range_shrinks by blast
      have "file_drive crc alloc f c2 evs2 = ((c', evs'), res)"
        using less.prems(2) range(1) filled(1) t by (subst (asm) file_drive.simps) simp
      moreover have "on_way crc alloc f c2 r" using filled(2,3) range(4) unfolding on_way_def at_request_def by metis
      ultimately show ?thesis using less.hyps [OF l] by blast
    qed
  qed
qed

text \<open>A source that only reads, and does it often enough, brings the driver to the end.\<close>

lemma drive_request:
  assumes "asks f off len c" and "untroubled evs" and "2 * (len - fr_filled c) + b \<le> length evs"
  shows "\<exists>evs'. untroubled evs' \<and> b \<le> length evs' \<and>
    file_drive crc alloc f c evs = file_drive crc alloc f (served f off len c) evs'"
  using assms
proof (induction "len - fr_filled c" arbitrary: c evs rule: less_induct)
  case less
  show ?case
  proof (cases "fr_filled c < len")
    case False
    then have "fr_filled c = len" using less.prems(1) by (simp add: asks_def)
    then have "served f off len c = c" by (rule served_full [OF less.prems(1)])
    then show ?thesis using less.prems by auto
  next
    case True
    have t: "fr_target c = len" using less.prems(1) by (simp add: asks_def)
    have step: "file_reader_step crc alloc c = (c, Ok (StepRange (fr_cursor c) (fr_target c - fr_filled c)))"
      using less.prems(1) True by (intro step_partial) (auto simp: asks_def)
    from less.prems(1) True show ?thesis
    proof (cases rule: fill_range_asks [of f off len c evs])
      case (waiting evs2 p)
      then show ?thesis using less.prems(2,3) True by simp
    next
      case (filled evs2 c2)
      have u: "untroubled evs2" "length evs = Suc (Suc (length evs2))" using filled(5) less.prems(2) by simp_all
      have le: "2 * (len - fr_filled c2) + b \<le> length evs2" using less.prems(3) u(2) filled(4) True by linarith
      have "len - fr_filled c2 < len - fr_filled c" using filled(4) True by linarith
      from less.hyps [OF this filled(2) u(1) le] obtain evs' where "untroubled evs'" "b \<le> length evs'"
        "file_drive crc alloc f c2 evs2 = file_drive crc alloc f (served f off len c2) evs'" by blast
      moreover have "file_drive crc alloc f c evs = file_drive crc alloc f c2 evs2"
        using step filled(1) t by (subst file_drive.simps) simp
      ultimately show ?thesis using filled(3) by auto
    qed
  qed
qed

lemma drive_same_step:
  "file_reader_step crc alloc c = file_reader_step crc alloc c1 \<Longrightarrow>
   file_drive crc alloc f c evs = file_drive crc alloc f c1 evs"
  by (subst (1 2) file_drive.simps) simp

lemma drive_leads:
  assumes "leads crc alloc f k r"
  shows "\<exists>b. \<forall>c evs. at_request f c k \<and> untroubled evs \<and> b \<le> length evs \<longrightarrow>
    (\<exists>evs'. file_drive crc alloc f c evs = ((r, evs'), Returned (Ok (reply_of r))))"
  using assms
proof (induction rule: leads.induct)
  case (final k r)
  show ?case
  proof (rule exI [of _ "2 * length f + 0"], intro allI impI)
    fix c evs assume a: "at_request f c k \<and> untroubled evs \<and> 2 * length f + 0 \<le> length evs"
    then obtain off len where o: "asks f off len c" "k = served f off len c" by (auto simp: at_request_def)
    have "len \<le> length f" using o(1) by (simp add: asks_def)
    then have "2 * (len - fr_filled c) + 0 \<le> length evs" using a by linarith
    with o(1) a obtain evs' where "file_drive crc alloc f c evs = file_drive crc alloc f k evs'"
      using drive_request [of f off len c evs 0] o(2) by blast
    moreover have "filling (fr_state k)" "\<not> fr_filled k < fr_target k" using o by (auto simp: asks_def served_def)
    then have "file_reader_step crc alloc k = (r, Ok (reply_of r))" using step_full final.hyps step_final by metis
    then have "file_drive crc alloc f k evs' = ((r, evs'), Returned (Ok (reply_of r)))"
      by (subst file_drive.simps) (simp add: reply_of_def split: file_state.split file_done.split)
    ultimately show "\<exists>evs'. file_drive crc alloc f c evs = ((r, evs'), Returned (Ok (reply_of r)))" by simp
  qed
next
  case (more k c1 k1 r)
  from more.IH obtain b where b: "\<forall>c evs. at_request f c k1 \<and> untroubled evs \<and> b \<le> length evs \<longrightarrow>
    (\<exists>evs'. file_drive crc alloc f c evs = ((r, evs'), Returned (Ok (reply_of r))))" by blast
  show ?case
  proof (rule exI [of _ "2 * length f + b"], intro allI impI)
    fix c evs assume a: "at_request f c k \<and> untroubled evs \<and> 2 * length f + b \<le> length evs"
    then obtain off len where o: "asks f off len c" "k = served f off len c" by (auto simp: at_request_def)
    have "len \<le> length f" using o(1) by (simp add: asks_def)
    then have "2 * (len - fr_filled c) + b \<le> length evs" using a by linarith
    with o(1) a obtain evs' where e: "file_drive crc alloc f c evs = file_drive crc alloc f k evs'" "untroubled evs'" "b \<le> length evs'"
      using drive_request [of f off len c evs b] o(2) by blast
    have "filling (fr_state k)" "\<not> fr_filled k < fr_target k" using o by (auto simp: asks_def served_def)
    then have "file_drive crc alloc f k evs' = file_drive crc alloc f c1 evs'"
      using step_full more.hyps(1) by (intro drive_same_step) simp
    then show "\<exists>evs'. file_drive crc alloc f c evs = ((r, evs'), Returned (Ok (reply_of r)))"
      using b more.hyps(2) e by metis
  qed
qed

lemma drive_reaches:
  assumes "on_way crc alloc f c r"
  shows "\<exists>b. \<forall>evs. untroubled evs \<and> b \<le> length evs \<longrightarrow>
    (\<exists>evs'. file_drive crc alloc f c evs = ((r, evs'), Returned (Ok (reply_of r))))"
  using assms drive_leads unfolding on_way_def by metis

section \<open>What a reader keeps\<close>

text \<open>An open reader: its file's index, metadata and alignment. No call changes them or closes it, whatever it comes to.\<close>

definition holds ::
  "u64 \<Rightarrow> nat \<Rightarrow> index_entry list \<Rightarrow> (bytes \<times> kv_value) list \<Rightarrow> file_reader_core \<Rightarrow> bool" where
  "holds al md es kv c \<longleftrightarrow>
     fr_is_open c \<and> fr_alignment c = al \<and> fr_max_depth c = md \<and> fr_index c = es \<and> fr_kv c = kv"

named_theorems holds_intros \<open>introduction rules for holds\<close>

lemma holds_update [simp]:
  "holds al md es kv (c\<lparr>fr_pending := p\<rparr>) = holds al md es kv c" "holds al md es kv (c\<lparr>fr_job := j\<rparr>) = holds al md es kv c"
  "holds al md es kv (c\<lparr>fr_cursor := cur\<rparr>) = holds al md es kv c" "holds al md es kv (c\<lparr>fr_target := n\<rparr>) = holds al md es kv c"
  "holds al md es kv (c\<lparr>fr_filled := n\<rparr>) = holds al md es kv c" "holds al md es kv (c\<lparr>fr_staging := bs\<rparr>) = holds al md es kv c"
  "holds al md es kv (c\<lparr>fr_walk := wk\<rparr>) = holds al md es kv c" "holds al md es kv (c\<lparr>fr_entry_name := nm\<rparr>) = holds al md es kv c"
  "holds al md es kv (c\<lparr>fr_entry_data_offset := off\<rparr>) = holds al md es kv c"
  "holds al md es kv (c\<lparr>fr_descriptor_out := x\<rparr>) = holds al md es kv c"
  "holds al md es kv (c\<lparr>fr_tensor_out := t\<rparr>) = holds al md es kv c"
  "holds al md es kv (c\<lparr>fr_composite_out := y\<rparr>) = holds al md es kv c"
  by (simp_all add: holds_def fr_is_open_def)

lemma holds_state: "holds al md es kv c \<Longrightarrow> st \<notin> {AtHeader, AtTrailer, AtIndex, AtKv, AtFailed} \<Longrightarrow> holds al md es kv (c\<lparr>fr_state := st\<rparr>)"
  by (simp add: holds_def fr_is_open_def)

lemma holds_fail [holds_intros]: "holds al md es kv c \<Longrightarrow> holds al md es kv (fst (fr_fail e c))"
  using holds_state [of al md es kv c AtReady] by (auto simp: fr_fail_def holds_def fr_is_open_def)

lemma holds_try [holds_intros]:
  "holds al md es kv c \<Longrightarrow> (\<And>x. r = Ok x \<Longrightarrow> holds al md es kv (fst (f x c))) \<Longrightarrow> holds al md es kv (fst (fr_try fr_fail r f c))"
  by (simp add: fr_try_def holds_fail split: result.split)

lemma holds_some [holds_intros]:
  "holds al md es kv c \<Longrightarrow> (\<And>y. x = Some y \<Longrightarrow> holds al md es kv (fst (f y c))) \<Longrightarrow> holds al md es kv (fst (fr_some x f c))"
  by (simp add: fr_some_def holds_fail split: option.split)

lemma holds_start_descriptor [holds_intros]: "holds al md es kv c \<Longrightarrow> holds al md es kv (fst (start_descriptor name c))"
  by (simp add: start_descriptor_def fr_request_def holds_state split: option.split)

lemma holds_begin_buffer [holds_intros]: "holds al md es kv c \<Longrightarrow> holds al md es kv (fst (file_begin_buffer alloc i c))"
  unfolding file_begin_buffer_def split_def by (intro holds_intros) (simp_all add: holds_state)

lemma holds_walk_next [holds_intros]: "holds al md es kv c \<Longrightarrow> holds al md es kv (fst (walk_next c))"
  unfolding walk_next_def by (intro holds_intros) (auto intro!: holds_intros)

lemma holds_deliver_from [holds_intros]: "holds al md es kv c \<Longrightarrow> holds al md es kv (fst (file_deliver_from wk st item c))"
proof (induction st arbitrary: item c)
  case Nil
  then show ?case by (auto simp: holds_fail holds_state split: file_item.split)
next
  case (Cons tp st)
  then show ?case by (auto simp: Let_def intro!: holds_intros)
qed

lemma holds_complete_tensor [holds_intros]: "holds al md es kv c \<Longrightarrow> holds al md es kv (fst (file_complete_tensor c))"
  unfolding file_complete_tensor_def file_deliver_def Let_def
  by (intro holds_intros) (auto intro!: holds_intros simp: holds_state split: option.split job.split)

lemma holds_begin_buffers [holds_intros]: "holds al md es kv c \<Longrightarrow> holds al md es kv (fst (begin_buffers alloc d c))"
  by (auto simp: begin_buffers_def Let_def intro!: holds_intros)

lemma holds_finish_buffer [holds_intros]: "holds al md es kv c \<Longrightarrow> holds al md es kv (fst (file_finish_buffer alloc i c))"
  unfolding file_finish_buffer_def Let_def by (intro holds_intros) (auto intro!: holds_intros)

lemma holds_walk_descriptor [holds_intros]: "holds al md es kv c \<Longrightarrow> holds al md es kv (fst (walk_descriptor alloc d c))"
  by (auto simp: walk_descriptor_def intro!: holds_intros split: layout_descriptor.split option.split)

lemma holds_finish_descriptor [holds_intros]:
  "holds al md es kv c \<Longrightarrow> holds al md es kv (fst (file_finish_descriptor alloc c))"
  unfolding file_finish_descriptor_def
  by (intro holds_intros) (auto intro!: holds_intros simp: holds_state split: option.split job.split)

lemma holds_advance: "holds al md es kv c \<Longrightarrow> holds al md es kv (fst (file_advance crc alloc c))"
proof -
  assume h: "holds al md es kv c"
  then have "fr_state c \<notin> {AtHeader, AtTrailer, AtIndex, AtKv}" by (simp add: holds_def fr_is_open_def)
  then show ?thesis using h by (simp add: file_advance_def holds_intros split: file_state.split)
qed

lemma holds_step: "holds al md es kv c \<Longrightarrow> holds al md es kv (fst (file_reader_step crc alloc c))"
proof (induction crc alloc c rule: file_reader_step.induct)
  case (1 crc alloc c)
  note adv = holds_advance [OF 1(7), of crc alloc]
  show ?case
    using 1 adv by (subst file_reader_step.simps)
      (auto split: file_state.split file_done.split prod.split result.split)
qed

lemma holds_fill_report: "holds al md es kv c \<Longrightarrow> holds al md es kv (fst (file_report_filled n (file_fill bs c)))"
proof -
  assume "holds al md es kv c"
  then have "holds al md es kv (file_fill bs c)" by (auto simp: file_fill_def split: file_state.split)
  then show ?thesis by (auto simp: file_report_filled_def Let_def holds_fail split: result.split)
qed

lemma holds_fill_range: "holds al md es kv c \<Longrightarrow> holds al md es kv (fst (fst (fill_range f c off len evs)))"
  using holds_fill_report [of al md es kv c]
  by (auto simp: fill_range_def split: prod.split poll.split result.split) (metis fst_conv)+

lemma holds_drive: "holds al md es kv c \<Longrightarrow> file_drive crc alloc f c evs = ((c', evs'), res) \<Longrightarrow> holds al md es kv c'"
proof (induction "length evs" arbitrary: c evs rule: less_induct)
  case less
  obtain c1 s where s: "file_reader_step crc alloc c = (c1, s)" by fastforce
  have h1: "holds al md es kv c1" using holds_step [OF less.prems(1), of crc alloc] s by simp
  show ?case
  proof (cases "\<exists>off len. s = Ok (StepRange off len)")
    case False
    then show ?thesis
      using less.prems(2) s h1 by (subst (asm) file_drive.simps) (auto split: result.splits file_step.splits)
  next
    case True
    then obtain off len where sr: "s = Ok (StepRange off len)" by blast
    obtain c2 evs2 p where f: "fill_range f c1 off len evs = ((c2, evs2), p)" by (metis prod.collapse)
    have h2: "holds al md es kv c2" using holds_fill_range [OF h1, of f off len evs] f by simp
    show ?thesis
    proof (cases "p = Returned (Ok ())")
      case True
      then have "file_drive crc alloc f c2 evs2 = ((c', evs'), res)"
        using less.prems(2) s sr f by (subst (asm) file_drive.simps) simp
      then show ?thesis using less.hyps h2 fill_range_shrinks f True by blast
    next
      case False
      then show ?thesis
        using less.prems(2) s sr f h2 by (subst (asm) file_drive.simps) (auto split: poll.splits result.splits)
    qed
  qed
qed

lemma holds_begin [holds_intros]:
  "holds al md es kv c \<Longrightarrow> holds al md es kv (fst (file_begin_descriptor name c))"
  "holds al md es kv c \<Longrightarrow> holds al md es kv (fst (begin_tensor name c))"
  "holds al md es kv c \<Longrightarrow> holds al md es kv (fst (begin_composite name c))"
proof -
  assume h: "holds al md es kv c"
  then have j: "begin_job j c = (c', Ok u) \<Longrightarrow> holds al md es kv c'" for j c' u
    by (auto simp: begin_job_def split: if_splits)
  have e: "begin_job j c = (c', Err e) \<Longrightarrow> holds al md es kv c'" for j c' e using h by (auto simp: begin_job_def split: if_splits)
  have p: "begin_job j c \<noteq> (c', Panic)" for j c' by (simp add: begin_job_def)
  show "holds al md es kv (fst (file_begin_descriptor name c))" "holds al md es kv (fst (begin_tensor name c))"
    using j e p by (auto simp: file_begin_descriptor_def begin_tensor_def fr_then_def intro!: holds_intros split: prod.split result.split)
  show "holds al md es kv (fst (begin_composite name c))"
    using j e p
    by (auto simp: begin_composite_def fr_then_def start_walk_def Let_def intro!: holds_walk_next split: prod.split result.split)
qed

lemma holds_take:
  "holds al md es kv c \<Longrightarrow> holds al md es kv (fst (take_descriptor c))"
  "holds al md es kv c \<Longrightarrow> holds al md es kv (fst (file_take_tensor c))"
  "holds al md es kv c \<Longrightarrow> holds al md es kv (fst (take_composite c))"
  using holds_state [of al md es kv c AtReady]
  by (auto simp: take_descriptor_def file_take_tensor_def take_composite_def finish_job_def holds_def fr_is_open_def split: option.split)

section \<open>Calls\<close>

definition reader_at ::
  "file_writer_options \<Rightarrow> index_entry list \<Rightarrow> (bytes \<times> kv_value) list \<Rightarrow> bytes \<Rightarrow> file_reader \<Rightarrow> bool" where
  "reader_at o' es kv g r \<longleftrightarrow>
     fe_inner r = g \<and> fe_index r = es \<and> fe_kv r = kv \<and>
     holds (ucast (fo_data_buffer_alignment o')) FILE_DEFAULT_MAX_COMPOSITE_DEPTH es kv (fe_core r)"

lemma reader_at_open: "reader_at o' es kv g r \<Longrightarrow> open_on o' es (fe_core r)"
  by (simp add: reader_at_def holds_def open_on_def)

lemma request_keeps:
  assumes h: "reader_at o' es kv g r" and c: "file_request crc alloc start answer taking r evs = ((r', evs'), res)"
    and st: "\<And>al md es kv c. holds al md es kv c \<Longrightarrow> holds al md es kv (fst (start c))"
    and tk: "\<And>al md es kv c. holds al md es kv c \<Longrightarrow> holds al md es kv (fst (taking c))"
  shows "reader_at o' es kv g r'"
proof -
  let ?H = "holds (ucast (fo_data_buffer_alignment o')) FILE_DEFAULT_MAX_COMPOSITE_DEPTH es kv"
  have h0: "?H (fe_core r)" using h by (simp add: reader_at_def)
  obtain c1 s where s: "start (fe_core r) = (c1, s)" by fastforce
  have h1: "?H c1" using st [OF h0] s by simp
  obtain c2 evs2 d where d: "file_drive crc alloc (fe_inner r) c1 evs = ((c2, evs2), d)" by (metis prod.collapse)
  have h2: "?H c2" using holds_drive [OF h1 d] .
  obtain c3 x where x: "taking c2 = (c3, x)" by fastforce
  have h3: "?H c3" using tk [OF h2] x by simp
  have "r' \<in> {r\<lparr>fe_core := c1\<rparr>, r\<lparr>fe_core := c2\<rparr>, r\<lparr>fe_core := c3\<rparr>}"
    using c s d x by (auto simp: file_request_def split: result.splits poll.splits option.splits if_splits)
  then show ?thesis using h h1 h2 h3 by (auto simp: reader_at_def)
qed

definition one_call :: "(bytes \<Rightarrow> u32) \<Rightarrow> destination_alloc \<Rightarrow> file_reader \<Rightarrow> file_reader \<Rightarrow> bool" where
  "one_call crc alloc r r' \<longleftrightarrow>
     (\<exists>name evs evs'.
        (\<exists>res. read_descriptor crc alloc name r evs = ((r', evs'), res)) \<or>
        (\<exists>res. file_read_tensor crc alloc name r evs = ((r', evs'), res)) \<or>
        (\<exists>res. read_composite crc alloc name r evs = ((r', evs'), res)))"

lemma call_keeps:
  assumes "reader_at o' es kv g r" and "one_call crc alloc r r'"
  shows "reader_at o' es kv g r'"
proof -
  from assms(2) obtain name evs evs' where
    "(\<exists>res. read_descriptor crc alloc name r evs = ((r', evs'), res)) \<or>
     (\<exists>res. file_read_tensor crc alloc name r evs = ((r', evs'), res)) \<or>
     (\<exists>res. read_composite crc alloc name r evs = ((r', evs'), res))" unfolding one_call_def by blast
  then show ?thesis
  proof (elim disjE exE)
    fix res assume "read_descriptor crc alloc name r evs = ((r', evs'), res)"
    from request_keeps [OF assms(1) this [unfolded read_descriptor_def] holds_begin(1) holds_take(1)] show ?thesis .
  next
    fix res assume "file_read_tensor crc alloc name r evs = ((r', evs'), res)"
    from request_keeps [OF assms(1) this [unfolded file_read_tensor_def] holds_begin(2) holds_take(2)] show ?thesis .
  next
    fix res assume "read_composite crc alloc name r evs = ((r', evs'), res)"
    from request_keeps [OF assms(1) this [unfolded read_composite_def] holds_begin(3) holds_take(3)] show ?thesis .
  qed
qed

lemma calls_keep: "(one_call crc alloc)\<^sup>*\<^sup>* r r' \<Longrightarrow> reader_at o' es kv g r \<Longrightarrow> reader_at o' es kv g r'"
  by (induction rule: rtranclp_induct) (auto intro: call_keeps)

text \<open>The answer of a request whose core gets on its way.\<close>

lemma request_answers:
  assumes b: "start (fe_core r) = (c1, Ok ())" "on_way crc alloc (fe_inner r) c1 x" "reply_of x = answer" "taking x = (c2, Some v)"
    and c: "file_request crc alloc start answer taking r evs = ((r', evs'), res)"
  shows "res = Returned (Ok v) \<or> waits res"
proof -
  obtain c3 evs3 d where d: "file_drive crc alloc (fe_inner r) c1 evs = ((c3, evs3), d)" by (metis prod.collapse)
  from drive_on_way [OF b(2) d] show ?thesis
    using b c d by (auto simp: file_request_def waits_def)
qed

lemma request_reaches:
  assumes b: "start (fe_core r) = (c1, Ok ())" "on_way crc alloc (fe_inner r) c1 x" "reply_of x = answer" "taking x = (c2, Some v)"
  shows "\<exists>k. \<forall>evs. untroubled evs \<and> k \<le> length evs \<longrightarrow>
    (\<exists>r' evs'. file_request crc alloc start answer taking r evs = ((r', evs'), Returned (Ok v)))"
proof -
  from drive_reaches [OF b(2)] obtain k where k: "\<forall>evs. untroubled evs \<and> k \<le> length evs \<longrightarrow>
    (\<exists>evs'. file_drive crc alloc (fe_inner r) c1 evs = ((x, evs'), Returned (Ok (reply_of x))))" by blast
  have "\<exists>r' evs'. file_request crc alloc start answer taking r evs = ((r', evs'), Returned (Ok v))"
    if u: "untroubled evs \<and> k \<le> length evs" for evs
  proof -
    obtain evs' where "file_drive crc alloc (fe_inner r) c1 evs = ((x, evs'), Returned (Ok (reply_of x)))" using k u by blast
    then show ?thesis using b by (simp add: file_request_def)
  qed
  then show ?thesis by blast
qed

lemma file_open_at:
  assumes s: "sealed crc o' g es kv" and o: "file_open crc alloc g evs = (evs', res)"
  shows "waits res \<or> (\<exists>r. res = Returned (Ok r) \<and> reader_at o' es kv g r)"
proof (cases rule: source_seek_cases [of evs])
  case (3 k evs1)
  obtain x where x: "on_way crc alloc g (file_reader_new (word_of_nat (length g))) x" "opened o' es kv x"
    using sealed_on_way [OF s] by blast
  obtain c evs2 d where d: "file_drive crc alloc g (file_reader_new (word_of_nat (length g))) evs1 = ((c, evs2), d)"
    by (metis prod.collapse)
  from drive_on_way [OF x(1) d] show ?thesis
  proof
    assume a: "c = x \<and> d = Returned (Ok (reply_of x))"
    have "reply_of x = StepReady" using x(2) by (simp add: opened_def reply_of_def)
    then have "res = Returned (Ok \<lparr>fe_inner = g, fe_core = x, fe_index = fr_index x, fe_kv = fr_kv x\<rparr>)"
      using o 3 d a by (simp add: file_open_def)
    then show ?thesis using x(2) by (simp add: reader_at_def opened_def holds_def fr_is_open_def)
  next
    assume "waits d \<and> on_way crc alloc g c x"
    then show ?thesis using o 3 d by (auto simp: file_open_def waits_def)
  qed
qed (use o in \<open>auto simp: file_open_def waits_def\<close>)

lemma file_open_reaches:
  assumes s: "sealed crc o' g es kv"
  shows "\<exists>k. \<forall>evs. untroubled evs \<and> k \<le> length evs \<longrightarrow>
    (\<exists>r evs'. file_open crc alloc g evs = (evs', Returned (Ok r)) \<and> reader_at o' es kv g r)"
proof -
  obtain x where x: "on_way crc alloc g (file_reader_new (word_of_nat (length g))) x" "opened o' es kv x"
    using sealed_on_way [OF s] by blast
  have rep: "reply_of x = StepReady" using x(2) by (simp add: opened_def reply_of_def)
  from drive_reaches [OF x(1)] rep obtain k where k: "\<forall>evs. untroubled evs \<and> k \<le> length evs \<longrightarrow>
    (\<exists>evs'. file_drive crc alloc g (file_reader_new (word_of_nat (length g))) evs = ((x, evs'), Returned (Ok StepReady)))" by auto
  have "\<exists>r evs'. file_open crc alloc g evs = (evs', Returned (Ok r)) \<and> reader_at o' es kv g r"
    if u: "untroubled evs" "Suc k \<le> length evs" for evs
  proof -
    obtain j evs1 where e: "evs = Reads j # evs1" using u by (cases evs) (auto simp: untroubled_def)
    then obtain evs2 where "file_drive crc alloc g (file_reader_new (word_of_nat (length g))) evs1 = ((x, evs2), Returned (Ok StepReady))"
      using k u by (auto simp: untroubled_def)
    then have o: "file_open crc alloc g evs =
        (evs2, Returned (Ok \<lparr>fe_inner = g, fe_core = x, fe_index = fr_index x, fe_kv = fr_kv x\<rparr>))"
      by (simp add: file_open_def e)
    then show ?thesis using file_open_at [OF s o] by (auto simp: waits_def)
  qed
  then show ?thesis by blast
qed

lemma untroubled_replicate: "untroubled (replicate k (Reads 1))"
  by (simp add: untroubled_def list_all_iff)

section \<open>Properties\<close>

text \<open>
  C12. A session with the tokio file reader on a finished file, whatever the source does and whatever calls came before, successful,
  failed, or dropped while suspended. The reader has the index and the metadata that were written. Reading
  a tensor by its name returns exactly the tensor that was written, waits, or reports the failure of the
  source; and it returns when the source reads often enough.
\<close>

theorem file_reader_session:
  assumes "written_file crc o' its kv es g" and "file_open crc alloc g evs0 = (evs1, Returned (Ok r0))"
    and "(one_call crc alloc)\<^sup>*\<^sup>* r0 r" and "(name, d, bufs) \<in> set its" and "allocates alloc d"
  shows "fe_index r = es \<and> fe_kv r = kv \<and>
    (\<forall>evs r' evs' res. file_read_tensor crc alloc name r evs = ((r', evs'), res) \<longrightarrow>
       res = Returned (Ok \<lparr>ft_name = name, ft_descriptor = d, ft_buffers = bufs\<rparr>) \<or> waits res) \<and>
    (\<exists>k. \<forall>evs. untroubled evs \<and> k \<le> length evs \<longrightarrow>
       (\<exists>r' evs'. file_read_tensor crc alloc name r evs =
          ((r', evs'), Returned (Ok \<lparr>ft_name = name, ft_descriptor = d, ft_buffers = bufs\<rparr>))))"
proof -
  let ?t = "\<lparr>ft_name = name, ft_descriptor = d, ft_buffers = bufs\<rparr>"
  have s: "sealed crc o' g es kv" using written_sealed [OF assms(1)] by metis
  have "reader_at o' es kv g r0" using file_open_at [OF s assms(2)] by (auto simp: waits_def)
  with assms(3) have at: "reader_at o' es kv g r" by (rule calls_keep)
  then have inner: "fe_inner r = g" by (simp add: reader_at_def)
  from tensor_begins [OF assms(1) reader_at_open [OF at] assms(4,5)] obtain c1 x where
    x: "begin_tensor name (fe_core r) = (c1, Ok ())" "on_way crc alloc (fe_inner r) c1 x" "fr_state x = AtDone DoneTensor"
      "fr_tensor_out x = Some ?t" unfolding inner by blast
  have y: "reply_of x = StepFileTensor" "file_take_tensor x = (finish_job (x\<lparr>fr_tensor_out := None\<rparr>), Some ?t)"
    using x(3,4) by (simp_all add: reply_of_def file_take_tensor_def)
  show ?thesis
    using at request_answers [where start = "begin_tensor name" and taking = file_take_tensor, OF x(1,2) y]
      request_reaches [where start = "begin_tensor name" and taking = file_take_tensor, OF x(1,2) y]
    unfolding file_read_tensor_def reader_at_def by blast
qed

theorem file_reader_session_witness:
  "\<exists>g evs0 evs1 r0 evs r' evs'. file_open (\<lambda>b. 0) system_allocate g evs0 = (evs1, Returned (Ok r0)) \<and>
     file_read_tensor (\<lambda>b. 0) system_allocate [97] r0 evs =
       ((r', evs'), Returned (Ok \<lparr>ft_name = [97], ft_descriptor = sample_tensor, ft_buffers = [sample_payload]\<rparr>))"
proof -
  obtain es g where w: "written_file (\<lambda>b. 0) sample_options [([97], sample_tensor, [sample_payload])] sample_kv es g"
    by (rule sample_written)
  then have s: "sealed (\<lambda>b. 0) sample_options g es sample_kv" using written_sealed by metis
  obtain k where "\<forall>evs. untroubled evs \<and> k \<le> length evs \<longrightarrow>
      (\<exists>r evs'. file_open (\<lambda>b. 0) system_allocate g evs = (evs', Returned (Ok r)) \<and> reader_at sample_options es sample_kv g r)"
    using file_open_reaches [OF s] by blast
  then obtain r0 evs1 where r0: "file_open (\<lambda>b. 0) system_allocate g (replicate k (Reads 1)) = (evs1, Returned (Ok r0))"
    using untroubled_replicate by fastforce
  have "([97], sample_tensor, [sample_payload]) \<in> set [([97], sample_tensor, [sample_payload])]" by simp
  from file_reader_session [OF w r0 rtranclp.rtrancl_refl this sample_allocates] obtain j where
    "\<forall>evs. untroubled evs \<and> j \<le> length evs \<longrightarrow> (\<exists>r' evs'. file_read_tensor (\<lambda>b. 0) system_allocate [97] r0 evs =
      ((r', evs'), Returned (Ok \<lparr>ft_name = [97], ft_descriptor = sample_tensor, ft_buffers = [sample_payload]\<rparr>)))" by blast
  then have "\<exists>r' evs'. file_read_tensor (\<lambda>b. 0) system_allocate [97] r0 (replicate j (Reads 1)) =
      ((r', evs'), Returned (Ok \<lparr>ft_name = [97], ft_descriptor = sample_tensor, ft_buffers = [sample_payload]\<rparr>))"
    using untroubled_replicate by simp
  then show ?thesis using r0 by blast
qed

text \<open>
  C30. A session with the tokio file reader and composites: on a finished file that holds the tensors of a flattened tree one after
  the other, after any earlier calls, reading the composite by the name of its head returns the whole tree
  that was written, waits, or reports the failure of the source; and it returns when the source reads often
  enough. The composites of the tree are not empty and have valid members, the tree nests within the limit of
  the reader, and the destinations of its buffers can be allocated.
\<close>

theorem file_reader_composites:
  assumes "written_file crc o' (pre @ map write_item ws @ post) kv es g" and "flatten_composite n h ms = Ok ws"
    and "file_open crc alloc g evs0 = (evs1, Returned (Ok r0))" and "(one_call crc alloc)\<^sup>*\<^sup>* r0 r"
    and "file_tree_ok (FileCompositeNode n h ms)"
    and "tree_depth (FileCompositeNode n h ms) \<le> FILE_DEFAULT_MAX_COMPOSITE_DEPTH"
    and "\<forall>x \<in> set ws. allocates alloc (cw_descriptor x)"
  shows "(\<forall>evs r' evs' res. read_composite crc alloc n r evs = ((r', evs'), res) \<longrightarrow>
       res = Returned (Ok (FileComposite n h (map file_item_of ms))) \<or> waits res) \<and>
    (\<exists>k. \<forall>evs. untroubled evs \<and> k \<le> length evs \<longrightarrow>
       (\<exists>r' evs'. read_composite crc alloc n r evs = ((r', evs'), Returned (Ok (FileComposite n h (map file_item_of ms))))))"
proof -
  let ?x = "FileComposite n h (map file_item_of ms)"
  have s: "sealed crc o' g es kv" using written_sealed [OF assms(1)] by metis
  have "reader_at o' es kv g r0" using file_open_at [OF s assms(3)] by (auto simp: waits_def)
  with assms(4) have at: "reader_at o' es kv g r" by (rule calls_keep)
  then have inner: "fe_inner r = g" "fr_max_depth (fe_core r) = FILE_DEFAULT_MAX_COMPOSITE_DEPTH"
    by (simp_all add: reader_at_def holds_def)
  from composite_begins [OF assms(1,2) reader_at_open [OF at] assms(5) _ assms(7)] assms(6) inner(2) obtain c1 x where
    x: "begin_composite n (fe_core r) = (c1, Ok ())" "on_way crc alloc (fe_inner r) c1 x" "fr_state x = AtDone DoneComposite"
      "fr_composite_out x = Some ?x" unfolding inner(1) by metis
  have y: "reply_of x = StepComposite" "take_composite x = (finish_job (x\<lparr>fr_composite_out := None\<rparr>), Some ?x)"
    using x(3,4) by (simp_all add: reply_of_def take_composite_def)
  show ?thesis
    using request_answers [where start = "begin_composite n" and taking = take_composite, OF x(1,2) y]
      request_reaches [where start = "begin_composite n" and taking = take_composite, OF x(1,2) y]
    unfolding read_composite_def by blast
qed

theorem file_reader_composites_witness:
  "\<exists>g evs0 evs1 r0 evs r' evs'. file_open (\<lambda>b. 0) system_allocate g evs0 = (evs1, Returned (Ok r0)) \<and>
     read_composite (\<lambda>b. 0) system_allocate [104] r0 evs =
       ((r', evs'), Returned (Ok (FileComposite [104] sample_head (map file_item_of sample_members))))"
proof -
  obtain es g ws where w: "flatten_composite [104] sample_head sample_members = Ok ws"
    "written_file (\<lambda>b. 0) sample_options ([] @ map write_item ws @ []) [] es g"
    "\<forall>x \<in> set ws. allocates system_allocate (cw_descriptor x)" by (rule sample_composite_written)
  then have s: "sealed (\<lambda>b. 0) sample_options g es []" using written_sealed by metis
  obtain k where "\<forall>evs. untroubled evs \<and> k \<le> length evs \<longrightarrow>
      (\<exists>r evs'. file_open (\<lambda>b. 0) system_allocate g evs = (evs', Returned (Ok r)) \<and> reader_at sample_options es [] g r)"
    using file_open_reaches [OF s] by blast
  then obtain r0 evs1 where r0: "file_open (\<lambda>b. 0) system_allocate g (replicate k (Reads 1)) = (evs1, Returned (Ok r0))"
    using untroubled_replicate by fastforce
  from file_reader_composites [OF w(2,1) r0 rtranclp.rtrancl_refl sample_tree w(3)] obtain j where
    "\<forall>evs. untroubled evs \<and> j \<le> length evs \<longrightarrow> (\<exists>r' evs'. read_composite (\<lambda>b. 0) system_allocate [104] r0 evs =
      ((r', evs'), Returned (Ok (FileComposite [104] sample_head (map file_item_of sample_members)))))" by blast
  then have "\<exists>r' evs'. read_composite (\<lambda>b. 0) system_allocate [104] r0 (replicate j (Reads 1)) =
      ((r', evs'), Returned (Ok (FileComposite [104] sample_head (map file_item_of sample_members))))"
    using untroubled_replicate by simp
  then show ?thesis using r0 by blast
qed

end
