(* ===== verification/Sparse_Lookup.thy ===== *)
theory Sparse_Lookup
  imports Addressing "HOL-Library.List_Lexorder"
begin

text \<open>
  Element lookup in the index buffers of sparse layouts (\<open>hurray-core/src/layout/addressing/\<close>
  \<open>coo.rs\<close>, \<open>csr.rs\<close>, \<open>csc.rs\<close>): from a query to the slot of its value, or to nothing for a structural zero.
  The contract that the lookups share is the locale \<open>sparse_index\<close>: the index buffers store a coordinate for
  every slot, and the lookup is the map from coordinates to slots.

  The comparison of \<open>u64\<close> slices is the lexicographic order of the library, and \<open>binary_search\<close> follows
  the loop of the standard library.
\<close>

section \<open>Binary search on slices\<close>

definition range_at :: "'a list \<Rightarrow> nat \<Rightarrow> nat \<Rightarrow> ('e, 'a list) result" where
  "range_at xs s e = (if s \<le> e \<and> e \<le> length xs then Ok (take (e - s) (drop s xs)) else Panic)"

function bs_loop :: "u64 list \<Rightarrow> u64 \<Rightarrow> nat \<Rightarrow> nat \<Rightarrow> nat" where
  "bs_loop xs x base sz =
     (if sz > 1 then
        let half = sz div 2; mid = base + half in
        bs_loop xs x (if xs ! mid > x then base else mid) (sz - half)
      else base)"
  by pat_completeness auto

termination
  by (relation "measure (\<lambda>(xs, x, base, sz). sz)") auto

declare bs_loop.simps [simp del]

definition binary_search :: "u64 list \<Rightarrow> u64 \<Rightarrow> usize option" where
  "binary_search xs x =
     (if xs = [] then None
      else let base = bs_loop xs x 0 (length xs) in if xs ! base = x then Some base else None)"

lemma bs_loop_range: "0 < sz \<Longrightarrow> base \<le> bs_loop xs x base sz \<and> bs_loop xs x base sz < base + sz"
proof (induction xs x base sz rule: bs_loop.induct)
  case (1 xs x base sz)
  show ?case
  proof (cases "sz > 1")
    case True
    let ?b = "if xs ! (base + sz div 2) > x then base else base + sz div 2"
    have "?b \<le> bs_loop xs x ?b (sz - sz div 2) \<and> bs_loop xs x ?b (sz - sz div 2) < ?b + (sz - sz div 2)"
      using 1(1) [OF True refl refl] True by simp
    moreover have "bs_loop xs x base sz = bs_loop xs x ?b (sz - sz div 2)"
      using True by (simp add: bs_loop.simps [of xs x base sz] Let_def)
    moreover have "base \<le> ?b" "?b + (sz - sz div 2) \<le> base + sz" using True by auto
    ultimately show ?thesis by linarith
  next
    case False
    then show ?thesis using 1(2) by (simp add: bs_loop.simps)
  qed
qed

lemma bs_loop_finds:
  "sorted xs \<Longrightarrow> base + sz \<le> length xs \<Longrightarrow> base \<le> i \<Longrightarrow> i < base + sz \<Longrightarrow> xs ! i = x \<Longrightarrow>
   xs ! bs_loop xs x base sz = x"
proof (induction xs x base sz arbitrary: i rule: bs_loop.induct)
  case (1 xs x base sz)
  show ?case
  proof (cases "sz > 1")
    case True
    let ?half = "sz div 2"
    let ?mid = "base + ?half"
    let ?b = "if xs ! ?mid > x then base else ?mid"
    have half: "0 < ?half" "?half \<le> sz - ?half" "?half < sz" using True by auto
    have mid: "?mid < length xs" using half 1(3) by simp
    have "\<exists>j. ?b \<le> j \<and> j < ?b + (sz - ?half) \<and> xs ! j = x"
    proof (cases "i < ?mid")
      case lt: True
      have "xs ! i \<le> xs ! ?mid" using 1(2) lt mid by (intro sorted_nth_mono) auto
      then show ?thesis
      proof (cases "xs ! ?mid > x")
        case False
        then have "xs ! ?mid = x" using \<open>xs ! i \<le> xs ! ?mid\<close> 1(6) by simp
        then show ?thesis using False half by (intro exI [of _ ?mid]) auto
      qed (use lt half 1(4,6) in \<open>intro exI [of _ i], auto\<close>)
    next
      case False
      then have "xs ! ?mid \<le> xs ! i" using 1(2,3,5) by (intro sorted_nth_mono) auto
      then show ?thesis using False half 1(5,6) by (intro exI [of _ i]) auto
    qed
    then obtain j where j: "?b \<le> j" "j < ?b + (sz - ?half)" "xs ! j = x" by blast
    have "?b + (sz - ?half) \<le> length xs" using half 1(3) by auto
    then have "xs ! bs_loop xs x ?b (sz - ?half) = x"
      using 1(1) [OF True refl refl 1(2) _ j(1,2,3)] by simp
    then show ?thesis using True by (simp add: bs_loop.simps [of xs x base sz] Let_def)
  next
    case False
    then have "i = base" using 1(4,5) by linarith
    then show ?thesis using False 1(6) by (simp add: bs_loop.simps [of xs x base sz])
  qed
qed

lemma binary_search_Some: "binary_search xs x = Some i \<Longrightarrow> i < length xs \<and> xs ! i = x"
  using bs_loop_range [of "length xs" 0 xs x] by (auto simp: binary_search_def Let_def split: if_splits)

lemma binary_search_None:
  assumes "sorted xs"
  shows "binary_search xs x = None \<longleftrightarrow> x \<notin> set xs"
proof
  show "x \<notin> set xs" if n: "binary_search xs x = None"
  proof
    assume "x \<in> set xs"
    then obtain i where "i < length xs" "xs ! i = x" by (auto simp: in_set_conv_nth)
    then have "xs ! bs_loop xs x 0 (length xs) = x" using bs_loop_finds [OF assms, of 0 "length xs" i x] by simp
    then show False using n \<open>x \<in> set xs\<close> by (auto simp: binary_search_def Let_def split: if_splits)
  qed
  show "binary_search xs x = None" if "x \<notin> set xs"
    using binary_search_Some [of xs x] that by (cases "binary_search xs x") (auto simp: in_set_conv_nth)
qed

text \<open>Strictly increasing slices have one place for a value.\<close>

lemma binary_search_nth:
  assumes "sorted_wrt (<) xs" and "i < length xs"
  shows "binary_search xs (xs ! i) = Some i"
proof -
  have s: "sorted xs" "distinct xs" using assms(1) by (simp_all add: strict_sorted_iff)
  then have "binary_search xs (xs ! i) \<noteq> None" using assms(2) by (simp add: binary_search_None)
  then obtain j where "binary_search xs (xs ! i) = Some j" by blast
  then show ?thesis using binary_search_Some [of xs "xs ! i" j] nth_eq_iff_index_eq [of xs j i] s(2) assms(2) by simp
qed

text \<open>The same on the segment from \<open>s\<close> to \<open>e\<close> of a buffer, with positions in the buffer.\<close>

definition increasing_on :: "u64 list \<Rightarrow> nat \<Rightarrow> nat \<Rightarrow> bool" where
  "increasing_on xs s e = sorted_wrt (<) (take (e - s) (drop s xs))"

lemma segment_found:
  assumes "increasing_on xs s e" and "s \<le> k" "k < e" "e \<le> length xs"
  shows "binary_search (take (e - s) (drop s xs)) (xs ! k) = Some (k - s)"
proof -
  have "k - s < length (take (e - s) (drop s xs))" "take (e - s) (drop s xs) ! (k - s) = xs ! k" using assms by auto
  then show ?thesis using binary_search_nth [OF assms(1) [unfolded increasing_on_def], of "k - s"] by simp
qed

lemma segment_missed:
  assumes "e \<le> length xs" and "\<And>k. s \<le> k \<Longrightarrow> k < e \<Longrightarrow> xs ! k \<noteq> x"
  shows "binary_search (take (e - s) (drop s xs)) x = None"
proof (cases "binary_search (take (e - s) (drop s xs)) x")
  case (Some j)
  then have "j < e - s" "xs ! (s + j) = x" using binary_search_Some [OF Some] assms(1) by auto
  then show ?thesis using assms(2) [of "s + j"] by auto
qed simp

lemma concat_ranges:
  fixes p :: "nat \<Rightarrow> nat"
  shows "(\<And>k. k < n \<Longrightarrow> p k \<le> p (Suc k)) \<Longrightarrow> concat (map (\<lambda>k. [p k..<p (Suc k)]) [0..<n]) = [p 0..<p n] \<and> p 0 \<le> p n"
proof (induction n)
  case (Suc n)
  then have "concat (map (\<lambda>k. [p k..<p (Suc k)]) [0..<n]) = [p 0..<p n]" "p 0 \<le> p n" "p n \<le> p (Suc n)" by auto
  then show ?case using upt_add_eq_append [of "p 0" "p n" "p (Suc n) - p n"] by simp
qed simp

section \<open>The contract of a sparse index\<close>

text \<open>
  \<open>stored\<close> lists the coordinates of the index buffers with their slots in the order of storage; \<open>within\<close> are
  the queries in the index space.
\<close>

locale sparse_index =
  fixes ok :: "'b \<Rightarrow> bool"
    and slots :: "'b \<Rightarrow> nat"
    and stored :: "'b \<Rightarrow> (u64 list \<times> nat) list"
    and within :: "'b \<Rightarrow> u64 list \<Rightarrow> bool"
    and lookup :: "'b \<Rightarrow> u64 list \<Rightarrow> u64 option core_result"
  assumes slots_numbered: "ok b \<Longrightarrow> map snd (stored b) = [0..<slots b]"
    and slots_fit: "ok b \<Longrightarrow> slots b \<le> 2 ^ 64"
    and stored_within: "ok b \<Longrightarrow> (q, i) \<in> set (stored b) \<Longrightarrow> within b q"
    and finds: "ok b \<Longrightarrow> (q, i) \<in> set (stored b) \<Longrightarrow> lookup b q = Ok (Some (word_of_nat i))"
    and misses: "ok b \<Longrightarrow> within b q \<Longrightarrow> q \<notin> fst ` set (stored b) \<Longrightarrow> lookup b q = Ok None"
begin

lemma slot_bound: "ok b \<Longrightarrow> (q, i) \<in> set (stored b) \<Longrightarrow> i < slots b"
  using slots_numbered [of b] by (metis atLeastLessThan_iff image_eqI set_map set_upt snd_conv)

lemma same_slot:
  assumes "ok b" "(q, i) \<in> set (stored b)" "(q', j) \<in> set (stored b)" "word_of_nat i = (word_of_nat j :: u64)"
  shows "i = j" "q = q'"
proof -
  have "i < 2 ^ 64" "j < 2 ^ 64" using slot_bound [OF assms(1,2)] slot_bound [OF assms(1,3)] slots_fit [OF assms(1)] by simp_all
  then have "unat (word_of_nat i :: u64) = i" "unat (word_of_nat j :: u64) = j" by (simp_all add: unat_of_nat)
  then show "i = j" using assms(4) by metis
  moreover have "inj_on snd (set (stored b))" using slots_numbered [OF assms(1)] by (metis distinct_map distinct_upt)
  ultimately show "q = q'" using assms(2,3) inj_onD [of snd "set (stored b)" "(q, i)" "(q', j)"] by simp
qed

lemma keys_distinct: assumes "ok b" shows "distinct (map fst (stored b))"
proof -
  have "inj_on fst (set (stored b))"
  proof (rule inj_onI)
    fix x y assume xy: "x \<in> set (stored b)" "y \<in> set (stored b)" "fst x = fst y"
    then have "(fst x, snd x) \<in> set (stored b)" "(fst x, snd y) \<in> set (stored b)" by (metis prod.collapse)+
    then have "(word_of_nat (snd x) :: u64) = word_of_nat (snd y)" using finds [OF assms] by (metis option.inject result.inject(1))
    then show "x = y" using same_slot(1) [OF assms \<open>(fst x, snd x) \<in> _\<close> \<open>(fst x, snd y) \<in> _\<close>] xy(3) by (simp add: prod_eq_iff)
  qed
  moreover have "distinct (stored b)" using slots_numbered [OF assms] by (metis distinct_map distinct_upt)
  ultimately show ?thesis by (simp add: distinct_map)
qed

theorem lookup_is_map:
  assumes "ok b" "within b q"
  shows "lookup b q = Ok (map_option word_of_nat (map_of (stored b) q))"
proof (cases "map_of (stored b) q")
  case None
  then show ?thesis using misses [OF assms] by (simp add: map_of_eq_None_iff)
next
  case (Some i)
  then show ?thesis using finds [OF assms(1) map_of_SomeD] by simp
qed

theorem lookup_inj:
  assumes "ok b" "within b q" "within b q'" "lookup b q = Ok (Some s)" "lookup b q' = Ok (Some s)"
  shows "q = q'"
proof -
  obtain i j where "map_of (stored b) q = Some i" "map_of (stored b) q' = Some j" "s = word_of_nat i" "s = word_of_nat j"
    using assms by (auto simp: lookup_is_map)
  then show ?thesis using same_slot(2) [OF assms(1) map_of_SomeD map_of_SomeD] by blast
qed

theorem slot_reached:
  assumes "ok b" "k < slots b"
  shows "\<exists>!q. within b q \<and> lookup b q = Ok (Some (word_of_nat k))"
proof -
  have "k \<in> set (map snd (stored b))" using slots_numbered [OF assms(1)] assms(2) by simp
  then obtain q where q: "(q, k) \<in> set (stored b)" by auto
  then show ?thesis using finds [OF assms(1) q] stored_within [OF assms(1) q] lookup_inj [OF assms(1)] by blast
qed

end

section \<open>COO\<close>

text \<open>The bounds of \<open>indices[r * rank..r * rank + rank]\<close> hold for all rows \<open>r\<close> below \<open>nnz\<close>.\<close>

definition coo_coords :: "nat \<Rightarrow> u64 list \<Rightarrow> nat \<Rightarrow> u64 list" where
  "coo_coords rk indices r = take rk (drop (r * rk) indices)"

function coo_search :: "u64 list \<Rightarrow> u64 list \<Rightarrow> nat \<Rightarrow> nat \<Rightarrow> nat option" where
  "coo_search query indices lo hi =
     (if lo < hi then
        let mid = lo + (hi - lo) div 2; c = coo_coords (length query) indices mid in
        if c < query then coo_search query indices (mid + 1) hi
        else if c > query then coo_search query indices lo mid
        else Some mid
      else None)"
  by pat_completeness auto

termination
  by (relation "measure (\<lambda>(q, xs, lo, hi). hi - lo)") auto

declare coo_search.simps [simp del]

function coo_scan :: "u64 list \<Rightarrow> u64 list \<Rightarrow> nat \<Rightarrow> nat \<Rightarrow> nat option" where
  "coo_scan query indices nnz r =
     (if r < nnz then
        if coo_coords (length query) indices r = query then Some r else coo_scan query indices nnz (r + 1)
      else None)"
  by pat_completeness auto

termination
  by (relation "measure (\<lambda>(q, xs, n, r). n - r)") auto

declare coo_scan.simps [simp del]

definition coo_element_offset :: "u64 list \<Rightarrow> bool \<Rightarrow> u64 list \<Rightarrow> u64 option core_result" where
  "coo_element_offset query sorted_indices indices =
     (let rk = length query in
      if rk = 0 then Err (IndexRankMismatch 0 0)
      else if length indices mod rk \<noteq> 0 then Err (InvalidLayout ''coo: indices.len()'')
      else
        let nnz = length indices div rk in
        if sorted_indices then Ok (map_option word_of_nat (coo_search query indices 0 nnz))
        else Ok (map_option word_of_nat (coo_scan query indices nnz 0)))"

lemma coo_search_Some:
  "coo_search q xs lo hi = Some i \<Longrightarrow> lo \<le> i \<and> i < hi \<and> coo_coords (length q) xs i = q"
proof (induction q xs lo hi rule: coo_search.induct)
  case (1 q xs lo hi)
  let ?m = "lo + (hi - lo) div 2"
  show ?case
  proof (cases "lo < hi")
    case True
    then have m: "lo \<le> ?m" "?m < hi" by auto
    consider "coo_coords (length q) xs ?m < q" | "coo_coords (length q) xs ?m > q" | "coo_coords (length q) xs ?m = q"
      by (rule linorder_cases)
    then show ?thesis
    proof cases
      case 1
      then show ?thesis using "1.IH"(1) [OF True refl refl 1] "1.prems" True m
        by (simp add: coo_search.simps [of q xs lo hi] Let_def)
    next
      case 2
      then have "\<not> coo_coords (length q) xs ?m < q" by simp
      then show ?thesis using "1.IH"(2) [OF True refl refl _ 2] "1.prems" True m 2
        by (simp add: coo_search.simps [of q xs lo hi] Let_def)
    qed (use "1.prems" True m in \<open>simp add: coo_search.simps [of q xs lo hi] Let_def\<close>)
  qed (use "1.prems" in \<open>simp add: coo_search.simps [of q xs lo hi]\<close>)
qed

lemma coo_search_None:
  "\<forall>i j. i < j \<longrightarrow> j < n \<longrightarrow> coo_coords (length q) xs i < coo_coords (length q) xs j \<Longrightarrow> hi \<le> n \<Longrightarrow>
   coo_search q xs lo hi = None \<Longrightarrow> lo \<le> k \<Longrightarrow> k < hi \<Longrightarrow> coo_coords (length q) xs k \<noteq> q"
proof (induction q xs lo hi rule: coo_search.induct)
  case (1 q xs lo hi)
  let ?m = "lo + (hi - lo) div 2" and ?c = "coo_coords (length q) xs"
  have lt: "lo < hi" using "1.prems" by simp
  then have m: "lo \<le> ?m" "?m < hi" by auto
  have mono: "?c i < ?c j" if "i < j" "j < n" for i j using "1.prems"(1) that by blast
  consider "?c ?m < q" | "?c ?m > q" | "?c ?m = q" by (rule linorder_cases)
  then show ?case
  proof cases
    case 1
    then have "coo_search q xs (?m + 1) hi = None"
      using "1.prems"(3) lt by (simp add: coo_search.simps [of q xs lo hi] Let_def)
    show ?thesis
    proof (cases "k \<le> ?m")
      case True
      then have "?c k \<le> ?c ?m" using mono [of k ?m] m "1.prems"(2) by (cases "k = ?m") auto
      then show ?thesis using 1 by auto
    next
      case False
      then show ?thesis using "1.IH"(1) [OF lt refl refl 1 "1.prems"(1,2)] \<open>coo_search q xs (?m + 1) hi = None\<close> "1.prems" by simp
    qed
  next
    case 2
    then have n: "\<not> ?c ?m < q" by simp
    have s: "coo_search q xs lo ?m = None"
      using "1.prems"(3) lt 2 n by (simp add: coo_search.simps [of q xs lo hi] Let_def)
    show ?thesis
    proof (cases "k < ?m")
      case True
      have "?m \<le> n" using m "1.prems"(2) by simp
      then show ?thesis using "1.IH"(2) [OF lt refl refl n 2 "1.prems"(1) _ s "1.prems"(4) True] by simp
    next
      case False
      then have "?c ?m \<le> ?c k" using mono [of ?m k] "1.prems"(2,5) by (cases "k = ?m") auto
      then show ?thesis using 2 by auto
    qed
  next
    case 3
    then show ?thesis using "1.prems"(3) lt by (simp add: coo_search.simps [of q xs lo hi] Let_def)
  qed
qed

lemma coo_scan_Some: "coo_scan q xs n r = Some i \<Longrightarrow> i < n \<and> coo_coords (length q) xs i = q"
  by (induction q xs n r rule: coo_scan.induct) (subst (asm) (2) coo_scan.simps, simp split: if_splits)

lemma coo_scan_None: "coo_scan q xs n r = None \<Longrightarrow> r \<le> k \<Longrightarrow> k < n \<Longrightarrow> coo_coords (length q) xs k \<noteq> q"
proof (induction q xs n r rule: coo_scan.induct)
  case (1 q xs n r)
  then have "r < n" "coo_coords (length q) xs r \<noteq> q" "coo_scan q xs n (r + 1) = None"
    by (simp_all add: coo_scan.simps [of q xs n r] split: if_splits)
  then show ?case using 1 by (cases "k = r") auto
qed

text \<open>The storage invariant: rows of \<open>rank\<close> coordinates without duplicates, in lexicographic order when the
  layout says so.\<close>

definition coo_ok :: "nat \<times> bool \<times> u64 list \<Rightarrow> bool" where
  "coo_ok = (\<lambda>(rk, srt, xs). 0 < rk \<and> length xs mod rk = 0 \<and> length xs < 2 ^ 63 \<and>
     (let rows = map (coo_coords rk xs) [0..<length xs div rk] in distinct rows \<and> (srt \<longrightarrow> sorted rows)))"

definition coo_stored :: "nat \<times> bool \<times> u64 list \<Rightarrow> (u64 list \<times> nat) list" where
  "coo_stored = (\<lambda>(rk, srt, xs). map (\<lambda>r. (coo_coords rk xs r, r)) [0..<length xs div rk])"

lemma length_coo_coords: "r < length xs div rk \<Longrightarrow> length (coo_coords rk xs r) = rk"
proof -
  assume r: "r < length xs div rk"
  then have "(r + 1) * rk \<le> length xs div rk * rk" by (intro mult_le_mono1) simp
  also have "\<dots> \<le> length xs" by simp
  finally show ?thesis by (simp add: coo_coords_def)
qed

interpretation coo: sparse_index coo_ok "\<lambda>(rk, srt, xs). length xs div rk" coo_stored
  "\<lambda>(rk, srt, xs) q. length q = rk" "\<lambda>(rk, srt, xs) q. coo_element_offset q srt xs"
proof (unfold_locales, goal_cases)
  case (1 b)
  then show ?case by (cases b) (simp add: coo_stored_def comp_def)
next
  case (2 b)
  obtain rk srt xs where b: "b = (rk, srt, xs)" by (cases b)
  have "length xs div rk \<le> length xs" by (rule div_le_dividend)
  moreover have "length xs < 2 ^ 63" using 2 b by (simp add: coo_ok_def Let_def)
  ultimately have "length xs div rk < 2 ^ 63" by linarith
  then show ?case using b by simp
next
  case (3 b q i)
  then show ?case by (cases b) (auto simp: coo_stored_def length_coo_coords)
next
  case (4 b q i)
  obtain rk srt xs where b: "b = (rk, srt, xs)" by (cases b)
  let ?n = "length xs div rk"
  have i: "i < ?n" "q = coo_coords rk xs i" "length q = rk" using 4(2) b by (auto simp: coo_stored_def length_coo_coords)
  have d: "coo_coords rk xs j \<noteq> q" if "j < ?n" "j \<noteq> i" for j
    using 4(1) b i that by (auto simp: coo_ok_def Let_def distinct_conv_nth)
  have "coo_search q xs 0 ?n = Some i" if srt
  proof (cases "coo_search q xs 0 ?n")
    case None
    have "coo_coords rk xs j < coo_coords rk xs k" if "j < k" "k < ?n" for j k
    proof -
      have "sorted_wrt (<) (map (coo_coords rk xs) [0..<?n])"
        using 4(1) b \<open>srt\<close> by (simp add: coo_ok_def Let_def strict_sorted_iff)
      then show ?thesis using that by (simp add: sorted_wrt_iff_nth_less)
    qed
    then show ?thesis using coo_search_None [of ?n q xs ?n 0 i] None i by auto
  next
    case (Some j)
    then show ?thesis using coo_search_Some [OF Some] d [of j] i by auto
  qed
  moreover have "coo_scan q xs ?n 0 = Some i"
  proof (cases "coo_scan q xs ?n 0")
    case None
    then show ?thesis using coo_scan_None [OF None, of i] i by simp
  next
    case (Some j)
    then show ?thesis using coo_scan_Some [OF Some] d [of j] i by auto
  qed
  moreover have "q \<noteq> []" using 4(1) b i(3) by (auto simp: coo_ok_def)
  ultimately show ?case using 4(1) b i(3) by (simp add: coo_element_offset_def Let_def coo_ok_def)
next
  case (5 b q)
  obtain rk srt xs where b: "b = (rk, srt, xs)" by (cases b)
  let ?n = "length xs div rk"
  have "coo_coords rk xs j \<noteq> q" if "j < ?n" for j using 5(3) b that by (force simp: coo_stored_def)
  then have "coo_search q xs 0 ?n = None" "coo_scan q xs ?n 0 = None"
    using coo_search_Some [of q xs 0 ?n] coo_scan_Some [of q xs ?n 0] 5(2) b by (auto intro: ccontr)
  moreover have "q \<noteq> []" using 5(1,2) b by (auto simp: coo_ok_def)
  ultimately show ?case using 5(1,2) b by (simp add: coo_element_offset_def Let_def coo_ok_def)
qed

section \<open>CSR and CSC\<close>

definition csr_element_offset :: "u64 list \<Rightarrow> u64 list \<Rightarrow> u64 list \<Rightarrow> u64 option core_result" where
  "csr_element_offset query col_indices row_ptr =
     (if length query \<noteq> 2 then Err (IndexRankMismatch (length query) 2)
      else
        r_bind (index_at query 0) (\<lambda>row.
        r_bind (index_at query 1) (\<lambda>col.
        if row_ptr = [] then Err (InvalidLayout ''csr: row_ptr empty'')
        else
          let nrows = word_of_nat (length row_ptr - 1) in
          if row \<ge> nrows then Err (IndexOutOfRange 0 row nrows)
          else
            r_bind (index_at row_ptr (unat row)) (\<lambda>s.
            r_bind (index_at row_ptr (unat row + 1)) (\<lambda>e.
            if unat s > unat e \<or> unat e > length col_indices then Err (InvalidLayout ''csr: row_ptr range'')
            else
              r_bind (range_at col_indices (unat s) (unat e)) (\<lambda>slice.
              case binary_search slice col of
                Some k \<Rightarrow> Ok (Some (word_of_nat (unat s + k)))
              | None \<Rightarrow> Ok None))))))"

definition csc_element_offset :: "u64 list \<Rightarrow> u64 list \<Rightarrow> u64 list \<Rightarrow> u64 option core_result" where
  "csc_element_offset query row_indices col_ptr =
     (if length query \<noteq> 2 then Err (IndexRankMismatch (length query) 2)
      else
        r_bind (index_at query 0) (\<lambda>row.
        r_bind (index_at query 1) (\<lambda>col.
        if col_ptr = [] then Err (InvalidLayout ''csc: col_ptr empty'')
        else
          let ncols = word_of_nat (length col_ptr - 1) in
          if col \<ge> ncols then Err (IndexOutOfRange 1 col ncols)
          else
            r_bind (index_at col_ptr (unat col)) (\<lambda>s.
            r_bind (index_at col_ptr (unat col + 1)) (\<lambda>e.
            if unat s > unat e \<or> unat e > length row_indices then Err (InvalidLayout ''csc: col_ptr range'')
            else
              r_bind (range_at row_indices (unat s) (unat e)) (\<lambda>slice.
              case binary_search slice row of
                Some k \<Rightarrow> Ok (Some (word_of_nat (unat s + k)))
              | None \<Rightarrow> Ok None))))))"

text \<open>The storage invariant of \<open>docs/spec/layouts/csr.md\<close>: the row pointers start at 0, do not decrease and end at
  the number of stored elements, and the column indices increase within each row.\<close>

definition csr_ok :: "u64 list \<times> u64 list \<Rightarrow> bool" where
  "csr_ok = (\<lambda>(cs, rp). rp \<noteq> [] \<and> length rp < 2 ^ 63 \<and> length cs < 2 ^ 63 \<and> hd rp = 0 \<and>
     unat (last rp) = length cs \<and> sorted rp \<and>
     list_all (\<lambda>r. increasing_on cs (unat (rp ! r)) (unat (rp ! Suc r))) [0..<length rp - 1])"

definition csr_stored :: "u64 list \<times> u64 list \<Rightarrow> (u64 list \<times> nat) list" where
  "csr_stored = (\<lambda>(cs, rp).
     concat (map (\<lambda>r. map (\<lambda>k. ([word_of_nat r, cs ! k], k)) [unat (rp ! r)..<unat (rp ! Suc r)]) [0..<length rp - 1]))"

definition csr_within :: "u64 list \<times> u64 list \<Rightarrow> u64 list \<Rightarrow> bool" where
  "csr_within = (\<lambda>(cs, rp) q. length q = 2 \<and> unat (q ! 0) < length rp - 1)"

lemma list_of_two: "length q = 2 \<Longrightarrow> q = [q ! 0, q ! 1]"
  by (cases q; cases "tl q") (auto simp: numeral_2_eq_2)

lemma in_csr_stored:
  "(q, k) \<in> set (csr_stored (cs, rp)) \<longleftrightarrow>
   (\<exists>r < length rp - 1. q = [word_of_nat r, cs ! k] \<and> unat (rp ! r) \<le> k \<and> k < unat (rp ! Suc r))"
  by (force simp: csr_stored_def image_iff)

lemma csr_segment:
  assumes "csr_ok (cs, rp)" "r < length rp - 1"
  shows "unat (rp ! r) \<le> unat (rp ! Suc r)" "unat (rp ! Suc r) \<le> length cs"
    "increasing_on cs (unat (rp ! r)) (unat (rp ! Suc r))"
    "csr_element_offset [word_of_nat r, c] cs rp =
       Ok (map_option (\<lambda>k. word_of_nat (unat (rp ! r) + k))
         (binary_search (take (unat (rp ! Suc r) - unat (rp ! r)) (drop (unat (rp ! r)) cs)) c))"
proof -
  have s: "sorted rp" and n: "rp \<noteq> []" and l: "length rp < 2 ^ 63" using assms(1) by (simp_all add: csr_ok_def)
  have "rp ! r \<le> rp ! Suc r" using s assms(2) by (intro sorted_nth_mono) auto
  then show a: "unat (rp ! r) \<le> unat (rp ! Suc r)" by (simp add: word_le_nat_alt)
  have "rp ! Suc r \<le> rp ! (length rp - 1)" using s assms(2) by (intro sorted_nth_mono) auto
  then have "unat (rp ! Suc r) \<le> unat (last rp)" using n by (simp add: last_conv_nth word_le_nat_alt)
  then show b: "unat (rp ! Suc r) \<le> length cs" using assms(1) by (simp add: csr_ok_def)
  show "increasing_on cs (unat (rp ! r)) (unat (rp ! Suc r))" using assms by (simp add: csr_ok_def list_all_iff)
  have "r < 2 ^ 64" "length rp - 1 < 2 ^ 64" using assms(2) l by simp_all
  then have u: "unat (word_of_nat r :: u64) = r" "unat (word_of_nat (length rp - 1) :: u64) = length rp - 1"
    by (simp_all add: unat_of_nat)
  then have "\<not> (word_of_nat (length rp - 1) :: u64) \<le> word_of_nat r" using assms(2) by (simp only: word_le_nat_alt not_le)
  then show "csr_element_offset [word_of_nat r, c] cs rp =
       Ok (map_option (\<lambda>k. word_of_nat (unat (rp ! r) + k))
         (binary_search (take (unat (rp ! Suc r) - unat (rp ! r)) (drop (unat (rp ! r)) cs)) c))"
    using a b n assms(2) u(1) by (simp add: csr_element_offset_def Let_def range_at_def split: option.split)
qed

lemma map_snd_stored: "map snd (map (\<lambda>k. (f k, k)) ks) = ks"
  by (simp add: comp_def)

interpretation csr: sparse_index csr_ok "\<lambda>(cs, rp). length cs" csr_stored csr_within
  "\<lambda>(cs, rp) q. csr_element_offset q cs rp"
proof (unfold_locales, goal_cases)
  case (1 b)
  obtain cs rp where b: "b = (cs, rp)" by (cases b)
  have ok: "csr_ok (cs, rp)" using 1 b by simp
  have "map snd (csr_stored (cs, rp)) = concat (map (\<lambda>r. [unat (rp ! r)..<unat (rp ! Suc r)]) [0..<length rp - 1])"
    by (simp add: csr_stored_def map_concat comp_def)
  also have "\<dots> = [unat (rp ! 0)..<unat (rp ! (length rp - 1))]"
    using concat_ranges [of "length rp - 1" "\<lambda>r. unat (rp ! r)"] csr_segment(1) [OF ok] by blast
  finally have st: "map snd (csr_stored (cs, rp)) = [unat (rp ! 0)..<unat (rp ! (length rp - 1))]" .
  have "rp \<noteq> []" using ok by (simp add: csr_ok_def)
  then have "unat (rp ! 0) = 0" "unat (rp ! (length rp - 1)) = length cs"
    using ok hd_conv_nth [of rp] last_conv_nth [of rp] by (simp_all add: csr_ok_def)
  then show ?case using st b by simp
next
  case (2 b)
  then show ?case by (cases b) (simp add: csr_ok_def)
next
  case (3 b q i)
  then show ?case by (cases b) (auto simp: in_csr_stored csr_within_def csr_ok_def unat_of_nat)
next
  case (4 b q i)
  obtain cs rp where b: "b = (cs, rp)" by (cases b)
  obtain r where r: "r < length rp - 1" "q = [word_of_nat r, cs ! i]" "unat (rp ! r) \<le> i" "i < unat (rp ! Suc r)"
    using 4(2) b by (auto simp: in_csr_stored)
  note g = csr_segment [OF 4(1) [unfolded b] r(1)]
  show ?case using g(4) segment_found [OF g(3) r(3,4) g(2)] r b by simp
next
  case (5 b q)
  obtain cs rp where b: "b = (cs, rp)" by (cases b)
  define r where "r = unat (q ! 0)"
  have r: "r < length rp - 1" and q: "q = [word_of_nat r, q ! 1]"
    using 5(2) b list_of_two [of q] by (simp_all add: csr_within_def r_def)
  note g = csr_segment [OF 5(1) [unfolded b] r]
  have "cs ! k \<noteq> q ! 1" if "unat (rp ! r) \<le> k" "k < unat (rp ! Suc r)" for k
  proof
    assume "cs ! k = q ! 1"
    then have "(q, k) \<in> set (csr_stored (cs, rp))" unfolding in_csr_stored using r that q by (intro exI [of _ r]) simp
    then show False using 5(3) b by force
  qed
  then show ?case using g(4) [of "q ! 1"] segment_missed [OF g(2)] q b by simp
qed

text \<open>A CSC lookup is the CSR lookup of the transposed query.\<close>

lemma csc_as_csr: "csc_element_offset q ris cp = Ok x \<longleftrightarrow> csr_element_offset (rev q) ris cp = Ok x"
proof (cases "length q = 2")
  case True
  then obtain a b where "q = [a, b]" using list_of_two [of q] by blast
  then show ?thesis
    by (auto simp: csc_element_offset_def csr_element_offset_def Let_def r_bind_Ok_iff split: if_splits)
qed (auto simp: csc_element_offset_def csr_element_offset_def)

definition csc_stored :: "u64 list \<times> u64 list \<Rightarrow> (u64 list \<times> nat) list" where
  "csc_stored b = map (\<lambda>(q, k). (rev q, k)) (csr_stored b)"

lemma in_csc_stored: "(q, k) \<in> set (csc_stored b) \<longleftrightarrow> (rev q, k) \<in> set (csr_stored b)"
  by (force simp: csc_stored_def)

interpretation csc: sparse_index csr_ok "\<lambda>(cs, rp). length cs" csc_stored "\<lambda>b q. csr_within b (rev q)"
  "\<lambda>(ris, cp) q. csc_element_offset q ris cp"
proof (unfold_locales, goal_cases)
  case (1 b)
  then show ?case using csr.slots_numbered [of b] by (simp add: csc_stored_def comp_def case_prod_beta')
next
  case (2 b)
  then show ?case by (rule csr.slots_fit)
next
  case (3 b q i)
  then show ?case using csr.stored_within [of b "rev q" i] by (simp add: in_csc_stored)
next
  case (4 b q i)
  then show ?case using csr.finds [of b "rev q" i] by (cases b) (simp add: in_csc_stored csc_as_csr)
next
  case (5 b q)
  have "rev q \<notin> fst ` set (csr_stored b)" using 5(3) in_csc_stored [of q _ b] by force
  then show ?case using csr.misses [of b "rev q"] 5 by (cases b) (simp add: csc_as_csr)
qed

section \<open>Properties\<close>

text \<open>
  C24. The COO lookup is exact: on rows without duplicates, sorted when the layout says so, a query of the right rank
  yields the row with its coordinates or nothing; the binary search of sorted rows agrees with the scan.
\<close>

theorem coo_lookup_exact:
  assumes "coo_ok (rk, srt, indices)" and "length q = rk"
  shows "coo_element_offset q srt indices =
      Ok (map_option word_of_nat (map_of (map (\<lambda>r. (coo_coords rk indices r, r)) [0..<length indices div rk]) q)) \<and>
    coo_element_offset q srt indices = coo_element_offset q False indices"
proof -
  have "coo_ok (rk, False, indices)" using assms(1) by (simp add: coo_ok_def Let_def)
  then show ?thesis
    using coo.lookup_is_map [of "(rk, srt, indices)" q] coo.lookup_is_map [of "(rk, False, indices)" q] assms
    by (simp add: coo_stored_def)
qed

theorem coo_lookup_exact_witness:
  "coo_element_offset [1, 0] True [0, 1, 1, 0, 1, 2] = Ok (Some 1)"
proof -
  have ok: "coo_ok (2, True, [0, 1, 1, 0, 1, 2])" by (simp add: coo_ok_def coo_coords_def Let_def upt_rec)
  show ?thesis using coo_lookup_exact [OF ok, of "[1, 0]"] by (simp add: coo_coords_def upt_rec)
qed

text \<open>
  C23. The CSR lookup is exact on buffers that satisfy the storage invariant, every stored element is found at exactly
  one index, and the CSC lookup is the CSR lookup of the transposed index.
\<close>

theorem compressed_lookups_exact:
  assumes "csr_ok (indices, ptr)" and "unat r < length ptr - 1"
  shows "csr_element_offset [r, c] indices ptr =
      Ok (map_option word_of_nat (map_of (csr_stored (indices, ptr)) [r, c])) \<and>
    csc_element_offset [c, r] indices ptr = csr_element_offset [r, c] indices ptr \<and>
    (k < length indices \<longrightarrow> (\<exists>!q. csr_within (indices, ptr) q \<and> csr_element_offset q indices ptr = Ok (Some (word_of_nat k))))"
proof -
  have w: "csr_within (indices, ptr) [r, c]" using assms(2) by (simp add: csr_within_def)
  note m = csr.lookup_is_map [OF assms(1) w, simplified]
  moreover have "csc_element_offset [c, r] indices ptr = Ok (map_option word_of_nat (map_of (csr_stored (indices, ptr)) [r, c]))"
    using m by (simp add: csc_as_csr)
  ultimately show ?thesis using csr.slot_reached [OF assms(1), of k] by simp
qed

theorem compressed_lookups_exact_witness:
  "csr_element_offset [1, 2] [1, 0, 2] [0, 1, 3] = Ok (Some 2) \<and> csc_element_offset [2, 1] [1, 0, 2] [0, 1, 3] = Ok (Some 2)"
proof -
  have ok: "csr_ok ([1, 0, 2], [0, 1, 3])" by (simp add: csr_ok_def increasing_on_def upt_rec)
  have b: "unat (1 :: u64) < length [0, 1, 3 :: u64] - 1" by simp
  show ?thesis
    using compressed_lookups_exact [OF ok b, of 2 0] by (simp add: csr_stored_def upt_rec)
qed

text \<open>On arbitrary buffers the lookups end with a value or an error.\<close>

lemma coo_no_panic: "coo_element_offset q srt indices \<noteq> Panic"
  by (simp add: coo_element_offset_def Let_def)

lemma csr_no_panic:
  assumes "length ptr < 2 ^ 63"
  shows "csr_element_offset q indices ptr \<noteq> Panic"
proof (cases "length q = 2 \<and> ptr \<noteq> []")
  case True
  have "unat (word_of_nat (length ptr - 1) :: u64) = length ptr - 1" using assms by (simp add: unat_of_nat)
  then have "unat r < length ptr \<and> Suc (unat r) < length ptr" if "r < word_of_nat (length ptr - 1)" for r :: u64
    using that by (simp add: word_less_nat_alt) linarith
  then show ?thesis using True
    by (auto simp: csr_element_offset_def Let_def range_at_def not_le split: option.splits)
qed (auto simp: csr_element_offset_def index_at_def)

end
