(* ===== verification/Csf_Lookup.thy ===== *)
theory Csf_Lookup
  imports Sparse_Lookup
begin

text \<open>
  Compressed sparse fibers (\<open>hurray-core/src/layout/addressing/csf.rs\<close>): the descent from the virtual root
  through one level of child ranges and coordinates per dimension, and the validation of the index
  buffers. What the validation accepts is a sparse index whose slots are the leaves of the tree.
\<close>

section \<open>Lookup\<close>

text \<open>The loop over the levels, at \<open>level\<close> with the parent position \<open>p\<close>.\<close>

function csf_descend ::
  "u64 list \<Rightarrow> u32 list \<Rightarrow> u64 list list \<Rightarrow> u64 list list \<Rightarrow> nat \<Rightarrow> u64 \<Rightarrow> u64 option core_result" where
  "csf_descend query modes pos_levels crd_levels level p =
     (if level < length modes then
        let dim_idx = unat (modes ! level) in
        if dim_idx \<ge> length query then Err (InvalidLayout ''csf: mode_order'')
        else
          r_bind (index_at pos_levels level) (\<lambda>ps.
          r_bind (index_at crd_levels level) (\<lambda>crd.
          if unat p + 1 \<ge> length ps then Err (InvalidLayout ''csf: pos out of bounds'')
          else
            let s = ps ! unat p; e = ps ! (unat p + 1) in
            if unat s > unat e then Err (InvalidLayout ''csf: pos not non-decreasing'')
            else if unat e > length crd then Err (InvalidLayout ''csf: pos exceeds crd'')
            else
              r_bind (range_at crd (unat s) (unat e)) (\<lambda>slice.
              case binary_search slice (query ! dim_idx) of
                Some k \<Rightarrow>
                  r_bind (ok_or (checked_add s (word_of_nat k)) AddressOverflow) (\<lambda>p.
                    csf_descend query modes pos_levels crd_levels (level + 1) p)
              | None \<Rightarrow> Ok None)))
      else Ok (Some p))"
  by pat_completeness auto

termination
  by (relation "measure (\<lambda>(q, mo, ps, cs, level, p). length mo - level)") auto

declare csf_descend.simps [simp del]

definition csf_element_offset ::
  "u64 list \<Rightarrow> u32 list \<Rightarrow> u64 list list \<Rightarrow> u64 list list \<Rightarrow> u64 option core_result" where
  "csf_element_offset query modes pos_levels crd_levels =
     (if length query \<noteq> length modes then Err (IndexRankMismatch (length query) (length modes))
      else csf_descend query modes pos_levels crd_levels 0 0)"

section \<open>Validation\<close>

fun csf_non_decreasing :: "u64 list \<Rightarrow> unit core_result" where
  "csf_non_decreasing (a # b # ps) =
     (if a > b then Err (InvalidLayout ''csf: pos not non-decreasing'') else csf_non_decreasing (b # ps))"
| "csf_non_decreasing _ = Ok ()"

fun csf_siblings :: "u64 \<Rightarrow> u64 option \<Rightarrow> u64 list \<Rightarrow> unit core_result" where
  "csf_siblings bound prev [] = Ok ()"
| "csf_siblings bound prev (c # cs) =
     (if c \<ge> bound then Err (InvalidLayout ''csf: crd out of range'')
      else if prev \<noteq> None \<and> c \<le> the prev then Err (InvalidLayout ''csf: crd not increasing'')
      else csf_siblings bound (Some c) cs)"

text \<open>The loop over the parents from \<open>k\<close> on.\<close>

function csf_parents :: "u64 list \<Rightarrow> u64 list \<Rightarrow> u64 \<Rightarrow> nat \<Rightarrow> nat \<Rightarrow> unit core_result" where
  "csf_parents ps crd bound n k =
     (if k < n then
        r_bind (index_at ps k) (\<lambda>s.
        r_bind (index_at ps (k + 1)) (\<lambda>e.
        r_bind (range_at crd (unat s) (unat e)) (\<lambda>slice.
        r_bind (csf_siblings bound None slice) (\<lambda>_. csf_parents ps crd bound n (k + 1)))))
      else Ok ())"
  by pat_completeness auto

termination
  by (relation "measure (\<lambda>(ps, crd, bound, n, k). n - k)") auto

declare csf_parents.simps [simp del]

definition csf_check_level ::
  "u64 \<Rightarrow> bool \<Rightarrow> u64 \<Rightarrow> u64 list \<Rightarrow> u64 list \<Rightarrow> u64 \<Rightarrow> u64 core_result" where
  "csf_check_level nnz leaf bound ps crd n_prev =
     (if length ps \<noteq> min (unat n_prev + 1) (2 ^ 64 - 1) then Err (InvalidLayout ''csf: pos length'')
      else
        r_bind (index_at ps 0) (\<lambda>p0.
        if p0 \<noteq> 0 then Err (InvalidLayout ''csf: pos[0]'')
        else
          r_bind (csf_non_decreasing ps) (\<lambda>_.
          r_bind (index_at ps (unat n_prev)) (\<lambda>n_l.
          if leaf \<and> n_l \<noteq> nnz then Err (InvalidLayout ''csf: nnz'')
          else if (word_of_nat (length crd) :: u64) \<noteq> n_l then Err (InvalidLayout ''csf: crd length'')
          else r_bind (csf_parents ps crd bound (unat n_prev) 0) (\<lambda>_. Ok n_l)))))"

function csf_check_levels ::
  "u64 \<Rightarrow> u32 list \<Rightarrow> u64 list \<Rightarrow> u64 list list \<Rightarrow> u64 list list \<Rightarrow> nat \<Rightarrow> u64 \<Rightarrow> unit core_result" where
  "csf_check_levels nnz modes shape_dims pos_levels crd_levels level n_prev =
     (if level < length modes then
        r_bind (index_at pos_levels level) (\<lambda>ps.
        r_bind (index_at crd_levels level) (\<lambda>crd.
        let dim_idx = unat (modes ! level) in
        if dim_idx < length shape_dims then
          r_bind (csf_check_level nnz (level = length modes - 1) (shape_dims ! dim_idx) ps crd n_prev) (\<lambda>n_l.
            csf_check_levels nnz modes shape_dims pos_levels crd_levels (level + 1) n_l)
        else Err (InvalidLayout ''csf: mode_order range'')))
      else Ok ())"
  by pat_completeness auto

termination
  by (relation "measure (\<lambda>(nnz, mo, ds, ps, cs, level, n). length mo - level)") auto

declare csf_check_levels.simps [simp del]

definition validate_index_buffers ::
  "u64 \<Rightarrow> u32 list \<Rightarrow> u64 list \<Rightarrow> u64 list list \<Rightarrow> u64 list list \<Rightarrow> unit core_result" where
  "validate_index_buffers nnz modes shape_dims pos_levels crd_levels =
     (if length pos_levels \<noteq> length modes then Err (InvalidLayout ''csf: pos_levels length'')
      else if length crd_levels \<noteq> length modes then Err (InvalidLayout ''csf: crd_levels length'')
      else csf_check_levels nnz modes shape_dims pos_levels crd_levels 0 1)"

section \<open>What the validation accepts\<close>

lemma csf_non_decreasing_Ok [simp]: "csf_non_decreasing ps = Ok () \<longleftrightarrow> sorted ps"
  by (induction ps rule: csf_non_decreasing.induct) auto

lemma csf_non_decreasing_sorted [simp]: "sorted ps \<Longrightarrow> csf_non_decreasing ps = Ok ()"
  by simp

lemma csf_siblings_Ok:
  "csf_siblings bound prev cs = Ok () \<longleftrightarrow>
   sorted_wrt (<) cs \<and> (\<forall>c \<in> set cs. c < bound \<and> (\<forall>p. prev = Some p \<longrightarrow> p < c))"
  by (induction bound prev cs rule: csf_siblings.induct) (auto simp: not_le)

lemma csf_siblings_not_Panic [simp]: "csf_siblings bound prev cs \<noteq> Panic"
  by (induction bound prev cs rule: csf_siblings.induct) auto

lemma csf_non_decreasing_not_Panic [simp]: "csf_non_decreasing ps \<noteq> Panic"
  by (induction ps rule: csf_non_decreasing.induct) auto

definition segment_ok :: "u64 \<Rightarrow> u64 list \<Rightarrow> u64 list \<Rightarrow> nat \<Rightarrow> bool" where
  "segment_ok bound ps crd j \<longleftrightarrow>
     increasing_on crd (unat (ps ! j)) (unat (ps ! Suc j)) \<and>
     (\<forall>i. unat (ps ! j) \<le> i \<longrightarrow> i < unat (ps ! Suc j) \<longrightarrow> crd ! i < bound)"

lemma segment_siblings:
  assumes "unat (ps ! j) \<le> unat (ps ! Suc j)" "unat (ps ! Suc j) \<le> length crd"
  shows "csf_siblings bound None (take (unat (ps ! Suc j) - unat (ps ! j)) (drop (unat (ps ! j)) crd)) = Ok () \<longleftrightarrow>
    segment_ok bound ps crd j"
proof -
  let ?s = "unat (ps ! j)" and ?e = "unat (ps ! Suc j)"
  have "set (take (?e - ?s) (drop ?s crd)) = (!) crd ` {?s..<?e}"
  proof (intro set_eqI iffI)
    fix x assume "x \<in> set (take (?e - ?s) (drop ?s crd))"
    then obtain i where "i < ?e - ?s" "x = crd ! (?s + i)" using assms by (auto simp: in_set_conv_nth)
    then show "x \<in> (!) crd ` {?s..<?e}" by (intro image_eqI [of _ _ "?s + i"]) auto
  next
    fix x assume "x \<in> (!) crd ` {?s..<?e}"
    then obtain i where "?s \<le> i" "i < ?e" "x = crd ! i" by auto
    then show "x \<in> set (take (?e - ?s) (drop ?s crd))"
      unfolding in_set_conv_nth using assms by (intro exI [of _ "i - ?s"]) simp
  qed
  then show ?thesis by (auto simp: csf_siblings_Ok segment_ok_def increasing_on_def)
qed

lemma csf_parents_spec:
  "n < length ps \<Longrightarrow> sorted ps \<Longrightarrow> unat (ps ! n) \<le> length crd \<Longrightarrow>
   csf_parents ps crd bound n k \<noteq> Panic \<and>
   (csf_parents ps crd bound n k = Ok () \<longleftrightarrow> (\<forall>j. k \<le> j \<longrightarrow> j < n \<longrightarrow> segment_ok bound ps crd j))"
proof (induction ps crd bound n k rule: csf_parents.induct)
  case (1 ps crd bound n k)
  show ?case
  proof (cases "k < n")
    case True
    let ?s = "unat (ps ! k)" and ?e = "unat (ps ! Suc k)"
    let ?slice = "take (?e - ?s) (drop ?s crd)"
    have "ps ! k \<le> ps ! Suc k" "ps ! Suc k \<le> ps ! n" using True 1(2,3) by (auto intro: sorted_nth_mono)
    then have se: "?s \<le> ?e" "?e \<le> length crd" using 1(4) by (simp_all add: word_le_nat_alt)
    have acc: "index_at ps k = (Ok (ps ! k) :: u64 core_result)" "index_at ps (k + 1) = (Ok (ps ! Suc k) :: u64 core_result)"
      "range_at crd ?s ?e = (Ok ?slice :: u64 list core_result)"
      using True 1(2) se by (simp_all add: range_at_def)
    have unfold: "csf_parents ps crd bound n k =
        r_bind (csf_siblings bound None ?slice) (\<lambda>_. csf_parents ps crd bound n (k + 1))"
      using True acc by (subst csf_parents.simps) simp
    have split: "(\<forall>j. k \<le> j \<longrightarrow> j < n \<longrightarrow> segment_ok bound ps crd j) \<longleftrightarrow>
        segment_ok bound ps crd k \<and> (\<forall>j. k + 1 \<le> j \<longrightarrow> j < n \<longrightarrow> segment_ok bound ps crd j)"
      using True by (metis Suc_eq_plus1 le_Suc_eq Suc_leI le_refl nat_less_le not_less_eq_eq)
    show ?thesis
    proof (cases "csf_siblings bound None ?slice")
      case (Ok u)
      then have "segment_ok bound ps crd k" using segment_siblings [OF se] by simp
      then show ?thesis using 1(1) [OF True acc Ok 1(2,3,4)] Ok unfolding unfold split by simp
    next
      case (Err e)
      then have "\<not> segment_ok bound ps crd k" using segment_siblings [OF se, of bound] by simp
      then show ?thesis using Err unfolding unfold split by simp
    qed simp
  qed (simp add: csf_parents.simps)
qed

text \<open>A stack of levels under \<open>n\<close> parents with \<open>m\<close> leaves.\<close>

fun csf_levels_ok :: "nat \<Rightarrow> u64 list \<Rightarrow> (u64 list \<times> u64 list) list \<Rightarrow> nat \<Rightarrow> bool" where
  "csf_levels_ok n (bound # bounds) ((ps, crd) # ls) m \<longleftrightarrow>
     length ps = n + 1 \<and> ps ! 0 = 0 \<and> sorted ps \<and> unat (ps ! n) = length crd \<and>
     (\<forall>k < n. increasing_on crd (unat (ps ! k)) (unat (ps ! Suc k))) \<and> (\<forall>c \<in> set crd. c < bound) \<and>
     csf_levels_ok (length crd) bounds ls m"
| "csf_levels_ok n bounds ls m \<longleftrightarrow> n = m"

lemma segment_owner:
  fixes ps :: "u64 list"
  assumes "ps ! 0 = 0" "i < unat (ps ! n)"
  shows "\<exists>k < n. unat (ps ! k) \<le> i \<and> i < unat (ps ! Suc k)"
  using assms(2)
proof (induction n)
  case 0
  then show ?case using assms(1) by simp
next
  case (Suc n)
  show ?case
  proof (cases "i < unat (ps ! n)")
    case True
    then show ?thesis using Suc.IH by (meson less_SucI)
  next
    case False
    then show ?thesis using Suc.prems by (intro exI [of _ n]) simp
  qed
qed

definition level_ok :: "nat \<Rightarrow> u64 \<Rightarrow> u64 list \<Rightarrow> u64 list \<Rightarrow> bool" where
  "level_ok n bound ps crd \<longleftrightarrow>
     length ps = n + 1 \<and> ps ! 0 = 0 \<and> sorted ps \<and> unat (ps ! n) = length crd \<and>
     (\<forall>k < n. increasing_on crd (unat (ps ! k)) (unat (ps ! Suc k))) \<and> (\<forall>c \<in> set crd. c < bound)"

lemma segments_level:
  assumes "length ps = n + 1" "ps ! 0 = 0" "sorted ps" "unat (ps ! n) = length crd"
  shows "(\<forall>j < n. segment_ok bound ps crd j) \<longleftrightarrow> level_ok n bound ps crd"
proof
  assume *: "\<forall>j < n. segment_ok bound ps crd j"
  have "c < bound" if "c \<in> set crd" for c
  proof -
    obtain i where i: "i < length crd" "crd ! i = c" using \<open>c \<in> set crd\<close> by (auto simp: in_set_conv_nth)
    then obtain k where "k < n" "unat (ps ! k) \<le> i" "i < unat (ps ! Suc k)"
      using segment_owner [OF assms(2), of i n] assms(4) by auto
    then show ?thesis using * i by (auto simp: segment_ok_def)
  qed
  then show "level_ok n bound ps crd" using * assms by (auto simp: level_ok_def segment_ok_def)
next
  assume *: "level_ok n bound ps crd"
  show "\<forall>j < n. segment_ok bound ps crd j"
  proof (intro allI impI)
    fix j assume j: "j < n"
    have "ps ! Suc j \<le> ps ! n" using j assms(1,3) by (auto intro: sorted_nth_mono)
    then have "unat (ps ! Suc j) \<le> length crd" using assms(4) by (simp add: word_le_nat_alt)
    then show "segment_ok bound ps crd j" using * j by (auto simp: segment_ok_def level_ok_def)
  qed
qed

lemma csf_check_level_spec:
  assumes "length crd < 2 ^ 63" "unat n < 2 ^ 63"
  shows "csf_check_level nnz leaf bound ps crd n \<noteq> Panic"
    "csf_check_level nnz leaf bound ps crd n = Ok n_l \<longleftrightarrow>
       level_ok (unat n) bound ps crd \<and> n_l = word_of_nat (length crd) \<and> (leaf \<longrightarrow> n_l = nnz)"
proof -
  have m: "min (unat n + 1) (2 ^ 64 - 1) = unat n + 1" using assms(2) by simp
  have u: "unat (word_of_nat (length crd) :: u64) = length crd" using assms(1) by (simp add: unat_of_nat)
  have "csf_check_level nnz leaf bound ps crd n \<noteq> Panic \<and>
    (csf_check_level nnz leaf bound ps crd n = Ok n_l \<longleftrightarrow>
       level_ok (unat n) bound ps crd \<and> n_l = word_of_nat (length crd) \<and> (leaf \<longrightarrow> n_l = nnz))"
  proof (cases "length ps = unat n + 1 \<and> ps ! 0 = 0 \<and> sorted ps \<and> word_of_nat (length crd) = ps ! unat n")
    case True
    then have p: "length ps = unat n + 1" "ps ! 0 = 0" "sorted ps" "unat (ps ! unat n) = length crd"
      using u by auto
    have "csf_parents ps crd bound (unat n) 0 \<noteq> Panic \<and>
        (csf_parents ps crd bound (unat n) 0 = Ok () \<longleftrightarrow> level_ok (unat n) bound ps crd)"
      using csf_parents_spec [of "unat n" ps crd bound 0] segments_level [OF p, of bound] p by simp
    moreover note csf_non_decreasing_sorted [OF p(3)]
    ultimately show ?thesis
      using True unfolding csf_check_level_def m
      by (cases "csf_parents ps crd bound (unat n) 0") auto
  next
    case False
    have "(word_of_nat (length crd) :: u64) = ps ! unat n" if "unat (ps ! unat n) = length crd"
      unfolding that [symmetric] by simp
    then have "\<not> level_ok (unat n) bound ps crd" using False by (auto simp: level_ok_def)
    then show ?thesis using False unfolding csf_check_level_def m
      by (cases "csf_non_decreasing ps") (auto split: if_splits)
  qed
  then show "csf_check_level nnz leaf bound ps crd n \<noteq> Panic"
    "csf_check_level nnz leaf bound ps crd n = Ok n_l \<longleftrightarrow>
       level_ok (unat n) bound ps crd \<and> n_l = word_of_nat (length crd) \<and> (leaf \<longrightarrow> n_l = nnz)" by blast+
qed

lemma csf_check_levels_spec:
  assumes "length pos = length modes" "length crd = length modes" "\<forall>c \<in> set crd. length c < 2 ^ 63"
  shows "level < length modes \<Longrightarrow> unat n < 2 ^ 63 \<Longrightarrow>
   csf_check_levels nnz modes sizes pos crd level n \<noteq> Panic \<and>
   (csf_check_levels nnz modes sizes pos crd level n = Ok () \<longleftrightarrow>
      csf_levels_ok (unat n) (map (\<lambda>m. sizes ! unat m) (drop level modes)) (zip (drop level pos) (drop level crd)) (unat nnz) \<and>
      (\<forall>m \<in> set (drop level modes). unat m < length sizes))"
proof (induction "length modes - level" arbitrary: level n)
  case (Suc d)
  let ?m = "unat (modes ! level)" and ?ps = "pos ! level" and ?cs = "crd ! level"
  have lv: "level < length modes" by (rule Suc(3))
  have lc: "length ?cs < 2 ^ 63" using assms lv by simp
  have u: "unat (word_of_nat (length ?cs) :: u64) = length ?cs" using lc by (simp add: unat_of_nat)
  note spec = csf_check_level_spec [OF lc Suc(4), of nnz "level = length modes - 1" "sizes ! ?m" ?ps]
  have dr: "drop level modes = modes ! level # drop (level + 1) modes" "drop level pos = ?ps # drop (level + 1) pos"
    "drop level crd = ?cs # drop (level + 1) crd"
    using lv assms(1,2) by (simp_all add: Cons_nth_drop_Suc)
  have unfold: "csf_check_levels nnz modes sizes pos crd level n =
      (if ?m < length sizes then
         r_bind (csf_check_level nnz (level = length modes - 1) (sizes ! ?m) ?ps ?cs n) (\<lambda>n_l.
           csf_check_levels nnz modes sizes pos crd (level + 1) n_l)
       else Err (InvalidLayout ''csf: mode_order range''))"
    using lv assms(1,2) by (subst csf_check_levels.simps) (simp add: Let_def)
  have ok: "csf_levels_ok (unat n) (map (\<lambda>m. sizes ! unat m) (drop level modes)) (zip (drop level pos) (drop level crd)) (unat nnz) \<longleftrightarrow>
      level_ok (unat n) (sizes ! ?m) ?ps ?cs \<and>
      csf_levels_ok (length ?cs) (map (\<lambda>m. sizes ! unat m) (drop (level + 1) modes))
        (zip (drop (level + 1) pos) (drop (level + 1) crd)) (unat nnz)"
    unfolding dr by (auto simp: level_ok_def)
  show ?case
  proof (cases "level + 1 < length modes")
    case True
    then have nl: "level \<noteq> length modes - 1" by simp
    show ?thesis
    proof (cases "csf_check_level nnz (level = length modes - 1) (sizes ! ?m) ?ps ?cs n")
      case (Ok n_l)
      then have "level_ok (unat n) (sizes ! ?m) ?ps ?cs" "n_l = word_of_nat (length ?cs)" using spec(2) by blast+
      moreover then have "unat n_l = length ?cs" "unat n_l < 2 ^ 63" using u lc by simp_all
      ultimately show ?thesis
        using Suc(1) [of "level + 1" n_l] Suc(2) True Ok unfolding unfold ok unfolding dr(1) by auto
    next
      case (Err e)
      then have "\<not> level_ok (unat n) (sizes ! ?m) ?ps ?cs" using spec(2) nl by auto
      then show ?thesis using Err unfolding unfold ok by simp
    qed (use spec(1) in simp)
  next
    case False
    then have lf: "level = length modes - 1" and e: "drop (level + 1) modes = []" using lv by auto
    have fin: "csf_check_levels nnz modes sizes pos crd (level + 1) n_l = Ok ()" for n_l
      using False by (subst csf_check_levels.simps) simp
    have z: "(word_of_nat (length ?cs) :: u64) = nnz \<longleftrightarrow> length ?cs = unat nnz" using u by auto
    show ?thesis
    proof (cases "csf_check_level nnz (level = length modes - 1) (sizes ! ?m) ?ps ?cs n")
      case (Ok n_l)
      then have "level_ok (unat n) (sizes ! ?m) ?ps ?cs \<and> length ?cs = unat nnz" using spec(2) lf z by auto
      then show ?thesis using Ok fin unfolding unfold ok unfolding dr(1) e by simp
    next
      case (Err er)
      then have "\<not> (level_ok (unat n) (sizes ! ?m) ?ps ?cs \<and> length ?cs = unat nnz)" using spec(2) lf z by auto
      then show ?thesis using Err unfolding unfold ok unfolding dr(1) e by auto
    qed (use spec(1) in simp)
  qed
qed simp

section \<open>The leaves of the tree\<close>

text \<open>The coordinates below the node \<open>p\<close> in storage order, each with the position of its leaf.\<close>

fun csf_leaves :: "(u64 list \<times> u64 list) list \<Rightarrow> nat \<Rightarrow> (u64 list \<times> nat) list" where
  "csf_leaves [] p = [([], p)]"
| "csf_leaves ((ps, crd) # ls) p =
     concat (map (\<lambda>k. map (\<lambda>(q, r). (crd ! k # q, r)) (csf_leaves ls k)) [unat (ps ! p)..<unat (ps ! Suc p)])"

lemma csf_slots:
  "csf_levels_ok n bounds ls m \<Longrightarrow> length bounds = length ls \<Longrightarrow>
   concat (map (\<lambda>p. map snd (csf_leaves ls p)) [0..<n]) = [0..<m]"
proof (induction n bounds ls m rule: csf_levels_ok.induct)
  case (1 n bound bounds ps crd ls m)
  let ?g = "\<lambda>k. map snd (csf_leaves ls k)"
  have mono: "unat (ps ! k) \<le> unat (ps ! Suc k)" if "k < n" for k
    using 1(2) that by (auto simp flip: word_le_nat_alt intro: sorted_nth_mono)
  have "map snd (csf_leaves ((ps, crd) # ls) p) = concat (map ?g [unat (ps ! p)..<unat (ps ! Suc p)])" for p
    by (simp add: map_concat comp_def case_prod_beta')
  then have "concat (map (\<lambda>p. map snd (csf_leaves ((ps, crd) # ls) p)) [0..<n]) =
      concat (map ?g (concat (map (\<lambda>p. [unat (ps ! p)..<unat (ps ! Suc p)]) [0..<n])))"
    by (simp only:) (induction n, simp_all)
  also have "concat (map (\<lambda>p. [unat (ps ! p)..<unat (ps ! Suc p)]) [0..<n]) = [unat (ps ! 0)..<unat (ps ! n)]"
    using concat_ranges [of n "\<lambda>k. unat (ps ! k)"] mono by blast
  also have "\<dots> = [0..<length crd]" using 1(2) by simp
  finally show ?case using 1 by simp
qed auto

lemma map_of_concat:
  "\<forall>k' \<in> set ks. k' \<noteq> k \<longrightarrow> map_of (f k') x = None \<Longrightarrow>
   map_of (concat (map f ks)) x = (if k \<in> set ks then map_of (f k) x else None)"
proof (induction ks)
  case (Cons a ks)
  then show ?case by (cases "a = k") (simp_all add: map_add_def split: option.split)
qed simp

lemma map_of_Cons_keys: "map_of (map (\<lambda>(q, r). (a # q, r)) L) (c # q) = (if a = c then map_of L q else None)"
  by (induction L) auto

lemma children_distinct:
  assumes "increasing_on crd s e" "e \<le> length crd" "s \<le> j" "j < e" "s \<le> k" "k < e" "crd ! j = crd ! k"
  shows "j = k"
  using segment_found [OF assms(1) assms(3,4,2)] segment_found [OF assms(1) assms(5,6,2)] assms by simp

lemma csf_leaves_child:
  assumes "increasing_on crd (unat (ps ! p)) (unat (ps ! Suc p))" "unat (ps ! Suc p) \<le> length crd"
    and "unat (ps ! p) \<le> k" "k < unat (ps ! Suc p)"
  shows "map_of (csf_leaves ((ps, crd) # ls) p) (crd ! k # q) = map_of (csf_leaves ls k) q"
proof -
  have "map_of (map (\<lambda>(q, r). (crd ! j # q, r)) (csf_leaves ls j)) (crd ! k # q) = None"
    if "j \<in> set [unat (ps ! p)..<unat (ps ! Suc p)]" "j \<noteq> k" for j
    using children_distinct [OF assms(1,2), of j k] that assms(3,4) by (auto simp: map_of_Cons_keys)
  then have "\<forall>j \<in> set [unat (ps ! p)..<unat (ps ! Suc p)]. j \<noteq> k \<longrightarrow>
      map_of (map (\<lambda>(q, r). (crd ! j # q, r)) (csf_leaves ls j)) (crd ! k # q) = None" by blast
  from map_of_concat [OF this] show ?thesis using assms(3,4) by (simp add: map_of_Cons_keys)
qed

lemma csf_leaves_none:
  assumes "\<And>k. unat (ps ! p) \<le> k \<Longrightarrow> k < unat (ps ! Suc p) \<Longrightarrow> crd ! k \<noteq> c"
  shows "map_of (csf_leaves ((ps, crd) # ls) p) (c # q) = None"
proof -
  have "map_of (map (\<lambda>(q, r). (crd ! j # q, r)) (csf_leaves ls j)) (c # q) = None"
    if "j \<in> set [unat (ps ! p)..<unat (ps ! Suc p)]" "j \<noteq> unat (ps ! Suc p)" for j
    using that assms [of j] by (auto simp: map_of_Cons_keys)
  then have "\<forall>j \<in> set [unat (ps ! p)..<unat (ps ! Suc p)]. j \<noteq> unat (ps ! Suc p) \<longrightarrow>
      map_of (map (\<lambda>(q, r). (crd ! j # q, r)) (csf_leaves ls j)) (c # q) = None" by blast
  from map_of_concat [OF this] show ?thesis by simp
qed

text \<open>The descent is the lookup in the leaves.\<close>

lemma csf_descend_eq:
  assumes "length pos = length modes" "length crd = length modes" "length q = length modes"
    and "\<forall>m \<in> set modes. unat m < length modes" "\<forall>c \<in> set crd. length c < 2 ^ 63"
  shows "csf_levels_ok n bounds (zip (drop level pos) (drop level crd)) l \<Longrightarrow> length bounds = length modes - level \<Longrightarrow>
    level \<le> length modes \<Longrightarrow> unat p < n \<Longrightarrow>
    csf_descend q modes pos crd level p = Ok (map_option word_of_nat
      (map_of (csf_leaves (zip (drop level pos) (drop level crd)) (unat p)) (map (\<lambda>m. q ! unat m) (drop level modes))))"
proof (induction "length modes - level" arbitrary: level p n bounds)
  case 0
  then show ?case using assms(1,2) by (simp add: csf_descend.simps)
next
  case (Suc d)
  let ?ps = "pos ! level" and ?cs = "crd ! level" and ?c = "q ! unat (modes ! level)"
  have lv: "level < length modes" using Suc by simp
  then have dr: "drop level modes = modes ! level # drop (level + 1) modes" "drop level pos = ?ps # drop (level + 1) pos"
    "drop level crd = ?cs # drop (level + 1) crd"
    using assms(1,2) by (simp_all add: Cons_nth_drop_Suc)
  obtain b bs where bs: "bounds = b # bs" using Suc(4) lv by (cases bounds) auto
  have ok: "length ?ps = n + 1" "sorted ?ps" "unat (?ps ! n) = length ?cs"
    "\<forall>k < n. increasing_on ?cs (unat (?ps ! k)) (unat (?ps ! Suc k))"
    "csf_levels_ok (length ?cs) bs (zip (drop (level + 1) pos) (drop (level + 1) crd)) l"
    using Suc(3) unfolding dr bs by simp_all
  let ?s = "unat (?ps ! unat p)" and ?e = "unat (?ps ! Suc (unat p))"
  have p: "unat p < n" using Suc by simp
  have "?ps ! unat p \<le> ?ps ! Suc (unat p)" "?ps ! Suc (unat p) \<le> ?ps ! n"
    using ok(1,2) p by (auto intro: sorted_nth_mono)
  then have se: "?s \<le> ?e" "?e \<le> length ?cs" using ok(3) by (simp_all add: word_le_nat_alt)
  have inc: "increasing_on ?cs ?s ?e" using ok(4) p by blast
  let ?slice = "take (?e - ?s) (drop ?s ?cs)"
  have m: "\<not> length q \<le> unat (modes ! level)" using assms(3,4) lv by (simp add: not_le)
  have unfold: "csf_descend q modes pos crd level p =
      (case binary_search ?slice ?c of
         Some k \<Rightarrow> r_bind (ok_or (checked_add (?ps ! unat p) (word_of_nat k)) AddressOverflow) (\<lambda>p.
           csf_descend q modes pos crd (level + 1) p)
       | None \<Rightarrow> Ok None)"
    using lv assms(1,2) m ok(1) p se by (subst csf_descend.simps) (simp add: Let_def range_at_def)
  show ?case
  proof (cases "binary_search ?slice ?c")
    case None
    have "?cs ! k \<noteq> ?c" if "?s \<le> k" "k < ?e" for k
      using segment_found [OF inc that se(2)] None by auto
    then show ?thesis unfolding unfold None unfolding dr by (simp add: csf_leaves_none del: csf_leaves.simps)
  next
    case (Some k)
    have k: "k < ?e - ?s" "?cs ! (?s + k) = ?c" using binary_search_Some [OF Some] se by auto
    have "length ?cs < 2 ^ 63" using assms(2,5) lv by simp
    moreover have "?s + k < length ?cs" using k(1) se by linarith
    ultimately have ks: "?s + k < 2 ^ 64" "?s + k < length ?cs" by simp_all
    then have ad: "checked_add (?ps ! unat p) (word_of_nat k) = Some (word_of_nat (?s + k))"
      using ks(1) by (simp add: checked_add_def unat_of_nat)
    have u: "unat (word_of_nat (?s + k) :: u64) = ?s + k" using ks(1) by (simp add: unat_of_nat del: of_nat_add)
    have "csf_descend q modes pos crd (level + 1) (word_of_nat (?s + k)) = Ok (map_option word_of_nat
        (map_of (csf_leaves (zip (drop (level + 1) pos) (drop (level + 1) crd)) (?s + k))
          (map (\<lambda>m. q ! unat m) (drop (level + 1) modes))))"
      using Suc(1) [of "level + 1" "length ?cs" bs "word_of_nat (?s + k)"] Suc(2,4) ok(5) lv bs ks(2) u by simp
    moreover have "?s \<le> ?s + k" "?s + k < ?e" using k(1) by linarith+
    note csf_leaves_child [OF inc se(2) this, of "zip (drop (level + 1) pos) (drop (level + 1) crd)"]
    ultimately show ?thesis unfolding unfold Some dr using ad k(2) by (simp del: csf_leaves.simps)
  qed
qed

section \<open>The index\<close>

text \<open>A query in storage order, and back.\<close>

definition permuted :: "u32 list \<Rightarrow> u64 list \<Rightarrow> u64 list" where
  "permuted modes q = map (\<lambda>m. q ! unat m) modes"

definition mode_position :: "u32 list \<Rightarrow> nat \<Rightarrow> nat" where
  "mode_position modes d = length (takeWhile (\<lambda>m. unat m \<noteq> d) modes)"

definition unpermuted :: "u32 list \<Rightarrow> u64 list \<Rightarrow> u64 list" where
  "unpermuted modes c = map (\<lambda>d. c ! mode_position modes d) [0..<length modes]"

definition permutation_modes :: "u32 list \<Rightarrow> bool" where
  "permutation_modes modes \<longleftrightarrow> distinct (map unat modes) \<and> set (map unat modes) = {..<length modes}"

lemma mode_position:
  assumes "permutation_modes modes" "d < length modes"
  shows "mode_position modes d < length modes" "unat (modes ! mode_position modes d) = d"
proof -
  have "d \<in> set (map unat modes)" using assms by (simp add: permutation_modes_def)
  then have "\<exists>m \<in> set modes. \<not> unat m \<noteq> d" by auto
  then show l: "mode_position modes d < length modes"
    by (metis (mono_tags, lifting) mode_position_def length_takeWhile_le nat_less_le takeWhile_eq_all_conv takeWhile_eq_take take_all_iff order_refl)
  then show "unat (modes ! mode_position modes d) = d"
    using nth_length_takeWhile [of "\<lambda>m. unat m \<noteq> d" modes] by (simp add: mode_position_def)
qed

lemma mode_position_nth:
  assumes "permutation_modes modes" "i < length modes"
  shows "mode_position modes (unat (modes ! i)) = i"
proof -
  have "unat (modes ! i) \<in> set (map unat modes)" using assms(2) by simp
  then have "unat (modes ! i) < length modes" using assms(1) by (simp add: permutation_modes_def)
  note p = mode_position [OF assms(1) this]
  then have "map unat modes ! mode_position modes (unat (modes ! i)) = map unat modes ! i" using assms(2) by simp
  then show ?thesis
    using nth_eq_iff_index_eq [of "map unat modes"] assms p(1) by (simp add: permutation_modes_def)
qed

lemma permuted_unpermuted:
  assumes "permutation_modes modes" "length c = length modes"
  shows "permuted modes (unpermuted modes c) = c"
proof (rule nth_equalityI)
  show "length (permuted modes (unpermuted modes c)) = length c" using assms by (simp add: permuted_def)
  fix i assume "i < length (permuted modes (unpermuted modes c))"
  then have i: "i < length modes" by (simp add: permuted_def)
  then have "unat (modes ! i) \<in> set (map unat modes)" by simp
  then have "unat (modes ! i) < length modes" using assms(1) by (simp add: permutation_modes_def)
  then show "permuted modes (unpermuted modes c) ! i = c ! i"
    using i mode_position_nth [OF assms(1) i] by (simp add: permuted_def unpermuted_def)
qed

lemma unpermuted_permuted:
  assumes "permutation_modes modes" "length q = length modes"
  shows "unpermuted modes (permuted modes q) = q"
  using assms mode_position [OF assms(1)] by (auto intro!: nth_equalityI simp: permuted_def unpermuted_def)

text \<open>The buffers as an index: a layout and a shape that fit each other, and index buffers that pass the
  validation.\<close>

type_synonym csf_buffers = "csf_layout \<times> shape \<times> u64 list list \<times> u64 list list"

definition csf_ok :: "csf_buffers \<Rightarrow> bool" where
  "csf_ok = (\<lambda>(l, sh, pos, crd).
     rank sh \<le> MAX_RANK \<and> validate_against_shape (Csf l) sh = Ok () \<and>
     validate_index_buffers (csf_nnz l) (mode_order l) (dims sh) pos crd = Ok () \<and>
     list_all (\<lambda>c. length c < 2 ^ 63) crd)"

definition csf_stored :: "csf_buffers \<Rightarrow> (u64 list \<times> nat) list" where
  "csf_stored = (\<lambda>(l, sh, pos, crd). map (\<lambda>(c, r). (unpermuted (mode_order l) c, r)) (csf_leaves (zip pos crd) 0))"

definition csf_within :: "csf_buffers \<Rightarrow> u64 list \<Rightarrow> bool" where
  "csf_within = (\<lambda>(l, sh, pos, crd) q. list_all2 (<) q (dims sh))"

lemma csf_okD:
  assumes "csf_ok (l, sh, pos, crd)"
  shows "length sh = length (mode_order l)" "3 \<le> length sh" "permutation_modes (mode_order l)"
    "length pos = length (mode_order l)" "length crd = length (mode_order l)" "\<forall>c \<in> set crd. length c < 2 ^ 63"
    "csf_levels_ok 1 (map (\<lambda>m. sh ! unat m) (mode_order l)) (zip pos crd) (unat (csf_nnz l))"
proof -
  have r: "rank sh \<le> MAX_RANK" and v: "validate_against_shape (Csf l) sh = Ok ()"
    and i: "validate_index_buffers (csf_nnz l) (mode_order l) (dims sh) pos crd = Ok ()"
    using assms by (simp_all add: csf_ok_def)
  show a: "length sh = length (mode_order l)" "3 \<le> length sh" "permutation_modes (mode_order l)"
    using csf_mode_order_permutation [OF r, of l] v by (auto simp del: validate_against_shape.simps simp: permutation_modes_def)
  show b: "length pos = length (mode_order l)" "length crd = length (mode_order l)"
    using i by (auto simp: validate_index_buffers_def split: if_splits)
  show c: "\<forall>c \<in> set crd. length c < 2 ^ 63" using assms by (simp add: csf_ok_def list_all_iff)
  have "csf_check_levels (csf_nnz l) (mode_order l) sh pos crd 0 1 = Ok ()"
    using i b by (simp add: validate_index_buffers_def)
  then show "csf_levels_ok 1 (map (\<lambda>m. sh ! unat m) (mode_order l)) (zip pos crd) (unat (csf_nnz l))"
    using csf_check_levels_spec [of pos "mode_order l" crd 0 1 "csf_nnz l" sh] a b c by (cases "mode_order l = []") simp_all
qed

lemma csf_leaves_within:
  "csf_levels_ok n bounds ls m \<Longrightarrow> length bounds = length ls \<Longrightarrow> p < n \<Longrightarrow> (c, r) \<in> set (csf_leaves ls p) \<Longrightarrow>
   list_all2 (<) c bounds"
proof (induction n bounds ls m arbitrary: p c rule: csf_levels_ok.induct)
  case (1 n bound bounds ps crd ls m)
  obtain k c' where k: "unat (ps ! p) \<le> k" "k < unat (ps ! Suc p)" "c = crd ! k # c'" "(c', r) \<in> set (csf_leaves ls k)"
    using 1(5) by auto
  have "ps ! Suc p \<le> ps ! n" using 1(2,4) by (auto intro: sorted_nth_mono)
  then have "k < length crd" using k(2) 1(2) by (simp add: word_le_nat_alt)
  then show ?case using 1(1) [of k c'] 1(2,3) k by simp
qed auto

lemma csf_leaves_key:
  "csf_levels_ok n bounds ls m \<Longrightarrow> length bounds = length ls \<Longrightarrow> p < n \<Longrightarrow> (c, r) \<in> set (csf_leaves ls p) \<Longrightarrow>
   map_of (csf_leaves ls p) c = Some r"
proof (induction n bounds ls m arbitrary: p c rule: csf_levels_ok.induct)
  case (1 n bound bounds ps crd ls m)
  obtain k c' where k: "unat (ps ! p) \<le> k" "k < unat (ps ! Suc p)" "c = crd ! k # c'" "(c', r) \<in> set (csf_leaves ls k)"
    using 1(5) by auto
  have "ps ! Suc p \<le> ps ! n" using 1(2,4) by (auto intro: sorted_nth_mono)
  then have e: "unat (ps ! Suc p) \<le> length crd" using 1(2) by (simp add: word_le_nat_alt)
  have "increasing_on crd (unat (ps ! p)) (unat (ps ! Suc p))" using 1(2,4) by simp
  note csf_leaves_child [OF this e k(1,2)]
  moreover have "map_of (csf_leaves ls k) c' = Some r" using 1(1) [of k c'] 1(2,3) k e by simp
  ultimately show ?case using k(3) by simp
qed auto

lemma csf_lookup_eq:
  assumes ok: "csf_ok (l, sh, pos, crd)" and q: "length q = length (mode_order l)"
  shows "csf_element_offset q (mode_order l) pos crd =
    Ok (map_option word_of_nat (map_of (csf_leaves (zip pos crd) 0) (permuted (mode_order l) q)))"
proof -
  note o = csf_okD [OF ok]
  have m: "\<forall>m \<in> set (mode_order l). unat m < length (mode_order l)"
    using o(3) by (auto simp: permutation_modes_def)
  show ?thesis
    using csf_descend_eq [OF o(4,5) q m o(6), of 1 _ 0 _ 0] o(7) q
    by (simp add: csf_element_offset_def permuted_def)
qed

lemma csf_stored_leaf:
  assumes "csf_ok (l, sh, pos, crd)"
  shows "(q, r) \<in> set (csf_stored (l, sh, pos, crd)) \<longleftrightarrow>
    length q = length (mode_order l) \<and> (permuted (mode_order l) q, r) \<in> set (csf_leaves (zip pos crd) 0)"
proof -
  note o = csf_okD [OF assms]
  have len: "length c = length (mode_order l)" if "(c, r) \<in> set (csf_leaves (zip pos crd) 0)" for c
    using csf_leaves_within [OF o(7) _ _ that] o(4,5) by (auto dest: list_all2_lengthD)
  show ?thesis
  proof
    assume "(q, r) \<in> set (csf_stored (l, sh, pos, crd))"
    then obtain c where "(c, r) \<in> set (csf_leaves (zip pos crd) 0)" "q = unpermuted (mode_order l) c"
      by (auto simp: csf_stored_def)
    then show "length q = length (mode_order l) \<and> (permuted (mode_order l) q, r) \<in> set (csf_leaves (zip pos crd) 0)"
      using permuted_unpermuted [OF o(3) len] by (simp add: unpermuted_def)
  next
    assume "length q = length (mode_order l) \<and> (permuted (mode_order l) q, r) \<in> set (csf_leaves (zip pos crd) 0)"
    then show "(q, r) \<in> set (csf_stored (l, sh, pos, crd))"
      using unpermuted_permuted [OF o(3), of q] by (force simp: csf_stored_def)
  qed
qed

interpretation csf: sparse_index csf_ok "\<lambda>(l, sh, pos, crd). unat (csf_nnz l)" csf_stored csf_within
  "\<lambda>(l, sh, pos, crd) q. csf_element_offset q (mode_order l) pos crd"
proof (unfold_locales, goal_cases)
  case (1 b)
  obtain l sh pos crd where b: "b = (l, sh, pos, crd)" by (cases b)
  note o = csf_okD [OF 1 [unfolded b]]
  show ?case using csf_slots [OF o(7)] o(4,5) b by (simp add: csf_stored_def comp_def case_prod_beta')
next
  case (2 b)
  have "unat x \<le> 2 ^ 64" for x :: u64 using unsigned_less [of x, where 'a = nat] by simp
  then show ?case by (cases b) (simp only: prod.case)
next
  case (3 b q i)
  obtain l sh pos crd where b: "b = (l, sh, pos, crd)" by (cases b)
  note o = csf_okD [OF 3(1) [unfolded b]]
  have q: "length q = length (mode_order l)" "(permuted (mode_order l) q, i) \<in> set (csf_leaves (zip pos crd) 0)"
    using 3 csf_stored_leaf b by auto
  have "list_all2 (<) (permuted (mode_order l) q) (map (\<lambda>m. sh ! unat m) (mode_order l))"
    using csf_leaves_within [OF o(7) _ _ q(2)] o(4,5) by simp
  then have "\<forall>i < length (mode_order l). q ! unat (mode_order l ! i) < sh ! unat (mode_order l ! i)"
    by (simp add: permuted_def list_all2_conv_all_nth)
  then have "q ! d < sh ! d" if "d < length (mode_order l)" for d
    using mode_position [OF o(3) that] by metis
  then show ?case using b q(1) o(1) by (simp add: csf_within_def list_all2_conv_all_nth)
next
  case (4 b q i)
  obtain l sh pos crd where b: "b = (l, sh, pos, crd)" by (cases b)
  note o = csf_okD [OF 4(1) [unfolded b]]
  have q: "length q = length (mode_order l)" "(permuted (mode_order l) q, i) \<in> set (csf_leaves (zip pos crd) 0)"
    using 4 csf_stored_leaf b by auto
  then show ?case using csf_lookup_eq [OF 4(1) [unfolded b] q(1)] csf_leaves_key [OF o(7) _ _ q(2)] o(4,5) b by simp
next
  case (5 b q)
  obtain l sh pos crd where b: "b = (l, sh, pos, crd)" by (cases b)
  note o = csf_okD [OF 5(1) [unfolded b]]
  have q: "length q = length (mode_order l)" using 5(2) b o(1) by (auto simp: csf_within_def dest: list_all2_lengthD)
  have "permuted (mode_order l) q \<notin> fst ` set (csf_leaves (zip pos crd) 0)"
    using 5(3) csf_stored_leaf [OF 5(1) [unfolded b]] q b by force
  then have "map_of (csf_leaves (zip pos crd) 0) (permuted (mode_order l) q) = None"
    by (simp add: map_of_eq_None_iff)
  then show ?case using csf_lookup_eq [OF 5(1) [unfolded b] q] b by simp
qed

section \<open>Properties\<close>

text \<open>
  C22. The validation of CSF index buffers never panics and accepts exactly the well-formed trees: at each level
  one more child range than there are parents, starting at 0, not decreasing and ending at the number of
  coordinates, siblings increasing and inside the dimension, and \<open>nnz\<close> leaves.
\<close>

theorem csf_validation_exact:
  assumes "modes \<noteq> []" and "list_all (\<lambda>c. length c < 2 ^ 63) crd"
  shows "validate_index_buffers nnz modes sizes pos crd \<noteq> Panic \<and>
    (validate_index_buffers nnz modes sizes pos crd = Ok () \<longleftrightarrow>
       length pos = length modes \<and> length crd = length modes \<and> list_all (\<lambda>m. unat m < length sizes) modes \<and>
       csf_levels_ok 1 (map (\<lambda>m. sizes ! unat m) modes) (zip pos crd) (unat nnz))"
proof (cases "length pos = length modes \<and> length crd = length modes")
  case True
  moreover have "\<forall>c \<in> set crd. length c < 2 ^ 63" using assms(2) by (simp add: list_all_iff)
  ultimately show ?thesis
    using csf_check_levels_spec [of pos modes crd 0 1 nnz sizes] assms(1)
    by (auto simp: validate_index_buffers_def list_all_iff)
qed (auto simp: validate_index_buffers_def)

text \<open>
  C21. After the validation the CSF lookup is exact: on every index of the shape the descent returns the position of
  the leaf with those coordinates, or nothing when there is none, and each of the \<open>nnz\<close> positions belongs to
  exactly one index.
\<close>

theorem csf_lookup_exact:
  assumes "rank sh \<le> MAX_RANK" "validate_against_shape (Csf l) sh = Ok ()"
    and "validate_index_buffers (csf_nnz l) (mode_order l) (dims sh) pos crd = Ok ()"
    and "list_all (\<lambda>c. length c < 2 ^ 63) crd"
  shows "(list_all2 (<) q (dims sh) \<longrightarrow>
       csf_element_offset q (mode_order l) pos crd =
         Ok (map_option word_of_nat (map_of (csf_stored (l, sh, pos, crd)) q))) \<and>
    (k < unat (csf_nnz l) \<longrightarrow>
       (\<exists>!q. list_all2 (<) q (dims sh) \<and> csf_element_offset q (mode_order l) pos crd = Ok (Some (word_of_nat k))))"
proof -
  have "csf_ok (l, sh, pos, crd)" using assms by (simp only: csf_ok_def prod.case simp_thms)
  then show ?thesis
    using csf.lookup_is_map [of "(l, sh, pos, crd)" q] csf.slot_reached [of "(l, sh, pos, crd)" k]
    by (simp add: csf_within_def)
qed

text \<open>The tensor of the example in \<open>csf.rs\<close>: four elements of a 2 by 3 by 4 tensor in identity mode order.\<close>

definition sample_csf :: csf_layout where
  "sample_csf = csf_new 4 [0, 1, 2]"

definition sample_pos :: "u64 list list" where
  "sample_pos = [[0, 2], [0, 2, 3], [0, 1, 2, 4]]"

definition sample_crd :: "u64 list list" where
  "sample_crd = [[0, 1], [0, 2, 1], [1, 3, 0, 2]]"

lemma sample_csf_valid:
  "validate_against_shape (Csf sample_csf) [2, 3, 4] = Ok ()"
  "validate_index_buffers (csf_nnz sample_csf) (mode_order sample_csf) (dims [2, 3, 4]) sample_pos sample_crd = Ok ()"
  "list_all (\<lambda>c. length c < 2 ^ 63) sample_crd"
proof -
  show "validate_against_shape (Csf sample_csf) [2, 3, 4] = Ok ()" by code_simp
  show "validate_index_buffers (csf_nnz sample_csf) (mode_order sample_csf) (dims [2, 3, 4]) sample_pos sample_crd = Ok ()"
    by (simp add: sample_csf_def csf_new_def sample_pos_def sample_crd_def validate_index_buffers_def csf_check_levels.simps
        csf_check_level_def csf_parents.simps range_at_def) (simp add: word_le_nat_alt)
  show "list_all (\<lambda>c. length c < 2 ^ 63) sample_crd" by (simp add: sample_crd_def)
qed

theorem csf_validation_exact_witness:
  "csf_levels_ok 1 [2, 3, 4] (zip sample_pos sample_crd) 4"
  using csf_validation_exact [OF _ sample_csf_valid(3), of "[0, 1, 2]" 4 "[2, 3, 4]" sample_pos] sample_csf_valid(2)
  by (simp add: sample_csf_def csf_new_def)

theorem csf_lookup_exact_witness:
  "csf_element_offset [1, 1, 2] [0, 1, 2] sample_pos sample_crd = Ok (Some 3) \<and>
   csf_element_offset [1, 2, 2] [0, 1, 2] sample_pos sample_crd = Ok None"
proof -
  have r: "rank [2, 3, 4] \<le> MAX_RANK" by (simp add: MAX_RANK_def)
  note e = csf_lookup_exact [OF r sample_csf_valid, of _ 0, THEN conjunct1, rule_format]
  have m: "mode_order sample_csf = [0, 1, 2]" by (simp add: sample_csf_def csf_new_def)
  have q: "list_all2 (<) [1, 1, 2] (dims [2, 3, 4])" "list_all2 (<) [1, 2, 2] (dims [2, 3, 4])" by simp_all
  have "map_of (csf_stored (sample_csf, [2, 3, 4], sample_pos, sample_crd)) [1, 1, 2] = Some 3"
    "map_of (csf_stored (sample_csf, [2, 3, 4], sample_pos, sample_crd)) [1, 2, 2] = None"
    by code_simp+
  then show ?thesis using e [OF q(1)] e [OF q(2)] m by simp
qed

text \<open>Without the validation: fewer levels than modes panic, although the function returns errors for every
  other malformed input.\<close>

lemma csf_missing_level_panics:
  "q \<noteq> [] \<Longrightarrow> length q = length modes \<Longrightarrow> unat (hd modes) < length q \<Longrightarrow> csf_element_offset q modes [] [] = Panic"
  by (cases modes) (auto simp: csf_element_offset_def csf_descend.simps Let_def)

end
