(* ===== verification/Paged_Lookup.thy ===== *)
theory Paged_Lookup
  imports Addressing
begin

text \<open>
  Element lookup in block-paged tensors (\<open>hurray-core/src/layout/addressing/block_paged.rs\<close>): the sequence
  pointers select the block table entries of a sequence, the entries are physical pages of a pool. The code
  is generic in the width of the index buffers, as the definitions are.
\<close>

section \<open>Lookup\<close>

definition paged_offset_impl ::
  "u64 \<Rightarrow> u64 \<Rightarrow> u64 \<Rightarrow> u64 \<Rightarrow> u32 \<Rightarrow> u64 \<Rightarrow> u64 \<Rightarrow> u64 \<Rightarrow> 'a::len word list \<Rightarrow> 'a word list \<Rightarrow> u64 core_result" where
  "paged_offset_impl s t h d pg np num_heads head_dim seq_ptr block_table =
     (let ns = word_of_nat (length seq_ptr - 1) in
      if s \<ge> ns then Err (IndexOutOfRange 0 s ns)
      else if h \<ge> num_heads then Err (IndexOutOfRange 1 h num_heads)
      else if d \<ge> head_dim then Err (IndexOutOfRange 2 d head_dim)
      else
        r_bind (index_at seq_ptr (unat s)) (\<lambda>a.
        r_bind (index_at seq_ptr (unat s + 1)) (\<lambda>b.
        let bt_start = ucast a; bt_end = ucast b; pg = ucast pg in
        r_bind (ok_or (checked_sub bt_end bt_start) (InvalidLayout ''block-paged: seq_ptr'')) (\<lambda>seq_page_count.
        r_bind (plain_div t pg) (\<lambda>page_in_seq.
        r_bind (plain_mod t pg) (\<lambda>offset_in_page.
        if page_in_seq \<ge> seq_page_count then Err (IndexOutOfRange 0 t (saturating_mul seq_page_count pg))
        else
          r_bind (ok_or (checked_add bt_start page_in_seq) AddressOverflow) (\<lambda>bt_idx.
          if unat bt_idx \<ge> length block_table then Err (IndexOutOfRange 0 bt_idx (word_of_nat (length block_table)))
          else
            r_bind (index_at block_table (unat bt_idx)) (\<lambda>p.
            let phys_page = ucast p in
            if phys_page \<ge> np then Err (IndexOutOfRange 0 phys_page np)
            else
              r_bind (ok_or (checked_mul phys_page pg) AddressOverflow) (\<lambda>v.
              r_bind (ok_or (checked_add v offset_in_page) AddressOverflow) (\<lambda>v.
              r_bind (ok_or (checked_mul v num_heads) AddressOverflow) (\<lambda>v.
              r_bind (ok_or (checked_add v h) AddressOverflow) (\<lambda>v.
              r_bind (ok_or (checked_mul v head_dim) AddressOverflow) (\<lambda>v.
              ok_or (checked_add v d) AddressOverflow)))))))))))))"

definition paged_offset_u32 ::
  "u64 \<Rightarrow> u64 \<Rightarrow> u64 \<Rightarrow> u64 \<Rightarrow> u32 \<Rightarrow> u64 \<Rightarrow> u64 \<Rightarrow> u64 \<Rightarrow> u32 list \<Rightarrow> u32 list \<Rightarrow> u64 core_result" where
  "paged_offset_u32 s t h d pg np num_heads head_dim block_table seq_ptr =
     paged_offset_impl s t h d pg np num_heads head_dim seq_ptr block_table"

definition paged_offset_u64 ::
  "u64 \<Rightarrow> u64 \<Rightarrow> u64 \<Rightarrow> u64 \<Rightarrow> u32 \<Rightarrow> u64 \<Rightarrow> u64 \<Rightarrow> u64 \<Rightarrow> u64 list \<Rightarrow> u64 list \<Rightarrow> u64 core_result" where
  "paged_offset_u64 s t h d pg np num_heads head_dim block_table seq_ptr =
     paged_offset_impl s t h d pg np num_heads head_dim seq_ptr block_table"

section \<open>Validation\<close>

fun paged_non_decreasing :: "u64 list \<Rightarrow> unit core_result" where
  "paged_non_decreasing (a # b # ps) =
     (if a > b then Err (InvalidLayout ''block-paged: seq_ptr not non-decreasing'') else paged_non_decreasing (b # ps))"
| "paged_non_decreasing _ = Ok ()"

fun paged_pages_check :: "u64 \<Rightarrow> u64 list \<Rightarrow> unit core_result" where
  "paged_pages_check np [] = Ok ()"
| "paged_pages_check np (p # ps) =
     (if p \<ge> np then Err (InvalidLayout ''block-paged: block_table'') else paged_pages_check np ps)"

definition paged_validate_impl :: "u64 \<Rightarrow> u32 \<Rightarrow> u64 list \<Rightarrow> u64 list \<Rightarrow> unit core_result" where
  "paged_validate_impl np ns seq_ptr block_table =
     (if length seq_ptr \<noteq> unat ns + 1 then Err (InvalidLayout ''block-paged: seq_ptr length'')
      else
        r_bind (index_at seq_ptr 0) (\<lambda>p0.
        if p0 \<noteq> 0 then Err (InvalidLayout ''block-paged: seq_ptr[0]'')
        else
          r_bind (paged_non_decreasing seq_ptr) (\<lambda>_.
          r_bind (index_at seq_ptr (unat ns)) (\<lambda>total.
          if total \<noteq> word_of_nat (length block_table) then Err (InvalidLayout ''block-paged: seq_ptr[num_seqs]'')
          else paged_pages_check np block_table))))"

definition paged_validate_u64 :: "u64 \<Rightarrow> u32 \<Rightarrow> u64 list \<Rightarrow> u64 list \<Rightarrow> unit core_result" where
  "paged_validate_u64 np ns seq_ptr block_table = paged_validate_impl np ns seq_ptr block_table"

definition paged_validate_u32 :: "u64 \<Rightarrow> u32 \<Rightarrow> u32 list \<Rightarrow> u32 list \<Rightarrow> unit core_result" where
  "paged_validate_u32 np ns seq_ptr block_table =
     paged_validate_impl np ns (map ucast seq_ptr) (map ucast block_table)"

text \<open>\<open>num_seqs as usize + 1\<close> saturates at \<open>2 ^ 64 - 1\<close>, which a \<open>u32\<close> plus one does not reach.\<close>

lemma paged_non_decreasing_Ok: "paged_non_decreasing ps = Ok () \<longleftrightarrow> sorted ps"
  by (induction ps rule: paged_non_decreasing.induct) auto

lemma paged_non_decreasing_not_Panic [simp]: "paged_non_decreasing ps \<noteq> Panic"
  by (induction ps rule: paged_non_decreasing.induct) auto

lemma paged_pages_check_Ok: "paged_pages_check n ps = Ok () \<longleftrightarrow> list_all (\<lambda>p. p < n) ps"
  by (induction ps) (auto simp: not_le)

lemma paged_pages_check_not_Panic [simp]: "paged_pages_check n ps \<noteq> Panic"
  by (induction ps) auto

definition paged_ok :: "u64 \<Rightarrow> u32 \<Rightarrow> u64 list \<Rightarrow> u64 list \<Rightarrow> bool" where
  "paged_ok np ns seq_ptr block_table \<longleftrightarrow>
     length seq_ptr = unat ns + 1 \<and> hd seq_ptr = 0 \<and> sorted seq_ptr \<and>
     last seq_ptr = word_of_nat (length block_table) \<and> list_all (\<lambda>p. p < np) block_table"

lemma paged_validate_impl_spec:
  "paged_validate_impl np ns sp bt \<noteq> Panic \<and> (paged_validate_impl np ns sp bt = Ok () \<longleftrightarrow> paged_ok np ns sp bt)"
proof (cases "length sp = unat ns + 1")
  case True
  then have ne: "sp \<noteq> []" by auto
  then have hl: "hd sp = sp ! 0" "last sp = sp ! unat ns" using True by (simp_all add: hd_conv_nth last_conv_nth)
  show ?thesis
  proof (cases "paged_non_decreasing sp")
    case (Ok u)
    then have "sorted sp" by (simp add: paged_non_decreasing_Ok)
    then show ?thesis using True Ok by (simp add: paged_validate_impl_def paged_ok_def hl paged_pages_check_Ok)
  next
    case (Err e)
    then have "\<not> sorted sp" using paged_non_decreasing_Ok [of sp] by simp
    then show ?thesis using True Err by (simp add: paged_validate_impl_def paged_ok_def hl)
  qed simp
qed (simp add: paged_validate_impl_def paged_ok_def)

section \<open>Properties\<close>

text \<open>The slot of an element: its physical page, and the offset in the pool.\<close>

definition physical_page :: "u64 list \<Rightarrow> u64 list \<Rightarrow> u32 \<Rightarrow> u64 \<Rightarrow> u64 \<Rightarrow> nat" where
  "physical_page seq_ptr block_table pg s t =
     unat (block_table ! (unat (seq_ptr ! unat s) + unat t div unat pg))"

definition paged_position :: "nat \<Rightarrow> u32 \<Rightarrow> u64 \<Rightarrow> u64 \<Rightarrow> u64 \<Rightarrow> u64 \<Rightarrow> u64 \<Rightarrow> nat" where
  "paged_position page pg num_heads head_dim t h d =
     ((page * unat pg + unat t mod unat pg) * unat num_heads + unat h) * unat head_dim + unat d"

text \<open>An element exists: the sequence, the head, the coordinate, and a page allocated for the token.\<close>

definition paged_within :: "u64 list \<Rightarrow> u32 \<Rightarrow> u64 \<Rightarrow> u64 \<Rightarrow> u64 \<Rightarrow> u64 \<Rightarrow> u64 \<Rightarrow> u64 \<Rightarrow> bool" where
  "paged_within seq_ptr pg num_heads head_dim s t h d \<longleftrightarrow>
     unat s + 1 < length seq_ptr \<and> h < num_heads \<and> d < head_dim \<and>
     unat t div unat pg < unat (seq_ptr ! (unat s + 1)) - unat (seq_ptr ! unat s)"

lemma pool_position:
  fixes page pg off nh h dm d np :: nat
  assumes "page < np" "off < pg" "h < nh" "d < dm"
  shows "((page * pg + off) * nh + h) * dm + d < np * pg * nh * dm"
proof -
  have "page * pg + off < (page + 1) * pg" using assms(2) by simp
  also have "\<dots> \<le> np * pg" using assms(1) by (intro mult_le_mono1) simp
  finally have "(page * pg + off + 1) * nh \<le> np * pg * nh" by (intro mult_le_mono1) simp
  then have "(page * pg + off) * nh + h + 1 \<le> np * pg * nh" using assms(3) by simp
  then have "((page * pg + off) * nh + h + 1) * dm \<le> np * pg * nh * dm" by (rule mult_le_mono1)
  then show ?thesis using assms(4) by simp
qed

lemma checked_of_nat:
  fixes y :: u64
  assumes "a < 2 ^ 64"
  shows "a * unat y < 2 ^ 64 \<Longrightarrow> checked_mul (word_of_nat a) y = Some (word_of_nat (a * unat y))"
    "a + unat y < 2 ^ 64 \<Longrightarrow> checked_add (word_of_nat a) y = Some (word_of_nat (a + unat y))"
  using assms by (simp_all add: checked_mul_def checked_add_def unat_of_nat)

lemma checked_add_fits:
  fixes x y :: u64
  shows "unat x + unat y < 2 ^ 64 \<Longrightarrow> checked_add x y = Some (x + y) \<and> unat (x + y) = unat x + unat y"
  by (simp add: checked_add_def unat_word_ariths)

lemma position_computed:
  fixes pg off nh h dm d phys :: u64
  assumes "h < nh" "d < dm" and "((unat phys * unat pg + unat off) * unat nh + unat h) * unat dm + unat d < 2 ^ 64"
  shows "r_bind (ok_or (checked_mul phys pg) AddressOverflow) (\<lambda>v.
    r_bind (ok_or (checked_add v off) AddressOverflow) (\<lambda>v.
    r_bind (ok_or (checked_mul v nh) AddressOverflow) (\<lambda>v.
    r_bind (ok_or (checked_add v h) AddressOverflow) (\<lambda>v.
    r_bind (ok_or (checked_mul v dm) AddressOverflow) (\<lambda>v.
    ok_or (checked_add v d) AddressOverflow))))) =
    Ok (word_of_nat (((unat phys * unat pg + unat off) * unat nh + unat h) * unat dm + unat d))"
proof -
  let ?a = "unat phys * unat pg" let ?b = "?a + unat off" let ?c = "?b * unat nh" let ?e = "?c + unat h" let ?f = "?e * unat dm"
  have pos: "0 < unat nh" "0 < unat dm" using assms(1,2) by (auto simp: word_less_nat_alt)
  have "?b * 1 \<le> ?c" "?e * 1 \<le> ?f" using pos by (intro mult_le_mono2; linarith)+
  then have le: "?a \<le> ?b" "?b \<le> ?c" "?c \<le> ?e" "?e \<le> ?f" by simp_all
  have f: "?f + unat d < 2 ^ 64" by (rule assms(3))
  then have lt: "?a < 2 ^ 64" "?b < 2 ^ 64" "?c < 2 ^ 64" "?e < 2 ^ 64" "?f < 2 ^ 64" using le by linarith+
  have "checked_mul phys pg = Some (word_of_nat ?a)" using lt(1) by (simp add: checked_mul_def)
  then show ?thesis
    using checked_of_nat(2) [OF lt(1) lt(2)] checked_of_nat(1) [OF lt(2) lt(3)] checked_of_nat(2) [OF lt(3) lt(4)]
      checked_of_nat(1) [OF lt(4) lt(5)] checked_of_nat(2) [OF lt(5) f]
    by (simp del: of_nat_add of_nat_mult)
qed

lemma paged_impl_eq:
  fixes sp bt :: "u64 list"
  assumes ok: "paged_ok np ns sp bt" and pg: "pg \<noteq> 0" and bt: "length bt < 2 ^ 63"
    and fits: "unat np * unat pg * unat nh * unat dm \<le> 2 ^ 64"
  shows "paged_within sp pg nh dm s t h d \<Longrightarrow>
      paged_offset_impl s t h d pg np nh dm sp bt =
        Ok (word_of_nat (paged_position (physical_page sp bt pg s t) pg nh dm t h d)) \<and>
      physical_page sp bt pg s t < unat np \<and>
      paged_position (physical_page sp bt pg s t) pg nh dm t h d < 2 ^ 64"
    "\<not> paged_within sp pg nh dm s t h d \<Longrightarrow> \<exists>e. paged_offset_impl s t h d pg np nh dm sp bt = Err e"
proof -
  have len: "length sp = unat ns + 1" and srt: "sorted sp" and lst: "last sp = word_of_nat (length bt)"
    and pages: "list_all (\<lambda>p. p < np) bt"
    using ok by (simp_all add: paged_ok_def)
  have "unat ns < 2 ^ 32" using unsigned_less [of ns, where 'a = nat] by simp
  moreover have "(2 :: nat) ^ 32 < 2 ^ 64" by simp
  ultimately have "length sp - 1 < 2 ^ 64" using len by linarith
  then have n: "unat (word_of_nat (length sp - 1) :: u64) = length sp - 1" unfolding unat_of_nat by simp
  have p: "unat (ucast pg :: u64) = unat pg" by (rule unat_ucast_u32_u64)
  have p0: "(ucast pg :: u64) \<noteq> 0" "0 < unat pg" using p pg by (metis unat_eq_zero, simp add: unat_gt_0)
  let ?a = "sp ! unat s" and ?b = "sp ! (unat s + 1)"
  let ?i = "unat t div unat pg" and ?o = "unat t mod unat pg"
  have pi: "unat (t div ucast pg) = ?i" "unat (t mod ucast pg) = ?o" by (simp_all add: unat_div unat_mod p)
  have ab: "unat ?a \<le> unat ?b" "unat ?b \<le> length bt" if "unat s + 1 < length sp"
  proof -
    have "?a \<le> ?b" "?b \<le> sp ! (length sp - 1)" using srt that by (auto intro: sorted_nth_mono)
    moreover have "sp ! (length sp - 1) = word_of_nat (length bt)" using lst len last_conv_nth [of sp] by (cases sp) simp_all
    moreover have "unat (word_of_nat (length bt) :: u64) = length bt" using bt by (simp add: unat_of_nat)
    ultimately show "unat ?a \<le> unat ?b" "unat ?b \<le> length bt" by (metis word_le_nat_alt)+
  qed
  have s: "\<not> word_of_nat (length sp - 1) \<le> s \<longleftrightarrow> unat s + 1 < length sp"
    using n by (simp add: word_le_nat_alt) linarith
  have sub: "checked_sub ?b ?a = Some (?b - ?a)" "unat (?b - ?a) = unat ?b - unat ?a" if "unat s + 1 < length sp"
    using ab(1) [OF that] by (simp_all add: checked_sub_def unat_sub_if')
  show "paged_offset_impl s t h d pg np nh dm sp bt =
        Ok (word_of_nat (paged_position (physical_page sp bt pg s t) pg nh dm t h d)) \<and>
      physical_page sp bt pg s t < unat np \<and> paged_position (physical_page sp bt pg s t) pg nh dm t h d < 2 ^ 64"
    if w: "paged_within sp pg nh dm s t h d"
  proof -
    have w: "unat s + 1 < length sp" "h < nh" "d < dm" "?i < unat ?b - unat ?a" using w by (simp_all add: paged_within_def)
    let ?idx = "unat ?a + ?i"
    have idx: "?idx < length bt" using ab [OF w(1)] w(4) by linarith
    then have "?idx < 2 ^ 64" using bt by simp
    then have add: "checked_add ?a (t div ucast pg) = Some (?a + t div ucast pg)" "unat (?a + t div ucast pg) = ?idx"
      using checked_add_fits [of ?a "t div ucast pg"] pi(1) by simp_all
    have phys: "bt ! ?idx < np" using pages idx by (simp add: list_all_length)
    have "((unat (bt ! ?idx) * unat pg + ?o) * unat nh + unat h) * unat dm + unat d < unat np * unat pg * unat nh * unat dm"
      using phys w p0 by (intro pool_position) (simp_all add: word_less_nat_alt)
    then have pos: "((unat (bt ! ?idx) * unat (ucast pg :: u64) + unat (t mod ucast pg)) * unat nh + unat h) * unat dm + unat d < 2 ^ 64"
      using fits p pi by simp
    have "\<not> unat ?b - unat ?a \<le> ?i" using w(4) by simp
    then have cnt: "\<not> ?b - ?a \<le> t div ucast pg" using sub(2) [OF w(1)] pi by (simp add: word_le_nat_alt)
    have "paged_offset_impl s t h d pg np nh dm sp bt =
        Ok (word_of_nat (((unat (bt ! ?idx) * unat (ucast pg :: u64) + unat (t mod ucast pg)) * unat nh + unat h) * unat dm + unat d))"
      using w(1-3) s sub(1) [OF w(1)] cnt add idx phys p0 position_computed [OF w(2,3) pos]
      by (simp add: paged_offset_impl_def Let_def plain_div_def plain_mod_def not_le del: of_nat_add of_nat_mult)
    then show ?thesis using pos phys p pi by (simp add: paged_position_def physical_page_def word_less_nat_alt)
  qed
  show "\<exists>e. paged_offset_impl s t h d pg np nh dm sp bt = Err e" if w: "\<not> paged_within sp pg nh dm s t h d"
  proof (cases "unat s + 1 < length sp \<and> h < nh \<and> d < dm")
    case True
    then have "unat ?b - unat ?a \<le> ?i" using w by (auto simp: paged_within_def)
    then have "?b - ?a \<le> t div ucast pg" using sub(2) True pi by (simp add: word_le_nat_alt)
    then show ?thesis
      using True s sub(1) p0 by (simp add: paged_offset_impl_def Let_def plain_div_def plain_mod_def not_le)
  next
    case False
    then show ?thesis using s by (auto simp: paged_offset_impl_def Let_def)
  qed
qed

lemma position_unique:
  fixes page pg off nh h dm d :: nat
  assumes "((page * pg + off) * nh + h) * dm + d = ((page' * pg + off') * nh + h') * dm + d'"
    and "off < pg" "off' < pg" "h < nh" "h' < nh" "d < dm" "d' < dm"
  shows "page = page' \<and> off = off' \<and> h = h' \<and> d = d'"
proof -
  have 1: "(page * pg + off) * nh + h = (page' * pg + off') * nh + h' \<and> d = d'"
    using assms(1,6,7) by (rule quot_rem_unique)
  then have 2: "page * pg + off = page' * pg + off' \<and> h = h'" using assms(4,5) by (blast dest: quot_rem_unique)
  then have "page = page' \<and> off = off'" using assms(2,3) by (blast dest: quot_rem_unique)
  then show ?thesis using 1 2 by blast
qed

text \<open>
  The validation of the page table never panics and accepts exactly the tables whose sequence pointers start at
  0, do not decrease and end at the length of a block table of existing pages; in either width.
\<close>

theorem paged_validation_exact:
  "paged_validate_u64 np ns sp bt \<noteq> Panic \<and> (paged_validate_u64 np ns sp bt = Ok () \<longleftrightarrow> paged_ok np ns sp bt) \<and>
   paged_validate_u32 np ns sp' bt' = paged_validate_u64 np ns (map ucast sp') (map ucast bt')"
  using paged_validate_impl_spec [of np ns sp bt] by (simp add: paged_validate_u64_def paged_validate_u32_def)

text \<open>
  C25. After the validation the paged lookup is exact: an element that exists is at the position of its slot, inside a
  page of the pool, everything else is an error, and two elements share an offset exactly when their physical
  page, the place in the page, head and coordinate are the same, so that only shared pages shared.
\<close>

theorem paged_lookup_exact:
  assumes "paged_validate_u64 np ns sp bt = Ok ()" "pg \<noteq> 0" "length bt < 2 ^ 63"
    and fits: "unat np * unat pg * unat nh * unat dm \<le> 2 ^ 64"
  shows "(paged_within sp pg nh dm s t h d \<longrightarrow>
       paged_offset_u64 s t h d pg np nh dm bt sp =
         Ok (word_of_nat (paged_position (physical_page sp bt pg s t) pg nh dm t h d)) \<and>
       physical_page sp bt pg s t < unat np) \<and>
    (\<not> paged_within sp pg nh dm s t h d \<longrightarrow> (\<exists>e. paged_offset_u64 s t h d pg np nh dm bt sp = Err e)) \<and>
    (paged_within sp pg nh dm s t h d \<longrightarrow> paged_within sp pg nh dm s' t' h' d' \<longrightarrow>
       (paged_offset_u64 s t h d pg np nh dm bt sp = paged_offset_u64 s' t' h' d' pg np nh dm bt sp \<longleftrightarrow>
        physical_page sp bt pg s t = physical_page sp bt pg s' t' \<and> unat t mod unat pg = unat t' mod unat pg \<and>
        h = h' \<and> d = d'))"
proof -
  have ok: "paged_ok np ns sp bt" using assms(1) paged_validate_impl_spec by (simp add: paged_validate_u64_def)
  note e = paged_impl_eq [OF ok assms(2,3) fits]
  have shared: "paged_offset_u64 s t h d pg np nh dm bt sp = paged_offset_u64 s' t' h' d' pg np nh dm bt sp \<longleftrightarrow>
        physical_page sp bt pg s t = physical_page sp bt pg s' t' \<and> unat t mod unat pg = unat t' mod unat pg \<and>
        h = h' \<and> d = d'"
    if w: "paged_within sp pg nh dm s t h d" "paged_within sp pg nh dm s' t' h' d'"
  proof -
    have p: "0 < unat pg" using assms(2) by (simp add: unat_gt_0)
    let ?x = "paged_position (physical_page sp bt pg s t) pg nh dm t h d"
    let ?y = "paged_position (physical_page sp bt pg s' t') pg nh dm t' h' d'"
    have "?x < 2 ^ 64" "?y < 2 ^ 64" using e(1) [OF w(1)] e(1) [OF w(2)] by blast+
    then have "unat (word_of_nat ?x :: u64) = ?x" "unat (word_of_nat ?y :: u64) = ?y" by (simp_all add: unat_of_nat)
    then have "(word_of_nat ?x :: u64) = word_of_nat ?y \<longleftrightarrow> ?x = ?y" by metis
    moreover have "?x = ?y \<longleftrightarrow> physical_page sp bt pg s t = physical_page sp bt pg s' t' \<and>
        unat t mod unat pg = unat t' mod unat pg \<and> unat h = unat h' \<and> unat d = unat d'"
      using w p position_unique unfolding paged_position_def paged_within_def
      by (metis (no_types, lifting) mod_less_divisor word_less_nat_alt)
    ultimately show ?thesis using e(1) [OF w(1)] e(1) [OF w(2)] by (simp add: paged_offset_u64_def word_unat_eq_iff)
  qed
  show ?thesis using e(1,2) [of s t h d] shared by (simp add: paged_offset_u64_def)
qed

theorem paged_lookup_exact_witness:
  "paged_offset_u64 0 4 0 0 4 5 2 8 [0, 1, 0] [0, 2, 3] = Ok 64 \<and>
   (\<exists>e. paged_offset_u64 1 4 0 0 4 5 2 8 [0, 1, 0] [0, 2, 3] = Err e)"
proof -
  have v: "paged_validate_u64 5 2 [0, 2, 3] [0, 1, 0] = Ok ()" by (simp add: paged_validate_u64_def paged_validate_impl_def) (simp add: word_le_nat_alt)
  have f: "unat (5 :: u64) * unat (4 :: u32) * unat (2 :: u64) * unat (8 :: u64) \<le> 2 ^ 64" by simp
  have p: "(4 :: u32) \<noteq> 0" "length [0, 1, 0 :: u64] < 2 ^ 63" by simp_all
  have "paged_within [0, 2, 3] 4 2 8 0 4 0 0" "\<not> paged_within [0, 2, 3] 4 2 8 1 4 0 0" by (simp_all add: paged_within_def)
  then show ?thesis
    using paged_lookup_exact [OF v p f, of 0 4 0 0] paged_lookup_exact [OF v p f, of 1 4 0 0]
    by (simp add: paged_position_def physical_page_def)
qed

lemma index_at_map: "index_at (map f xs) i = r_bind (index_at xs i) (\<lambda>x. Ok (f x))"
  by (simp add: index_at_def)

text \<open>The two widths compute the same offsets.\<close>

lemma paged_widths_agree:
  "paged_offset_u32 s t h d pg np nh dm bt sp = paged_offset_u64 s t h d pg np nh dm (map ucast bt) (map ucast sp)"
  by (simp only: paged_offset_u32_def paged_offset_u64_def paged_offset_impl_def r_bind_assoc index_at_map Let_def
      r_bind.simps length_map ucast_id)

text \<open>A page size of 0, which the layout check of the descriptor excludes, panics.\<close>

lemma page_size_zero_panics:
  assumes "length sp = 2" "sp ! 0 \<le> sp ! 1" "h < nh" "d < dm"
  shows "paged_offset_u64 0 t h d 0 np nh dm bt sp = Panic"
  using assms by (simp add: paged_offset_u64_def paged_offset_impl_def Let_def checked_sub_def word_le_nat_alt
      word_less_nat_alt plain_div_def not_le)

end
