(* ===== verification/Spec2Isabelle.thy ===== *)
theory Spec2Isabelle
  imports Descriptor Tiling Hilbert_Curve Composites Statistics_Mask Stream_Writer Stream_Tensors File_Edges File_Writer
    File_Reader Csf_Lookup Paged_Lookup
begin

text \<open>
  A verification development for hurray, an interchange format for tensors in Rust. It models the two crates that carry the
  format: \<open>src/hurray-core\<close>, the data model and its wire form, and \<open>src/hurray-io\<close>, the stream and file
  transports with their tokio drivers. Each definition names in its theory the file that it models, and keeps the
  name of the source where that is possible; record fields have a short prefix where two structs share a
  field name.

  \<^bold>\<open>The program.\<close> A tensor descriptor holds a shape, an element type, a layout, buffer handles and optional sections
  (quantization, shard, statistics, extension type, composite member). It is validated when it is built, encoded to a
  length-prefixed byte string and decoded from untrusted bytes. Addressing maps an index to a position in
  the buffers. A composite is a head descriptor followed by members, checked one by one by a validator. The
  transports are state machines without input or output of their own (sans-io): a stream is a sequence of
  descriptors each with its buffers, a file is a header, aligned tensors, an optional key-value section, an
  index and a trailer. The drivers move bytes between these machines and a sink or a source.

  \<^bold>\<open>Vocabulary.\<close>
  \<^item> \<open>Prelude\<close>: machine integers as words, \<open>usize\<close> as \<open>nat\<close>, the outcome of a call as \<open>Ok\<close>, \<open>Err\<close> or \<open>Panic\<close> with its
    bind, checked, saturating and plain arithmetic, little-endian byte strings. Plain \<open>+\<close> and \<open>*\<close> of Rust panic on
    overflow, as in a build with overflow checks.
  \<^item> \<open>Errors\<close>, \<open>Io_Errors\<close>: the two error enums with their payloads. Texts inside an error are labels, and not the
    formatted message.
  \<^item> \<open>Slices\<close>, \<open>Cursor\<close>: fixed-offset slices, the bounded cursor and the writer. The locales \<open>wire_codec\<close> and \<open>wire_format\<close>
    state what an encoder and its decoder owe each other: the round trip with any bytes behind, and that what is accepted
    is an encoding. They are interpreted on the layout payload, on the quantization descriptor and on every optional
    section.

  \<^bold>\<open>Descriptors.\<close>
  \<^item> \<open>Shapes\<close>, \<open>ElementTypes\<close>, \<open>Buffers\<close>, \<open>Layouts\<close>, \<open>Quantization\<close>, \<open>Sections\<close>, \<open>Statistics_Mask\<close>: the parts with their
    constructors and checks. \<open>buffer_size_bytes_exact\<close> gives the size of a packed buffer wherever it fits in 64 bits.
  \<^item> \<open>Layout_Codec\<close>, \<open>Quantization\<close>, \<open>Sections\<close>: the wire forms. The decoder of nested tilings recurses on the remaining
    depth, which its limit bounds.
  \<^item> \<open>Descriptor\<close>: \<open>TensorDescriptor::new\<close> with its cross-field invariant \<open>descriptor_ok\<close>, \<open>encode\<close> and \<open>decode\<close>. Decoding inverts
    encoding, never panics on any bytes, accepts only valid descriptors, and what it accepts can be encoded
    again.

  \<^bold>\<open>Addressing.\<close>
  \<^item> \<open>Addressing\<close> (row- and column-major order, byte addresses), \<open>Tiling\<close> (strided, tiled), \<open>Morton_Curve\<close>, \<open>Hilbert_Curve\<close>: the
    trait \<open>ElementAddress\<close> is the locale \<open>element_address\<close>, its laws that valid indices get different positions
    within a bound; \<open>dense_address\<close> adds that they get all of them. All but strided layouts, whose strides may alias,
    are interpretations.
  \<^item> \<open>Sparse_Lookup\<close> (COO, CSR, CSC), \<open>Csf_Lookup\<close>, \<open>Paged_Lookup\<close>: lookups in index buffers. The locale \<open>sparse_index\<close> says that a lookup
    finds exactly the stored elements. The binary search of the standard library is the loop it runs, on any
    input, sorted or not.

  \<^bold>\<open>Composites.\<close> \<open>Composites\<close>: the incremental validator as a state machine with a reachable invariant, and the coverage
  check of a partition, which accepts exactly the disjoint covers as long as the element count fits.

  \<^bold>\<open>The stream.\<close>
  \<^item> \<open>Stream_Read\<close>, \<open>Stream_Delivery\<close>: the reader core, its result on every chunking of a valid tensor, its invariant on
    arbitrary bytes and calls. The allocator of destinations is a parameter whose contract is the locale
    \<open>destinations\<close>, interpreted on \<open>SystemDestinations\<close>.
  \<^item> \<open>Stream_Write\<close>, \<open>Stream_Output\<close>: the writer core. The locale \<open>byte_queue\<close> is the contract of a machine that offers bytes piece
    by piece and refines a queue; it is interpreted on the operations of the stream writer and, in
    \<open>File_Write\<close>, on those of the file writer.
  \<^item> \<open>Stream_Items\<close>: the assembler of composites, and the way of an item from the writer to the reader.
  \<^item> \<open>Sink_Driver\<close>, \<open>Source_Driver\<close>, \<open>Stream_Writer\<close>, \<open>Stream_Reader\<close>, \<open>Stream_Tensors\<close>: the tokio drivers. The loop \<open>drain\<close> is proved once over
    \<open>byte_queue\<close>. A session is a list of calls, each with the events of its transport.

  \<^bold>\<open>The file.\<close>
  \<^item> \<open>File_Sections\<close>: index and key-value sections. \<open>File_Write\<close>, \<open>File_Flatten\<close>: the writer core and the write order of a tree.
    \<open>File_Contents\<close>, \<open>File_Progress\<close>, \<open>File_Sealed\<close>: what the bytes on the sink are after any history of operations, that
    valid operations are accepted, and what a finished file is.
  \<^item> \<open>File_Read\<close>, \<open>File_Safety\<close>: the reader core and its invariant on arbitrary files and calls. \<open>File_Delivery\<close>, \<open>File_Tensors\<close>,
    \<open>File_Walk\<close>, \<open>File_Roundtrip\<close>: a finished file opens, and gives back each tensor and each composite. \<open>File_Edges\<close>: two
    edges that behave otherwise than intended.
  \<^item> \<open>File_Writer\<close>, \<open>File_Reader\<close>: the tokio drivers, with sessions as for the stream.

  \<^bold>\<open>Termination and bounds.\<close> No definition has fuel. Loops that are not structural are recursive functions with a measure: the
  step loops of the four cores by what is left of their phases, stacks and buffers, the driver loops by the
  events that are left, the stack machine of \<open>flatten_composite\<close> by the weight of the open levels. A
  suspended transport is the end of its list of events, so a call that waits for ever is the value
  \<open>Suspended\<close>; the liveness theorems say how many events are enough.

  \<^bold>\<open>Parameters.\<close> The checksum of the crate \<open>crc32c\<close> is a function \<open>crc\<close> that nothing is assumed of: the writer stores and the reader
  compares its value. The allocator of destinations has the documented contract of its trait. A sink takes
  some front of the slice it is given, is interrupted, or fails without taking anything; a source gives
  at least one byte while it has any and wants one; a seek moves to its offset or fails. Nothing else is assumed.

  \<^bold>\<open>Conventions.\<close> Names and keys are byte strings with the validity of UTF-8 as a predicate. Floats are their bit patterns, which is all
  that the code does with them besides the checks that are modelled on the pattern. The unstable sorts of the
  code are stable sorts here; the keys they sort by are distinct in every property that depends on the order.
  An operation that borrows its core holds a copy, and the core is what the operation holds when it is
  dropped.

  \<^bold>\<open>Not modelled.\<close> The texts of \<open>Display\<close> and \<open>Debug\<close> and serde derives; the table of float constants of NF4; the flush at
  the end of a writer and \<open>into_inner\<close>, which hand the transport back; the unsafe allocation of \<open>aligned.rs\<close>, whose
  contract is zeroed bytes of the requested length, and the failure of allocation, which aborts the process. The
  crates \<open>hurray-ffi\<close> and \<open>hurray-python\<close> are glue over raw pointers and the Python runtime, \<open>hurray-inspect\<close> prints what the
  reader returns, and tests, examples and benchmarks call what is modelled here.

  \<^bold>\<open>Where the code does something else than it means to\<close>, a theorem of its theory shows it: tilings that do not divide
  (\<open>tiled_nested_collision\<close>), a Hilbert rank above the index rank, extension types of no width in byte addresses,
  missing CSF levels, a page size of zero, the coverage check beyond 64 bits, a group without members, an index
  entry near the end of the address space, an unknown name asked while a reply is pending, and a composite
  write that is dropped between its members (\<open>cancelled_composite_sealed\<close>). Where only a document says otherwise:
  the size of a buffer beyond 64 bits (\<open>buffer_size_bytes_overflow\<close>), a quantization scheme of version 0
  (\<open>quantization_version_zero_accepted\<close>), a sentinel index without the SYMMETRIC flag (\<open>per_block_sentinel_accepted\<close>), and
  a report to a stream reader that asks for nothing (\<open>report_outside_item_keeps_core\<close>).
\<close>

end
